(* ===== verification/Prelude.thy ===== *)
theory Prelude
  imports Main "HOL-Library.Word" "HOL-Library.Monad_Syntax"
begin

text \<open>
  Shared vocabulary of the NightOS development: the machine integers of the C sources as
  words, the conversions the compiler inserts between them, null-terminated byte strings,
  and the generic lemmas on words and lists that several components use.

  Conventions. A C \<^verbatim>\<open>uintN_t\<close> is an \<open>N word\<close>; \<^verbatim>\<open>size_t\<close>, \<^verbatim>\<open>unsigned long\<close> and every
  pointer is a \<open>64 word\<close>. A C \<^verbatim>\<open>int\<close> or \<^verbatim>\<open>long\<close> that is only compared and
  returned is an \<^typ>\<open>int\<close>, and every implicit narrowing to it is written out with the functions
  below. A \<^verbatim>\<open>char\<close> buffer is a list of bytes. An operation that would dereference
  \<^verbatim>\<open>NULL\<close>, an unmapped cell or a position outside its buffer yields \<open>None\<close>.
\<close>

unbundle bit_operations_syntax

type_synonym u8 = "8 word"
type_synonym u16 = "16 word"
type_synonym u32 = "32 word"
type_synonym u64 = "64 word"
type_synonym ptr = "64 word"
type_synonym bytes = "8 word list"

abbreviation NULL :: ptr where
  "NULL \<equiv> 0"

named_theorems repr_simps \<open>rewriting with representation predicates\<close>
named_theorems op_defs \<open>definitions of the modelled operations\<close>

section \<open>Conversions between C integer types\<close>

definition to_int :: "'a::len word \<Rightarrow> int" where
  \<comment> \<open>assignment of an unsigned value to an \<^verbatim>\<open>int\<close>: keep 32 bits, read them as two's complement\<close>
  "to_int w = sint (ucast w :: 32 word)"

definition wrap_int :: "int \<Rightarrow> int" where
  \<comment> \<open>assignment of a wider signed value to an \<^verbatim>\<open>int\<close>\<close>
  "wrap_int i = sint (word_of_int i :: 32 word)"

definition to_size :: "int \<Rightarrow> u64" where
  \<comment> \<open>conversion of a signed value to \<^verbatim>\<open>size_t\<close> or a pointer: sign extension\<close>
  "to_size i = word_of_int i"

definition schar :: "u8 \<Rightarrow> int" where
  \<comment> \<open>a \<^verbatim>\<open>char\<close> promoted to \<^verbatim>\<open>int\<close>; \<^verbatim>\<open>char\<close> is signed on amd64\<close>
  "schar b = sint b"

definition cstr :: "string \<Rightarrow> bytes" where
  \<comment> \<open>the bytes of a string literal, without its terminator\<close>
  "cstr s = map (\<lambda>c. of_nat (of_char c)) s"

lemma to_int_small:
  fixes w :: "'a::len word"
  assumes "unat w < 2 ^ 31"
  shows "to_int w = int (unat w)"
proof -
  have lt: "uint w < 2 ^ 31" using assms of_nat_less_iff [of "unat w" "2 ^ 31", where ?'a = int]
    by (simp only: uint_nat of_nat_power of_nat_numeral)
  have ge: "- (2 ^ 31) \<le> uint w" by (rule order_trans [of _ 0]) simp_all
  have "signed_take_bit 31 (uint w) = uint w"
    using lt ge by (intro signed_take_bit_int_eq_self) simp_all
  then show ?thesis by (simp add: to_int_def signed_ucast_eq)
qed

lemma wrap_int_small: "- (2 ^ 31) \<le> i \<Longrightarrow> i < 2 ^ 31 \<Longrightarrow> wrap_int i = i"
  by (simp add: wrap_int_def signed_of_int signed_take_bit_int_eq_self_iff)

lemma to_size_of_nat [simp]: "to_size (int n) = of_nat n"
  by (simp add: to_size_def)

section \<open>Words\<close>

lemma unat_of_nat_u64:
  assumes "n < 2 ^ 64"
  shows "unat (of_nat n :: u64) = n"
  using assms by (simp add: unat_of_nat take_bit_nat_eq_self)

lemma of_nat_u64_eq_0_iff: "n < 2 ^ 64 \<Longrightarrow> (of_nat n :: u64) = 0 \<longleftrightarrow> n = 0"
  using unat_of_nat_u64 [of n] by (auto simp: unat_eq_0)

lemma of_nat_u64_eq_iff:
  "m < 2 ^ 64 \<Longrightarrow> n < 2 ^ 64 \<Longrightarrow> (of_nat m :: u64) = of_nat n \<longleftrightarrow> m = n"
  by (metis unat_of_nat_u64)

lemma unat_Suc_u64:
  assumes "a < (b :: u64)"
  shows "unat (a + 1) = Suc (unat a)"
proof -
  have "unat a < unat b" using assms by (simp add: word_less_nat_alt)
  moreover have "unat b < 2 ^ 64" using unsigned_less [of b] by simp
  ultimately show ?thesis by (simp add: unat_word_ariths)
qed

section \<open>Lists\<close>

definition hd_or :: "'a \<Rightarrow> 'a list \<Rightarrow> 'a" where
  "hd_or d xs = (case xs of [] \<Rightarrow> d | x # _ \<Rightarrow> x)"

definition last_or :: "'a \<Rightarrow> 'a list \<Rightarrow> 'a" where
  "last_or d xs = (if xs = [] then d else last xs)"

lemma hd_or_simps [simp]:
  "hd_or d [] = d" "hd_or d (x # xs) = x"
  by (simp_all add: hd_or_def)

lemma hd_or_append [simp]: "hd_or d (xs @ ys) = hd_or (hd_or d ys) xs"
  by (cases xs) auto

lemma last_or_simps [simp]:
  "last_or d [] = d" "last_or d (xs @ [x]) = x" "last_or d (x # xs) = last_or x xs"
  by (simp_all add: last_or_def)

lemma last_or_append [simp]: "last_or d (xs @ ys) = last_or (last_or d xs) ys"
  by (simp add: last_or_def)

lemma last_or_in: "xs \<noteq> [] \<Longrightarrow> last_or d xs \<in> set xs"
  by (simp add: last_or_def)

lemma hd_or_in: "xs \<noteq> [] \<Longrightarrow> hd_or d xs \<in> set xs"
  by (cases xs) auto

section \<open>Loops\<close>

fun foldM :: "('a \<Rightarrow> 's \<Rightarrow> 's option) \<Rightarrow> 'a list \<Rightarrow> 's \<Rightarrow> 's option" where
  \<comment> \<open>a \<^verbatim>\<open>for\<close> loop over the listed values of its counter, each round of which may fail\<close>
  "foldM f [] s = Some s"
| "foldM f (x # xs) s = do { s1 \<leftarrow> f x s; foldM f xs s1 }"

lemma foldM_append: "foldM f (xs @ ys) s = do { s1 \<leftarrow> foldM f xs s; foldM f ys s1 }"
proof (induction xs arbitrary: s)
  case (Cons x xs)
  then show ?case by (cases "f x s") auto
qed simp

lemma foldM_invariant:
  assumes "foldM f xs s = Some s'" "I s" "\<And>x s s'. x \<in> set xs \<Longrightarrow> I s \<Longrightarrow> f x s = Some s' \<Longrightarrow> I s'"
  shows "I s'"
  using assms
proof (induction xs arbitrary: s)
  case (Cons x xs)
  then obtain s1 where s1: "f x s = Some s1" "foldM f xs s1 = Some s'" by (auto split: bind_splits)
  have "I s1" using Cons.prems(3) [of x s s1] Cons.prems(2) s1(1) by simp
  then show ?case using Cons.IH [OF s1(2)] Cons.prems(3) by auto
qed simp

datatype ('r, 's) flow = Stop 'r | Go 's

fun for_flow :: "('i \<Rightarrow> 's \<Rightarrow> ('r, 's) flow) \<Rightarrow> 'i list \<Rightarrow> 's \<Rightarrow> ('r, 's) flow" where
  \<comment> \<open>a \<^verbatim>\<open>for\<close> loop with an early \<^verbatim>\<open>return\<close> in its body\<close>
  "for_flow f [] s = Go s"
| "for_flow f (i # is) s = (case f i s of Stop r \<Rightarrow> Stop r | Go s1 \<Rightarrow> for_flow f is s1)"

end
