(* ===== verification/Interfaces.thy ===== *)
theory Interfaces
  imports Prelude
begin

text \<open>
  The contracts between the components of the kernel, as locales: the operations a client
  calls, the laws the provider promises, and the client facts that follow from the laws
  alone. Each provider theory interprets its locale on its own definitions.
\<close>

section \<open>First-in first-out queues (\<^verbatim>\<open>list.c\<close> as used by the scheduler and the wait queues)\<close>

locale fifo_queue =
  fixes invar :: "'q \<Rightarrow> bool"
    and elems :: "'q \<Rightarrow> 'a list"
    and fresh :: "'q \<Rightarrow> 'p \<Rightarrow> bool"
    and enq :: "'q \<Rightarrow> 'p \<Rightarrow> 'a \<Rightarrow> 'q option"
    and deq :: "'q \<Rightarrow> 'q option"
  assumes enq_law: "invar q \<Longrightarrow> fresh q p \<Longrightarrow>
      \<exists>q'. enq q p x = Some q' \<and> invar q' \<and> elems q' = elems q @ [x]"
    and deq_law: "invar q \<Longrightarrow> elems q = x # xs \<Longrightarrow>
      \<exists>q'. deq q = Some q' \<and> invar q' \<and> elems q' = xs"
begin

lemma round_robin:
  assumes "invar q" "elems q = x # xs" "\<And>q1. deq q = Some q1 \<Longrightarrow> fresh q1 p"
  shows "\<exists>q1 q2. deq q = Some q1 \<and> enq q1 p x = Some q2 \<and> invar q2 \<and> elems q2 = xs @ [x]"
proof -
  from deq_law [OF assms(1,2)] obtain q1 where
    q1: "deq q = Some q1" "invar q1" "elems q1 = xs" by blast
  from enq_law [OF q1(2) assms(3) [OF q1(1)], of x] q1 show ?thesis by auto
qed

lemma enq_then_deq:
  assumes "invar q" "fresh q p" "elems q = y # ys"
  shows "\<exists>q1 q2. enq q p x = Some q1 \<and> deq q1 = Some q2 \<and> elems q2 = ys @ [x]"
proof -
  from enq_law [OF assms(1,2), of x] obtain q1 where
    q1: "enq q p x = Some q1" "invar q1" "elems q1 = y # ys @ [x]" using assms(3) by auto
  from deq_law [OF q1(2,3)] q1(1) show ?thesis by auto
qed

end

section \<open>Byte channels (\<^verbatim>\<open>ring_buffer.c\<close> as used by the pseudo terminals)\<close>

locale byte_channel =
  fixes invar :: "'c \<Rightarrow> bool"
    and contents :: "'c \<Rightarrow> 'b list"
    and capacity :: "'c \<Rightarrow> nat"
    and put :: "'c \<Rightarrow> 'b list \<Rightarrow> 'c option"
    and get :: "'c \<Rightarrow> nat \<Rightarrow> ('b list \<times> 'c) option"
  assumes put_law: "invar c \<Longrightarrow> length (contents c) + length xs \<le> capacity c \<Longrightarrow>
      \<exists>c'. put c xs = Some c' \<and> invar c' \<and> contents c' = contents c @ xs \<and> capacity c' = capacity c"
    and get_law: "invar c \<Longrightarrow> \<exists>c'. get c n = Some (take n (contents c), c') \<and> invar c' \<and>
      contents c' = drop n (contents c) \<and> capacity c' = capacity c"
begin

lemma put_then_get:
  assumes "invar c" "contents c = []" "length xs \<le> capacity c"
  shows "\<exists>c1 c2. put c xs = Some c1 \<and> get c1 (length xs) = Some (xs, c2) \<and> contents c2 = [] \<and> invar c2"
proof -
  obtain c1 where c1: "put c xs = Some c1" "invar c1" "contents c1 = xs"
    using put_law [of c xs] assms by auto
  with get_law [OF c1(2), of "length xs"] show ?thesis by auto
qed

lemma put_put_get:
  assumes "invar c" "length (contents c) + length xs + length ys \<le> capacity c"
  shows "\<exists>c1 c2 c3. put c xs = Some c1 \<and> put c1 ys = Some c2 \<and>
    get c2 n = Some (take n (contents c @ xs @ ys), c3) \<and> contents c3 = drop n (contents c @ xs @ ys)"
proof -
  obtain c1 where c1: "put c xs = Some c1" "invar c1" "contents c1 = contents c @ xs" "capacity c1 = capacity c"
    using put_law [of c xs] assms by auto
  obtain c2 where c2: "put c1 ys = Some c2" "invar c2" "contents c2 = contents c @ xs @ ys"
    using put_law [OF c1(2), of ys] assms c1 by auto
  with c1 get_law [OF c2(2), of n] show ?thesis by auto
qed

end

section \<open>Keyed maps (\<^verbatim>\<open>hashtable.c\<close> as used by the symbol table and the module registry)\<close>

locale keyed_map =
  fixes invar :: "'m \<Rightarrow> bool"
    and valid_key :: "'k \<Rightarrow> bool"
    and lookup :: "'m \<Rightarrow> 'k \<Rightarrow> 'v option"
    and update :: "'m \<Rightarrow> 'k \<Rightarrow> 'v \<Rightarrow> 'm option"
    and delete :: "'m \<Rightarrow> 'k \<Rightarrow> 'm option"
  assumes update_law: "invar m \<Longrightarrow> valid_key k \<Longrightarrow>
      \<exists>m'. update m k v = Some m' \<and> invar m' \<and>
        (\<forall>k'. valid_key k' \<longrightarrow> lookup m' k' = (if k' = k then Some v else lookup m k'))"
    and delete_law: "invar m \<Longrightarrow> valid_key k \<Longrightarrow>
      \<exists>m'. delete m k = Some m' \<and> invar m' \<and>
        (\<forall>k'. valid_key k' \<longrightarrow> lookup m' k' = (if k' = k then None else lookup m k'))"
begin

lemma last_update_wins:
  assumes "invar m" "valid_key k"
  shows "\<exists>m1 m2. update m k v = Some m1 \<and> update m1 k w = Some m2 \<and> lookup m2 k = Some w"
proof -
  obtain m1 where "update m k v = Some m1" "invar m1" using update_law [OF assms] by blast
  with update_law [OF this(2) assms(2), of w] assms(2) show ?thesis by auto
qed

lemma update_delete:
  assumes "invar m" "valid_key k"
  shows "\<exists>m1 m2. update m k v = Some m1 \<and> delete m1 k = Some m2 \<and> lookup m2 k = None \<and>
    (\<forall>k'. valid_key k' \<and> k' \<noteq> k \<longrightarrow> lookup m2 k' = lookup m k')"
proof -
  obtain m1 where m1: "update m k v = Some m1" "invar m1"
    "\<forall>k'. valid_key k' \<longrightarrow> lookup m1 k' = (if k' = k then Some v else lookup m k')"
    using update_law [OF assms] by blast
  with delete_law [OF m1(2) assms(2)] assms(2) show ?thesis by auto
qed

end

section \<open>Frame allocators (\<^verbatim>\<open>memmgr.c\<close> as used by the page tables)\<close>

locale frame_allocator =
  fixes used :: "'s \<Rightarrow> 'f set"
    and alloc :: "'s \<Rightarrow> ('f \<times> 's) option"
    and release :: "'s \<Rightarrow> 'f \<Rightarrow> 's option"
  assumes alloc_law: "alloc s = Some (f, s') \<Longrightarrow> f \<notin> used s \<and> used s' = insert f (used s)"
    and release_law: "release s f = Some s' \<Longrightarrow> used s' = used s - {f}"
begin

fun alloc_many :: "nat \<Rightarrow> 's \<Rightarrow> ('f list \<times> 's) option" where
  "alloc_many 0 s = Some ([], s)"
| "alloc_many (Suc n) s =
     (case alloc s of None \<Rightarrow> None
      | Some (f, s1) \<Rightarrow> (case alloc_many n s1 of None \<Rightarrow> None | Some (fs, s2) \<Rightarrow> Some (f # fs, s2)))"

lemma alloc_many_distinct:
  "alloc_many n s = Some (fs, s') \<Longrightarrow>
   length fs = n \<and> distinct fs \<and> set fs \<inter> used s = {} \<and> used s' = used s \<union> set fs"
proof (induction n arbitrary: s fs)
  case (Suc n)
  then obtain f s1 gs where a: "alloc s = Some (f, s1)" "alloc_many n s1 = Some (gs, s')" "fs = f # gs"
    by (auto split: option.splits)
  from alloc_law [OF a(1)] Suc.IH [OF a(2)] show ?case by (auto simp: a(3))
qed simp

lemma alloc_release_alloc:
  "alloc s = Some (f, s1) \<Longrightarrow> release s1 f = Some s2 \<Longrightarrow> used s2 = used s"
  using alloc_law [of s f s1] release_law [of s1 f s2] by auto

end

end
