(* ===== verification/Linked_List.thy ===== *)
theory Linked_List
  imports Prelude Interfaces
begin

text \<open>
  The doubly linked list of \<^verbatim>\<open>libc/kernel/list.c\<close>, on an explicit store of list entries.
  An allocating operation takes the address its \<^verbatim>\<open>kcalloc\<close> or \<^verbatim>\<open>calloc\<close> returned as an
  argument. \<^verbatim>\<open>kfree\<close> in \<^verbatim>\<open>kernel/arch/amd64/alloc.c\<close> only clears a bitmap bit and leaves the
  object's bytes in place, so a freed cell stays readable until it is handed out again.
\<close>

section \<open>Entries, lists and the store\<close>

record list_entry =
  le_prev :: ptr
  le_next :: ptr
  le_value :: ptr

record list_t =
  l_head :: ptr
  l_tail :: ptr
  l_length :: u64

type_synonym lheap = "ptr \<rightharpoonup> list_entry"

definition rd :: "lheap \<Rightarrow> ptr \<Rightarrow> list_entry option" where
  "rd h p = (if p = NULL then None else h p)"

definition set_next :: "lheap \<Rightarrow> ptr \<Rightarrow> ptr \<Rightarrow> lheap option" where
  "set_next h p q = do { e \<leftarrow> rd h p; Some (h(p \<mapsto> e\<lparr>le_next := q\<rparr>)) }"

definition set_prev :: "lheap \<Rightarrow> ptr \<Rightarrow> ptr \<Rightarrow> lheap option" where
  "set_prev h p q = do { e \<leftarrow> rd h p; Some (h(p \<mapsto> e\<lparr>le_prev := q\<rparr>)) }"

definition new_entry :: "lheap \<Rightarrow> ptr \<Rightarrow> ptr \<Rightarrow> lheap option" where
  \<comment> \<open>\<^verbatim>\<open>kcalloc(1, sizeof(list_entry_t))\<close> returned \<open>p\<close>, then \<^verbatim>\<open>entry->value = item\<close>\<close>
  "new_entry h p item =
     (if p = NULL then None
      else Some (h(p \<mapsto> \<lparr>le_prev = NULL, le_next = NULL, le_value = item\<rparr>)))"

section \<open>Operations\<close>

definition list_create :: list_t where
  "list_create = \<lparr>l_head = NULL, l_tail = NULL, l_length = 0\<rparr>"

definition list_append :: "lheap \<Rightarrow> list_t \<Rightarrow> ptr \<Rightarrow> (lheap \<times> list_t) option" where
  "list_append h l entry =
     (if l_length l = 0 then Some (h, l\<lparr>l_head := entry, l_tail := entry, l_length := 1\<rparr>)
      else do {
        h1 \<leftarrow> set_next h (l_tail l) entry;
        h2 \<leftarrow> set_prev h1 entry (l_tail l);
        Some (h2, l\<lparr>l_tail := entry, l_length := l_length l + 1\<rparr>)
      })"

definition list_insert :: "lheap \<Rightarrow> list_t \<Rightarrow> ptr \<Rightarrow> ptr \<Rightarrow> (lheap \<times> list_t) option" where
  "list_insert h l p item = do { h1 \<leftarrow> new_entry h p item; list_append h1 l p }"

partial_function (option) find_from :: "lheap \<Rightarrow> ptr \<Rightarrow> ptr \<Rightarrow> ptr option" where
  "find_from h entry item =
     (if entry = NULL then Some NULL
      else do {
        e \<leftarrow> rd h entry;
        if le_value e = item then Some entry else find_from h (le_next e) item
      })"

definition list_find :: "lheap \<Rightarrow> list_t \<Rightarrow> ptr \<Rightarrow> ptr option" where
  "list_find h l item = (if l_length l = 0 then Some NULL else find_from h (l_head l) item)"

definition list_delete :: "lheap \<Rightarrow> list_t \<Rightarrow> ptr \<Rightarrow> (lheap \<times> list_t) option" where
  "list_delete h l entry = do {
     e \<leftarrow> rd h entry;
     let prv = le_prev e;
     let nxt = le_next e;
     let l1 = (if l_head l = entry then l\<lparr>l_head := nxt\<rparr> else l);
     let l2 = (if l_tail l1 = entry then l1\<lparr>l_tail := prv\<rparr> else l1);
     h2 \<leftarrow> (if nxt \<noteq> NULL \<and> prv \<noteq> NULL
            then do { h1 \<leftarrow> set_prev h nxt prv; set_next h1 prv nxt }
            else do {
              h1 \<leftarrow> (if nxt \<noteq> NULL then set_prev h nxt NULL else Some h);
              (if prv \<noteq> NULL then set_next h1 prv NULL else Some h1)
            });
     h3 \<leftarrow> set_next h2 entry NULL;
     h4 \<leftarrow> set_prev h3 entry NULL;
     Some (h4, l2\<lparr>l_length := l_length l2 - 1\<rparr>)
   }"

fun advance :: "nat \<Rightarrow> lheap \<Rightarrow> ptr \<Rightarrow> ptr option option" where
  \<comment> \<open>the loop \<^verbatim>\<open>for(i = 1; i < index; i++)\<close> of \<^verbatim>\<open>list_remove_by_index\<close>; \<open>Some None\<close> is its early return\<close>
  "advance 0 h entry = Some (Some entry)"
| "advance (Suc n) h entry = do {
     e \<leftarrow> rd h entry;
     if le_next e = NULL then Some None else advance n h (le_next e)
   }"

definition list_remove_by_index :: "lheap \<Rightarrow> list_t \<Rightarrow> u64 \<Rightarrow> (lheap \<times> list_t) option" where
  "list_remove_by_index h l index =
     (if l_length l = 0 then Some (h, l)
      else do {
        (h1, l1) \<leftarrow> (if index = l_length l then list_delete h l (l_tail l) else Some (h, l));
        let entry = l_head l1;
        if index = 0 then list_delete h1 l1 entry
        else do {
          r \<leftarrow> advance (unat index - 1) h1 entry;
          (case r of None \<Rightarrow> Some (h1, l1) | Some e \<Rightarrow> list_delete h1 l1 e)
        }
      })"

partial_function (option) walk :: "lheap \<Rightarrow> ptr \<Rightarrow> ptr list option" where
  \<comment> \<open>the entries met by \<^verbatim>\<open>for(entry = p; entry; entry = entry->next)\<close>\<close>
  "walk h p =
     (if p = NULL then Some []
      else do { e \<leftarrow> rd h p; ps \<leftarrow> walk h (le_next e); Some (p # ps) })"

definition list_free :: "lheap \<Rightarrow> list_t \<Rightarrow> ptr list option" where
  \<comment> \<open>the entries passed to \<^verbatim>\<open>kfree\<close>, in order\<close>
  "list_free h l = walk h (l_head l)"

definition list_destroy :: "lheap \<Rightarrow> list_t \<Rightarrow> (ptr list \<times> ptr list) option" where
  \<comment> \<open>the entries passed to \<^verbatim>\<open>kfree\<close> and the values passed to \<^verbatim>\<open>free\<close>\<close>
  "list_destroy h l = do {
     ps \<leftarrow> walk h (l_head l);
     Some (ps, map (\<lambda>p. le_value (the (h p))) ps)
   }"

fun copy_entries :: "lheap \<Rightarrow> list_t \<Rightarrow> ptr list \<Rightarrow> ptr list \<Rightarrow> (lheap \<times> list_t) option" where
  \<comment> \<open>\<open>qs\<close> are the addresses the \<^verbatim>\<open>calloc\<close> of each iteration returns\<close>
  "copy_entries h l [] qs = Some (h, l)"
| "copy_entries h l (p # ps) [] = None"
| "copy_entries h l (p # ps) (q # qs) = do {
     e \<leftarrow> rd h p;
     h1 \<leftarrow> new_entry h q (le_value e);
     (h2, l2) \<leftarrow> list_append h1 l q;
     copy_entries h2 l2 ps qs
   }"

definition list_copy :: "lheap \<Rightarrow> list_t \<Rightarrow> ptr list \<Rightarrow> (lheap \<times> list_t) option" where
  "list_copy h original qs = do {
     ps \<leftarrow> walk h (l_head original);
     copy_entries h list_create ps qs
   }"

definition list_append_after :: "lheap \<Rightarrow> list_t \<Rightarrow> ptr \<Rightarrow> ptr \<Rightarrow> (lheap \<times> list_t) option" where
  "list_append_after h l before after = do {
     b \<leftarrow> rd h before;
     if le_next b \<noteq> NULL then do {
       h1 \<leftarrow> set_next h after (le_next b);
       h2 \<leftarrow> set_next h1 before after;
       h3 \<leftarrow> set_prev h2 after before;
       a \<leftarrow> rd h3 after;
       h4 \<leftarrow> set_prev h3 (le_next a) after;
       Some (h4, l\<lparr>l_length := l_length l + 1\<rparr>)
     } else list_append h l after
   }"

definition list_insert_after :: "lheap \<Rightarrow> list_t \<Rightarrow> ptr \<Rightarrow> ptr \<Rightarrow> ptr \<Rightarrow> (lheap \<times> list_t) option" where
  "list_insert_after h l before p item =
     do { h1 \<leftarrow> new_entry h p item; list_append_after h1 l before p }"

definition list_append_before :: "lheap \<Rightarrow> list_t \<Rightarrow> ptr \<Rightarrow> ptr \<Rightarrow> (lheap \<times> list_t) option" where
  "list_append_before h l after before = do {
     a \<leftarrow> rd h after;
     if le_prev a \<noteq> NULL then do {
       h1 \<leftarrow> set_prev h before (le_prev a);
       h2 \<leftarrow> set_next h1 before after;
       h3 \<leftarrow> set_prev h2 after before;
       b \<leftarrow> rd h3 before;
       h4 \<leftarrow> set_next h3 (le_prev b) before;
       Some (h4, l\<lparr>l_length := l_length l + 1\<rparr>)
     } else do {
       h1 \<leftarrow> set_prev h after before;
       h2 \<leftarrow> set_next h1 before after;
       Some (h2, l\<lparr>l_head := before, l_length := l_length l + 1\<rparr>)
     }
   }"

definition list_insert_before :: "lheap \<Rightarrow> list_t \<Rightarrow> ptr \<Rightarrow> ptr \<Rightarrow> ptr \<Rightarrow> (lheap \<times> list_t) option" where
  "list_insert_before h l after p item =
     do { h1 \<leftarrow> new_entry h p item; list_append_before h1 l after p }"

lemmas cell_ops = rd_def set_next_def set_prev_def new_entry_def


section \<open>Representation\<close>

fun dll :: "lheap \<Rightarrow> ptr \<Rightarrow> ptr list \<Rightarrow> ptr \<Rightarrow> bool" where
  \<comment> \<open>the entries \<open>ps\<close> are linked in both directions, between the outer neighbours \<open>q\<close> and \<open>n\<close>\<close>
  "dll h q [] n = True"
| "dll h q (p # ps) n =
     (p \<noteq> NULL \<and> (\<exists>v. h p = Some \<lparr>le_prev = q, le_next = hd_or n ps, le_value = v\<rparr>) \<and> dll h p ps n)"

definition list_repr :: "lheap \<Rightarrow> list_t \<Rightarrow> ptr list \<Rightarrow> bool" where
  "list_repr h l ps \<longleftrightarrow>
     distinct ps \<and> dll h NULL ps NULL \<and> l_head l = hd_or NULL ps \<and> l_tail l = last_or NULL ps \<and>
     length ps < 2 ^ 64 \<and> l_length l = of_nat (length ps)"

definition entry_value :: "lheap \<Rightarrow> ptr \<Rightarrow> ptr" where
  "entry_value h p = (case h p of None \<Rightarrow> NULL | Some e \<Rightarrow> le_value e)"

definition list_values :: "lheap \<Rightarrow> ptr list \<Rightarrow> ptr list" where
  "list_values h ps = map (entry_value h) ps"

lemma dll_append [repr_simps]:
  "dll h q (ps @ rs) n \<longleftrightarrow> dll h q ps (hd_or n rs) \<and> dll h (last_or q ps) rs n"
  by (induction ps arbitrary: q) auto

lemma dll_upd [repr_simps]: "p \<notin> set ps \<Longrightarrow> dll (h(p := x)) q ps n = dll h q ps n"
  by (induction ps arbitrary: q) auto

lemma dll_nonnull: "dll h q ps n \<Longrightarrow> NULL \<notin> set ps"
  by (induction ps arbitrary: q) auto

lemma dll_mapped: "dll h q ps n \<Longrightarrow> p \<in> set ps \<Longrightarrow> \<exists>e. h p = Some e"
  by (induction ps arbitrary: q) auto

lemma last_or_snoc_cases: "ps \<noteq> [] \<Longrightarrow> \<exists>xs. ps = xs @ [last_or d ps]"
  by (metis append_butlast_last_id last_or_def)

lemma list_repr_empty: "list_repr h list_create []"
  by (simp add: list_repr_def list_create_def)

lemma length_zero_iff:
  "list_repr h l ps \<Longrightarrow> l_length l = 0 \<longleftrightarrow> ps = []"
  using of_nat_u64_eq_0_iff [of "length ps"] by (simp add: list_repr_def)

lemma list_values_upd [repr_simps]:
  "p \<notin> set ps \<Longrightarrow> list_values (h(p := x)) ps = list_values h ps"
  by (auto simp: list_values_def entry_value_def)

lemma list_values_append [simp]: "list_values h (ps @ qs) = list_values h ps @ list_values h qs"
  by (simp add: list_values_def)

lemma list_values_Nil [simp]: "list_values h [] = []"
  by (simp add: list_values_def)

text \<open>Appending a fresh, cleared entry.\<close>

lemma list_append_repr:
  assumes repr: "list_repr h l ps" and fresh: "p \<noteq> NULL" "p \<notin> set ps" "Suc (length ps) < 2 ^ 64"
    and cell: "h p = Some \<lparr>le_prev = NULL, le_next = NULL, le_value = v\<rparr>"
  shows "\<exists>h' l'. list_append h l p = Some (h', l') \<and> list_repr h' l' (ps @ [p]) \<and>
           list_values h' (ps @ [p]) = list_values h ps @ [v] \<and>
           (\<forall>q. q \<notin> set ps \<and> q \<noteq> p \<longrightarrow> h' q = h q)"
proof (cases "ps = []")
  case True
  with repr have "l_length l = 0" by (simp add: length_zero_iff)
  with True cell fresh show ?thesis
    by (auto simp: list_append_def list_repr_def list_values_def entry_value_def)
next
  case False
  then obtain xs t where ps: "ps = xs @ [t]" by (meson rev_exhaust)
  from repr False have len: "l_length l \<noteq> 0" by (simp add: length_zero_iff)
  from repr ps have t: "t \<noteq> NULL" "l_tail l = t" "t \<notin> set xs"
    and d: "dll h NULL xs t" and l: "l_length l = of_nat (length ps)" "l_head l = hd_or NULL ps"
    and xs: "distinct xs"
    by (auto simp: list_repr_def repr_simps)
  from repr ps obtain w where w: "h t = Some \<lparr>le_prev = last_or NULL xs, le_next = NULL, le_value = w\<rparr>"
    by (auto simp: list_repr_def repr_simps)
  define h' where "h' = h(t \<mapsto> \<lparr>le_prev = last_or NULL xs, le_next = p, le_value = w\<rparr>,
    p \<mapsto> \<lparr>le_prev = t, le_next = NULL, le_value = v\<rparr>)"
  have pt: "p \<noteq> t" "p \<notin> set xs" using fresh ps by auto
  have "list_append h l p = Some (h', l\<lparr>l_tail := p, l_length := l_length l + 1\<rparr>)"
    using len t w pt cell fresh by (simp add: list_append_def cell_ops h'_def)
  moreover have "list_repr h' (l\<lparr>l_tail := p, l_length := l_length l + 1\<rparr>) (ps @ [p])"
    using t d pt fresh ps l xs by (simp add: list_repr_def repr_simps h'_def)
  moreover have "list_values h' (ps @ [p]) = list_values h ps @ [v]"
    using t pt ps w by (auto simp: list_values_def entry_value_def h'_def)
  moreover have "\<forall>q. q \<notin> set ps \<and> q \<noteq> p \<longrightarrow> h' q = h q"
    by (simp add: h'_def ps)
  ultimately show ?thesis by blast
qed

lemma list_insert_repr:
  assumes "list_repr h l ps" "p \<noteq> NULL" "p \<notin> set ps" "Suc (length ps) < 2 ^ 64"
  shows "\<exists>h' l'. list_insert h l p v = Some (h', l') \<and> list_repr h' l' (ps @ [p]) \<and>
           list_values h' (ps @ [p]) = list_values h ps @ [v] \<and>
           (\<forall>q. q \<notin> set ps \<and> q \<noteq> p \<longrightarrow> h' q = h q)"
proof -
  let ?h = "h(p \<mapsto> \<lparr>le_prev = NULL, le_next = NULL, le_value = v\<rparr>)"
  have "list_repr ?h l ps" using assms by (simp add: list_repr_def repr_simps)
  from list_append_repr [OF this assms(2-4), of v]
  obtain h' l' where A: "list_append ?h l p = Some (h', l')" "list_repr h' l' (ps @ [p])"
    "list_values h' (ps @ [p]) = list_values ?h ps @ [v]"
    "\<forall>q. q \<notin> set ps \<and> q \<noteq> p \<longrightarrow> h' q = ?h q" by auto
  have "list_values ?h ps = list_values h ps" using assms(3) by (rule list_values_upd)
  with A assms(2) show ?thesis by (simp add: list_insert_def cell_ops)
qed

text \<open>Deleting an entry of the list.\<close>

lemma list_delete_repr:
  assumes repr: "list_repr h l (xs @ p # ys)"
  shows "\<exists>h' l'. list_delete h l p = Some (h', l') \<and> list_repr h' l' (xs @ ys) \<and>
           list_values h' (xs @ ys) = list_values h (xs @ ys) \<and>
           h' p = Some \<lparr>le_prev = NULL, le_next = NULL, le_value = entry_value h p\<rparr> \<and>
           (\<forall>q. q \<notin> set (xs @ p # ys) \<longrightarrow> h' q = h q)"
proof -
  from repr have dist: "distinct xs" "distinct ys" "p \<notin> set xs" "p \<notin> set ys" "set xs \<inter> set ys = {}"
    and d: "dll h NULL xs p" "dll h p ys NULL" and p0: "p \<noteq> NULL"
    and hd: "l_head l = hd_or p xs" and tl: "l_tail l = last_or p ys"
    and len: "length (xs @ ys) < 2 ^ 64" "l_length l - 1 = of_nat (length (xs @ ys))"
    by (auto simp: list_repr_def repr_simps)
  from repr obtain v where v: "h p = Some \<lparr>le_prev = last_or NULL xs, le_next = hd_or NULL ys, le_value = v\<rparr>"
    by (auto simp: list_repr_def repr_simps)
  have nt: "last_or y ys' \<noteq> p" if "ys = y # ys'" for y ys'
    using last_or_in [of ys p] that dist by auto
  have nh: "hd_or x xs' \<noteq> p" if "xs = xs' @ [x]" for x xs'
    using hd_or_in [of xs p] that dist by auto
  show ?thesis
  proof (cases xs rule: rev_cases)
    case Nil
    show ?thesis
    proof (cases ys)
      case Nil
      with \<open>xs = []\<close> show ?thesis using dist d p0 hd tl len v
        by (simp add: list_delete_def cell_ops list_repr_def repr_simps entry_value_def)
    next
      case (Cons y ys')
      with \<open>xs = []\<close> show ?thesis using dist d p0 hd tl len v nt [OF Cons]
        by (auto simp: Let_def list_delete_def cell_ops list_repr_def repr_simps entry_value_def list_values_def)
    qed
  next
    case (snoc xs' x)
    show ?thesis
    proof (cases ys)
      case Nil
      with snoc show ?thesis using dist d p0 hd tl len v nh [OF snoc]
        by (auto simp: Let_def list_delete_def cell_ops list_repr_def repr_simps entry_value_def list_values_def)
    next
      case (Cons y ys')
      with snoc show ?thesis using dist d p0 hd tl len v nh [OF snoc] nt [OF Cons]
        by (auto simp: Let_def list_delete_def cell_ops list_repr_def repr_simps entry_value_def list_values_def)
    qed
  qed
qed


text \<open>Traversals.\<close>

lemma walk_dll: "dll h q ps NULL \<Longrightarrow> walk h (hd_or NULL ps) = Some ps"
proof (induction ps arbitrary: q)
  case Nil
  show ?case by (simp add: walk.simps)
next
  case (Cons p ps)
  then show ?case by (subst walk.simps) (auto simp: rd_def)
qed

lemma walk_repr: "list_repr h l ps \<Longrightarrow> walk h (l_head l) = Some ps"
  using walk_dll [of h NULL ps] by (simp add: list_repr_def)

lemma list_free_repr: "list_repr h l ps \<Longrightarrow> list_free h l = Some ps"
  by (simp add: list_free_def walk_repr)

lemma list_destroy_repr:
  assumes "list_repr h l ps"
  shows "list_destroy h l = Some (ps, list_values h ps)"
proof -
  have "le_value (the (h p)) = entry_value h p" if "p \<in> set ps" for p
    using dll_mapped [of h NULL ps NULL p] assms that
    by (auto simp: list_repr_def entry_value_def)
  then show ?thesis using assms by (simp add: list_destroy_def walk_repr list_values_def)
qed

lemma find_from_dll:
  "dll h q ps NULL \<Longrightarrow>
   find_from h (hd_or NULL ps) v =
     Some (case find (\<lambda>p. entry_value h p = v) ps of None \<Rightarrow> NULL | Some p \<Rightarrow> p)"
proof (induction ps arbitrary: q)
  case Nil
  show ?case by (simp add: find_from.simps)
next
  case (Cons p ps)
  then show ?case by (subst find_from.simps) (auto simp: rd_def entry_value_def)
qed

lemma list_find_repr:
  assumes "list_repr h l ps"
  shows "list_find h l v =
     Some (case find (\<lambda>p. entry_value h p = v) ps of None \<Rightarrow> NULL | Some p \<Rightarrow> p)"
proof (cases "ps = []")
  case True
  with assms show ?thesis by (simp add: list_find_def length_zero_iff)
next
  case False
  with assms show ?thesis
    using find_from_dll [of h NULL ps v]
    by (simp add: list_find_def length_zero_iff) (simp add: list_repr_def)
qed

lemma advance_dll:
  "dll h q ps NULL \<Longrightarrow> ps \<noteq> [] \<Longrightarrow>
   advance n h (hd_or NULL ps) = Some (if n < length ps then Some (ps ! n) else None)"
proof (induction n arbitrary: q ps)
  case 0
  then show ?case by (cases ps) auto
next
  case (Suc n)
  then obtain p ps' where ps: "ps = p # ps'" by (cases ps) auto
  show ?case
  proof (cases ps')
    case Nil
    with Suc.prems ps show ?thesis by (auto simp: rd_def)
  next
    case (Cons r rs)
    with Suc.prems ps have "advance n h (hd_or NULL ps') = Some (if n < length ps' then Some (ps' ! n) else None)"
      by (intro Suc.IH [of p]) auto
    with Suc.prems ps Cons show ?thesis by (auto simp: rd_def)
  qed
qed

lemma split_at: "i < length ps \<Longrightarrow> ps = take i ps @ ps ! i # drop (Suc i) ps"
  by (rule id_take_nth_drop)

definition drop_nth :: "nat \<Rightarrow> 'a list \<Rightarrow> 'a list" where
  "drop_nth i xs = take i xs @ drop (Suc i) xs"

lemma list_values_drop_nth: "list_values h (drop_nth i ps) = drop_nth i (list_values h ps)"
  by (simp add: drop_nth_def list_values_def take_map drop_map)

lemma list_delete_nth:
  assumes "list_repr h l ps" "i < length ps"
  shows "\<exists>h' l'. list_delete h l (ps ! i) = Some (h', l') \<and> list_repr h' l' (drop_nth i ps) \<and>
           list_values h' (drop_nth i ps) = drop_nth i (list_values h ps)"
proof -
  from assms have r: "list_repr h l (take i ps @ ps ! i # drop (Suc i) ps)" by (simp add: split_at [symmetric])
  from list_delete_repr [OF this] show ?thesis
    by (auto simp: list_values_drop_nth [symmetric]) (auto simp: drop_nth_def)
qed

lemma list_remove_head:
  assumes r: "list_repr h l (p # ps)"
  shows "\<exists>h' l'. list_remove_by_index h l 0 = Some (h', l') \<and> list_repr h' l' ps \<and>
           list_values h' ps = list_values h ps \<and>
           h' p = Some \<lparr>le_prev = NULL, le_next = NULL, le_value = entry_value h p\<rparr>"
proof -
  from r have "l_length l \<noteq> 0" "l_head l = p" by (simp_all add: length_zero_iff) (simp add: list_repr_def)
  then have "list_remove_by_index h l 0 = list_delete h l p"
    by (simp add: list_remove_by_index_def)
  with list_delete_repr [of h l "[]" p ps] r show ?thesis by auto
qed

lemma list_remove_index_pos:
  assumes r: "list_repr h l ps" and i: "1 \<le> unat i" "unat i < length ps"
  shows "\<exists>h' l'. list_remove_by_index h l i = Some (h', l') \<and> list_repr h' l' (drop_nth (unat i - 1) ps) \<and>
           list_values h' (drop_nth (unat i - 1) ps) = drop_nth (unat i - 1) (list_values h ps)"
proof -
  from i have ne: "ps \<noteq> []" "i \<noteq> 0" by auto
  have len: "l_length l \<noteq> 0" "l_length l = of_nat (length ps)" "length ps < 2 ^ 64"
    using r ne by (simp_all add: length_zero_iff) (simp_all add: list_repr_def)
  have il: "i \<noteq> l_length l" using i len unat_of_nat_u64 [of "length ps"] by auto
  have a: "advance (unat i - 1) h (l_head l) = Some (Some (ps ! (unat i - 1)))"
    using advance_dll [of h NULL ps "unat i - 1"] r ne i by (auto simp: list_repr_def)
  have "list_remove_by_index h l i = list_delete h l (ps ! (unat i - 1))"
    using len il ne a by (simp add: list_remove_by_index_def)
  then show ?thesis using list_delete_nth [OF r, of "unat i - 1"] i by auto
qed

lemma list_remove_index_last:
  assumes r: "list_repr h l ps" and n: "2 \<le> length ps"
  shows "\<exists>h' l'. list_remove_by_index h l (of_nat (length ps)) = Some (h', l') \<and>
           list_repr h' l' (butlast ps) \<and>
           list_values h' (butlast ps) = butlast (list_values h ps)"
proof -
  obtain xs t where ps0: "ps = xs @ [t]" using n by (cases ps rule: rev_cases) auto
  have ps: "ps = xs @ [t]" "xs \<noteq> []" using n ps0 by auto
  have len: "l_length l = of_nat (length ps)" "length ps < 2 ^ 64" "l_tail l = t"
    using r ps by (simp_all add: list_repr_def)
  then have nz: "l_length l \<noteq> 0" using n of_nat_u64_eq_0_iff [of "length ps"] by auto
  from list_delete_repr [of h l xs t "[]"] r ps obtain h' l' where
    d: "list_delete h l t = Some (h', l')" and r': "list_repr h' l' xs"
    and v: "list_values h' xs = list_values h xs" by auto
  have a: "advance (length xs) h' (l_head l') = Some None"
    using advance_dll [of h' NULL xs "length xs"] r' ps by (auto simp: list_repr_def)
  have u: "unat (of_nat (length ps) :: u64) - 1 = length xs"
    using unat_of_nat_u64 [OF len(2)] ps by simp
  have "list_remove_by_index h l (of_nat (length ps)) = Some (h', l')"
    using nz len(1,3) d a u nz by (simp add: list_remove_by_index_def del: of_nat_Suc)
  with r' v ps show ?thesis by (auto simp: list_values_def)
qed

lemma list_remove_index_beyond:
  assumes r: "list_repr h l ps" and n: "length ps < unat i"
  shows "list_remove_by_index h l i = Some (h, l)"
proof (cases "ps = []")
  case True
  with r show ?thesis by (simp add: list_remove_by_index_def length_zero_iff)
next
  case False
  have il: "i \<noteq> l_length l" "i \<noteq> 0"
    using n r unat_of_nat_u64 [of "length ps"] by (auto simp: list_repr_def)
  have a: "advance (unat i - 1) h (l_head l) = Some None"
    using advance_dll [of h NULL ps "unat i - 1"] r False n by (auto simp: list_repr_def)
  then show ?thesis using il False r by (simp add: list_remove_by_index_def length_zero_iff)
qed

lemma list_remove_index_singleton:
  assumes r: "list_repr h l [p]"
  shows "list_remove_by_index h l 1 = None"
proof -
  have "l_length l = 1" "l_tail l = p" using r by (simp_all add: list_repr_def)
  moreover obtain h' l' where "list_delete h l p = Some (h', l')" "l_head l' = NULL"
    using list_delete_repr [of h l "[]" p "[]"] r by (auto simp: list_repr_def)
  ultimately show ?thesis by (simp add: list_remove_by_index_def list_delete_def rd_def)
qed


text \<open>Inserting next to a given entry.\<close>

lemma list_insert_after_repr:
  assumes r: "list_repr h l (xs @ b # ys)" and p: "p \<noteq> NULL" "p \<notin> set (xs @ b # ys)"
    and n: "Suc (length (xs @ b # ys)) < 2 ^ 64"
  shows "\<exists>h' l'. list_insert_after h l b p v = Some (h', l') \<and> list_repr h' l' (xs @ b # p # ys) \<and>
           list_values h' (xs @ b # p # ys) = list_values h (xs @ [b]) @ v # list_values h ys"
proof (cases ys)
  case Nil
  let ?h = "h(p \<mapsto> \<lparr>le_prev = NULL, le_next = NULL, le_value = v\<rparr>)"
  have "\<exists>w. h b = Some \<lparr>le_prev = last_or NULL xs, le_next = NULL, le_value = w\<rparr>" "b \<noteq> NULL"
    using r Nil by (auto simp: list_repr_def repr_simps)
  then have "list_insert_after h l b p v = list_insert h l p v"
    using p by (auto simp: list_insert_after_def list_append_after_def list_insert_def cell_ops)
  with list_insert_repr [of h l "xs @ [b]" p v] r p n Nil show ?thesis by auto
next
  case (Cons y ys')
  obtain w where w: "h b = Some \<lparr>le_prev = last_or NULL xs, le_next = y, le_value = w\<rparr>"
    and d: "dll h NULL xs b" "b \<noteq> NULL" "b \<notin> set xs" "b \<noteq> y" "b \<notin> set ys'" "distinct xs"
      "y \<notin> set xs" "set xs \<inter> set ys' = {}"
    using r Cons by (auto simp: list_repr_def repr_simps)
  obtain u where u: "h y = Some \<lparr>le_prev = b, le_next = hd_or NULL ys', le_value = u\<rparr>"
    and d2: "y \<noteq> NULL" "y \<notin> set ys'" "dll h y ys' NULL" "distinct ys'"
    using r Cons by (auto simp: list_repr_def repr_simps)
  define h' where "h' = h(p \<mapsto> \<lparr>le_prev = b, le_next = y, le_value = v\<rparr>,
    b \<mapsto> \<lparr>le_prev = last_or NULL xs, le_next = p, le_value = w\<rparr>,
    y \<mapsto> \<lparr>le_prev = p, le_next = hd_or NULL ys', le_value = u\<rparr>)"
  have pn: "p \<noteq> b" "p \<noteq> y" "p \<notin> set xs" "p \<notin> set ys'" using p Cons by auto
  have "list_insert_after h l b p v = Some (h', l\<lparr>l_length := l_length l + 1\<rparr>)"
    using w u d(2,4) d2(1) pn p(1)
    by (simp add: list_insert_after_def list_append_after_def cell_ops h'_def fun_upd_twist)
  moreover have "list_repr h' (l\<lparr>l_length := l_length l + 1\<rparr>) (xs @ b # p # ys)"
    using r d d2 pn p n Cons by (simp add: list_repr_def repr_simps h'_def)
  moreover have "list_values h' (xs @ b # p # ys) = list_values h (xs @ [b]) @ v # list_values h ys"
    using d d2 pn Cons w u by (auto simp: list_values_def entry_value_def h'_def)
  ultimately show ?thesis by blast
qed

lemma list_insert_before_repr:
  assumes r: "list_repr h l (xs @ a # ys)" and p: "p \<noteq> NULL" "p \<notin> set (xs @ a # ys)"
    and n: "Suc (length (xs @ a # ys)) < 2 ^ 64"
  shows "\<exists>h' l'. list_insert_before h l a p v = Some (h', l') \<and> list_repr h' l' (xs @ p # a # ys) \<and>
           list_values h' (xs @ p # a # ys) = list_values h xs @ v # list_values h (a # ys)"
proof (cases xs rule: rev_cases)
  case Nil
  obtain w where w: "h a = Some \<lparr>le_prev = NULL, le_next = hd_or NULL ys, le_value = w\<rparr>"
    and d: "a \<noteq> NULL" "a \<notin> set ys" "dll h a ys NULL" "distinct ys"
    using r Nil by (auto simp: list_repr_def repr_simps)
  define h' where "h' = h(p \<mapsto> \<lparr>le_prev = NULL, le_next = a, le_value = v\<rparr>,
    a \<mapsto> \<lparr>le_prev = p, le_next = hd_or NULL ys, le_value = w\<rparr>)"
  have pn: "p \<noteq> a" "p \<notin> set ys" using p by auto
  have "list_insert_before h l a p v = Some (h', l\<lparr>l_head := p, l_length := l_length l + 1\<rparr>)"
    using w d pn p(1)
    by (simp add: list_insert_before_def list_append_before_def cell_ops h'_def fun_upd_twist)
  moreover have "list_repr h' (l\<lparr>l_head := p, l_length := l_length l + 1\<rparr>) (xs @ p # a # ys)"
    using r d pn p n Nil by (simp add: list_repr_def repr_simps h'_def)
  moreover have "list_values h' (xs @ p # a # ys) = list_values h xs @ v # list_values h (a # ys)"
    using d pn Nil w by (auto simp: list_values_def entry_value_def h'_def)
  ultimately show ?thesis by blast
next
  case (snoc xs' b)
  obtain w where w: "h a = Some \<lparr>le_prev = b, le_next = hd_or NULL ys, le_value = w\<rparr>"
    and d: "a \<noteq> NULL" "a \<notin> set ys" "dll h a ys NULL" "distinct ys" "a \<noteq> b" "a \<notin> set xs'" "b \<notin> set ys"
      "set xs' \<inter> set ys = {}"
    using r snoc by (auto simp: list_repr_def repr_simps)
  obtain u where u: "h b = Some \<lparr>le_prev = last_or NULL xs', le_next = a, le_value = u\<rparr>"
    and d2: "b \<noteq> NULL" "b \<notin> set xs'" "dll h NULL xs' b" "distinct xs'"
    using r snoc by (auto simp: list_repr_def repr_simps)
  define h' where "h' = h(p \<mapsto> \<lparr>le_prev = b, le_next = a, le_value = v\<rparr>,
    a \<mapsto> \<lparr>le_prev = p, le_next = hd_or NULL ys, le_value = w\<rparr>,
    b \<mapsto> \<lparr>le_prev = last_or NULL xs', le_next = p, le_value = u\<rparr>)"
  have pn: "p \<noteq> a" "p \<notin> set ys" "p \<noteq> b" "p \<notin> set xs'" using p snoc by auto
  have "list_insert_before h l a p v = Some (h', l\<lparr>l_length := l_length l + 1\<rparr>)"
    using w u d(1,5) d2(1) pn p(1)
    by (simp add: list_insert_before_def list_append_before_def cell_ops h'_def fun_upd_twist)
  moreover have "list_repr h' (l\<lparr>l_length := l_length l + 1\<rparr>) (xs @ p # a # ys)"
    using r d d2 pn p n snoc by (simp add: list_repr_def repr_simps h'_def)
  moreover have "list_values h' (xs @ p # a # ys) = list_values h xs @ v # list_values h (a # ys)"
    using d d2 pn snoc w u by (auto simp: list_values_def entry_value_def h'_def)
  ultimately show ?thesis by blast
qed

text \<open>Copying: the fresh entries carry the same values, the original stays intact.\<close>

lemma copy_entries_repr:
  assumes "list_repr h l rs" "dll h q ps n" "length qs = length ps" "distinct (rs @ qs)"
    "NULL \<notin> set qs" "set ps \<inter> set (rs @ qs) = {}" "length rs + length qs < 2 ^ 64"
  shows "\<exists>h' l'. copy_entries h l ps qs = Some (h', l') \<and> list_repr h' l' (rs @ qs) \<and>
           list_values h' (rs @ qs) = list_values h rs @ list_values h ps \<and>
           (\<forall>x. x \<notin> set (rs @ qs) \<longrightarrow> h' x = h x)"
  using assms
proof (induction ps arbitrary: h l rs q qs)
  case Nil
  then show ?case by simp
next
  case (Cons p ps)
  then obtain q0 qs' where qs: "qs = q0 # qs'" by (cases qs) auto
  from Cons.prems(2) have pe: "rd h p = h p" "h p \<noteq> None" "p \<noteq> NULL" by (auto simp: rd_def)
  then obtain e where e: "h p = Some e" by auto
  have "list_repr h l rs" "q0 \<noteq> NULL" "q0 \<notin> set rs" "Suc (length rs) < 2 ^ 64"
    using Cons.prems qs by auto
  from list_insert_repr [OF this, of "le_value e"] obtain h1 l1 where
    I: "list_insert h l q0 (le_value e) = Some (h1, l1)" "list_repr h1 l1 (rs @ [q0])"
      "list_values h1 (rs @ [q0]) = list_values h rs @ [le_value e]"
      "\<forall>x. x \<notin> set rs \<and> x \<noteq> q0 \<longrightarrow> h1 x = h x" by auto
  have eq: "h1 x = h x" if "x \<in> set (p # ps)" for x
    using I(4) Cons.prems(6) qs that by auto
  have dll1: "dll h1 p ps n"
  proof -
    have "dll h p ps n" using Cons.prems(2) by simp
    moreover have "\<forall>x \<in> set ps. h1 x = h x" using eq by simp
    ultimately show ?thesis by (induction ps arbitrary: p) auto
  qed
  have "\<exists>h' l'. copy_entries h1 l1 ps qs' = Some (h', l') \<and> list_repr h' l' ((rs @ [q0]) @ qs') \<and>
      list_values h' ((rs @ [q0]) @ qs') = list_values h1 (rs @ [q0]) @ list_values h1 ps \<and>
      (\<forall>x. x \<notin> set ((rs @ [q0]) @ qs') \<longrightarrow> h' x = h1 x)"
    using Cons.prems qs I(2) by (intro Cons.IH [OF _ dll1]) auto
  moreover have "list_values h1 ps = list_values h ps"
    using eq by (auto simp: list_values_def entry_value_def)
  moreover have "list_values h (p # ps) = le_value e # list_values h ps"
    using e by (simp add: list_values_def entry_value_def)
  moreover have "copy_entries h l (p # ps) qs = copy_entries h1 l1 ps qs'"
    using I(1) qs pe e by (simp add: list_insert_def) (auto split: bind_splits)
  ultimately show ?case using I(3,4) qs by auto
qed


lemma list_copy_repr:
  assumes r: "list_repr h l ps" and qs: "length qs = length ps" "distinct qs" "NULL \<notin> set qs"
    "set ps \<inter> set qs = {}"
  shows "\<exists>h' l'. list_copy h l qs = Some (h', l') \<and> list_repr h' l' qs \<and>
           list_values h' qs = list_values h ps \<and> list_repr h' l ps \<and> list_values h' ps = list_values h ps"
proof -
  have d: "dll h NULL ps NULL" "length ps < 2 ^ 64" using r by (simp_all add: list_repr_def)
  from copy_entries_repr [OF list_repr_empty d(1), of qs] qs d(2)
  obtain h' l' where c: "copy_entries h list_create ps qs = Some (h', l')" "list_repr h' l' qs"
    "list_values h' qs = list_values h ps" "\<forall>x. x \<notin> set qs \<longrightarrow> h' x = h x" by auto
  have eq: "\<forall>x \<in> set ps. h' x = h x" using c(4) qs(4) by auto
  have "dll h' q ps n = dll h q ps n" for q n
    using eq by (induction ps arbitrary: q) auto
  then have "list_repr h' l ps" using r by (simp add: list_repr_def)
  moreover have "list_values h' ps = list_values h ps"
    using eq by (simp add: list_values_def entry_value_def)
  ultimately show ?thesis using c r by (simp add: list_copy_def walk_repr)
qed

section \<open>The list as a queue\<close>

definition list_elems :: "lheap \<times> list_t \<Rightarrow> ptr list" where
  "list_elems q = (case walk (fst q) (l_head (snd q)) of None \<Rightarrow> [] | Some ps \<Rightarrow> list_values (fst q) ps)"

definition list_invar :: "lheap \<times> list_t \<Rightarrow> bool" where
  "list_invar q \<longleftrightarrow> (\<exists>ps. list_repr (fst q) (snd q) ps)"

definition list_fresh :: "lheap \<times> list_t \<Rightarrow> ptr \<Rightarrow> bool" where
  "list_fresh q p \<longleftrightarrow> p \<noteq> NULL \<and>
     (case walk (fst q) (l_head (snd q)) of None \<Rightarrow> False
      | Some ps \<Rightarrow> p \<notin> set ps \<and> Suc (length ps) < 2 ^ 64)"

definition list_enq :: "lheap \<times> list_t \<Rightarrow> ptr \<Rightarrow> ptr \<Rightarrow> (lheap \<times> list_t) option" where
  "list_enq q p v = list_insert (fst q) (snd q) p v"

definition list_deq :: "lheap \<times> list_t \<Rightarrow> (lheap \<times> list_t) option" where
  "list_deq q = list_remove_by_index (fst q) (snd q) 0"

lemma list_elems_repr: "list_repr h l ps \<Longrightarrow> list_elems (h, l) = list_values h ps"
  by (simp add: list_elems_def walk_repr)

interpretation lq: fifo_queue list_invar list_elems list_fresh list_enq list_deq
proof unfold_locales
  fix q :: "lheap \<times> list_t" and p x :: ptr
  assume i: "list_invar q" and f: "list_fresh q p"
  obtain h l where q: "q = (h, l)" by (cases q)
  from i q obtain ps where r: "list_repr h l ps" by (auto simp: list_invar_def)
  with f q have "p \<noteq> NULL" "p \<notin> set ps" "Suc (length ps) < 2 ^ 64"
    by (auto simp: list_fresh_def walk_repr)
  from list_insert_repr [OF r this, of x] q r
  show "\<exists>q'. list_enq q p x = Some q' \<and> list_invar q' \<and> list_elems q' = list_elems q @ [x]"
    by (auto simp: list_enq_def list_invar_def list_elems_repr)
next
  fix q :: "lheap \<times> list_t" and x :: ptr and xs :: "ptr list"
  assume i: "list_invar q" and e: "list_elems q = x # xs"
  obtain h l where q: "q = (h, l)" by (cases q)
  from i q obtain ps where r: "list_repr h l ps" by (auto simp: list_invar_def)
  with e q have "list_values h ps = x # xs" by (simp add: list_elems_repr)
  then obtain p ps' where ps: "ps = p # ps'" "list_values h ps' = xs"
    by (cases ps) (auto simp: list_values_def)
  from list_remove_head [of h l p ps'] r ps q
  show "\<exists>q'. list_deq q = Some q' \<and> list_invar q' \<and> list_elems q' = xs"
    by (auto simp: list_deq_def list_invar_def list_elems_repr)
qed


section \<open>Properties\<close>

definition demo_heap :: lheap where
  "demo_heap = [16 \<mapsto> \<lparr>le_prev = 0, le_next = 32, le_value = 7\<rparr>,
                32 \<mapsto> \<lparr>le_prev = 16, le_next = 0, le_value = 8\<rparr>]"

definition demo_list :: list_t where
  "demo_list = \<lparr>l_head = 16, l_tail = 32, l_length = 2\<rparr>"

lemma demo_repr: "list_repr demo_heap demo_list [16, 32]"
  by (simp add: list_repr_def demo_heap_def demo_list_def)

lemma demo_values: "list_values demo_heap [16, 32] = [7, 8]"
  by (simp add: list_values_def entry_value_def demo_heap_def)

text \<open>\<^verbatim>\<open>list_insert\<close> refines appending to a sequence: on a well-formed list of entries
  \<open>ps\<close>, with the entry \<open>p\<close> that \<^verbatim>\<open>kcalloc\<close> returned outside the list, it never dereferences
  \<^verbatim>\<open>NULL\<close>, leaves a well-formed list \<open>ps @ [p]\<close> whose values are the old ones followed by
  the new one, and changes no cell outside the list.\<close>

theorem list_insert_refines_append:
  assumes "list_repr h l ps" "p \<noteq> NULL" "p \<notin> set ps" "Suc (length ps) < 2 ^ 64"
  shows "\<exists>h' l'. list_insert h l p v = Some (h', l') \<and> list_repr h' l' (ps @ [p]) \<and>
           list_values h' (ps @ [p]) = list_values h ps @ [v] \<and>
           (\<forall>q. q \<notin> set (ps @ [p]) \<longrightarrow> h' q = h q)"
  using list_insert_repr [OF assms, of v] by auto

theorem list_insert_refines_append_witness:
  "\<exists>h' l'. list_insert demo_heap demo_list 48 9 = Some (h', l') \<and>
     list_values h' [16, 32, 48] = [7, 8, 9]"
  using list_insert_refines_append [OF demo_repr, of 48 9] by (auto simp: demo_values)

text \<open>\<^verbatim>\<open>list_delete\<close> of the \<open>i\<close>-th entry refines removing the \<open>i\<close>-th element, wherever the
  entry sits: the neighbours are relinked, head and tail are kept right, the length drops by
  one and the remaining values keep their order.\<close>

theorem list_delete_refines_remove:
  assumes "list_repr h l ps" "i < length ps"
  shows "\<exists>h' l'. list_delete h l (ps ! i) = Some (h', l') \<and> list_repr h' l' (drop_nth i ps) \<and>
           list_values h' (drop_nth i ps) = drop_nth i (list_values h ps)"
  using assms by (rule list_delete_nth)

theorem list_delete_refines_remove_witness:
  "\<exists>h' l'. list_delete demo_heap demo_list 16 = Some (h', l') \<and>
     list_repr h' l' [32] \<and> list_values h' [32] = [8]"
  using list_delete_refines_remove [OF demo_repr, of 0]
  by (auto simp: demo_values drop_nth_def)

text \<open>\<^verbatim>\<open>list_remove_by_index\<close> on a list of at least two entries: index 0 removes the first
  entry, an index \<open>i\<close> between 1 and the length removes the entry at position \<open>i - 1\<close>
  (so 0 and 1 both remove the first one), and a larger index leaves the list alone.\<close>

theorem list_remove_by_index_effect:
  assumes r: "list_repr h l ps" and n: "2 \<le> length ps"
  shows "\<exists>h' l' ps'. list_remove_by_index h l i = Some (h', l') \<and> list_repr h' l' ps' \<and>
           list_values h' ps' =
             (if i = 0 then drop_nth 0 (list_values h ps)
              else if unat i \<le> length ps then drop_nth (unat i - 1) (list_values h ps)
              else list_values h ps)"
proof -
  obtain p ps1 where ps: "ps = p # ps1" using n by (cases ps) auto
  consider (zero) "i = 0" | (mid) "1 \<le> unat i" "unat i < length ps"
    | (last) "i \<noteq> 0" "unat i = length ps" | (beyond) "length ps < unat i"
    by (metis One_nat_def Suc_leI linorder_neqE_nat unat_eq_0 neq0_conv)
  then show ?thesis
  proof cases
    case zero
    from list_remove_head [of h l p ps1] r ps obtain h' l' where
      "list_remove_by_index h l 0 = Some (h', l')" "list_repr h' l' ps1"
      "list_values h' ps1 = list_values h ps1" by auto
    moreover have "drop_nth 0 (list_values h ps) = list_values h ps1"
      by (simp add: drop_nth_def list_values_def ps)
    ultimately show ?thesis using zero by auto
  next
    case mid
    then have "i \<noteq> 0" by auto
    with mid list_remove_index_pos [OF r mid] show ?thesis by auto
  next
    case last
    then have i: "of_nat (length ps) = i" by (simp flip: last(2))
    have "drop_nth (length ps - 1) (list_values h ps) = butlast (list_values h ps)"
      using n by (simp add: drop_nth_def butlast_conv_take list_values_def)
    with last list_remove_index_last [OF r n] show ?thesis by (auto simp: i)
  next
    case beyond
    then have "i \<noteq> 0" by auto
    with beyond list_remove_index_beyond [OF r beyond] r show ?thesis by auto
  qed
qed

theorem list_remove_by_index_effect_witness:
  "\<exists>h' l' ps'. list_remove_by_index demo_heap demo_list 2 = Some (h', l') \<and>
     list_repr h' l' ps' \<and> list_values h' ps' = [7]"
  using list_remove_by_index_effect [OF demo_repr, of 2] by (auto simp: demo_values drop_nth_def)

text \<open>On a list with a single entry, \<^verbatim>\<open>list_remove_by_index(list, 1)\<close> deletes the tail and then
  falls through to \<^verbatim>\<open>list_delete(list, NULL)\<close>: the code dereferences \<^verbatim>\<open>NULL\<close>.\<close>

theorem list_remove_by_index_singleton_faults:
  assumes "list_repr h l [p]"
  shows "list_remove_by_index h l 1 = None"
  using assms by (rule list_remove_index_singleton)

theorem list_remove_by_index_singleton_faults_witness:
  "list_remove_by_index [16 \<mapsto> \<lparr>le_prev = 0, le_next = 0, le_value = 7\<rparr>]
     \<lparr>l_head = 16, l_tail = 16, l_length = 1\<rparr> 1 = None"
  by (rule list_remove_by_index_singleton_faults [of _ _ 16]) (simp add: list_repr_def)

text \<open>\<^verbatim>\<open>list_copy\<close> yields a second well-formed list on the fresh entries with the same
  values in the same order, and leaves the original list as it was.\<close>

theorem list_copy_preserves_both:
  assumes "list_repr h l ps" "length qs = length ps" "distinct qs" "NULL \<notin> set qs"
    "set ps \<inter> set qs = {}"
  shows "\<exists>h' l'. list_copy h l qs = Some (h', l') \<and> list_repr h' l' qs \<and>
           list_values h' qs = list_values h ps \<and> list_repr h' l ps \<and>
           list_values h' ps = list_values h ps"
  using assms by (rule list_copy_repr)

theorem list_copy_preserves_both_witness:
  "\<exists>h' l'. list_copy demo_heap demo_list [48, 64] = Some (h', l') \<and>
     list_values h' [48, 64] = [7, 8] \<and> list_repr h' demo_list [16, 32]"
  using list_copy_preserves_both [OF demo_repr, of "[48, 64]"] by (auto simp: demo_values)

text \<open>Taking the head of a non-empty queue and inserting it again rotates the queue by
  one: the step the scheduler's ready queue makes on every preemption.\<close>

theorem list_queue_rotates:
  assumes "list_invar q" "list_elems q = x # xs" "\<And>q1. list_deq q = Some q1 \<Longrightarrow> list_fresh q1 p"
  shows "\<exists>q1 q2. list_deq q = Some q1 \<and> list_enq q1 p x = Some q2 \<and> list_invar q2 \<and>
           list_elems q2 = xs @ [x]"
  using assms by (rule lq.round_robin)

theorem list_queue_rotates_witness:
  "\<exists>q1 q2. list_deq (demo_heap, demo_list) = Some q1 \<and> list_enq q1 48 7 = Some q2 \<and>
     list_elems q2 = [8, 7]"
proof -
  have i: "list_invar (demo_heap, demo_list)" using demo_repr by (auto simp: list_invar_def)
  have e: "list_elems (demo_heap, demo_list) = 7 # [8]"
    by (simp add: list_elems_repr [OF demo_repr] demo_values)
  have f: "list_fresh q1 48" if "list_deq (demo_heap, demo_list) = Some q1" for q1
  proof -
    from list_remove_head [of demo_heap demo_list 16 "[32]"] demo_repr that
    have "list_repr (fst q1) (snd q1) [32]" by (auto simp: list_deq_def)
    then show ?thesis by (simp add: list_fresh_def walk_repr)
  qed
  from list_queue_rotates [OF i e f] show ?thesis by auto
qed

end
