(* ===== verification/Tree.thy ===== *)
theory Tree
  imports Prelude
begin

text \<open>
  The n-ary tree of \<^verbatim>\<open>libc/kernel/tree.c\<close>, used for the process tree and the file tree: nodes
  on an explicit store with a value, a parent pointer and the ordered list of children
  (\<^verbatim>\<open>list.c\<close>, whose refinement to sequences is shown in \<open>Linked_List\<close>). The recursive
  functions take fuel for the depth of the recursion. \<open>rose\<close> is the abstract tree; \<open>rose_at\<close>
  relates it to the store. The theorems show that the search is a preorder search, and that insertion
  and removal refine grafting and pruning on the abstract tree.
\<close>

section \<open>Nodes\<close>

record tree_node =
  tn_value :: ptr
  tn_children :: "ptr list"
  tn_parent :: ptr

record tree_t =
  t_head :: ptr
  t_height :: u64

type_synonym theap = "ptr \<rightharpoonup> tree_node"

definition nrd :: "theap \<Rightarrow> ptr \<Rightarrow> tree_node option" where
  "nrd h p = (if p = NULL then None else h p)"

section \<open>Operations\<close>

definition tree_create :: tree_t where
  "tree_create = \<lparr>t_head = NULL, t_height = 0\<rparr>"

fun tree_destroy_node :: "nat \<Rightarrow> theap \<Rightarrow> ptr \<Rightarrow> (ptr list \<times> ptr list) option"
  and destroy_children :: "nat \<Rightarrow> theap \<Rightarrow> ptr list \<Rightarrow> (ptr list \<times> ptr list) option" where
  \<comment> \<open>the nodes passed to \<^verbatim>\<open>kfree\<close> and the values passed to \<^verbatim>\<open>free\<close>, in order\<close>
  "tree_destroy_node 0 h node = None"
| "tree_destroy_node (Suc n) h node =
     (if node = NULL then Some ([], [])
      else do {
        e \<leftarrow> nrd h node;
        (ns, vs) \<leftarrow> destroy_children n h (tn_children e);
        Some (ns @ [node], vs @ [tn_value e])
      })"
| "destroy_children n h [] = Some ([], [])"
| "destroy_children n h (c # cs) = do {
     (ns1, vs1) \<leftarrow> tree_destroy_node n h c;
     (ns2, vs2) \<leftarrow> destroy_children n h cs;
     Some (ns1 @ ns2, vs1 @ vs2)
   }"

definition tree_destroy :: "nat \<Rightarrow> theap \<Rightarrow> tree_t \<Rightarrow> (ptr list \<times> ptr list) option" where
  "tree_destroy n h t = tree_destroy_node n h (t_head t)"

fun tree_free_node :: "nat \<Rightarrow> theap \<Rightarrow> ptr \<Rightarrow> ptr list option"
  and free_children :: "nat \<Rightarrow> theap \<Rightarrow> ptr list \<Rightarrow> ptr list option" where
  \<comment> \<open>the nodes passed to \<^verbatim>\<open>kfree\<close>; the values are kept\<close>
  "tree_free_node 0 h node = None"
| "tree_free_node (Suc n) h node =
     (if node = NULL then Some []
      else do {
        e \<leftarrow> nrd h node;
        ns \<leftarrow> free_children n h (tn_children e);
        Some (ns @ [node])
      })"
| "free_children n h [] = Some []"
| "free_children n h (c # cs) = do {
     ns1 \<leftarrow> tree_free_node n h c;
     ns2 \<leftarrow> free_children n h cs;
     Some (ns1 @ ns2)
   }"

definition tree_free :: "nat \<Rightarrow> theap \<Rightarrow> tree_t \<Rightarrow> ptr list option" where
  "tree_free n h t = tree_free_node n h (t_head t)"

fun tree_calculate_height :: "nat \<Rightarrow> theap \<Rightarrow> tree_t \<Rightarrow> ptr \<Rightarrow> int \<Rightarrow> tree_t option"
  and height_children :: "nat \<Rightarrow> theap \<Rightarrow> tree_t \<Rightarrow> ptr list \<Rightarrow> int \<Rightarrow> tree_t option" where
  "tree_calculate_height 0 h t node height = None"
| "tree_calculate_height (Suc n) h t node height = do {
     e \<leftarrow> nrd h node;
     t1 \<leftarrow> height_children n h t (tn_children e) (height + 1);
     Some (if to_size height > t_height t1 then t1\<lparr>t_height := to_size height\<rparr> else t1)
   }"
| "height_children n h t [] height = Some t"
| "height_children n h t (c # cs) height = do {
     t1 \<leftarrow> tree_calculate_height n h t c height;
     height_children n h t1 cs height
   }"

definition tree_set_root_node :: "nat \<Rightarrow> theap \<Rightarrow> tree_t \<Rightarrow> ptr \<Rightarrow> tree_t option" where
  "tree_set_root_node n h t node = tree_calculate_height n h (t\<lparr>t_head := node\<rparr>) node 1"

partial_function (option) height_to_root :: "theap \<Rightarrow> ptr \<Rightarrow> ptr \<Rightarrow> int \<Rightarrow> int option option" where
  \<comment> \<open>the loop up the parent pointers; \<open>Some None\<close> when it ends without meeting the root\<close>
  "height_to_root h head other height =
     (if other = NULL then Some None
      else if other = head then Some (Some height)
      else do { e \<leftarrow> nrd h other; height_to_root h head (tn_parent e) (height + 1) })"

definition tree_insert_child ::
  "nat \<Rightarrow> theap \<Rightarrow> tree_t \<Rightarrow> ptr \<Rightarrow> ptr \<Rightarrow> ptr \<Rightarrow> (theap \<times> tree_t \<times> ptr list \<times> ptr list) option" where
  \<comment> \<open>\<open>new\<close> is the address of the new node, which is also what the C function returns; the last two
     components are the nodes and the values that were freed\<close>
  "tree_insert_child n h t node val new =
     (if new = NULL then None
      else do {
        let h1 = h(new \<mapsto> \<lparr>tn_value = val, tn_children = [], tn_parent = NULL\<rparr>);
        (t1, ns, vs) \<leftarrow> (if node = NULL \<and> t_head t \<noteq> NULL
                          then do {
                            (ns, vs) \<leftarrow> tree_destroy_node n h1 (t_head t);
                            Some (t\<lparr>t_head := NULL\<rparr>, ns, vs)
                          }
                          else Some (t, [], []));
        if t_head t1 = NULL then do {
          t2 \<leftarrow> tree_set_root_node n h1 t1 new;
          Some (h1, t2, ns, vs)
        } else do {
          e \<leftarrow> nrd h1 node;
          let h2 = h1(new \<mapsto> \<lparr>tn_value = val, tn_children = [], tn_parent = node\<rparr>);
          e2 \<leftarrow> nrd h2 node;
          let h3 = h2(node \<mapsto> e2\<lparr>tn_children := tn_children e2 @ [new]\<rparr>);
          r \<leftarrow> height_to_root h3 (t_head t1) node 0;
          Some (h3,
            (case r of None \<Rightarrow> t1
             | Some height \<Rightarrow> if t_height t1 < to_size height then t1\<lparr>t_height := to_size height\<rparr> else t1),
            ns, vs)
        }
      })"

definition tree_remove :: "nat \<Rightarrow> theap \<Rightarrow> tree_t \<Rightarrow> ptr \<Rightarrow> (theap \<times> tree_t) option" where
  \<comment> \<open>the loop deletes one entry only: \<^verbatim>\<open>list_delete\<close> clears \<^verbatim>\<open>entry->next\<close>, which ends the loop\<close>
  "tree_remove n h t node = do {
     e \<leftarrow> nrd h node;
     if tn_parent e = NULL then
       (if t_head t \<noteq> node then Some (h, t)
        else Some (h, t\<lparr>t_head := NULL, t_height := 0\<rparr>))
     else do {
       p \<leftarrow> nrd h (tn_parent e);
       let h1 = h(tn_parent e \<mapsto> p\<lparr>tn_children := remove1 node (tn_children p)\<rparr>);
       e1 \<leftarrow> nrd h1 node;
       let h2 = h1(node \<mapsto> e1\<lparr>tn_parent := NULL\<rparr>);
       t1 \<leftarrow> tree_calculate_height n h2 t (t_head t) 0;
       Some (h2, t1)
     }
   }"

fun tree_find_child :: "nat \<Rightarrow> theap \<Rightarrow> ptr \<Rightarrow> ptr \<Rightarrow> ptr option"
  and find_children :: "nat \<Rightarrow> theap \<Rightarrow> ptr list \<Rightarrow> ptr \<Rightarrow> ptr option" where
  "tree_find_child 0 h node val = None"
| "tree_find_child (Suc n) h node val = do {
     e \<leftarrow> nrd h node;
     if tn_value e = val then Some node else find_children n h (tn_children e) val
   }"
| "find_children n h [] val = Some NULL"
| "find_children n h (c # cs) val = do {
     other \<leftarrow> nrd h c;
     if tn_value other = val then Some c
     else do {
       result \<leftarrow> tree_find_child n h c val;
       if result \<noteq> NULL then Some result else find_children n h cs val
     }
   }"

definition tree_find_child_root :: "nat \<Rightarrow> theap \<Rightarrow> tree_t \<Rightarrow> ptr \<Rightarrow> ptr option" where
  "tree_find_child_root n h t val = tree_find_child n h (t_head t) val"

section \<open>The abstract tree\<close>

datatype rose = Rose (r_addr: ptr) (r_val: ptr) (r_kids: "rose list")

fun rose_at :: "theap \<Rightarrow> ptr \<Rightarrow> rose \<Rightarrow> bool" where
  "rose_at h par (Rose p v ts) \<longleftrightarrow>
     p \<noteq> NULL \<and> h p = Some \<lparr>tn_value = v, tn_children = map r_addr ts, tn_parent = par\<rparr> \<and>
     (\<forall>t \<in> set ts. rose_at h p t)"

fun preorder :: "rose \<Rightarrow> (ptr \<times> ptr) list" where
  "preorder (Rose p v ts) = (p, v) # concat (map preorder ts)"

fun depth :: "rose \<Rightarrow> nat" where
  "depth (Rose p v ts) = Suc (Max (set (0 # map depth ts)))"

definition addrs :: "rose \<Rightarrow> ptr list" where
  "addrs t = map fst (preorder t)"

definition first_with :: "ptr \<Rightarrow> (ptr \<times> ptr) list \<Rightarrow> ptr" where
  \<comment> \<open>the address of the first pair holding the value, \<^verbatim>\<open>NULL\<close> when there is none\<close>
  "first_with val xs = (case find (\<lambda>(a, v). v = val) xs of None \<Rightarrow> NULL | Some (a, v) \<Rightarrow> a)"

definition tree_repr :: "theap \<Rightarrow> tree_t \<Rightarrow> rose \<Rightarrow> bool" where
  "tree_repr h t r \<longleftrightarrow> t_head t = r_addr r \<and> rose_at h NULL r \<and> distinct (addrs r)"

fun graft :: "ptr \<Rightarrow> rose \<Rightarrow> rose \<Rightarrow> rose" where
  \<comment> \<open>add a last child below the node at \<open>q\<close>\<close>
  "graft q new (Rose p v ts) =
     Rose p v (map (graft q new) ts @ (if p = q then [new] else []))"

fun prune :: "ptr \<Rightarrow> rose \<Rightarrow> rose" where
  \<comment> \<open>drop the subtree at \<open>q\<close>\<close>
  "prune q (Rose p v ts) = Rose p v (map (prune q) (filter (\<lambda>t. r_addr t \<noteq> q) ts))"

section \<open>Facts about the abstract tree\<close>

lemma addrs_Rose: "addrs (Rose p v ts) = p # concat (map addrs ts)"
  by (simp add: addrs_def [abs_def] map_concat comp_def)

lemma r_addr_in [simp]: "r_addr t \<in> set (addrs t)"
  by (cases t) (simp add: addrs_Rose)

lemma depth_kid: "t \<in> set ts \<Longrightarrow> depth (Rose p v ts) \<le> Suc n \<Longrightarrow> depth t \<le> n"
  by simp

lemma depth_pos: "0 < depth t"
  by (cases t) simp

lemma rose_at_nonnull: "rose_at h par t \<Longrightarrow> NULL \<notin> set (addrs t)"
  by (induction h par t rule: rose_at.induct) (auto simp: addrs_Rose)

lemma rose_at_frame:
  "rose_at h par t \<Longrightarrow> \<forall>p \<in> set (addrs t). h' p = h p \<Longrightarrow> rose_at h' par t"
  by (induction h par t rule: rose_at.induct) (auto simp: addrs_Rose)

lemma rose_at_root: "rose_at h par t \<Longrightarrow>
    r_addr t \<noteq> NULL \<and>
    h (r_addr t) = Some \<lparr>tn_value = r_val t, tn_children = map r_addr (r_kids t), tn_parent = par\<rparr>"
  by (cases t) simp

lemma rose_at_in: "rose_at h par t \<Longrightarrow> q \<in> set (addrs t) \<Longrightarrow> \<exists>e. q \<noteq> NULL \<and> h q = Some e"
  by (induction h par t rule: rose_at.induct) (auto simp: addrs_Rose)

lemma first_with_append:
  "NULL \<notin> fst ` set xs \<Longrightarrow>
   first_with v (xs @ ys) = (if first_with v xs \<noteq> NULL then first_with v xs else first_with v ys)"
  by (induction xs) (auto simp: first_with_def)

lemma addrs_conv: "fst ` set (preorder t) = set (addrs t)"
  by (simp add: addrs_def)

section \<open>Search\<close>

lemma find_children_spec:
  assumes "\<forall>t \<in> set ts. rose_at h p t"
    and "\<And>t. t \<in> set ts \<Longrightarrow> tree_find_child n h (r_addr t) v = Some (first_with v (preorder t))"
  shows "find_children n h (map r_addr ts) v = Some (first_with v (concat (map preorder ts)))"
  using assms
proof (induction ts)
  case (Cons t ts)
  obtain a x us where t: "t = Rose a x us" by (cases t)
  have nn: "NULL \<notin> fst ` set (preorder t)"
    using Cons.prems(1) rose_at_nonnull by (auto simp: addrs_conv)
  have f: "tree_find_child n h a v = Some (first_with v (preorder t))"
    using Cons.prems(2) [of t] t by simp
  have rd: "nrd h a = Some \<lparr>tn_value = x, tn_children = map r_addr us, tn_parent = p\<rparr>" "a \<noteq> 0"
    using Cons.prems(1) t by (auto simp: nrd_def)
  show ?case
    using Cons f rd t first_with_append [OF nn, of v "concat (map preorder ts)"]
    by (auto simp: first_with_def)
qed (simp add: first_with_def)

lemma tree_find_child_spec:
  "rose_at h par t \<Longrightarrow> depth t \<le> n \<Longrightarrow>
   tree_find_child n h (r_addr t) v = Some (first_with v (preorder t))"
proof (induction n arbitrary: par t)
  case 0
  then show ?case using depth_pos [of t] by simp
next
  case (Suc n)
  obtain a x us where t: "t = Rose a x us" by (cases t)
  have r: "\<forall>u \<in> set us. rose_at h a u" using Suc.prems t by simp
  have "find_children n h (map r_addr us) v = Some (first_with v (concat (map preorder us)))"
    using r Suc.IH [of a] depth_kid [of _ us a x n] Suc.prems(2) t
    by (intro find_children_spec [OF r]) auto
  then show ?case using Suc.prems(1) t by (simp add: nrd_def first_with_def)
qed

lemma tree_calculate_height_total:
  "rose_at h par t \<Longrightarrow> depth t \<le> n \<Longrightarrow>
   \<exists>tr'. tree_calculate_height n h tr (r_addr t) k = Some tr' \<and> t_head tr' = t_head tr \<and>
      t_height tr \<le> t_height tr'"
proof (induction n arbitrary: par t tr k)
  case 0
  then show ?case using depth_pos [of t] by simp
next
  case (Suc n)
  obtain a x us where t: "t = Rose a x us" by (cases t)
  have kids: "\<exists>tr'. height_children n h tr (map r_addr vs) k = Some tr' \<and> t_head tr' = t_head tr \<and>
      t_height tr \<le> t_height tr'" if "set vs \<subseteq> set us" for vs tr k
    using that
  proof (induction vs arbitrary: tr)
    case (Cons w vs)
    have "rose_at h a w" "depth w \<le> n" using Cons.prems Suc.prems t depth_kid by auto
    from Suc.IH [OF this, of tr k] obtain tr1 where
      1: "tree_calculate_height n h tr (r_addr w) k = Some tr1" "t_head tr1 = t_head tr"
        "t_height tr \<le> t_height tr1" by blast
    from Cons.IH [of tr1] Cons.prems obtain tr2 where
      "height_children n h tr1 (map r_addr vs) k = Some tr2" "t_head tr2 = t_head tr1"
        "t_height tr1 \<le> t_height tr2" by auto
    with 1 show ?case by auto
  qed simp
  from kids [of us tr "k + 1"] obtain tr1 where
    "height_children n h tr (map r_addr us) (k + 1) = Some tr1" "t_head tr1 = t_head tr"
      "t_height tr \<le> t_height tr1" by auto
  with Suc.prems t show ?case by (auto simp: nrd_def)
qed

section \<open>Insertion\<close>

lemma r_addr_graft [simp]: "r_addr (graft q n t) = r_addr t"
  by (cases t) simp

lemma graft_other: "q \<notin> set (addrs t) \<Longrightarrow> graft q n t = t"
  by (induction q n t rule: graft.induct) (auto simp: addrs_Rose map_idI)

lemma rose_at_graft:
  assumes "rose_at h par t" "distinct (addrs t)" "q \<in> set (addrs t)" "new \<notin> set (addrs t)"
    "new \<noteq> NULL" "h q = Some e"
    "h' = h(new \<mapsto> \<lparr>tn_value = val, tn_children = [], tn_parent = q\<rparr>,
            q \<mapsto> e\<lparr>tn_children := tn_children e @ [new]\<rparr>)"
  shows "rose_at h' par (graft q (Rose new val []) t)"
  using assms(1-4)
proof (induction t arbitrary: par)
  case (Rose p v ts)
  have fr: "rose_at h' p' t" if "rose_at h p' t" "q \<notin> set (addrs t)" "new \<notin> set (addrs t)" for p' t
    using that by (intro rose_at_frame [OF that(1)]) (auto simp: assms(7))
  show ?case
  proof (cases "p = q")
    case True
    then have nq: "q \<notin> set (addrs t)" if "t \<in> set ts" for t
      using Rose.prems(2) that by (auto simp: addrs_Rose)
    have kid: "rose_at h' q t \<and> graft q (Rose new val []) t = t" if "t \<in> set ts" for t
      using that Rose.prems nq [OF that] True fr [of q t] graft_other by (auto simp: addrs_Rose)
    have "map (graft q (Rose new val [])) ts = ts" using kid by (auto intro: map_idI)
    moreover have "h' new = Some \<lparr>tn_value = val, tn_children = [], tn_parent = q\<rparr>"
      "h' q = Some (e\<lparr>tn_children := tn_children e @ [new]\<rparr>)"
      using Rose.prems True by (auto simp: assms(7) addrs_Rose)
    ultimately show ?thesis using Rose.prems True kid assms(5,6) by (auto simp: addrs_Rose)
  next
    case False
    have kid: "rose_at h' p (graft q (Rose new val []) t)" if t: "t \<in> set ts" for t
    proof (cases "q \<in> set (addrs t)")
      case True
      then show ?thesis using Rose.IH [OF t, of p] Rose.prems t
        by (auto simp: addrs_Rose distinct_concat_iff)
    next
      case q: False
      then show ?thesis using Rose.prems t fr [of p t] by (auto simp: graft_other addrs_Rose)
    qed
    have "h' p = h p" using False Rose.prems(4) by (auto simp: assms(7) addrs_Rose)
    then show ?thesis using Rose.prems False kid by (auto simp: comp_def)
  qed
qed

lemma set_addrs_graft: "q \<in> set (addrs t) \<Longrightarrow> set (addrs (graft q n t)) = set (addrs t) \<union> set (addrs n)"
proof (induction q n t rule: graft.induct)
  case (1 q n p v ts)
  have "set (addrs (graft q n t)) = set (addrs t) \<union> (if q \<in> set (addrs t) then set (addrs n) else {})"
    if "t \<in> set ts" for t
    using 1 that graft_other [of q t n] by auto
  then show ?case using 1(2) by (auto simp: addrs_Rose split: if_splits)
qed

lemma distinct_concat_graft:
  assumes "\<And>t. t \<in> set ts \<Longrightarrow> distinct (addrs (f t))"
    and "\<And>t. t \<in> set ts \<Longrightarrow> set (addrs (f t)) = set (addrs t) \<union> (if q \<in> set (addrs t) then N else {})"
    and "distinct (concat (map addrs ts))" and "N \<inter> (\<Union>t \<in> set ts. set (addrs t)) = {}"
  shows "distinct (concat (map (addrs \<circ> f) ts))"
  using assms
proof (induction ts)
  case (Cons t ts)
  have *: "set (addrs (f u)) = set (addrs u) \<union> (if q \<in> set (addrs u) then N else {})"
    if "u \<in> set (t # ts)" for u using Cons.prems(2) that by blast
  have dj: "set (addrs (f t)) \<inter> set (addrs (f u)) = {}" if u: "u \<in> set ts" for u
  proof -
    have "set (addrs t) \<inter> set (addrs u) = {}" "N \<inter> set (addrs t) = {}" "N \<inter> set (addrs u) = {}"
      using u Cons.prems(3,4) by auto
    moreover have "set (addrs (f t)) = set (addrs t) \<union> (if q \<in> set (addrs t) then N else {})"
      "set (addrs (f u)) = set (addrs u) \<union> (if q \<in> set (addrs u) then N else {})"
      using * u by simp_all
    ultimately show ?thesis by (simp only:) auto
  qed
  have "distinct (concat (map (addrs \<circ> f) ts))" using Cons.prems by (intro Cons.IH) auto
  moreover have "distinct (addrs (f t))" using Cons.prems(1) by simp
  ultimately show ?case using dj by (auto simp: comp_def)
qed simp

lemma distinct_addrs_graft:
  "distinct (addrs t) \<Longrightarrow> distinct (addrs n) \<Longrightarrow> set (addrs t) \<inter> set (addrs n) = {} \<Longrightarrow>
   distinct (addrs (graft q n t))"
proof (induction t)
  case (Rose p v ts)
  have dt: "distinct (addrs (graft q n t))" if "t \<in> set ts" for t
    using Rose that by (auto simp: addrs_Rose distinct_concat_iff)
  have st: "set (addrs (graft q n t)) = set (addrs t) \<union> (if q \<in> set (addrs t) then set (addrs n) else {})"
    for t using graft_other [of q t n] set_addrs_graft [of q t n] by auto
  have "distinct (concat (map (addrs \<circ> graft q n) ts))"
    using dt st Rose.prems by (intro distinct_concat_graft) (auto simp: addrs_Rose)
  moreover have "set (concat (map (addrs \<circ> graft q n) ts)) \<inter> set (addrs n) = {}" if "p = q"
    using Rose.prems that by (auto simp: addrs_Rose st)
  ultimately show ?case using Rose.prems
    by (auto simp: addrs_Rose st comp_def split: if_splits)
qed

lemma height_to_root_total:
  assumes "rose_at h par t" "\<And>k. \<exists>m. height_to_root h root (r_addr t) k = Some (Some m)"
    "q \<in> set (addrs t)"
  shows "\<exists>m. height_to_root h root q k = Some (Some m)"
  using assms
proof (induction h par t arbitrary: k rule: rose_at.induct)
  case (1 h par p v ts)
  show ?case
  proof (cases "q = p")
    case True
    then show ?thesis using 1(3) by simp
  next
    case False
    then obtain t where t: "t \<in> set ts" "q \<in> set (addrs t)" using 1(4) by (auto simp: addrs_Rose)
    have r: "rose_at h p t" using 1(2) t by simp
    have "\<exists>m. height_to_root h root (r_addr t) k = Some (Some m)" for k
      using rose_at_root [OF r] 1(3) by (subst height_to_root.simps) (auto simp: nrd_def)
    then show ?thesis using 1(1) [OF t(1) r _ t(2)] by blast
  qed
qed

lemma tree_insert_child_repr:
  assumes r: "tree_repr h t r" and q: "q \<in> set (addrs r)" and new: "new \<notin> set (addrs r)" "new \<noteq> NULL"
  shows "\<exists>h' t'. tree_insert_child n h t q val new = Some (h', t', [], []) \<and>
    tree_repr h' t' (graft q (Rose new val []) r) \<and> t_height t \<le> t_height t' \<and>
    (\<forall>p. p \<notin> insert new (set (addrs r)) \<longrightarrow> h' p = h p)"
proof -
  have d: "t_head t = r_addr r" "rose_at h NULL r" "distinct (addrs r)" using r by (auto simp: tree_repr_def)
  obtain e where e: "h q = Some e" "q \<noteq> NULL" using rose_at_in [OF d(2) q] by auto
  define h' where "h' = h(new \<mapsto> \<lparr>tn_value = val, tn_children = [], tn_parent = q\<rparr>,
            q \<mapsto> e\<lparr>tn_children := tn_children e @ [new]\<rparr>)"
  let ?r = "graft q (Rose new val []) r"
  have ra: "rose_at h' NULL ?r" using rose_at_graft [OF d(2,3) q new e(1) h'_def] .
  have dist: "distinct (addrs ?r)" using d(3) new by (intro distinct_addrs_graft) (auto simp: addrs_Rose)
  have qr: "q \<in> set (addrs ?r)" using q by (simp add: set_addrs_graft)
  have "\<exists>m. height_to_root h' (r_addr r) (r_addr ?r) k = Some (Some m)" for k
    using rose_at_root [OF ra] by (subst height_to_root.simps) simp
  then obtain m where m: "height_to_root h' (r_addr r) q 0 = Some (Some m)"
    using height_to_root_total [OF ra _ qr, of "r_addr r" 0] by auto
  have nn: "r_addr r \<noteq> NULL" using rose_at_root [OF d(2)] by simp
  have nq: "new \<noteq> q" using new(1) q by auto
  have "tree_insert_child n h t q val new =
    Some (h', if t_height t < to_size m then t\<lparr>t_height := to_size m\<rparr> else t, [], [])"
    using e nn nq new m d(1) by (simp add: tree_insert_child_def nrd_def h'_def fun_upd_twist)
  moreover have "h' p = h p" if "p \<notin> insert new (set (addrs r))" for p
    using that q by (auto simp: h'_def)
  ultimately show ?thesis using ra dist d(1) by (auto simp: tree_repr_def)
qed

section \<open>Removal\<close>

lemma r_addr_prune [simp]: "r_addr (prune q t) = r_addr t"
  by (cases t) simp

lemma prune_other: "q \<notin> set (addrs t) \<Longrightarrow> prune q t = t"
proof (induction q t rule: prune.induct)
  case (1 q p v ts)
  have k: "prune q t = t \<and> r_addr t \<noteq> q" if t: "t \<in> set ts" for t
  proof -
    have "q \<notin> set (addrs t)" using 1(2) t by (auto simp: addrs_Rose)
    moreover from this have "r_addr t \<noteq> q" using r_addr_in [of t] by auto
    ultimately show ?thesis using 1(1) t by simp
  qed
  then have "filter (\<lambda>t. r_addr t \<noteq> q) ts = ts" by (simp add: filter_id_conv)
  then show ?case using k by (auto intro: map_idI)
qed

lemma depth_prune: "depth (prune q t) \<le> depth t"
proof (induction q t rule: prune.induct)
  case (1 q p v ts)
  have "depth (prune q t) \<le> Max (insert 0 (depth ` set ts))" if "t \<in> set ts" "r_addr t \<noteq> q" for t
    using 1 [of t] that by (auto intro: order_trans Max_ge)
  then show ?case by (auto intro!: Max.boundedI)
qed

lemma remove1_map_filter:
  "distinct (map f ts) \<Longrightarrow> remove1 q (map f ts) = map f (filter (\<lambda>t. f t \<noteq> q) ts)"
proof (induction ts)
  case (Cons t ts)
  have "filter (\<lambda>t. f t \<noteq> q) ts = ts" if "f t = q"
    using Cons.prems that by (simp add: filter_id_conv image_iff) metis
  then show ?case using Cons by auto
qed simp

lemma distinct_roots: "distinct (concat (map addrs ts)) \<Longrightarrow> distinct (map r_addr ts)"
proof (induction ts)
  case (Cons t ts)
  have "r_addr t \<noteq> r_addr u" if "u \<in> set ts" for u
  proof
    assume "r_addr t = r_addr u"
    then have "r_addr t \<in> set (addrs t) \<inter> set (addrs u)"
      using r_addr_in [of t] r_addr_in [of u] by simp
    moreover have "set (addrs t) \<inter> set (addrs u) = {}" using Cons.prems that by auto
    ultimately show False by blast
  qed
  then show ?case using Cons by auto
qed simp

lemma set_addrs_prune: "set (addrs (prune q t)) \<subseteq> set (addrs t)"
  by (induction q t rule: prune.induct) (auto simp: addrs_Rose)

lemma distinct_addrs_prune: "distinct (addrs t) \<Longrightarrow> distinct (addrs (prune q t))"
proof (induction t)
  case (Rose p v ts)
  have "distinct (concat (map (addrs \<circ> prune q) us))"
    if "set us \<subseteq> set ts" "distinct (concat (map addrs us))" for us
    using that
  proof (induction us)
    case (Cons u us)
    have "distinct (addrs (prune q u))" using Rose Cons.prems by (auto simp: addrs_Rose)
    moreover have "set (addrs (prune q u)) \<inter> set (addrs (prune q w)) = {}" if "w \<in> set us" for w
      using Cons.prems(2) that set_addrs_prune [of q u] set_addrs_prune [of q w] by auto
    ultimately show ?case using Cons by auto
  qed simp
  moreover have "distinct (concat (map addrs (filter P us)))" if "distinct (concat (map addrs us))" for P us
    using that by (induction us) auto
  ultimately have "distinct (concat (map (addrs \<circ> prune q) (filter (\<lambda>t. r_addr t \<noteq> q) ts)))"
    using Rose.prems by (auto simp: addrs_Rose)
  moreover have "p \<notin> set (concat (map (addrs \<circ> prune q) (filter (\<lambda>t. r_addr t \<noteq> q) ts)))"
    using Rose.prems subsetD [OF set_addrs_prune [of q]] by (auto simp: addrs_Rose)
  ultimately show ?case by (simp add: addrs_Rose comp_def)
qed

lemma distinct_concat_disjoint:
  "distinct (concat (map f ts)) \<Longrightarrow> u \<in> set ts \<Longrightarrow> w \<in> set ts \<Longrightarrow> u \<noteq> w \<Longrightarrow> set (f u) \<inter> set (f w) = {}"
  by (induction ts) (simp, fastforce)

lemma parent_in:
  "rose_at h par t \<Longrightarrow> q \<in> set (addrs t) \<Longrightarrow> q \<noteq> r_addr t \<Longrightarrow> h q = Some e \<Longrightarrow>
   tn_parent e \<in> set (addrs t) \<and> tn_parent e \<noteq> q"
proof (induction h par t rule: rose_at.induct)
  case (1 h par p v ts)
  then obtain u where u: "u \<in> set ts" "q \<in> set (addrs u)" by (auto simp: addrs_Rose)
  have r: "rose_at h p u" using 1 u by simp
  show ?case
  proof (cases "q = r_addr u")
    case True
    then have "tn_parent e = p" using rose_at_root [OF r] 1(5) by auto
    then show ?thesis using 1(4) by (simp add: addrs_Rose)
  next
    case False
    then show ?thesis using 1(1) [OF u(1) r u(2) False 1(5)] u by (auto simp: addrs_Rose)
  qed
qed

lemma rose_at_prune:
  assumes "rose_at h par t" "distinct (addrs t)" "q \<in> set (addrs t)" "q \<noteq> r_addr t"
    "h q = Some e" "h (tn_parent e) = Some pe"
    "h' = h(tn_parent e \<mapsto> pe\<lparr>tn_children := remove1 q (tn_children pe)\<rparr>, q \<mapsto> e\<lparr>tn_parent := NULL\<rparr>)"
  shows "rose_at h' par (prune q t)"
  using assms(1-4)
proof (induction t arbitrary: par)
  case (Rose p v ts)
  have fr: "rose_at h' p u" if "rose_at h p u" "q \<notin> set (addrs u)" "tn_parent e \<notin> set (addrs u)" for u
    using that(2,3) by (intro rose_at_frame [OF that(1)]) (auto simp: assms(7))
  have kid: "rose_at h p u" "p \<notin> set (addrs u)" "distinct (addrs u)" if "u \<in> set ts" for u
    using Rose.prems that by (auto simp: addrs_Rose distinct_concat_iff)
  have dj: "set (addrs u) \<inter> set (addrs w) = {}" if "u \<in> set ts" "w \<in> set ts" "u \<noteq> w" for u w
    using Rose.prems(2) that by (intro distinct_concat_disjoint [of addrs ts]) (simp_all add: addrs_Rose)
  have dr: "distinct (map r_addr ts)" using Rose.prems(2) by (intro distinct_roots) (simp add: addrs_Rose)
  have pq: "p \<noteq> q" using Rose.prems(4) by simp
  obtain u where u: "u \<in> set ts" "q \<in> set (addrs u)" using Rose.prems(3) pq by (auto simp: addrs_Rose)
  have other: "q \<notin> set (addrs w)" if "w \<in> set ts" "w \<noteq> u" for w using dj [of u w] that u by auto
  show ?case
  proof (cases "q = r_addr u")
    case True
    then have par: "tn_parent e = p" using rose_at_root [OF kid(1) [OF u(1)]] assms(5) by auto
    have "h' p = Some \<lparr>tn_value = v, tn_children = map r_addr (filter (\<lambda>t. r_addr t \<noteq> q) ts), tn_parent = par\<rparr>"
      using Rose.prems(1) par pq assms(6) by (auto simp: assms(7) remove1_map_filter [OF dr])
    moreover have "rose_at h' p (prune q w)" if w: "w \<in> set ts" "r_addr w \<noteq> q" for w
    proof -
      have "q \<notin> set (addrs w)" using other [of w] w True by auto
      then show ?thesis using kid [OF w(1)] par fr [of w] by (simp add: prune_other)
    qed
    ultimately show ?thesis using Rose.prems(1) by (auto simp: comp_def)
  next
    case False
    have pin: "tn_parent e \<in> set (addrs u)" using parent_in [OF kid(1) [OF u(1)] u(2) False assms(5)] by simp
    have "r_addr w \<noteq> q" if "w \<in> set ts" for w
      using other [OF that] False r_addr_in [of w] by metis
    then have flt: "filter (\<lambda>t. r_addr t \<noteq> q) ts = ts" by (simp add: filter_id_conv)
    have "rose_at h' p (prune q w)" if w: "w \<in> set ts" for w
    proof (cases "w = u")
      case True
      then show ?thesis using Rose.IH [OF u(1) kid(1) [OF u(1)] kid(3) [OF u(1)] u(2) False] by simp
    next
      case wu: False
      then have "tn_parent e \<notin> set (addrs w)" using dj [of u w] w u(1) pin by auto
      then show ?thesis using fr [OF kid(1) [OF w]] other [OF w wu] by (simp add: prune_other)
    qed
    moreover have "h' p = h p" using pin kid(2) [OF u(1)] pq by (auto simp: assms(7))
    ultimately show ?thesis using Rose.prems(1) flt by (auto simp: comp_def)
  qed
qed

lemma tree_remove_repr:
  assumes r: "tree_repr h t r" and q: "q \<in> set (addrs r)" "q \<noteq> r_addr r" and n: "depth r \<le> n"
  shows "\<exists>h' t'. tree_remove n h t q = Some (h', t') \<and> tree_repr h' t' (prune q r)"
proof -
  have d: "t_head t = r_addr r" "rose_at h NULL r" "distinct (addrs r)" using r by (auto simp: tree_repr_def)
  obtain e where e: "h q = Some e" "q \<noteq> NULL" using rose_at_in [OF d(2) q(1)] by auto
  have np: "tn_parent e \<in> set (addrs r)" "tn_parent e \<noteq> q" using parent_in [OF d(2) q e(1)] by auto
  from rose_at_in [OF d(2) np(1)] obtain pe where pe: "h (tn_parent e) = Some pe" "tn_parent e \<noteq> NULL" by auto
  define h' where "h' = h(tn_parent e \<mapsto> pe\<lparr>tn_children := remove1 q (tn_children pe)\<rparr>,
    q \<mapsto> e\<lparr>tn_parent := NULL\<rparr>)"
  have ra: "rose_at h' NULL (prune q r)" using rose_at_prune [OF d(2,3) q e(1) pe(1) h'_def] .
  have dp: "depth (prune q r) \<le> n" using depth_prune [of q r] n by simp
  from tree_calculate_height_total [OF ra dp, of t 0] obtain t' where
    t': "tree_calculate_height n h' t (r_addr r) 0 = Some t'" "t_head t' = t_head t" by auto
  have "tree_remove n h t q = Some (h', t')"
    using e pe np t' d(1) by (simp add: tree_remove_def nrd_def h'_def)
  then show ?thesis using ra distinct_addrs_prune [OF d(3), of q] t'(2) d(1) by (auto simp: tree_repr_def)
qed

section \<open>Release of a whole tree\<close>

lemma destroy_children_total:
  assumes "\<And>u. u \<in> set us \<Longrightarrow> \<exists>ns vs. tree_destroy_node n h (r_addr u) = Some (ns, vs) \<and>
      set ns = set (addrs u) \<and> set vs = snd ` set (preorder u)"
  shows "\<exists>ns vs. destroy_children n h (map r_addr us) = Some (ns, vs) \<and>
      set ns = (\<Union>u \<in> set us. set (addrs u)) \<and> set vs = (\<Union>u \<in> set us. snd ` set (preorder u))"
  using assms
proof (induction us)
  case (Cons u us)
  from Cons.prems [of u] obtain ns1 vs1 where 1: "tree_destroy_node n h (r_addr u) = Some (ns1, vs1)"
    "set ns1 = set (addrs u)" "set vs1 = snd ` set (preorder u)" by auto
  from Cons obtain ns2 vs2 where 2: "destroy_children n h (map r_addr us) = Some (ns2, vs2)"
    "set ns2 = (\<Union>u \<in> set us. set (addrs u))" "set vs2 = (\<Union>u \<in> set us. snd ` set (preorder u))" by auto
  show ?case by (rule exI [of _ "ns1 @ ns2"], rule exI [of _ "vs1 @ vs2"]) (simp add: 1 2)
qed simp

lemma tree_destroy_node_total:
  "rose_at h par t \<Longrightarrow> depth t \<le> n \<Longrightarrow>
   \<exists>ns vs. tree_destroy_node n h (r_addr t) = Some (ns, vs) \<and>
     set ns = set (addrs t) \<and> set vs = snd ` set (preorder t)"
proof (induction n arbitrary: par t)
  case 0
  then show ?case using depth_pos [of t] by simp
next
  case (Suc n)
  obtain a x us where t: "t = Rose a x us" by (cases t)
  have "\<exists>ns vs. tree_destroy_node n h (r_addr u) = Some (ns, vs) \<and>
      set ns = set (addrs u) \<and> set vs = snd ` set (preorder u)" if "u \<in> set us" for u
    using Suc.IH [of a u] Suc.prems that t depth_kid [of u us a x n] by auto
  from destroy_children_total [of us n h, OF this] obtain ns vs where
    k: "destroy_children n h (map r_addr us) = Some (ns, vs)"
      "set ns = (\<Union>u \<in> set us. set (addrs u))" "set vs = (\<Union>u \<in> set us. snd ` set (preorder u))" by auto
  have nd: "nrd h a = Some \<lparr>tn_value = x, tn_children = map r_addr us, tn_parent = par\<rparr>" "a \<noteq> NULL"
    using Suc.prems(1) t by (auto simp: nrd_def)
  show ?case
    by (rule exI [of _ "ns @ [a]"], rule exI [of _ "vs @ [x]"])
      (simp add: t nd k addrs_Rose image_UN)
qed

section \<open>Positions\<close>

lemma first_with_in:
  "first_with v xs \<noteq> NULL \<Longrightarrow> first_with v xs \<in> fst ` set xs"
  by (induction xs) (auto simp: first_with_def split: option.splits if_splits)

lemma find_in_tree:
  assumes "tree_repr h t r" "depth r \<le> n"
  shows "tree_find_child_root n h t v = Some (first_with v (preorder r))"
  using assms tree_find_child_spec [of h NULL r n v] by (simp add: tree_find_child_root_def tree_repr_def)

fun subtrees :: "rose \<Rightarrow> rose list" where
  "subtrees (Rose p v ts) = Rose p v ts # concat (map subtrees ts)"

lemma subtrees_preorder: "map (\<lambda>t. (r_addr t, r_val t)) (subtrees t) = preorder t"
proof (induction t)
  case (Rose p v ts)
  have "map (\<lambda>t. (r_addr t, r_val t)) (concat (map subtrees ts)) = concat (map preorder ts)"
    using Rose.IH by (simp add: map_concat) (rule arg_cong [of _ _ concat], simp)
  then show ?case by simp
qed

lemma subtrees_rose_at: "rose_at h par t \<Longrightarrow> u \<in> set (subtrees t) \<Longrightarrow> \<exists>q. rose_at h q u"
proof (induction t arbitrary: par)
  case (Rose p v ts)
  show ?case
  proof (cases "u = Rose p v ts")
    case False
    then obtain t where t: "t \<in> set ts" "u \<in> set (subtrees t)" using Rose.prems(2) by auto
    then have "rose_at h p t" using Rose.prems(1) by simp
    then show ?thesis by (rule Rose.IH [OF t(1) _ t(2)])
  qed (use Rose.prems(1) in blast)
qed

lemma subtrees_depth: "u \<in> set (subtrees t) \<Longrightarrow> depth u \<le> depth t"
proof (induction t)
  case (Rose p v ts)
  show ?case
  proof (cases "u = Rose p v ts")
    case False
    then obtain t where t: "t \<in> set ts" "u \<in> set (subtrees t)" using Rose.prems by auto
    have "depth t \<le> Max (set (0 # map depth ts))" using t(1) by (intro Max_ge) auto
    then show ?thesis using Rose.IH [OF t] by simp
  qed simp
qed

definition first_subtree :: "ptr \<Rightarrow> rose \<Rightarrow> rose option" where
  "first_subtree v r = List.find (\<lambda>t. r_val t = v) (subtrees r)"

lemma first_subtree_addr:
  "first_with v (preorder r) = (case first_subtree v r of None \<Rightarrow> NULL | Some t \<Rightarrow> r_addr t)"
proof -
  have "(case find (\<lambda>(a, w). w = v) (map (\<lambda>t. (r_addr t, r_val t)) ts) of None \<Rightarrow> NULL | Some (a, w) \<Rightarrow> a) =
    (case find (\<lambda>t. r_val t = v) ts of None \<Rightarrow> NULL | Some t \<Rightarrow> r_addr t)" for ts
    by (induction ts) auto
  then show ?thesis by (simp add: first_with_def first_subtree_def flip: subtrees_preorder)
qed

section \<open>Properties\<close>

definition demo_tree_heap :: theap where
  "demo_tree_heap =
     [16 \<mapsto> \<lparr>tn_value = 1, tn_children = [32, 48], tn_parent = 0\<rparr>,
      32 \<mapsto> \<lparr>tn_value = 2, tn_children = [], tn_parent = 16\<rparr>,
      48 \<mapsto> \<lparr>tn_value = 3, tn_children = [], tn_parent = 16\<rparr>]"

definition demo_rose :: rose where
  "demo_rose = Rose 16 1 [Rose 32 2 [], Rose 48 3 []]"

definition demo_tree :: tree_t where
  "demo_tree = \<lparr>t_head = 16, t_height = 1\<rparr>"

lemma demo_rose_facts:
  "tree_repr demo_tree_heap demo_tree demo_rose" "addrs demo_rose = [16, 32, 48]"
  "r_addr demo_rose = 16" "depth demo_rose = 2"
  by (simp_all add: tree_repr_def demo_tree_heap_def demo_tree_def demo_rose_def addrs_def)

text \<open>\<^verbatim>\<open>tree_find_child_root\<close> is a preorder search: on a well-formed tree it terminates without
  a fault and returns the first node, in preorder, that holds the value, and \<^verbatim>\<open>NULL\<close> exactly when
  no node holds it.\<close>

theorem tree_find_child_root_preorder:
  assumes "tree_repr h t r" "depth r \<le> n"
  shows "tree_find_child_root n h t v = Some (first_with v (preorder r)) \<and>
    (first_with v (preorder r) = NULL \<longleftrightarrow> v \<notin> snd ` set (preorder r))"
proof
  show "tree_find_child_root n h t v = Some (first_with v (preorder r))"
    using assms tree_find_child_spec [of h NULL r n v]
    by (simp add: tree_find_child_root_def tree_repr_def)
  have "NULL \<notin> fst ` set (preorder r)"
    using assms(1) rose_at_nonnull [of h NULL r] by (simp add: addrs_conv tree_repr_def)
  then have "first_with v xs = NULL \<longleftrightarrow> v \<notin> snd ` set xs" if "set xs \<subseteq> set (preorder r)" for xs
    using that by (induction xs) (auto simp: first_with_def image_iff split: option.splits)
  then show "first_with v (preorder r) = NULL \<longleftrightarrow> v \<notin> snd ` set (preorder r)" by simp
qed

theorem tree_find_child_root_preorder_witness:
  "tree_find_child_root 2 demo_tree_heap demo_tree 3 = Some 48"
  using tree_find_child_root_preorder [OF demo_rose_facts(1), of 2 3]
  by (simp add: demo_rose_facts) (simp add: demo_rose_def first_with_def)

text \<open>C37. \<^verbatim>\<open>tree_insert_child\<close> below a node of the tree refines grafting: the new node becomes the
  last child of that node, every other node keeps its value, parent and children, nothing is
  freed, no store cell outside the tree changes and the recorded height never shrinks.\<close>

theorem tree_insert_child_refines_graft:
  assumes "tree_repr h t r" "q \<in> set (addrs r)" "new \<notin> set (addrs r)" "new \<noteq> NULL"
  shows "\<exists>h' t'. tree_insert_child n h t q val new = Some (h', t', [], []) \<and>
    tree_repr h' t' (graft q (Rose new val []) r) \<and> t_height t \<le> t_height t' \<and>
    (\<forall>p. p \<notin> insert new (set (addrs r)) \<longrightarrow> h' p = h p)"
  using assms by (rule tree_insert_child_repr)

theorem tree_insert_child_refines_graft_witness:
  "\<exists>h' t'. tree_insert_child 9 demo_tree_heap demo_tree 32 7 64 = Some (h', t', [], []) \<and>
    tree_repr h' t' (Rose 16 1 [Rose 32 2 [Rose 64 7 []], Rose 48 3 []])"
  using tree_insert_child_refines_graft [OF demo_rose_facts(1), of 32 64 9 7]
  by (auto simp: demo_rose_facts(2)) (simp add: demo_rose_def)

text \<open>C38. \<^verbatim>\<open>tree_remove\<close> of a node other than the root refines pruning: exactly the subtree at
  that node leaves the tree and the rest keeps its shape and order.\<close>

theorem tree_remove_refines_prune:
  assumes "tree_repr h t r" "q \<in> set (addrs r)" "q \<noteq> r_addr r" "depth r \<le> n"
  shows "\<exists>h' t'. tree_remove n h t q = Some (h', t') \<and> tree_repr h' t' (prune q r)"
  using assms by (rule tree_remove_repr)

theorem tree_remove_refines_prune_witness:
  "\<exists>h' t'. tree_remove 2 demo_tree_heap demo_tree 32 = Some (h', t') \<and>
    tree_repr h' t' (Rose 16 1 [Rose 48 3 []])"
  using tree_remove_refines_prune [OF demo_rose_facts(1), of 32 2]
  by (auto simp: demo_rose_facts(2-4)) (simp add: demo_rose_def)


end
