(* ===== verification/Cstring.thy ===== *)
theory Cstring
  imports Prelude
begin

text \<open>
  The string and memory routines of \<^verbatim>\<open>libc/string\<close>, on a byte-addressed memory, so that overlapping
  and aliased buffers behave as they do in C. An access to \<^verbatim>\<open>NULL\<close> or to an address outside the
  memory is \<open>None\<close>; a scan that never meets a terminator has no result either. The theorems relate the routines to
  the byte strings stored in memory (\<open>cstr_at\<close>).
\<close>

section \<open>Memory\<close>

type_synonym mem = "ptr \<rightharpoonup> u8"

definition rdb :: "mem \<Rightarrow> ptr \<Rightarrow> u8 option" where
  "rdb m p = (if p = NULL then None else m p)"

definition wrb :: "mem \<Rightarrow> ptr \<Rightarrow> u8 \<Rightarrow> mem option" where
  "wrb m p b = (if p = NULL \<or> m p = None then None else Some (m(p \<mapsto> b)))"

section \<open>Memory routines\<close>

fun memcpy_loop :: "nat \<Rightarrow> mem \<Rightarrow> ptr \<Rightarrow> ptr \<Rightarrow> mem option" where
  "memcpy_loop 0 m dst src = Some m"
| "memcpy_loop (Suc k) m dst src = do {
     b \<leftarrow> rdb m src;
     m1 \<leftarrow> wrb m dst b;
     memcpy_loop k m1 (dst + 1) (src + 1)
   }"

definition memcpy :: "mem \<Rightarrow> ptr \<Rightarrow> ptr \<Rightarrow> u64 \<Rightarrow> mem option" where
  "memcpy m dst src n = memcpy_loop (unat n) m dst src"

fun memmove_down :: "nat \<Rightarrow> mem \<Rightarrow> ptr \<Rightarrow> ptr \<Rightarrow> mem option" where
  \<comment> \<open>\<^verbatim>\<open>for (size_t i = size; i != 0; i--) dst[i-1] = src[i-1]\<close>\<close>
  "memmove_down 0 m dst src = Some m"
| "memmove_down (Suc k) m dst src = do {
     b \<leftarrow> rdb m (src + of_nat k);
     m1 \<leftarrow> wrb m (dst + of_nat k) b;
     memmove_down k m1 dst src
   }"

definition memmove :: "mem \<Rightarrow> ptr \<Rightarrow> ptr \<Rightarrow> u64 \<Rightarrow> mem option" where
  "memmove m dst src n =
     (if dst < src then memcpy_loop (unat n) m dst src else memmove_down (unat n) m dst src)"

fun memset_loop :: "nat \<Rightarrow> mem \<Rightarrow> ptr \<Rightarrow> u8 \<Rightarrow> mem option" where
  "memset_loop 0 m buf v = Some m"
| "memset_loop (Suc k) m buf v = do { m1 \<leftarrow> wrb m buf v; memset_loop k m1 (buf + 1) v }"

definition memset :: "mem \<Rightarrow> ptr \<Rightarrow> int \<Rightarrow> u64 \<Rightarrow> mem option" where
  "memset m buf v n = memset_loop (unat n) m buf (word_of_int v)"

fun memcmp_loop :: "nat \<Rightarrow> mem \<Rightarrow> ptr \<Rightarrow> ptr \<Rightarrow> int option" where
  "memcmp_loop 0 m a b = Some 0"
| "memcmp_loop (Suc k) m a b = do {
     x \<leftarrow> rdb m a;
     y \<leftarrow> rdb m b;
     if x < y then Some (-1) else if y < x then Some 1 else memcmp_loop k m (a + 1) (b + 1)
   }"

definition memcmp :: "mem \<Rightarrow> ptr \<Rightarrow> ptr \<Rightarrow> u64 \<Rightarrow> int option" where
  "memcmp m a b n = memcmp_loop (unat n) m a b"

fun memchr_loop :: "nat \<Rightarrow> mem \<Rightarrow> ptr \<Rightarrow> u8 \<Rightarrow> ptr option" where
  "memchr_loop 0 m p ch = Some NULL"
| "memchr_loop (Suc k) m p ch = do { b \<leftarrow> rdb m p; if b = ch then Some p else memchr_loop k m (p + 1) ch }"

definition memchr :: "mem \<Rightarrow> ptr \<Rightarrow> int \<Rightarrow> u64 \<Rightarrow> ptr option" where
  "memchr m s c n = memchr_loop (unat n) m s (word_of_int c)"

section \<open>String routines\<close>

partial_function (option) strlen_loop :: "mem \<Rightarrow> ptr \<Rightarrow> u64 \<Rightarrow> u64 option" where
  "strlen_loop m str len = do {
     c \<leftarrow> rdb m (str + len);
     if c = 0 then Some len else strlen_loop m str (len + 1)
   }"

definition strlen :: "mem \<Rightarrow> ptr \<Rightarrow> u64 option" where
  "strlen m str = strlen_loop m str 0"

definition strdup :: "mem \<Rightarrow> ptr \<Rightarrow> ptr \<Rightarrow> (ptr \<times> mem) option" where
  \<comment> \<open>\<open>new\<close> is what \<^verbatim>\<open>malloc(len + 1)\<close> returned\<close>
  "strdup m str new = do {
     len \<leftarrow> strlen m str;
     m1 \<leftarrow> memcpy m new str (len + 1);
     Some (new, m1)
   }"

partial_function (option) strcpy_loop :: "mem \<Rightarrow> ptr \<Rightarrow> ptr \<Rightarrow> mem option" where
  "strcpy_loop m dest src = do {
     c \<leftarrow> rdb m src;
     if c = 0 then wrb m dest 0
     else do { m1 \<leftarrow> wrb m dest c; strcpy_loop m1 (dest + 1) (src + 1) }
   }"

definition strcpy :: "mem \<Rightarrow> ptr \<Rightarrow> ptr \<Rightarrow> (ptr \<times> mem) option" where
  "strcpy m dest src =
     (if dest = NULL \<or> src = NULL then Some (NULL, m)
      else do { m1 \<leftarrow> strcpy_loop m dest src; Some (dest, m1) })"

fun strncpy_loop :: "nat \<Rightarrow> mem \<Rightarrow> ptr \<Rightarrow> ptr \<Rightarrow> mem option" where
  \<comment> \<open>\<open>k\<close> is \<^verbatim>\<open>n - i\<close>; the second loop of \<^verbatim>\<open>strncpy\<close> pads with zeros\<close>
  "strncpy_loop 0 m dest src = Some m"
| "strncpy_loop (Suc k) m dest src = do {
     c \<leftarrow> rdb m src;
     if c = 0 then memset_loop (Suc k) m dest 0
     else do { m1 \<leftarrow> wrb m dest c; strncpy_loop k m1 (dest + 1) (src + 1) }
   }"

definition strncpy :: "mem \<Rightarrow> ptr \<Rightarrow> ptr \<Rightarrow> u64 \<Rightarrow> (ptr \<times> mem) option" where
  "strncpy m dest src n =
     (if dest = NULL \<or> src = NULL then Some (NULL, m)
      else do { m1 \<leftarrow> strncpy_loop (unat n) m dest src; Some (dest, m1) })"

partial_function (option) strend :: "mem \<Rightarrow> ptr \<Rightarrow> ptr option" where
  \<comment> \<open>\<^verbatim>\<open>while (*dest) dest++;\<close>\<close>
  "strend m dest = do { c \<leftarrow> rdb m dest; if c = 0 then Some dest else strend m (dest + 1) }"

definition strcat :: "mem \<Rightarrow> ptr \<Rightarrow> ptr \<Rightarrow> (ptr \<times> mem) option" where
  "strcat m dest src =
     (if dest = NULL \<or> src = NULL then Some (NULL, m)
      else do { e \<leftarrow> strend m dest; m1 \<leftarrow> strcpy_loop m e src; Some (dest, m1) })"

fun strncat_loop :: "nat \<Rightarrow> mem \<Rightarrow> ptr \<Rightarrow> ptr \<Rightarrow> mem option" where
  "strncat_loop 0 m dest src = wrb m dest 0"
| "strncat_loop (Suc k) m dest src = do {
     c \<leftarrow> rdb m src;
     if c = 0 then wrb m dest 0
     else do { m1 \<leftarrow> wrb m dest c; strncat_loop k m1 (dest + 1) (src + 1) }
   }"

definition strncat :: "mem \<Rightarrow> ptr \<Rightarrow> ptr \<Rightarrow> u64 \<Rightarrow> (ptr \<times> mem) option" where
  "strncat m dest src n =
     (if dest = NULL \<or> src = NULL then Some (NULL, m)
      else do { e \<leftarrow> strend m dest; m1 \<leftarrow> strncat_loop (unat n) m e src; Some (dest, m1) })"

partial_function (option) strcmp_loop :: "mem \<Rightarrow> ptr \<Rightarrow> ptr \<Rightarrow> int option" where
  "strcmp_loop m s1 s2 = do {
     c1 \<leftarrow> rdb m s1;
     c2 \<leftarrow> rdb m s2;
     if c1 \<noteq> 0 \<and> c1 = c2 then strcmp_loop m (s1 + 1) (s2 + 1) else Some (uint c1 - uint c2)
   }"

definition strcmp :: "mem \<Rightarrow> ptr \<Rightarrow> ptr \<Rightarrow> int option" where
  "strcmp m s1 s2 =
     (if s1 = NULL \<or> s2 = NULL then
        (if s1 = NULL \<and> s2 = NULL then Some 0 else if s2 = NULL then Some (-1) else Some 1)
      else strcmp_loop m s1 s2)"

fun strncmp_loop :: "nat \<Rightarrow> mem \<Rightarrow> ptr \<Rightarrow> ptr \<Rightarrow> int option" where
  \<comment> \<open>the first argument is \<^verbatim>\<open>n\<close> before the decrement; it is not 0 when the loop is reached\<close>
  "strncmp_loop 0 m s1 s2 = None"
| "strncmp_loop (Suc k) m s1 s2 = do {
     c1 \<leftarrow> rdb m s1;
     c2 \<leftarrow> rdb m s2;
     if k \<noteq> 0 \<and> c1 \<noteq> 0 \<and> c1 = c2 then strncmp_loop k m (s1 + 1) (s2 + 1)
     else Some (uint c1 - uint c2)
   }"

definition strncmp :: "mem \<Rightarrow> ptr \<Rightarrow> ptr \<Rightarrow> u64 \<Rightarrow> int option" where
  "strncmp m s1 s2 n =
     (if s1 = NULL \<or> s2 = NULL then Some (to_int (s1 - s2))
      else if n = 0 then Some 0 else strncmp_loop (unat n) m s1 s2)"

partial_function (option) strchr_loop :: "mem \<Rightarrow> ptr \<Rightarrow> u8 \<Rightarrow> ptr option" where
  "strchr_loop m s c = do {
     b \<leftarrow> rdb m s;
     if b = c then Some s else if b = 0 then Some NULL else strchr_loop m (s + 1) c
   }"

definition strchr :: "mem \<Rightarrow> ptr \<Rightarrow> int \<Rightarrow> ptr option" where
  "strchr m s c = (if s = NULL then Some NULL else strchr_loop m s (word_of_int c))"

partial_function (option) in_string :: "mem \<Rightarrow> u8 \<Rightarrow> ptr \<Rightarrow> bool option" where
  \<comment> \<open>the inner loops of \<^verbatim>\<open>strspn\<close> and \<^verbatim>\<open>strcspn\<close>: does the string at \<open>r\<close> hold the byte?\<close>
  "in_string m b r = do {
     c \<leftarrow> rdb m r;
     if c = 0 then Some False else if b = c then Some True else in_string m b (r + 1)
   }"

partial_function (option) span_loop :: "bool \<Rightarrow> mem \<Rightarrow> ptr \<Rightarrow> ptr \<Rightarrow> u64 \<Rightarrow> u64 option" where
  \<comment> \<open>the loop that \<^verbatim>\<open>strspn\<close> and \<^verbatim>\<open>strcspn\<close> share: count while membership equals \<open>want\<close>\<close>
  "span_loop want m p chars count = do {
     b \<leftarrow> rdb m p;
     if b = 0 then Some count
     else do {
       i \<leftarrow> in_string m b chars;
       if i = want then span_loop want m (p + 1) chars (count + 1) else Some count
     }
   }"

definition strcspn :: "mem \<Rightarrow> ptr \<Rightarrow> ptr \<Rightarrow> u64 option" where
  "strcspn m s reject = (if s = NULL \<or> reject = NULL then Some 0 else span_loop False m s reject 0)"

definition strspn :: "mem \<Rightarrow> ptr \<Rightarrow> ptr \<Rightarrow> u64 option" where
  "strspn m s accept = (if s = NULL \<or> accept = NULL then Some 0 else span_loop True m s accept 0)"

definition strpbrk :: "mem \<Rightarrow> ptr \<Rightarrow> ptr \<Rightarrow> ptr option" where
  "strpbrk m s1 s2 = do {
     n \<leftarrow> strcspn m s1 s2;
     c \<leftarrow> rdb m (s1 + n);
     Some (if c \<noteq> 0 then s1 + n else NULL)
   }"

partial_function (option) strrchr_loop :: "mem \<Rightarrow> ptr \<Rightarrow> u8 \<Rightarrow> ptr \<Rightarrow> ptr option" where
  "strrchr_loop m s c lst = do {
     b \<leftarrow> rdb m s;
     let lst' = (if b = c then s else lst);
     if b = 0 then Some lst' else strrchr_loop m (s + 1) c lst'
   }"

definition strrchr :: "mem \<Rightarrow> ptr \<Rightarrow> int \<Rightarrow> ptr option" where
  "strrchr m s c = (if s = NULL then Some NULL else strrchr_loop m s (word_of_int c) NULL)"

partial_function (option) match_here :: "mem \<Rightarrow> ptr \<Rightarrow> ptr \<Rightarrow> bool option" where
  \<comment> \<open>the inner loop of \<^verbatim>\<open>strstr\<close> and the test \<^verbatim>\<open>!*n\<close> after it\<close>
  "match_here m h n = do {
     b \<leftarrow> rdb m n;
     if b = 0 then Some True
     else do {
       c \<leftarrow> rdb m h;
       if c \<noteq> 0 \<and> c = b then match_here m (h + 1) (n + 1) else Some False
     }
   }"

partial_function (option) strstr_loop :: "mem \<Rightarrow> ptr \<Rightarrow> ptr \<Rightarrow> ptr option" where
  "strstr_loop m haystack needle = do {
     c \<leftarrow> rdb m haystack;
     if c = 0 then Some NULL
     else do {
       f \<leftarrow> match_here m haystack needle;
       if f then Some haystack else strstr_loop m (haystack + 1) needle
     }
   }"

definition strstr :: "mem \<Rightarrow> ptr \<Rightarrow> ptr \<Rightarrow> ptr option" where
  "strstr m haystack needle =
     (if haystack = NULL \<or> needle = NULL then Some NULL
      else do {
        b \<leftarrow> rdb m needle;
        if b = 0 then Some haystack else strstr_loop m haystack needle
      })"

definition strtok :: "mem \<Rightarrow> ptr \<Rightarrow> ptr \<Rightarrow> (ptr \<times> mem) option" where
  "strtok m str delim =
     (if delim = NULL \<or> str = NULL then Some (NULL, m)
      else do {
        n1 \<leftarrow> strspn m str delim;
        let str1 = str + n1;
        n2 \<leftarrow> strcspn m str1 delim;
        c \<leftarrow> rdb m (str1 + n2);
        m1 \<leftarrow> (if c \<noteq> 0 then wrb m (str1 + n2) 0 else Some m);
        d \<leftarrow> rdb m1 str1;
        Some (if d \<noteq> 0 then str1 else NULL, m1)
      })"

definition strtok_r :: "mem \<Rightarrow> ptr \<Rightarrow> ptr \<Rightarrow> ptr \<Rightarrow> (ptr \<times> ptr \<times> mem) option" where
  \<comment> \<open>\<open>saved\<close> is the value of \<^verbatim>\<open>*saveptr\<close>; the result is the token, the new value of \<^verbatim>\<open>*saveptr\<close> and the memory\<close>
  "strtok_r m str0 delim saved =
     (if delim = NULL then Some (NULL, saved, m)
      else let str = (if str0 = NULL then saved else str0) in
      if str = NULL then Some (NULL, saved, m)
      else do {
        n1 \<leftarrow> strspn m str delim;
        let str1 = str + n1;
        c \<leftarrow> rdb m str1;
        if c = 0 then Some (NULL, NULL, m)
        else do {
          n2 \<leftarrow> strcspn m str1 delim;
          let e = str1 + n2;
          d \<leftarrow> rdb m e;
          if d = 0 then Some (str1, NULL, m)
          else do { m1 \<leftarrow> wrb m e 0; Some (str1, e + 1, m1) }
        }
      })"

section \<open>Strings in memory\<close>

fun cstr_at :: "mem \<Rightarrow> ptr \<Rightarrow> bytes \<Rightarrow> bool" where
  \<comment> \<open>the bytes, none of them zero, and then a zero byte\<close>
  "cstr_at m p [] \<longleftrightarrow> rdb m p = Some 0"
| "cstr_at m p (b # bs) \<longleftrightarrow> b \<noteq> 0 \<and> rdb m p = Some b \<and> cstr_at m (p + 1) bs"

lemma cstr_at_nonnull: "cstr_at m p s \<Longrightarrow> p \<noteq> NULL"
  by (cases s) (auto simp: rdb_def)

lemma off_Suc: "p + 1 + of_nat i = p + of_nat (Suc i)" for p :: ptr
  by simp

lemma cstr_at_nth:
  "cstr_at m p s \<longleftrightarrow> (\<forall>i < length s. rdb m (p + of_nat i) = Some (s ! i) \<and> s ! i \<noteq> 0) \<and>
     rdb m (p + of_nat (length s)) = Some 0"
proof (induction s arbitrary: p)
  case (Cons b s)
  show ?case unfolding cstr_at.simps Cons.IH
    by (auto simp: off_Suc All_less_Suc2 simp del: of_nat_Suc)
qed simp

lemma cstr_at_drop: "cstr_at m p s \<Longrightarrow> n \<le> length s \<Longrightarrow> cstr_at m (p + of_nat n) (drop n s)"
  by (auto simp: cstr_at_nth add.assoc simp flip: of_nat_add)

lemma unat_off: "unat p + i < 2 ^ 64 \<Longrightarrow> unat (p + of_nat i) = unat p + i" for p :: ptr
  using unat_of_nat_u64 [of i] by (simp add: unat_word_ariths)

lemma off_eq_iff: "i < 2 ^ 64 \<Longrightarrow> j < 2 ^ 64 \<Longrightarrow> p + of_nat i = p + of_nat j \<longleftrightarrow> i = j" for p :: ptr
  by (simp add: of_nat_u64_eq_iff)

lemma strlen_loop_cstr:
  "cstr_at m (str + len) s \<Longrightarrow> strlen_loop m str len = Some (len + of_nat (length s))"
proof (induction s arbitrary: len)
  case Nil
  then show ?case by (subst strlen_loop.simps) simp
next
  case (Cons b s)
  then have "strlen_loop m str (len + 1) = Some (len + 1 + of_nat (length s))"
    by (intro Cons.IH) (simp add: add.assoc)
  then show ?case using Cons.prems by (subst strlen_loop.simps) (simp add: ac_simps)
qed

fun cmp_bytes :: "bytes \<Rightarrow> bytes \<Rightarrow> int" where
  "cmp_bytes [] [] = 0"
| "cmp_bytes [] (c # cs) = - uint c"
| "cmp_bytes (b # bs) [] = uint b"
| "cmp_bytes (b # bs) (c # cs) = (if b = c then cmp_bytes bs cs else uint b - uint c)"

lemma strcmp_loop_cstr:
  "cstr_at m p s \<Longrightarrow> cstr_at m q t \<Longrightarrow> strcmp_loop m p q = Some (cmp_bytes s t)"
proof (induction s t arbitrary: p q rule: cmp_bytes.induct)
  case (4 b bs c cs)
  then show ?case by (subst strcmp_loop.simps) simp
qed (subst strcmp_loop.simps; simp)+

lemma cmp_bytes_sign:
  "0 \<notin> set s \<Longrightarrow> 0 \<notin> set t \<Longrightarrow>
   (cmp_bytes s t = 0 \<longleftrightarrow> s = t) \<and> (cmp_bytes s t < 0 \<longleftrightarrow> (s, t) \<in> lexord {(a, b). a < b})"
proof (induction s t rule: cmp_bytes.induct)
  case (2 c cs)
  have "uint c \<noteq> 0" using 2 by (auto simp: unsigned_eq_0_iff)
  then have "0 < uint c" using uint_ge_0 [of c] by linarith
  then show ?case by simp
next
  case (3 b bs)
  have "uint b \<noteq> 0" using 3 by (auto simp: unsigned_eq_0_iff)
  then show ?case using uint_ge_0 [of b] by auto
next
  case (4 b bs c cs)
  have "uint b = uint c \<longleftrightarrow> b = c" by (simp add: word_uint_eq_iff)
  moreover have "uint b < uint c \<longleftrightarrow> b < c" by (simp add: word_less_def)
  ultimately show ?case using 4 by auto
qed simp

lemma cstr_at_nonzero: "cstr_at m p s \<Longrightarrow> 0 \<notin> set s"
  by (induction s arbitrary: p) auto

lemma cstr_at_unique: "cstr_at m p s \<Longrightarrow> cstr_at m p t \<Longrightarrow> s = t"
proof (induction s arbitrary: p t)
  case Nil
  then show ?case by (cases t) auto
next
  case (Cons b s)
  then show ?case by (cases t) auto
qed

lemma in_string_cstr: "cstr_at m r cs \<Longrightarrow> in_string m b r = Some (b \<in> set cs)"
proof (induction cs arbitrary: r)
  case Nil
  then show ?case by (subst in_string.simps) simp
next
  case (Cons c cs)
  then show ?case by (subst in_string.simps) auto
qed

lemma span_loop_cstr:
  "cstr_at m p s \<Longrightarrow> cstr_at m r cs \<Longrightarrow>
   span_loop want m p r n = Some (n + of_nat (length (takeWhile (\<lambda>b. (b \<in> set cs) = want) s)))"
proof (induction s arbitrary: p n)
  case Nil
  then show ?case by (subst span_loop.simps) simp
next
  case (Cons b s)
  then show ?case by (subst span_loop.simps) (simp add: in_string_cstr ac_simps)
qed

lemma strspn_cstr:
  assumes "cstr_at m p s" "cstr_at m r cs"
  shows "strspn m p r = Some (of_nat (length (takeWhile (\<lambda>b. b \<in> set cs) s)))"
    and "strcspn m p r = Some (of_nat (length (takeWhile (\<lambda>b. b \<notin> set cs) s)))"
  using span_loop_cstr [OF assms] assms [THEN cstr_at_nonnull]
  by (auto simp: strspn_def strcspn_def)

section \<open>Copying\<close>

lemma rdb_upd: "rdb m p \<noteq> None \<Longrightarrow> rdb (m(q \<mapsto> b)) p \<noteq> None"
  by (auto simp: rdb_def split: if_splits)

lemma copy_up:
  assumes "unat dst + k \<le> 2 ^ 64" "unat src + k \<le> 2 ^ 64"
    "dst \<le> src \<or> unat src + k \<le> unat dst"
    "\<forall>i < k. rdb m (src + of_nat i) \<noteq> None" "\<forall>i < k. rdb m (dst + of_nat i) \<noteq> None"
  shows "\<exists>m'. memcpy_loop k m dst src = Some m' \<and>
    (\<forall>i < k. m' (dst + of_nat i) = m (src + of_nat i)) \<and>
    (\<forall>p. (\<forall>i < k. p \<noteq> dst + of_nat i) \<longrightarrow> m' p = m p)"
  using assms
proof (induction k arbitrary: m dst src)
  case (Suc k)
  have "rdb m (src + of_nat 0) \<noteq> None" "rdb m (dst + of_nat 0) \<noteq> None" using Suc.prems(4,5) by blast+
  then obtain b where b: "rdb m src = Some b" "m src = Some b" and d: "dst \<noteq> NULL" "m dst \<noteq> None"
    by (auto simp: rdb_def split: if_splits)
  define m1 where "m1 = m(dst \<mapsto> b)"
  have w: "wrb m dst b = Some m1" using d by (simp add: wrb_def m1_def)
  show ?case
  proof (cases "k = 0")
    case True
    then show ?thesis using b w by (auto simp: m1_def)
  next
    case False
    have u: "unat (dst + 1) = unat dst + 1" "unat (src + 1) = unat src + 1"
      using unat_off [of dst 1] unat_off [of src 1] Suc.prems(1,2) False by auto
    have ns: "src + of_nat (Suc i) \<noteq> dst" if "i < k" for i
    proof
      assume e: "src + of_nat (Suc i) = dst"
      have "unat (src + of_nat (Suc i)) = unat src + Suc i"
        using Suc.prems(2) that by (intro unat_off) simp
      then have "unat dst = unat src + Suc i" using e by simp
      then show False using Suc.prems(3) that by (auto simp: word_le_nat_alt)
    qed
    have nd: "dst + of_nat (Suc i) \<noteq> dst" if "i < k" for i
    proof -
      have "unat (dst + of_nat (Suc i)) = unat dst + Suc i"
        using Suc.prems(1) that by (intro unat_off) simp
      then show ?thesis by (metis add_eq_self_zero nat.distinct(1))
    qed
    have "\<exists>m'. memcpy_loop k m1 (dst + 1) (src + 1) = Some m' \<and>
      (\<forall>i < k. m' (dst + 1 + of_nat i) = m1 (src + 1 + of_nat i)) \<and>
      (\<forall>p. (\<forall>i < k. p \<noteq> dst + 1 + of_nat i) \<longrightarrow> m' p = m1 p)"
    proof (rule Suc.IH)
      show "dst + 1 \<le> src + 1 \<or> unat (src + 1) + k \<le> unat (dst + 1)"
        using Suc.prems(3) u by (auto simp: word_le_nat_alt)
      show "\<forall>i < k. rdb m1 (src + 1 + of_nat i) \<noteq> None"
        using Suc.prems(4) by (auto simp: off_Suc rdb_def m1_def simp del: of_nat_Suc)
      show "\<forall>i < k. rdb m1 (dst + 1 + of_nat i) \<noteq> None"
        using Suc.prems(5) by (auto simp: off_Suc rdb_def m1_def simp del: of_nat_Suc)
    qed (use Suc.prems u in auto)
    then obtain m' where m': "memcpy_loop k m1 (dst + 1) (src + 1) = Some m'"
      "\<forall>i < k. m' (dst + of_nat (Suc i)) = m1 (src + of_nat (Suc i))"
      "\<forall>p. (\<forall>i < k. p \<noteq> dst + of_nat (Suc i)) \<longrightarrow> m' p = m1 p"
      unfolding off_Suc by blast
    have "m' dst = m src" using m'(3) nd b by (auto simp: m1_def)
    moreover have "m' (dst + of_nat (Suc i)) = m (src + of_nat (Suc i))" if "i < k" for i
      using m'(2) ns [OF that] that by (auto simp: m1_def simp del: of_nat_Suc)
    ultimately have "\<forall>i < Suc k. m' (dst + of_nat i) = m (src + of_nat i)"
      by (auto simp: All_less_Suc2 simp del: of_nat_Suc)
    moreover have "m' p = m p" if "\<forall>i < Suc k. p \<noteq> dst + of_nat i" for p
      using m'(3) that by (auto simp: All_less_Suc2 m1_def simp del: of_nat_Suc)
    ultimately show ?thesis using b(1) w m'(1) by auto
  qed
qed simp

lemma copy_down:
  assumes "unat dst + k \<le> 2 ^ 64" "unat src + k \<le> 2 ^ 64" "src \<le> dst"
    "\<forall>i < k. rdb m (src + of_nat i) \<noteq> None" "\<forall>i < k. rdb m (dst + of_nat i) \<noteq> None"
  shows "\<exists>m'. memmove_down k m dst src = Some m' \<and>
    (\<forall>i < k. m' (dst + of_nat i) = m (src + of_nat i)) \<and>
    (\<forall>p. (\<forall>i < k. p \<noteq> dst + of_nat i) \<longrightarrow> m' p = m p)"
  using assms
proof (induction k arbitrary: m)
  case (Suc k)
  have "rdb m (src + of_nat k) \<noteq> None" "rdb m (dst + of_nat k) \<noteq> None" using Suc.prems(4,5) by blast+
  then obtain b where b: "rdb m (src + of_nat k) = Some b" "m (src + of_nat k) = Some b"
    and d: "dst + of_nat k \<noteq> NULL" "m (dst + of_nat k) \<noteq> None"
    by (auto simp: rdb_def split: if_splits)
  define m1 where "m1 = m(dst + of_nat k \<mapsto> b)"
  have w: "wrb m (dst + of_nat k) b = Some m1" using d by (simp add: wrb_def m1_def)
  have ns: "src + of_nat i \<noteq> dst + of_nat k" "dst + of_nat i \<noteq> dst + of_nat k" if "i < k" for i
  proof -
    have "unat (src + of_nat i) = unat src + i" "unat (dst + of_nat k) = unat dst + k"
      "unat (dst + of_nat i) = unat dst + i"
      using Suc.prems(1,2) that by (auto intro!: unat_off)
    moreover have "unat src \<le> unat dst" using Suc.prems(3) by (simp add: word_le_nat_alt)
    ultimately show "src + of_nat i \<noteq> dst + of_nat k" "dst + of_nat i \<noteq> dst + of_nat k"
      using that by (metis add_less_le_mono less_irrefl add.commute, metis add_left_cancel less_irrefl)
  qed
  have "\<exists>m'. memmove_down k m1 dst src = Some m' \<and>
    (\<forall>i < k. m' (dst + of_nat i) = m1 (src + of_nat i)) \<and>
    (\<forall>p. (\<forall>i < k. p \<noteq> dst + of_nat i) \<longrightarrow> m' p = m1 p)"
  proof (rule Suc.IH)
    show "\<forall>i < k. rdb m1 (src + of_nat i) \<noteq> None" "\<forall>i < k. rdb m1 (dst + of_nat i) \<noteq> None"
      using Suc.prems(4,5) rdb_upd less_SucI unfolding m1_def by blast+
  qed (use Suc.prems(1-3) in simp_all)
  then obtain m' where m': "memmove_down k m1 dst src = Some m'"
    "\<forall>i < k. m' (dst + of_nat i) = m1 (src + of_nat i)"
    "\<forall>p. (\<forall>i < k. p \<noteq> dst + of_nat i) \<longrightarrow> m' p = m1 p" by blast
  have "m' (dst + of_nat k) = m (src + of_nat k)" using m'(3) ns(2) b by (metis fun_upd_same m1_def)
  moreover have "m' (dst + of_nat i) = m (src + of_nat i)" if "i < k" for i
    using m'(2) ns(1) [OF that] that by (simp add: m1_def)
  ultimately have "\<forall>i < Suc k. m' (dst + of_nat i) = m (src + of_nat i)" by (simp add: less_Suc_eq)
  moreover have "m' p = m p" if "\<forall>i < Suc k. p \<noteq> dst + of_nat i" for p
    using m'(3) that by (simp add: less_Suc_eq m1_def)
  ultimately show ?case using b(1) w m'(1) by auto
qed simp

section \<open>Tokens\<close>

lemma cstr_at_cut:
  \<comment> \<open>a zero byte stored inside a string splits it in two\<close>
  assumes "cstr_at m p (s @ c # t)" "length (s @ c # t) < 2 ^ 64"
  shows "cstr_at (m(p + of_nat (length s) \<mapsto> 0)) p s"
    and "cstr_at (m(p + of_nat (length s) \<mapsto> 0)) (p + of_nat (length s) + 1) t"
proof -
  let ?q = "p + of_nat (length s)" and ?n = "length (s @ c # t)"
  have ne: "p + of_nat i \<noteq> ?q" if "i \<le> ?n" "i \<noteq> length s" for i
    using that assms(2) off_eq_iff [of i "length s" p] by simp
  have rd: "rdb (m(?q \<mapsto> 0)) (p + of_nat i) = rdb m (p + of_nat i)" if "i \<le> ?n" "i \<noteq> length s" for i
    using ne [OF that] by (simp add: rdb_def)
  have all: "rdb m (p + of_nat i) = Some ((s @ c # t) ! i) \<and> (s @ c # t) ! i \<noteq> 0" if "i < ?n" for i
    using assms(1) that unfolding cstr_at_nth by blast
  have last: "rdb m (p + of_nat ?n) = Some 0" using assms(1) unfolding cstr_at_nth by blast
  have "?q \<noteq> NULL" using all [of "length s"] by (auto simp: rdb_def split: if_splits)
  then have mid: "rdb (m(?q \<mapsto> 0)) ?q = Some 0" by (simp add: rdb_def)
  have "rdb (m(?q \<mapsto> 0)) (p + of_nat i) = Some (s ! i) \<and> s ! i \<noteq> 0" if "i < length s" for i
    using rd [of i] all [of i] that by (simp add: nth_append)
  then show "cstr_at (m(?q \<mapsto> 0)) p s" using mid unfolding cstr_at_nth by blast
  have off: "?q + 1 + of_nat i = p + of_nat (length s + 1 + i)" for i by simp
  have "rdb (m(?q \<mapsto> 0)) (?q + 1 + of_nat i) = Some (t ! i) \<and> t ! i \<noteq> 0" if "i < length t" for i
    unfolding off using rd [of "length s + 1 + i"] all [of "length s + 1 + i"] that by (simp add: nth_append)
  moreover have "rdb (m(?q \<mapsto> 0)) (?q + 1 + of_nat (length t)) = Some 0"
    unfolding off using rd [of "length s + 1 + length t"] last by simp
  ultimately show "cstr_at (m(?q \<mapsto> 0)) (?q + 1) t" unfolding cstr_at_nth by blast
qed

lemma strtok_r_cstr:
  assumes s: "cstr_at m str s" and ds: "cstr_at m delim ds" and len: "length s < 2 ^ 64"
    and pre: "str0 = str \<or> str0 = NULL \<and> saved = str"
  defines "s1 \<equiv> dropWhile (\<lambda>b. b \<in> set ds) s"
  defines "tok \<equiv> takeWhile (\<lambda>b. b \<notin> set ds) s1"
  defines "rest \<equiv> dropWhile (\<lambda>b. b \<notin> set ds) s1"
  defines "p \<equiv> str + of_nat (length s - length s1)"
  shows "strtok_r m str0 delim saved =
    (if s1 = [] then Some (NULL, NULL, m)
     else if rest = [] then Some (p, NULL, m)
     else Some (p, p + of_nat (length tok) + 1, m(p + of_nat (length tok) \<mapsto> 0)))"
    and "cstr_at m p s1"
proof -
  let ?n1 = "length (takeWhile (\<lambda>b. b \<in> set ds) s)"
  have n1: "?n1 = length s - length s1" "drop ?n1 s = s1" "?n1 \<le> length s"
    by (simp_all add: s1_def dropWhile_eq_drop length_takeWhile_le)
  have nn: "str \<noteq> NULL" "delim \<noteq> NULL" using cstr_at_nonnull [OF s] cstr_at_nonnull [OF ds] .
  have p: "str + of_nat ?n1 = p" by (simp add: p_def n1(1))
  show c1: "cstr_at m p s1" using cstr_at_drop [OF s n1(3)] by (simp add: n1(2) p)
  have sp: "strspn m str delim = Some (of_nat ?n1)" using strspn_cstr(1) [OF s ds] .
  have cs: "strcspn m p delim = Some (of_nat (length tok))"
    using strspn_cstr(2) [OF c1 ds] by (simp add: tok_def)
  have st: "(if str0 = NULL then saved else str0) = str" using pre nn(1) by auto
  have sr: "s1 = tok @ rest" by (simp add: tok_def rest_def)
  have ce: "cstr_at m (p + of_nat (length tok)) rest"
    using cstr_at_drop [OF c1, of "length tok"] by (simp add: sr)
  show "strtok_r m str0 delim saved =
    (if s1 = [] then Some (NULL, NULL, m)
     else if rest = [] then Some (p, NULL, m)
     else Some (p, p + of_nat (length tok) + 1, m(p + of_nat (length tok) \<mapsto> 0)))"
  proof (cases s1)
    case Nil
    then have "rdb m p = Some 0" using c1 by simp
    then show ?thesis using Nil nn st sp p by (simp add: strtok_r_def)
  next
    case (Cons b bs)
    then have b: "rdb m p = Some b" "b \<noteq> 0" using c1 by auto
    show ?thesis
    proof (cases rest)
      case Nil
      then have "rdb m (p + of_nat (length tok)) = Some 0" using ce by simp
      then show ?thesis using Cons Nil nn st sp p b cs by (simp add: strtok_r_def)
    next
      case R: (Cons c cs')
      then have c: "rdb m (p + of_nat (length tok)) = Some c" "c \<noteq> 0" using ce by auto
      then have "wrb m (p + of_nat (length tok)) 0 = Some (m(p + of_nat (length tok) \<mapsto> 0))"
        by (auto simp: rdb_def wrb_def split: if_splits)
      then show ?thesis using Cons R nn st sp p b c cs by (simp add: strtok_r_def Let_def)
    qed
  qed
qed

section \<open>Properties\<close>

definition demo_mem :: mem where
  \<comment> \<open>"a/bc" at 16, "/" at 32, "ab" at 40, and free bytes at 48\<close>
  "demo_mem = [16 \<mapsto> 97, 17 \<mapsto> 47, 18 \<mapsto> 98, 19 \<mapsto> 99, 20 \<mapsto> 0, 32 \<mapsto> 47, 33 \<mapsto> 0,
     40 \<mapsto> 97, 41 \<mapsto> 98, 42 \<mapsto> 0, 48 \<mapsto> 1, 49 \<mapsto> 1, 50 \<mapsto> 1]"

lemma demo_strings:
  "cstr_at demo_mem 16 [97, 47, 98, 99]" "cstr_at demo_mem 32 [47]" "cstr_at demo_mem 40 [97, 98]"
  by (simp_all add: demo_mem_def rdb_def)

text \<open>\<^verbatim>\<open>strcmp\<close> on two terminated strings terminates inside them and orders them: it returns 0 exactly
  when they are equal and a negative value exactly when the first is smaller in the
  lexicographic order of unsigned bytes.\<close>

theorem strcmp_orders:
  assumes "cstr_at m p s" "cstr_at m q t"
  shows "\<exists>r. strcmp m p q = Some r \<and> (r = 0 \<longleftrightarrow> s = t) \<and> (r < 0 \<longleftrightarrow> (s, t) \<in> lexord {(a, b). a < b})"
  using strcmp_loop_cstr [OF assms] assms [THEN cstr_at_nonnull]
    cmp_bytes_sign [OF assms [THEN cstr_at_nonzero]] by (simp add: strcmp_def)

theorem strcmp_orders_witness:
  "\<exists>r. strcmp demo_mem 16 40 = Some r \<and> r < 0"
  using strcmp_orders [OF demo_strings(1,3)] by (auto simp: lexord_cons_cons)

text \<open>\<^verbatim>\<open>memmove\<close> is correct for overlapping regions: when both regions lie in memory and do not wrap, it
  terminates, every destination byte holds what the source byte held before the call, and no
  other byte changes.\<close>

theorem memmove_overlap:
  assumes "unat dst + unat n \<le> 2 ^ 64" "unat src + unat n \<le> 2 ^ 64"
    "\<forall>i < unat n. rdb m (src + of_nat i) \<noteq> None" "\<forall>i < unat n. rdb m (dst + of_nat i) \<noteq> None"
  shows "\<exists>m'. memmove m dst src n = Some m' \<and>
    (\<forall>i < unat n. m' (dst + of_nat i) = m (src + of_nat i)) \<and>
    (\<forall>p. (\<forall>i < unat n. p \<noteq> dst + of_nat i) \<longrightarrow> m' p = m p)"
proof (cases "dst < src")
  case True
  then show ?thesis using copy_up [OF assms(1,2) disjI1 assms(3,4)] by (simp add: memmove_def less_imp_le)
next
  case False
  then show ?thesis using copy_down [OF assms(1,2) _ assms(3,4)] by (simp add: memmove_def)
qed

theorem memmove_overlap_witness:
  "\<exists>m'. memmove demo_mem 17 16 3 = Some m' \<and> m' 17 = Some 97 \<and> m' 18 = Some 47 \<and> m' 19 = Some 98"
proof -
  have lt: "(\<forall>i < 3. P i) \<longleftrightarrow> P 0 \<and> P 1 \<and> P (2 :: nat)" for P
    by (auto simp: numeral_eq_Suc less_Suc_eq)
  have "\<forall>i < unat (3 :: u64). rdb demo_mem (16 + of_nat i) \<noteq> None"
    "\<forall>i < unat (3 :: u64). rdb demo_mem (17 + of_nat i) \<noteq> None"
    by (simp_all add: lt rdb_def demo_mem_def)
  with memmove_overlap [of 17 3 16 demo_mem] show ?thesis
    by (auto simp: lt) (simp_all add: demo_mem_def)
qed

text \<open>\<^verbatim>\<open>strtok_r\<close> yields the next token: on a terminated string it skips the leading delimiters and
  returns a pointer to the longest run of other bytes, terminated in place; the saved position
  points to the string after the delimiter that ended the token, or is \<^verbatim>\<open>NULL\<close> when the
  token ran to the end; with no token left it returns \<^verbatim>\<open>NULL\<close>. This holds for the first
  call and for the calls that continue from the saved position.\<close>

theorem strtok_r_next_token:
  assumes "cstr_at m str s" "cstr_at m delim ds" "length s < 2 ^ 64"
    "str0 = str \<or> str0 = NULL \<and> saved = str"
  defines "s1 \<equiv> dropWhile (\<lambda>b. b \<in> set ds) s"
  defines "tok \<equiv> takeWhile (\<lambda>b. b \<notin> set ds) s1"
  defines "rest \<equiv> dropWhile (\<lambda>b. b \<notin> set ds) s1"
  shows "\<exists>t saved' m'. strtok_r m str0 delim saved = Some (t, saved', m') \<and>
    (if s1 = [] then t = NULL \<and> saved' = NULL \<and> m' = m
     else cstr_at m' t tok \<and> (if rest = [] then saved' = NULL else cstr_at m' saved' (tl rest)))"
proof -
  let ?p = "str + of_nat (length s - length s1)"
  note r = strtok_r_cstr [OF assms(1-4), folded s1_def, folded tok_def rest_def]
  have sr: "s1 = tok @ rest" by (simp add: tok_def rest_def)
  have "length s1 \<le> length s" by (simp add: s1_def length_dropWhile_le)
  then have len: "length s1 < 2 ^ 64" using assms(3) by simp
  show ?thesis
  proof (cases "s1 = [] \<or> rest = []")
    case True
    then show ?thesis using r sr by auto
  next
    case False
    then obtain c cs where rest: "rest = c # cs" by (cases rest) auto
    have "cstr_at m ?p (tok @ c # cs)" "length (tok @ c # cs) < 2 ^ 64" using r(2) sr rest len by simp_all
    from cstr_at_cut [OF this] r(1) False rest show ?thesis by simp
  qed
qed

theorem strtok_r_next_token_witness:
  "\<exists>t saved' m'. strtok_r demo_mem 16 32 0 = Some (t, saved', m') \<and>
     cstr_at m' t [97] \<and> cstr_at m' saved' [98, 99]"
  using strtok_r_next_token [OF demo_strings(1,2), of 16 0] by simp

text \<open>\<^verbatim>\<open>strdup\<close> of a terminated string into a fresh block leaves two equal, independent strings: the new
  block holds the same bytes and terminator and the original is unchanged.\<close>

theorem strdup_copies:
  assumes "cstr_at m str s" "unat str + length s + 1 \<le> 2 ^ 64" "unat new + length s + 1 \<le> 2 ^ 64"
    "unat new + length s + 1 \<le> unat str \<or> unat str + length s + 1 \<le> unat new"
    "\<forall>i < length s + 1. rdb m (new + of_nat i) \<noteq> None"
  shows "\<exists>m'. strdup m str new = Some (new, m') \<and> cstr_at m' new s \<and> cstr_at m' str s"
proof -
  let ?k = "length s + 1"
  have len: "?k < 2 ^ 64" using assms(2,3,4) by auto
  have sl: "strlen m str = Some (of_nat (length s))"
    using strlen_loop_cstr [of m str 0 s] assms(1) by (simp add: strlen_def)
  have u: "unat (of_nat (length s) + 1 :: u64) = ?k"
    using unat_of_nat_u64 [OF len] by (simp add: add.commute)
  have src: "rdb m (str + of_nat i) = (if i < length s then Some (s ! i) else Some 0)" if "i < ?k" for i
    using assms(1) that unfolding cstr_at_nth by (auto simp: less_Suc_eq)
  then have "\<forall>i < ?k. rdb m (str + of_nat i) \<noteq> None" by auto
  moreover have "new \<le> str \<or> unat str + ?k \<le> unat new" using assms(4) by (auto simp: word_le_nat_alt)
  ultimately obtain m' where m': "memcpy_loop ?k m new str = Some m'"
    "\<forall>i < ?k. m' (new + of_nat i) = m (str + of_nat i)"
    "\<forall>p. (\<forall>i < ?k. p \<noteq> new + of_nat i) \<longrightarrow> m' p = m p"
    using copy_up [of new ?k str m] assms(2,3,5) by auto
  have dj: "str + of_nat j \<noteq> new + of_nat i" if "i < ?k" "j < ?k" for i j
  proof
    assume e: "str + of_nat j = new + of_nat i"
    have "unat (str + of_nat j) = unat str + j" "unat (new + of_nat i) = unat new + i"
      using assms(2,3) that by (auto intro!: unat_off)
    then show False using e assms(4) that by auto
  qed
  have rn: "rdb m' (new + of_nat i) = rdb m (str + of_nat i)" if "i < ?k" for i
  proof -
    have "str + of_nat i \<noteq> NULL" "new + of_nat i \<noteq> NULL"
      using src [OF that] assms(5) that by (auto simp: rdb_def split: if_splits)
    then show ?thesis using m'(2) that by (simp add: rdb_def)
  qed
  have rs: "rdb m' (str + of_nat i) = rdb m (str + of_nat i)" if "i < ?k" for i
    using m'(3) dj that by (simp add: rdb_def)
  have "cstr_at m' new s" "cstr_at m' str s"
    using assms(1) rn rs unfolding cstr_at_nth by auto
  then show ?thesis using sl m'(1) u by (simp add: strdup_def memcpy_def)
qed

theorem strdup_copies_witness:
  "\<exists>m'. strdup demo_mem 40 48 = Some (48, m') \<and> cstr_at m' 48 [97, 98] \<and> cstr_at m' 40 [97, 98]"
proof -
  have "\<forall>i < length [97, 98 :: u8] + 1. rdb demo_mem (48 + of_nat i) \<noteq> None"
    by (auto simp: less_Suc_eq demo_mem_def rdb_def)
  with strdup_copies [OF demo_strings(3), of 48] show ?thesis by simp
qed

section \<open>Blocks of memory as lists\<close>

fun load :: "mem \<Rightarrow> ptr \<Rightarrow> nat \<Rightarrow> bytes option" where
  \<comment> \<open>the bytes that \<^verbatim>\<open>memcpy\<close> reads\<close>
  "load m p 0 = Some []"
| "load m p (Suc n) = do { b \<leftarrow> rdb m p; bs \<leftarrow> load m (p + 1) n; Some (b # bs) }"

lemma load_append: "load m p (i + k) = do { xs \<leftarrow> load m p i; ys \<leftarrow> load m (p + of_nat i) k; Some (xs @ ys) }"
proof (induction i arbitrary: p)
  case 0
  then show ?case by (cases "load m p k") simp_all
next
  case (Suc i)
  have e: "p + 1 + of_nat i = p + of_nat (Suc i)" by simp
  show ?case using Suc [of "p + 1"] unfolding e
    by (cases "rdb m p"; cases "load m (p + 1) i"; cases "load m (p + of_nat (Suc i)) k") simp_all
qed

lemma load_length: "load m p n = Some bs \<Longrightarrow> length bs = n"
  by (induction n arbitrary: p bs) (auto split: bind_splits)

lemma load_split:
  assumes "load m p (length (xs @ ys)) = Some (xs @ ys)"
  shows "load m p (length xs) = Some xs" "load m (p + of_nat (length xs)) (length ys) = Some ys"
  using assms load_length [of m p "length xs"] by (auto simp: load_append split: bind_splits)

lemma load_slice:
  assumes "load m p (length bs) = Some bs" "i + k \<le> length bs"
  shows "load m (p + of_nat i) k = Some (take k (drop i bs))"
proof -
  have "take k (drop i bs) @ drop (i + k) bs = drop i bs" using append_take_drop_id [of k "drop i bs"] by (simp add: add.commute)
  then have e: "bs = take i bs @ take k (drop i bs) @ drop (i + k) bs" by simp
  have l: "length (take i bs) = i" "length (take k (drop i bs)) = k" using assms(2) by simp_all
  have "load m (p + of_nat i) (length (take k (drop i bs) @ drop (i + k) bs)) = Some (take k (drop i bs) @ drop (i + k) bs)"
    using load_split(2) [of m p "take i bs" "take k (drop i bs) @ drop (i + k) bs"] assms(1) e l(1) by metis
  from load_split(1) [OF this] show ?thesis by (simp only: l(2))
qed

end
