(* ===== verification/Hashtable.thy ===== *)
theory Hashtable
  imports Prelude Interfaces
begin

text \<open>
  The chained hash table of \<^verbatim>\<open>libc/kernel/hashtable.c\<close> and its use as the kernel symbol table in
  \<^verbatim>\<open>kernel/kernel.c\<close>. A key is the byte string it points to, compared with \<^verbatim>\<open>strcmp\<close> (whose result is 0
  exactly on equal strings, see \<open>Cstring\<close>); a chain is the list of its key-value entries.
  The table is shown to implement a finite map: it interprets \<open>keyed_map\<close>.
\<close>

section \<open>Operations\<close>

type_synonym ht_entry = "bytes \<times> ptr"

record hashtable =
  ht_size :: int
  ht_entries :: "ht_entry list list"

fun hash_loop :: "bytes \<Rightarrow> u64 \<Rightarrow> u64" where
  "hash_loop [] v = v"
| "hash_loop (c # cs) v = hash_loop cs (v * 37 + to_size (schar c))"

definition hash :: "bytes \<Rightarrow> int \<Rightarrow> u32 option" where
  \<comment> \<open>\<^verbatim>\<open>key_len\<close> is an \<^verbatim>\<open>unsigned int\<close>; \<^verbatim>\<open>value % table_size\<close> faults on 0; the result is narrowed to \<^verbatim>\<open>unsigned int\<close>\<close>
  "hash key table_size =
     (let key_len = unat (of_nat (length key) :: u32); v = hash_loop (take key_len key) 0
      in if to_size table_size = 0 then None else Some (ucast (v mod to_size table_size)))"

definition ht_create :: "int \<Rightarrow> hashtable" where
  "ht_create n = \<lparr>ht_size = n, ht_entries = replicate (unat (to_size n)) []\<rparr>"

definition ht_slot :: "hashtable \<Rightarrow> bytes \<Rightarrow> nat option" where
  \<comment> \<open>\<^verbatim>\<open>slot = hash(key, table->size)\<close>, and that \<^verbatim>\<open>table->entries[slot]\<close> is inside the array\<close>
  "ht_slot t key = do {
     s \<leftarrow> hash key (ht_size t);
     if unat s < length (ht_entries t) then Some (unat s) else None
   }"

fun chain_insert :: "bytes \<Rightarrow> ptr \<Rightarrow> ht_entry list \<Rightarrow> ht_entry list" where
  "chain_insert key v [] = [(key, v)]"
| "chain_insert key v ((k, w) # es) =
     (if k = key then (k, v) # es else (k, w) # chain_insert key v es)"

definition ht_insert :: "hashtable \<Rightarrow> bytes \<Rightarrow> ptr \<Rightarrow> hashtable option" where
  "ht_insert t key v = do {
     s \<leftarrow> ht_slot t key;
     Some (t\<lparr>ht_entries := (ht_entries t)[s := chain_insert key v (ht_entries t ! s)]\<rparr>)
   }"

fun chain_lookup :: "bytes \<Rightarrow> ht_entry list \<Rightarrow> ptr" where
  "chain_lookup key [] = NULL"
| "chain_lookup key ((k, w) # es) = (if k = key then w else chain_lookup key es)"

definition ht_lookup :: "hashtable \<Rightarrow> bytes \<Rightarrow> ptr option" where
  "ht_lookup t key = do { s \<leftarrow> ht_slot t key; Some (chain_lookup key (ht_entries t ! s)) }"

fun chain_delete :: "bytes \<Rightarrow> ht_entry list \<Rightarrow> ht_entry list" where
  "chain_delete key [] = []"
| "chain_delete key ((k, w) # es) = (if k = key then es else (k, w) # chain_delete key es)"

definition ht_delete :: "hashtable \<Rightarrow> bytes \<Rightarrow> hashtable option" where
  "ht_delete t key = do {
     s \<leftarrow> ht_slot t key;
     Some (t\<lparr>ht_entries := (ht_entries t)[s := chain_delete key (ht_entries t ! s)]\<rparr>)
   }"

definition ht_free :: "hashtable \<Rightarrow> bytes list" where
  \<comment> \<open>the keys passed to \<^verbatim>\<open>free\<close>, in order; an entry is freed right after its key\<close>
  "ht_free t = concat (map (map fst) (take (nat (ht_size t)) (ht_entries t)))"

fun chain_remove_pair :: "bytes \<Rightarrow> ptr \<Rightarrow> ht_entry list \<Rightarrow> bool \<times> ht_entry list" where
  "chain_remove_pair key v [] = (False, [])"
| "chain_remove_pair key v ((k, w) # es) =
     (if k = key \<and> w = v then (True, es)
      else let (r, es') = chain_remove_pair key v es in (r, (k, w) # es'))"

definition ht_remove_by_key_and_value :: "hashtable \<Rightarrow> bytes \<Rightarrow> ptr \<Rightarrow> (bool \<times> hashtable) option" where
  "ht_remove_by_key_and_value t key v = do {
     s \<leftarrow> ht_slot t key;
     let (r, es) = chain_remove_pair key v (ht_entries t ! s);
     Some (r, t\<lparr>ht_entries := (ht_entries t)[s := es]\<rparr>)
   }"

definition ht_get_all_values :: "hashtable \<Rightarrow> bytes \<Rightarrow> ptr list option option" where
  \<comment> \<open>\<open>Some None\<close> is the \<^verbatim>\<open>NULL\<close> that is returned when nothing matches\<close>
  "ht_get_all_values t key = do {
     s \<leftarrow> ht_slot t key;
     let vs = map snd (filter (\<lambda>(k, w). k = key) (ht_entries t ! s));
     Some (if vs = [] then None else Some vs)
   }"

section \<open>The kernel symbol table\<close>

record ksymtab =
  ks_table :: hashtable
  ks_values :: "ptr \<rightharpoonup> u64"    \<comment> \<open>\<^verbatim>\<open>struct kernel_symbol\<close> at its address, by its value field\<close>
  ks_num :: u32

definition MAX_SYMBOLS :: u32 where
  "MAX_SYMBOLS = 1024"

definition register_symbol :: "ksymtab \<Rightarrow> bytes \<Rightarrow> u64 \<Rightarrow> ptr \<Rightarrow> (int \<times> ksymtab) option" where
  \<comment> \<open>\<open>p\<close> is the address \<^verbatim>\<open>calloc\<close> returned for the symbol\<close>
  "register_symbol k name v p =
     (if ks_num k \<ge> MAX_SYMBOLS then Some (-1, k)
      else if p = NULL then None
      else do {
        t \<leftarrow> ht_insert (ks_table k) name p;
        Some (0, k\<lparr>ks_table := t, ks_values := (ks_values k)(p \<mapsto> v), ks_num := ks_num k + 1\<rparr>)
      })"

definition find_symbol :: "ksymtab \<Rightarrow> bytes \<Rightarrow> ptr option" where
  "find_symbol k name = ht_lookup (ks_table k) name"

fun register_all :: "ksymtab \<Rightarrow> (bytes \<times> u64) list \<Rightarrow> ptr list \<Rightarrow> ksymtab option" where
  \<comment> \<open>the loop of \<^verbatim>\<open>init_kernel_symbols\<close> over the section of exported symbols\<close>
  "register_all k [] ps = Some k"
| "register_all k (x # xs) [] = None"
| "register_all k ((name, v) # xs) (p # ps) = do {
     (_, k1) \<leftarrow> register_symbol k name v p;
     register_all k1 xs ps
   }"

definition init_kernel_symbols :: "(bytes \<times> u64) list \<Rightarrow> ptr list \<Rightarrow> ksymtab option" where
  "init_kernel_symbols syms ps =
     register_all \<lparr>ks_table = ht_create 1024, ks_values = Map.empty, ks_num = 0\<rparr> syms ps"

section \<open>The table as a map\<close>

definition ht_ok :: "hashtable \<Rightarrow> bool" where
  "ht_ok t \<longleftrightarrow> 0 < ht_size t \<and> ht_size t < 2 ^ 31 \<and> length (ht_entries t) = nat (ht_size t) \<and>
     (\<forall>i < length (ht_entries t). distinct (map fst (ht_entries t ! i)) \<and>
        (\<forall>(k, v) \<in> set (ht_entries t ! i). ht_slot t k = Some i))"

definition ht_view :: "hashtable \<Rightarrow> bytes \<rightharpoonup> ptr" where
  "ht_view t key = do { s \<leftarrow> ht_slot t key; map_of (ht_entries t ! s) key }"

lemma ht_slot_total:
  assumes "0 < ht_size t" "ht_size t < 2 ^ 31" "length (ht_entries t) = nat (ht_size t)"
  shows "\<exists>i. ht_slot t key = Some i \<and> i < length (ht_entries t)"
proof -
  let ?n = "to_size (ht_size t)"
  have n: "unat ?n = nat (ht_size t)"
    using unat_of_nat_u64 [of "nat (ht_size t)"] assms(1,2) by (simp add: to_size_def flip: of_nat_nat)
  have nz: "?n \<noteq> 0" using n assms(1) by auto
  have lt: "unat (v mod ?n) < nat (ht_size t)" for v using n assms(1) by (simp add: unat_mod)
  have "unat (ucast (v mod ?n) :: u32) = unat (v mod ?n)" for v
    using lt [of v] assms(2) by (simp add: unsigned_ucast_eq take_bit_nat_eq_self)
  then show ?thesis using nz lt assms(3) by (simp add: ht_slot_def hash_def Let_def)
qed

lemma ht_slot_cong: "ht_size t' = ht_size t \<Longrightarrow> length (ht_entries t') = length (ht_entries t) \<Longrightarrow>
   ht_slot t' = ht_slot t"
  by (simp add: ht_slot_def fun_eq_iff)

lemma ht_ok_slot: "ht_ok t \<Longrightarrow> \<exists>i. ht_slot t key = Some i \<and> i < length (ht_entries t)"
  by (rule ht_slot_total) (auto simp: ht_ok_def)

lemma ht_ok_create: "0 < n \<Longrightarrow> n < 2 ^ 31 \<Longrightarrow> ht_ok (ht_create n)"
  using unat_of_nat_u64 [of "nat n"]
  by (auto simp: ht_ok_def ht_create_def to_size_def simp flip: of_nat_nat)

lemma chain_insert_map: "map_of (chain_insert key v es) = (map_of es)(key \<mapsto> v)"
  by (induction key v es rule: chain_insert.induct) (auto simp: fun_eq_iff)

lemma chain_insert_keys: "set (map fst (chain_insert key v es)) = insert key (set (map fst es))"
  by (induction key v es rule: chain_insert.induct) auto

lemma chain_insert_distinct: "distinct (map fst es) \<Longrightarrow> distinct (map fst (chain_insert key v es))"
proof (induction key v es rule: chain_insert.induct)
  case (2 key v k w es)
  then show ?case using chain_insert_keys [of key v es] by (auto simp del: set_map)
qed simp

lemma chain_delete_map: "distinct (map fst es) \<Longrightarrow> map_of (chain_delete key es) = (map_of es)(key := None)"
proof (induction key es rule: chain_delete.induct)
  case (2 key k w es)
  have "map_of es k = None" using 2(2) by (simp add: map_of_eq_None_iff)
  then show ?case using 2 by (auto simp: fun_eq_iff)
qed (simp add: fun_eq_iff)

lemma chain_delete_sub: "set (chain_delete key es) \<subseteq> set es"
  by (induction key es rule: chain_delete.induct) auto

lemma chain_delete_distinct: "distinct (map fst es) \<Longrightarrow> distinct (map fst (chain_delete key es))"
proof (induction key es rule: chain_delete.induct)
  case (2 key k w es)
  then show ?case using chain_delete_sub [of key es] by auto
qed simp

lemma chain_lookup_map: "chain_lookup key es = (case map_of es key of None \<Rightarrow> NULL | Some v \<Rightarrow> v)"
  by (induction key es rule: chain_lookup.induct) auto

lemma ht_upd_chain:
  assumes ok: "ht_ok t" and s: "ht_slot t key = Some s" and d: "distinct (map fst es)"
    and k: "fst ` set es \<subseteq> insert key (fst ` set (ht_entries t ! s))"
  shows "ht_ok (t\<lparr>ht_entries := (ht_entries t)[s := es]\<rparr>)"
    and "ht_view (t\<lparr>ht_entries := (ht_entries t)[s := es]\<rparr>) k' =
      (if ht_slot t k' = Some s then map_of es k' else ht_view t k')"
proof -
  let ?t = "t\<lparr>ht_entries := (ht_entries t)[s := es]\<rparr>"
  have sl: "ht_slot ?t = ht_slot t" by (rule ht_slot_cong) simp_all
  have l: "s < length (ht_entries t)" using ht_ok_slot [OF ok, of key] s by auto
  have "ht_slot t a = Some s" if "(a, v) \<in> set es" for a v
  proof (cases "a = key")
    case False
    have "a \<in> fst ` set es" using that by (force simp: image_iff)
    then have "a \<in> fst ` set (ht_entries t ! s)" using k False by blast
    then show ?thesis using ok l by (fastforce simp: ht_ok_def)
  qed (simp add: s)
  then show "ht_ok ?t" using ok d l by (auto simp: ht_ok_def sl nth_list_update)
  show "ht_view ?t k' = (if ht_slot t k' = Some s then map_of es k' else ht_view t k')"
    using l ht_ok_slot [OF ok, of k'] by (auto simp: ht_view_def sl)
qed

interpretation ht: keyed_map ht_ok "\<lambda>_. True" ht_view ht_insert ht_delete
proof unfold_locales
  fix t :: hashtable and key :: bytes and v :: ptr
  assume ok: "ht_ok t"
  obtain s where s: "ht_slot t key = Some s" "s < length (ht_entries t)" using ht_ok_slot [OF ok] by blast
  let ?es = "chain_insert key v (ht_entries t ! s)"
  have d: "distinct (map fst ?es)" using ok s(2) by (intro chain_insert_distinct) (simp add: ht_ok_def)
  have k: "fst ` set ?es \<subseteq> insert key (fst ` set (ht_entries t ! s))"
    using chain_insert_keys [of key v "ht_entries t ! s"] by simp
  note u = ht_upd_chain [OF ok s(1) d k]
  show "\<exists>m'. ht_insert t key v = Some m' \<and> ht_ok m' \<and>
      (\<forall>k'. True \<longrightarrow> ht_view m' k' = (if k' = key then Some v else ht_view t k'))"
    using u s(1) by (auto simp: ht_insert_def chain_insert_map ht_view_def)
next
  fix t :: hashtable and key :: bytes
  assume ok: "ht_ok t"
  obtain s where s: "ht_slot t key = Some s" "s < length (ht_entries t)" using ht_ok_slot [OF ok] by blast
  let ?es = "chain_delete key (ht_entries t ! s)"
  have d0: "distinct (map fst (ht_entries t ! s))" using ok s(2) by (simp add: ht_ok_def)
  have d: "distinct (map fst ?es)" using chain_delete_distinct [OF d0] .
  have k: "fst ` set ?es \<subseteq> insert key (fst ` set (ht_entries t ! s))"
    using chain_delete_sub [of key "ht_entries t ! s"] by auto
  note u = ht_upd_chain [OF ok s(1) d k]
  show "\<exists>m'. ht_delete t key = Some m' \<and> ht_ok m' \<and>
      (\<forall>k'. True \<longrightarrow> ht_view m' k' = (if k' = key then None else ht_view t k'))"
    using u s(1) by (auto simp: ht_delete_def chain_delete_map [OF d0] ht_view_def)
qed

lemma ht_lookup_view:
  "ht_ok t \<Longrightarrow> ht_lookup t key = Some (case ht_view t key of None \<Rightarrow> NULL | Some v \<Rightarrow> v)"
  using ht_ok_slot [of t key] by (auto simp: ht_lookup_def ht_view_def chain_lookup_map)

lemma ht_insert_view:
  assumes "ht_ok t"
  shows "\<exists>t'. ht_insert t key v = Some t' \<and> ht_ok t' \<and> ht_view t' = (ht_view t)(key \<mapsto> v)"
  using ht.update_law [OF assms TrueI, of key v] by (auto simp: fun_eq_iff)

lemma filter_key:
  "distinct (map fst es) \<Longrightarrow>
   map snd (filter (\<lambda>(k, w). k = key) es) = (case map_of es key of None \<Rightarrow> [] | Some v \<Rightarrow> [v])"
proof (induction es)
  case (Cons e es)
  obtain k w where e: "e = (k, w)" by (cases e)
  have "map_of es k = None" using Cons.prems e by (simp add: map_of_eq_None_iff)
  then show ?case using Cons e by auto
qed simp

lemma ht_get_all_values_view:
  assumes "ht_ok t"
  shows "ht_get_all_values t key = Some (map_option (\<lambda>v. [v]) (ht_view t key))"
proof -
  obtain s where s: "ht_slot t key = Some s" "s < length (ht_entries t)" using ht_ok_slot [OF assms] by blast
  have "distinct (map fst (ht_entries t ! s))" using assms s(2) by (simp add: ht_ok_def)
  from filter_key [OF this, of key] s show ?thesis
    by (auto simp: ht_get_all_values_def ht_view_def Let_def simp del: map_is_Nil_conv split: option.splits)
qed

lemma register_all_view:
  assumes "ht_ok (ks_table k)" "length ps = length xs" "NULL \<notin> set ps"
    "unat (ks_num k) + length xs \<le> 1024"
  shows "\<exists>k'. register_all k xs ps = Some k' \<and> ht_ok (ks_table k') \<and>
    ht_view (ks_table k') = ht_view (ks_table k) ++ map_of (rev (zip (map fst xs) ps)) \<and>
    ks_values k' = ks_values k ++ map_of (rev (zip ps (map snd xs)))"
  using assms
proof (induction k xs ps rule: register_all.induct)
  case (3 k name v xs p ps)
  obtain t where t: "ht_insert (ks_table k) name p = Some t" "ht_ok t"
    "ht_view t = (ht_view (ks_table k))(name \<mapsto> p)" using ht_insert_view [OF 3(2)] by blast
  let ?k = "k\<lparr>ks_table := t, ks_values := (ks_values k)(p \<mapsto> v), ks_num := ks_num k + 1\<rparr>"
  have "unat (ks_num k) < 1024" using 3(5) by simp
  then have r: "register_symbol k name v p = Some (0, ?k)" and n: "unat (ks_num k + 1) = unat (ks_num k) + 1"
    using t 3(4) by (auto simp: register_symbol_def MAX_SYMBOLS_def word_le_nat_alt unat_word_ariths)
  have "\<exists>k'. register_all ?k xs ps = Some k' \<and> ht_ok (ks_table k') \<and>
    ht_view (ks_table k') = ht_view (ks_table ?k) ++ map_of (rev (zip (map fst xs) ps)) \<and>
    ks_values k' = ks_values ?k ++ map_of (rev (zip ps (map snd xs)))"
    using 3 t n by (intro 3(1) [OF r refl]) auto
  then show ?case using r t(3) by auto
qed auto

lemma map_of_rev_distinct:
  assumes "distinct (map fst xs)"
  shows "map_of (rev xs) = map_of xs"
proof
  fix k
  show "map_of (rev xs) k = map_of xs k"
  proof (cases "map_of xs k")
    case None
    then have "map_of (rev xs) k = None" by (simp add: map_of_eq_None_iff)
    then show ?thesis using None by simp
  next
    case (Some v)
    then have "(k, v) \<in> set (rev xs)" using map_of_SomeD by fastforce
    moreover have "distinct (map fst (rev xs))" using assms by (simp flip: rev_map)
    ultimately have "map_of (rev xs) k = Some v" by simp
    then show ?thesis using Some by simp
  qed
qed

section \<open>Properties\<close>

definition demo_table :: hashtable where
  "demo_table = ht_create 4"

lemma demo_table_ok: "ht_ok demo_table"
  by (simp add: demo_table_def ht_ok_create)

text \<open>\<^verbatim>\<open>ht_insert\<close> followed by \<^verbatim>\<open>ht_lookup\<close>: on a well-formed table the insertion never leaves the bucket
  array, keeps the table well formed, the inserted key maps to the new value and every other
  key, colliding or not, keeps its value.\<close>

theorem ht_insert_then_lookup:
  assumes "ht_ok t"
  shows "\<exists>t'. ht_insert t key v = Some t' \<and> ht_ok t' \<and> ht_lookup t' key = Some v \<and>
    (\<forall>k. k \<noteq> key \<longrightarrow> ht_lookup t' k = ht_lookup t k)"
proof -
  obtain t' where "ht_insert t key v = Some t'" "ht_ok t'" "ht_view t' = (ht_view t)(key \<mapsto> v)"
    using ht_insert_view [OF assms] by blast
  then show ?thesis using ht_lookup_view [of t'] ht_lookup_view [OF assms] by auto
qed

theorem ht_insert_then_lookup_witness:
  "\<exists>t'. ht_insert demo_table (cstr ''a'') 7 = Some t' \<and> ht_lookup t' (cstr ''a'') = Some 7"
  using ht_insert_then_lookup [OF demo_table_ok] by blast

text \<open>\<^verbatim>\<open>ht_delete\<close> removes exactly its key: afterwards a lookup of the key yields \<^verbatim>\<open>NULL\<close> and every
  other key keeps its value.\<close>

theorem ht_delete_then_lookup:
  assumes "ht_ok t"
  shows "\<exists>t'. ht_delete t key = Some t' \<and> ht_ok t' \<and> ht_lookup t' key = Some NULL \<and>
    (\<forall>k. k \<noteq> key \<longrightarrow> ht_lookup t' k = ht_lookup t k)"
proof -
  obtain t' where "ht_delete t key = Some t'" "ht_ok t'"
    "\<forall>k. ht_view t' k = (if k = key then None else ht_view t k)"
    using ht.delete_law [OF assms TrueI, of key] by blast
  then show ?thesis using ht_lookup_view [of t'] ht_lookup_view [OF assms] by auto
qed

theorem ht_delete_then_lookup_witness:
  "\<exists>t'. ht_delete demo_table (cstr ''a'') = Some t' \<and> ht_lookup t' (cstr ''a'') = Some NULL"
  using ht_delete_then_lookup [OF demo_table_ok] by blast

text \<open>The table keeps one value per key: after two insertions under the same key
  \<^verbatim>\<open>ht_get_all_values\<close> returns only the second value. The futex queue of \<^verbatim>\<open>sys_futex\<close> inserts every
  waiter under the address of the futex, so of several waiters only the last one is found by a wake-up.\<close>

theorem ht_same_key_overwrites:
  assumes "ht_ok t"
  shows "\<exists>t1 t2. ht_insert t key p = Some t1 \<and> ht_insert t1 key q = Some t2 \<and>
    ht_get_all_values t2 key = Some (Some [q])"
proof -
  obtain t1 where t1: "ht_insert t key p = Some t1" "ht_ok t1" using ht_insert_view [OF assms] by blast
  obtain t2 where t2: "ht_insert t1 key q = Some t2" "ht_ok t2" "ht_view t2 key = Some q"
    using ht_insert_view [OF t1(2), of key q] by auto
  show ?thesis using t1 t2 ht_get_all_values_view [OF t2(2)] by simp
qed

theorem ht_same_key_overwrites_witness:
  "\<exists>t1 t2. ht_insert demo_table (cstr ''4096'') 16 = Some t1 \<and> ht_insert t1 (cstr ''4096'') 32 = Some t2 \<and>
    ht_get_all_values t2 (cstr ''4096'') = Some (Some [32])"
  using ht_same_key_overwrites [OF demo_table_ok] by blast

text \<open>\<^verbatim>\<open>init_kernel_symbols\<close> makes every exported symbol resolvable: with at most 1024 symbols of
  distinct names, \<^verbatim>\<open>find_symbol\<close> of each name returns a symbol structure that holds its value, and a name
  that was not exported resolves to \<^verbatim>\<open>NULL\<close>.\<close>

theorem init_kernel_symbols_resolves:
  assumes "length syms \<le> 1024" "distinct (map fst syms)" "length ps = length syms" "distinct ps" "NULL \<notin> set ps"
  shows "\<exists>k. init_kernel_symbols syms ps = Some k \<and>
    (\<forall>(name, v) \<in> set syms. \<exists>p. find_symbol k name = Some p \<and> p \<noteq> NULL \<and> ks_values k p = Some v) \<and>
    (\<forall>name. name \<notin> fst ` set syms \<longrightarrow> find_symbol k name = Some NULL)"
proof -
  let ?k0 = "\<lparr>ks_table = ht_create 1024, ks_values = Map.empty, ks_num = 0\<rparr>"
  have ok0: "ht_ok (ht_create 1024)" by (simp add: ht_ok_create)
  have v0: "ht_view (ht_create 1024) = Map.empty"
  proof
    fix name
    obtain i where i: "ht_slot (ht_create 1024) name = Some i" "i < length (ht_entries (ht_create 1024))"
      using ht_ok_slot [OF ok0] by blast
    then have "ht_entries (ht_create 1024) ! i = []" by (simp add: ht_create_def)
    then show "ht_view (ht_create 1024) name = None" using i by (simp add: ht_view_def)
  qed
  obtain k where k: "init_kernel_symbols syms ps = Some k" "ht_ok (ks_table k)"
    "ht_view (ks_table k) = map_of (rev (zip (map fst syms) ps))"
    "ks_values k = map_of (rev (zip ps (map snd syms)))"
    using register_all_view [of ?k0 ps syms] assms ok0 v0 by (auto simp: init_kernel_symbols_def)
  have m1: "map_of (rev (zip (map fst syms) ps)) = map_of (zip (map fst syms) ps)"
    and m2: "map_of (rev (zip ps (map snd syms))) = map_of (zip ps (map snd syms))"
    using assms by (auto intro!: map_of_rev_distinct)
  have "\<exists>p. find_symbol k name = Some p \<and> p \<noteq> NULL \<and> ks_values k p = Some v" if "(name, v) \<in> set syms" for name v
  proof -
    obtain i where i: "i < length syms" "syms ! i = (name, v)" using \<open>(name, v) \<in> set syms\<close> by (auto simp: in_set_conv_nth)
    have a: "map_of (zip (map fst syms) ps) name = Some (ps ! i)"
      using map_of_zip_nth [of "map fst syms" ps i] assms i by simp
    have b: "map_of (zip ps (map snd syms)) (ps ! i) = Some v"
      using map_of_zip_nth [of ps "map snd syms" i] assms i by simp
    have "ps ! i \<noteq> NULL" using assms(3,5) i(1) by (metis nth_mem)
    then show ?thesis using a b k m1 m2 ht_lookup_view [OF k(2)] by (simp add: find_symbol_def)
  qed
  moreover have "find_symbol k name = Some NULL" if "name \<notin> fst ` set syms" for name
  proof -
    have "map_of (zip (map fst syms) ps) name = None" using that assms(3) by (auto simp: map_of_eq_None_iff dest: set_zip_leftD)
    then show ?thesis using k(3) m1 ht_lookup_view [OF k(2)] by (simp add: find_symbol_def)
  qed
  ultimately show ?thesis using k(1) by auto
qed

theorem init_kernel_symbols_resolves_witness:
  "\<exists>k p. init_kernel_symbols [(cstr ''printf'', 4096)] [16] = Some k \<and>
     find_symbol k (cstr ''printf'') = Some p \<and> ks_values k p = Some 4096"
  using init_kernel_symbols_resolves [of "[(cstr ''printf'', 4096)]" "[16]"] by auto

end
