(* ===== verification/Kernel_State.thy ===== *)
theory Kernel_State
  imports Tree
begin

text \<open>
  The data of \<^verbatim>\<open>kernel/proc/process.h\<close>, \<^verbatim>\<open>kernel/fs/vfs.h\<close> (file handles), \<^verbatim>\<open>kernel/mutex.h\<close>
  and \<^verbatim>\<open>kernel/lock.h\<close>, and the globals of \<^verbatim>\<open>kernel/proc/process.c\<close> as one record. Processes, descriptor
  tables, address spaces and mutexes are shared objects, so they live in maps from their
  addresses. Lists of the kernel are sequences of pointers, which \<open>Linked_List\<close> justifies.

  A kernel path returns \<open>None\<close> where the code does not get past a point: a dereferenced
  \<^verbatim>\<open>NULL\<close>, an access outside an array, a \<^verbatim>\<open>panic\<close>, or a spin lock that an earlier path left
  taken. Kernel code is not preempted (\<^verbatim>\<open>pit_interrupt\<close> returns at once when it interrupted the
  kernel code segment), so a path runs alone until it calls \<^verbatim>\<open>schedule\<close>.
\<close>

section \<open>Structures\<close>

type_synonym sigset_t = "u64 list"

record signal_handler_t =
  sh_handler :: u64
  sh_mask :: sigset_t
  sh_flags :: u32
  sh_restorer :: u64

record file_handle_t =
  fh_fileNode :: ptr
  fh_mode :: int
  fh_offset :: u64
  fh_flags :: int

text \<open>A type of file nodes that the terminals and the file system share.\<close>

definition FILE_TYPE_VIRTUAL_DEVICE :: u64 where "FILE_TYPE_VIRTUAL_DEVICE = 0x4"

record fd_table_t =
  fd_capacity :: int
  fd_length :: int
  fd_handles :: "file_handle_t option list"
  fd_process_count :: int
  fd_lock :: bool

record mm_struct_t =
  mm_page_directory :: u64
  mm_heap :: u64
  mm_process_count :: int
  mm_lock :: bool

record kernel_thread_t =
  th_rsp :: u64
  th_rbp :: u64
  th_rip :: u64
  th_tls_base :: u64
  th_priority :: int
  th_kernel_stack :: u64
  th_user_stack :: u64
  th_process :: ptr

record process_t =
  p_id :: int
  p_uid :: int
  p_gid :: int
  p_cpu :: int
  p_tgid :: int
  p_parent :: int
  p_flags :: u32
  p_status :: int
  p_sleepTick :: u64
  p_page_directory :: ptr
  p_main_thread :: kernel_thread_t
  p_signalHandlers :: "signal_handler_t list"
  p_saved_registers :: ptr
  p_fd_table :: ptr
  p_cwd :: "bytes option"
  p_cwd_file :: ptr
  p_blocked :: sigset_t
  p_pending :: sigset_t
  p_lock :: bool

record mutex_t =
  m_lock :: bool
  m_owner :: ptr
  m_waiting :: "ptr list"

record kstate =
  procs :: "ptr \<rightharpoonup> process_t"
  fd_tables :: "ptr \<rightharpoonup> fd_table_t"
  mms :: "ptr \<rightharpoonup> mm_struct_t"
  mutexes :: "ptr \<rightharpoonup> mutex_t"
  process_list :: "ptr list"
  process_tree :: tree_t
  tree_heap :: theap
  thread_queue :: "ptr list"
  sleeping_queue :: "ptr list"
  sleep_lock :: bool
  process_lock :: bool
  current_process :: ptr
  previous_process :: ptr
  kernel_idle_process :: ptr
  core :: int
  current_page_map :: u64
  counter :: u64
  id_generator :: int

section \<open>Process flags\<close>

definition PROC_FLAG_KERNEL :: u32 where "PROC_FLAG_KERNEL = push_bit 0 1"
definition PROC_FLAG_RUNNING :: u32 where "PROC_FLAG_RUNNING = push_bit 1 1"
definition PROC_FLAG_ON_CPU :: u32 where "PROC_FLAG_ON_CPU = push_bit 2 1"
definition PROC_FLAG_SLEEP_INTERRUPTIBLE :: u32 where "PROC_FLAG_SLEEP_INTERRUPTIBLE = push_bit 3 1"
definition PROC_FLAG_FINISHED :: u32 where "PROC_FLAG_FINISHED = push_bit 5 1"

section \<open>Access to the shared objects\<close>

definition at :: "(ptr \<rightharpoonup> 'a) \<Rightarrow> ptr \<Rightarrow> 'a option" where
  "at f p = (if p = NULL then None else f p)"

definition spin_lock :: "bool \<Rightarrow> bool option" where
  \<comment> \<open>\<^verbatim>\<open>while(atomic_flag_test_and_set(lock)) schedule(false)\<close>: with the lock taken, the call yields for ever
     unless another path clears it\<close>
  "spin_lock l = (if l then None else Some True)"

definition spin_unlock :: "bool \<Rightarrow> bool" where
  "spin_unlock l = False"

definition upd_proc :: "ptr \<Rightarrow> (process_t \<Rightarrow> process_t) \<Rightarrow> kstate \<Rightarrow> kstate option" where
  "upd_proc p f s = do { x \<leftarrow> at (procs s) p; Some (s\<lparr>procs := (procs s)(p \<mapsto> f x)\<rparr>) }"

definition set_flags :: "u32 \<Rightarrow> process_t \<Rightarrow> process_t" where
  \<comment> \<open>\<^verbatim>\<open>__sync_or_and_fetch(&process->flags, f)\<close>\<close>
  "set_flags f x = x\<lparr>p_flags := p_flags x OR f\<rparr>"

definition clear_flags :: "u32 \<Rightarrow> process_t \<Rightarrow> process_t" where
  \<comment> \<open>\<^verbatim>\<open>__sync_and_and_fetch(&process->flags, ~f)\<close>\<close>
  "clear_flags f x = x\<lparr>p_flags := p_flags x AND NOT f\<rparr>"

definition empty_proc :: process_t where
  \<comment> \<open>a process structure fresh from \<^verbatim>\<open>calloc\<close>\<close>
  "empty_proc =
     \<lparr>p_id = 0, p_uid = 0, p_gid = 0, p_cpu = 0, p_tgid = 0, p_parent = 0, p_flags = 0, p_status = 0,
      p_sleepTick = 0, p_page_directory = NULL,
      p_main_thread = \<lparr>th_rsp = 0, th_rbp = 0, th_rip = 0, th_tls_base = 0, th_priority = 0, th_kernel_stack = 0, th_user_stack = 0,
        th_process = NULL\<rparr>,
      p_signalHandlers = replicate 32 \<lparr>sh_handler = 0, sh_mask = replicate 16 0, sh_flags = 0, sh_restorer = 0\<rparr>, p_saved_registers = NULL,
      p_fd_table = NULL, p_cwd = None, p_cwd_file = NULL,
      p_blocked = replicate 16 0, p_pending = replicate 16 0, p_lock = False\<rparr>"

definition empty_kstate :: kstate where
  "empty_kstate =
     \<lparr>procs = Map.empty, fd_tables = Map.empty, mms = Map.empty, mutexes = Map.empty,
      process_list = [], process_tree = tree_create, tree_heap = Map.empty,
      thread_queue = [], sleeping_queue = [], sleep_lock = False, process_lock = False,
      current_process = NULL, previous_process = NULL, kernel_idle_process = NULL, core = 0,
      current_page_map = 0, counter = 0, id_generator = 1\<rparr>"

lemma at_Some_iff: "at f p = Some x \<longleftrightarrow> p \<noteq> NULL \<and> f p = Some x"
  by (simp add: at_def)

lemma upd_proc_Some:
  "upd_proc p f s = Some s' \<longleftrightarrow>
   (\<exists>x. p \<noteq> NULL \<and> procs s p = Some x \<and> s' = s\<lparr>procs := (procs s)(p \<mapsto> f x)\<rparr>)"
  by (auto simp: upd_proc_def at_def split: bind_splits if_splits)

lemma upd_proc_total:
  "p \<noteq> NULL \<Longrightarrow> p \<in> dom (procs s) \<Longrightarrow>
   \<exists>x. procs s p = Some x \<and> upd_proc p f s = Some (s\<lparr>procs := (procs s)(p \<mapsto> f x)\<rparr>)"
  by (auto simp: upd_proc_def at_def)

end
