(* ===== verification/Scheduler.thy ===== *)
theory Scheduler
  imports Kernel_State "HOL-Library.Multiset"
begin

text \<open>
  The scheduler of \<^verbatim>\<open>kernel/proc/process.c\<close> (ready queue, sleep queue, wait queues) and the timer
  interrupt of \<^verbatim>\<open>kernel/arch/amd64/pit.c\<close>. \<^verbatim>\<open>schedule\<close> ends a kernel path by switching to
  another process; what the switched-out process does when it runs again is a separate path.
\<close>

section \<open>Operations\<close>

definition schedule_process :: "ptr \<Rightarrow> kstate \<Rightarrow> kstate option" where
  "schedule_process p s = do {
     s1 \<leftarrow> upd_proc p (clear_flags PROC_FLAG_SLEEP_INTERRUPTIBLE) s;
     Some (s1\<lparr>thread_queue := thread_queue s1 @ [p]\<rparr>)
   }"

definition get_next_process :: "kstate \<Rightarrow> ptr \<times> kstate" where
  "get_next_process s = (case thread_queue s of [] \<Rightarrow> (NULL, s) | p # q \<Rightarrow> (p, s\<lparr>thread_queue := q\<rparr>))"

definition dispatch :: "kstate \<Rightarrow> kstate option" where
  \<comment> \<open>the second half of \<^verbatim>\<open>schedule\<close>: take the next process, or the idle process, and jump to it\<close>
  "dispatch s =
     (let (next, s1) = get_next_process (s\<lparr>previous_process := current_process s\<rparr>)
      in if next = NULL then do {
           _ \<leftarrow> at (procs s1) (kernel_idle_process s1);
           Some (s1\<lparr>current_process := kernel_idle_process s1\<rparr>)
         } else do {
           s2 \<leftarrow> upd_proc next (set_flags PROC_FLAG_ON_CPU) (s1\<lparr>current_process := next\<rparr>);
           x \<leftarrow> at (procs s2) next;
           mm \<leftarrow> at (mms s2) (p_page_directory x);
           Some (s2\<lparr>current_page_map := mm_page_directory mm\<rparr>)
         })"

definition schedule :: "bool \<Rightarrow> kstate \<Rightarrow> kstate option" where
  "schedule sleep s =
     (if current_process s = NULL then Some s
      else do {
        s1 \<leftarrow> upd_proc (current_process s) (clear_flags PROC_FLAG_ON_CPU) s;
        s2 \<leftarrow> (if current_process s1 \<noteq> kernel_idle_process s1 \<and> \<not> sleep
               then schedule_process (current_process s1) s1 else Some s1);
        dispatch s2
      })"

definition wait_for_object :: "ptr \<Rightarrow> kstate \<Rightarrow> kstate option" where
  "wait_for_object m s = do {
     mx \<leftarrow> at (mutexes s) m;
     _ \<leftarrow> spin_lock (m_lock mx);
     s1 \<leftarrow> upd_proc (current_process s) (set_flags PROC_FLAG_SLEEP_INTERRUPTIBLE)
            (s\<lparr>mutexes := (mutexes s)(m \<mapsto> mx\<lparr>m_waiting := m_waiting mx @ [current_process s], m_lock := False\<rparr>)\<rparr>);
     schedule True s1
   }"

definition wait_for_object_timeout_enter :: "ptr \<Rightarrow> u64 \<Rightarrow> kstate \<Rightarrow> kstate option" where
  \<comment> \<open>\<^verbatim>\<open>wait_for_object_timeout\<close> up to its call of \<^verbatim>\<open>schedule(true)\<close>\<close>
  "wait_for_object_timeout_enter m timeout s = do {
     mx \<leftarrow> at (mutexes s) m;
     _ \<leftarrow> spin_lock (m_lock mx);
     s1 \<leftarrow> upd_proc (current_process s)
            (\<lambda>x. (clear_flags PROC_FLAG_ON_CPU (set_flags PROC_FLAG_SLEEP_INTERRUPTIBLE x))\<lparr>p_sleepTick := timeout\<rparr>)
            (s\<lparr>mutexes := (mutexes s)(m \<mapsto> mx\<lparr>m_waiting := m_waiting mx @ [current_process s], m_lock := False\<rparr>)\<rparr>);
     _ \<leftarrow> spin_lock (sleep_lock s1);
     schedule True (s1\<lparr>sleeping_queue := sleeping_queue s1 @ [current_process s1], sleep_lock := False\<rparr>)
   }"

definition wait_for_object_timeout_resume :: "u64 \<Rightarrow> kstate \<Rightarrow> int" where
  \<comment> \<open>its return value once the process runs again\<close>
  "wait_for_object_timeout_resume timeout s = (if counter s > timeout then 1 else 0)"

fun wake_entries :: "ptr list \<Rightarrow> kstate \<Rightarrow> kstate option" where
  "wake_entries [] s = Some s"
| "wake_entries (p # ps) s = do {
     s1 \<leftarrow> (if p \<noteq> NULL then schedule_process p s else Some s);
     wake_entries ps s1
   }"

definition wakeup_waiting :: "ptr \<Rightarrow> kstate \<Rightarrow> kstate option" where
  \<comment> \<open>\<^verbatim>\<open>wakeup_waiting(mutex->waiting)\<close>: each round schedules the head's process and removes the head\<close>
  "wakeup_waiting m s = do {
     mx \<leftarrow> at (mutexes s) m;
     wake_entries (m_waiting mx) (s\<lparr>mutexes := (mutexes s)(m \<mapsto> mx\<lparr>m_waiting := []\<rparr>)\<rparr>)
   }"

definition sleep_tick :: "u64 \<Rightarrow> int \<Rightarrow> u64" where
  \<comment> \<open>\<^verbatim>\<open>counter + (milliseconds / 10) + 1\<close>, C division truncates towards zero\<close>
  "sleep_tick c ms = c + word_of_int (if ms < 0 then - ((- ms) div 10) else ms div 10) + 1"

definition sleep :: "int \<Rightarrow> kstate \<Rightarrow> kstate option" where
  "sleep milliseconds s = do {
     s1 \<leftarrow> upd_proc (current_process s)
            (\<lambda>x. clear_flags PROC_FLAG_ON_CPU (set_flags PROC_FLAG_SLEEP_INTERRUPTIBLE
                   (x\<lparr>p_sleepTick := sleep_tick (counter s) milliseconds\<rparr>))) s;
     _ \<leftarrow> spin_lock (sleep_lock s1);
     schedule True (s1\<lparr>sleeping_queue := sleeping_queue s1 @ [current_process s1], sleep_lock := False\<rparr>)
   }"

fun first_expired :: "kstate \<Rightarrow> ptr list \<Rightarrow> (ptr list \<times> ptr \<times> ptr list) option option" where
  \<comment> \<open>the first entry whose process has \<^verbatim>\<open>sleepTick <= counter\<close>, with the entries around it\<close>
  "first_expired s [] = Some None"
| "first_expired s (p # ps) = do {
     x \<leftarrow> at (procs s) p;
     if p_sleepTick x \<le> counter s then Some (Some ([], p, ps))
     else do {
       r \<leftarrow> first_expired s ps;
       Some (case r of None \<Rightarrow> None | Some (as, q, bs) \<Rightarrow> Some (p # as, q, bs))
     }
   }"

definition wakeup_sleeping :: "kstate \<Rightarrow> kstate option" where
  \<comment> \<open>after \<^verbatim>\<open>list_delete(sleeping_queue, entry)\<close> the loop reads \<^verbatim>\<open>entry->next\<close>, which the deletion cleared, and
     stops: one call wakes at most one process\<close>
  "wakeup_sleeping s = do {
     _ \<leftarrow> spin_lock (sleep_lock s);
     r \<leftarrow> first_expired s (sleeping_queue s);
     s1 \<leftarrow> (case r of None \<Rightarrow> Some s
            | Some (as, p, bs) \<Rightarrow> schedule_process p (s\<lparr>sleeping_queue := as @ bs\<rparr>));
     Some (s1\<lparr>sleep_lock := False\<rparr>)
   }"

definition wakeup_now :: "ptr \<Rightarrow> kstate \<Rightarrow> (bool \<times> kstate) option" where
  "wakeup_now p s = do {
     _ \<leftarrow> spin_lock (sleep_lock s);
     x \<leftarrow> at (procs s) p;
     if p_cpu x \<noteq> core s \<or> p_cpu x \<noteq> -1 then Some (False, s\<lparr>sleep_lock := True\<rparr>)
     else if p \<in> set (sleeping_queue s) then do {
       s1 \<leftarrow> upd_proc p (\<lambda>x. x\<lparr>p_sleepTick := 0\<rparr>) s;
       s2 \<leftarrow> schedule_process p (s1\<lparr>sleeping_queue := remove1 p (sleeping_queue s1)\<rparr>);
       Some (True, s2\<lparr>sleep_lock := False\<rparr>)
     } else Some (True, s\<lparr>sleep_lock := False\<rparr>)
   }"

definition pit_interrupt :: "u64 \<Rightarrow> kstate \<Rightarrow> kstate option" where
  \<comment> \<open>\<open>cs\<close> is the code segment the interrupt came from\<close>
  "pit_interrupt cs s =
     (let s1 = s\<lparr>counter := counter s + 1\<rparr>
      in if cs = 0x08 then Some s1 else do { s2 \<leftarrow> wakeup_sleeping s1; schedule False s2 })"

definition idle_round :: "kstate \<Rightarrow> kstate option" where
  \<comment> \<open>one round of \<^verbatim>\<open>idle\<close>: an interrupt arrives during \<^verbatim>\<open>hlt\<close>, in the kernel code segment, then
     \<^verbatim>\<open>schedule(false)\<close>\<close>
  "idle_round s = do { s1 \<leftarrow> pit_interrupt 0x08 s; schedule False s1 }"

section \<open>Where every process is\<close>

definition waiting_of :: "kstate \<Rightarrow> ptr \<Rightarrow> ptr list" where
  "waiting_of s m = (case mutexes s m of None \<Rightarrow> [] | Some mx \<Rightarrow> m_waiting mx)"

definition queued :: "ptr list \<Rightarrow> kstate \<Rightarrow> ptr list" where
  \<comment> \<open>the entries of all queues; \<open>ms\<close> lists the mutexes of the system\<close>
  "queued ms s = thread_queue s @ sleeping_queue s @ concat (map (waiting_of s) ms)"

definition places :: "ptr list \<Rightarrow> kstate \<Rightarrow> ptr list" where
  "places ms s =
     (if current_process s = kernel_idle_process s then [] else [current_process s]) @ queued ms s"

definition objects_ok :: "ptr list \<Rightarrow> ptr list \<Rightarrow> kstate \<Rightarrow> bool" where
  \<comment> \<open>the processes \<open>ps\<close>, the idle process, their address spaces and the mutexes \<open>ms\<close> exist; no spin lock is taken\<close>
  "objects_ok ms ps s \<longleftrightarrow>
     distinct ms \<and> NULL \<notin> dom (mutexes s) \<and> NULL \<notin> set ps \<and>
     kernel_idle_process s \<noteq> NULL \<and> kernel_idle_process s \<notin> set ps \<and>
     kernel_idle_process s \<in> dom (procs s) \<and>
     (\<forall>p \<in> set ps. \<exists>x mm. procs s p = Some x \<and> at (mms s) (p_page_directory x) = Some mm) \<and>
     set ms = dom (mutexes s) \<and> (\<forall>m mx. mutexes s m = Some mx \<longrightarrow> \<not> m_lock mx) \<and> \<not> sleep_lock s"

definition sched_ok :: "ptr list \<Rightarrow> ptr list \<Rightarrow> kstate \<Rightarrow> bool" where
  "sched_ok ms ps s \<longleftrightarrow> objects_ok ms ps s \<and> mset (places ms s) = mset ps"

lemma set_queued: "mset (queued ms s) = mset ps \<Longrightarrow> set (queued ms s) = set ps"
  by (rule mset_eq_setD)

lemma objects_ok_procD:
  "objects_ok ms ps s \<Longrightarrow> p \<in> set ps \<Longrightarrow> p \<noteq> NULL \<and> p \<in> dom (procs s)"
  by (auto simp: objects_ok_def)

lemma current_ok:
  assumes "sched_ok ms ps s"
  shows "current_process s \<noteq> NULL" "current_process s \<in> dom (procs s)"
proof -
  have "set (places ms s) = set ps" using assms by (intro mset_eq_setD) (simp add: sched_ok_def)
  then have "current_process s \<in> insert (kernel_idle_process s) (set ps)"
    by (auto simp: places_def split: if_splits)
  then show "current_process s \<noteq> NULL" "current_process s \<in> dom (procs s)"
    using assms by (auto simp: sched_ok_def objects_ok_def)
qed

lemma waiting_of_simps [simp]:
  "waiting_of (s\<lparr>procs := a\<rparr>) = waiting_of s"
  "waiting_of (s\<lparr>thread_queue := b\<rparr>) = waiting_of s"
  "waiting_of (s\<lparr>sleeping_queue := b\<rparr>) = waiting_of s"
  "waiting_of (s\<lparr>sleep_lock := c\<rparr>) = waiting_of s"
  "waiting_of (s\<lparr>current_process := d\<rparr>) = waiting_of s"
  "waiting_of (s\<lparr>previous_process := d\<rparr>) = waiting_of s"
  "waiting_of (s\<lparr>current_page_map := e\<rparr>) = waiting_of s"
  "waiting_of (s\<lparr>counter := e\<rparr>) = waiting_of s"
  by (auto simp: waiting_of_def fun_eq_iff)

lemma waiting_of_mutex [simp]:
  "waiting_of (s\<lparr>mutexes := (mutexes s)(m \<mapsto> mx)\<rparr>) = (waiting_of s)(m := m_waiting mx)"
  by (auto simp: waiting_of_def fun_eq_iff)

lemma queued_simps [simp]:
  "queued ms (s\<lparr>procs := a\<rparr>) = queued ms s"
  "queued ms (s\<lparr>sleep_lock := c\<rparr>) = queued ms s"
  "queued ms (s\<lparr>current_process := d\<rparr>) = queued ms s"
  "queued ms (s\<lparr>previous_process := d\<rparr>) = queued ms s"
  "queued ms (s\<lparr>current_page_map := e\<rparr>) = queued ms s"
  "queued ms (s\<lparr>counter := e\<rparr>) = queued ms s"
  by (simp_all add: queued_def)

lemma mset_concat_upd:
  assumes "distinct ms" "m \<in> set ms"
  shows "mset (concat (map (f(m := xs)) ms)) + mset (f m) = mset (concat (map f ms)) + mset xs"
proof -
  obtain as bs where ms: "ms = as @ m # bs" using assms(2) by (auto dest: split_list)
  then have "m \<notin> set as" "m \<notin> set bs" using assms(1) by auto
  then have "concat (map (f(m := xs)) as) = concat (map f as)"
    "concat (map (f(m := xs)) bs) = concat (map f bs)" by (auto intro!: arg_cong [of _ _ concat])
  then show ?thesis by (simp add: ms ac_simps)
qed

lemma objects_ok_upd:
  "objects_ok ms ps (s\<lparr>thread_queue := b\<rparr>) = objects_ok ms ps s"
  "objects_ok ms ps (s\<lparr>sleeping_queue := b\<rparr>) = objects_ok ms ps s"
  "objects_ok ms ps (s\<lparr>current_process := d\<rparr>) = objects_ok ms ps s"
  "objects_ok ms ps (s\<lparr>previous_process := d\<rparr>) = objects_ok ms ps s"
  "objects_ok ms ps (s\<lparr>current_page_map := e\<rparr>) = objects_ok ms ps s"
  "objects_ok ms ps (s\<lparr>counter := e\<rparr>) = objects_ok ms ps s"
  by (simp_all add: objects_ok_def)

lemma objects_ok_proc:
  "objects_ok ms ps s \<Longrightarrow> procs s p = Some x \<Longrightarrow> p_page_directory y = p_page_directory x \<Longrightarrow>
   objects_ok ms ps (s\<lparr>procs := (procs s)(p \<mapsto> y)\<rparr>)"
  by (auto simp: objects_ok_def)

lemma objects_ok_mutex:
  "objects_ok ms ps s \<Longrightarrow> m \<in> set ms \<Longrightarrow> \<not> m_lock mx \<Longrightarrow>
   objects_ok ms ps (s\<lparr>mutexes := (mutexes s)(m \<mapsto> mx)\<rparr>)"
  by (auto simp: objects_ok_def)

lemma flags_page_directory [simp]:
  "p_page_directory (set_flags f x) = p_page_directory x"
  "p_page_directory (clear_flags f x) = p_page_directory x"
  by (simp_all add: set_flags_def clear_flags_def)

text \<open>What a path leaves alone: everything but processes, queues and the current process.\<close>

definition same_world :: "kstate \<Rightarrow> kstate \<Rightarrow> bool" where
  "same_world s s' \<longleftrightarrow> mutexes s' = mutexes s \<and> kernel_idle_process s' = kernel_idle_process s \<and>
     counter s' = counter s \<and> mms s' = mms s \<and> fd_tables s' = fd_tables s"

lemma same_world_waiting: "same_world s s' \<Longrightarrow> waiting_of s' = waiting_of s"
  by (simp add: same_world_def waiting_of_def fun_eq_iff)

lemma same_world_trans: "same_world a b \<Longrightarrow> same_world b c \<Longrightarrow> same_world a c"
  by (simp add: same_world_def)

lemma schedule_process_ok:
  assumes "objects_ok ms ps s" "p \<in> insert (kernel_idle_process s) (set ps)"
  shows "\<exists>s'. schedule_process p s = Some s' \<and> objects_ok ms ps s' \<and> same_world s s' \<and>
    thread_queue s' = thread_queue s @ [p] \<and> sleeping_queue s' = sleeping_queue s \<and>
    current_process s' = current_process s \<and> sleep_lock s' = sleep_lock s"
proof -
  have p: "p \<noteq> NULL" "p \<in> dom (procs s)" using assms by (auto simp: objects_ok_def)
  from upd_proc_total [OF p] obtain x where
    x: "procs s p = Some x" "upd_proc p (clear_flags PROC_FLAG_SLEEP_INTERRUPTIBLE) s =
      Some (s\<lparr>procs := (procs s)(p \<mapsto> clear_flags PROC_FLAG_SLEEP_INTERRUPTIBLE x)\<rparr>)" by metis
  show ?thesis using objects_ok_proc [OF assms(1) x(1)]
    by (simp add: schedule_process_def x same_world_def objects_ok_upd)
qed

lemma dispatch_ok:
  assumes o: "objects_ok ms ps s" and q: "mset (queued ms s) = mset ps"
  shows "\<exists>s'. dispatch s = Some s' \<and> sched_ok ms ps s' \<and> same_world s s' \<and>
    sleeping_queue s' = sleeping_queue s \<and>
    current_process s' = hd_or (kernel_idle_process s) (thread_queue s) \<and>
    thread_queue s' = tl (thread_queue s)"
proof (cases "thread_queue s")
  case Nil
  let ?s' = "s\<lparr>previous_process := current_process s, current_process := kernel_idle_process s\<rparr>"
  have "dispatch s = Some ?s'" using o Nil
    by (auto simp: dispatch_def get_next_process_def at_def objects_ok_def)
  moreover have "sched_ok ms ps ?s'" using o q by (simp add: sched_ok_def objects_ok_upd places_def)
  ultimately show ?thesis using Nil by (simp add: same_world_def)
next
  case (Cons p tq)
  have "p \<in> set ps" using set_queued [OF q] Cons by (auto simp: queued_def)
  then have "p \<noteq> NULL" "p \<noteq> kernel_idle_process s"
    "\<exists>x mm. procs s p = Some x \<and> at (mms s) (p_page_directory x) = Some mm"
    using o by (auto simp: objects_ok_def)
  then obtain x mm where x: "procs s p = Some x" "at (mms s) (p_page_directory x) = Some mm"
    "p \<noteq> NULL" "p \<noteq> kernel_idle_process s" by blast
  let ?s' = "s\<lparr>previous_process := current_process s, thread_queue := tq, current_process := p,
    procs := (procs s)(p \<mapsto> set_flags PROC_FLAG_ON_CPU x), current_page_map := mm_page_directory mm\<rparr>"
  have "dispatch s = Some ?s'"
  proof -
    have "at f p = f p" for f :: "ptr \<rightharpoonup> process_t" using x(3) by (simp add: at_def)
    then show ?thesis using x Cons by (simp add: dispatch_def get_next_process_def upd_proc_def)
  qed
  moreover have "objects_ok ms ps ?s'" using objects_ok_proc [OF o x(1), of "set_flags PROC_FLAG_ON_CPU x"]
    by (simp add: objects_ok_def)
  moreover have "mset (places ms ?s') = mset ps" using q x(4) Cons by (simp add: places_def queued_def)
  ultimately show ?thesis using Cons by (simp add: same_world_def sched_ok_def)
qed

lemma schedule_True_any:
  assumes o: "objects_ok ms ps s" and q: "mset (queued ms s) = mset ps"
    and p: "current_process s \<noteq> NULL" "current_process s \<in> dom (procs s)"
  shows "\<exists>s'. schedule True s = Some s' \<and> sched_ok ms ps s' \<and> same_world s s' \<and>
    sleeping_queue s' = sleeping_queue s \<and>
    current_process s' = hd_or (kernel_idle_process s) (thread_queue s) \<and>
    thread_queue s' = tl (thread_queue s)"
proof -
  from upd_proc_total [OF p] obtain x where
    x: "procs s (current_process s) = Some x" "upd_proc (current_process s) (clear_flags PROC_FLAG_ON_CPU) s =
      Some (s\<lparr>procs := (procs s)(current_process s \<mapsto> clear_flags PROC_FLAG_ON_CPU x)\<rparr>)" by metis
  let ?s1 = "s\<lparr>procs := (procs s)(current_process s \<mapsto> clear_flags PROC_FLAG_ON_CPU x)\<rparr>"
  have "objects_ok ms ps ?s1" using objects_ok_proc [OF o x(1)] by simp
  from dispatch_ok [OF this] q p(1) x(2) show ?thesis
    by (auto simp: schedule_def same_world_def)
qed

lemma schedule_True_ok:
  assumes "objects_ok ms ps s" "mset (queued ms s) = mset ps"
    "current_process s \<in> insert (kernel_idle_process s) (set ps)"
  shows "\<exists>s'. schedule True s = Some s' \<and> sched_ok ms ps s' \<and> same_world s s' \<and>
    sleeping_queue s' = sleeping_queue s \<and>
    current_process s' = hd_or (kernel_idle_process s) (thread_queue s) \<and>
    thread_queue s' = tl (thread_queue s)"
proof -
  have "current_process s \<noteq> NULL" "current_process s \<in> dom (procs s)"
    using assms(1,3) by (auto simp: objects_ok_def)
  with schedule_True_any [OF assms(1,2)] show ?thesis by blast
qed

text \<open>Scheduling changes nothing of a process but its flags, and of these only the scheduling ones.\<close>

definition same_proc :: "process_t \<Rightarrow> process_t \<Rightarrow> bool" where
  "same_proc x y \<longleftrightarrow> (\<exists>f. y = x\<lparr>p_flags := f\<rparr> \<and> f AND PROC_FLAG_FINISHED = p_flags x AND PROC_FLAG_FINISHED)"

lemma same_proc_refl [simp]: "same_proc x x"
  unfolding same_proc_def by (rule exI [of _ "p_flags x"]) simp

lemma same_proc_trans: "same_proc x y \<Longrightarrow> same_proc y z \<Longrightarrow> same_proc x z"
  by (auto simp: same_proc_def)

lemma same_proc_flags:
  "same_proc x (set_flags PROC_FLAG_ON_CPU x)" "same_proc x (clear_flags PROC_FLAG_ON_CPU x)"
  "same_proc x (clear_flags PROC_FLAG_SLEEP_INTERRUPTIBLE x)"
proof -
  have d: "PROC_FLAG_ON_CPU AND PROC_FLAG_FINISHED = 0" "NOT PROC_FLAG_ON_CPU AND PROC_FLAG_FINISHED = PROC_FLAG_FINISHED"
    "NOT PROC_FLAG_SLEEP_INTERRUPTIBLE AND PROC_FLAG_FINISHED = PROC_FLAG_FINISHED"
    by (simp_all add: PROC_FLAG_ON_CPU_def PROC_FLAG_FINISHED_def PROC_FLAG_SLEEP_INTERRUPTIBLE_def)
  have "(p_flags x OR PROC_FLAG_ON_CPU) AND PROC_FLAG_FINISHED = p_flags x AND PROC_FLAG_FINISHED"
    by (simp add: bit.conj_disj_distrib2 d)
  moreover have "(p_flags x AND NOT PROC_FLAG_ON_CPU) AND PROC_FLAG_FINISHED = p_flags x AND PROC_FLAG_FINISHED"
    "(p_flags x AND NOT PROC_FLAG_SLEEP_INTERRUPTIBLE) AND PROC_FLAG_FINISHED = p_flags x AND PROC_FLAG_FINISHED"
    by (simp_all only: and.assoc d)
  ultimately show "same_proc x (set_flags PROC_FLAG_ON_CPU x)" "same_proc x (clear_flags PROC_FLAG_ON_CPU x)"
    "same_proc x (clear_flags PROC_FLAG_SLEEP_INTERRUPTIBLE x)"
    unfolding same_proc_def set_flags_def clear_flags_def by blast+
qed

lemma upd_proc_same:
  assumes "upd_proc p f s = Some s'" "\<And>x. same_proc x (f x)" "procs s q = Some x"
  shows "\<exists>y. procs s' q = Some y \<and> same_proc x y"
  using assms by (auto simp: upd_proc_Some)

lemma dispatch_procs:
  assumes "dispatch s = Some s'" "procs s q = Some x"
  shows "\<exists>y. procs s' q = Some y \<and> same_proc x y"
proof (cases "fst (get_next_process (s\<lparr>previous_process := current_process s\<rparr>)) = NULL")
  case True
  then show ?thesis using assms
    by (auto simp: dispatch_def get_next_process_def split: list.splits bind_splits)
next
  case False
  obtain p s1 where p: "get_next_process (s\<lparr>previous_process := current_process s\<rparr>) = (p, s1)" by fastforce
  have "procs s1 q = Some x" using p assms(2) by (auto simp: get_next_process_def split: list.splits)
  moreover obtain s2 e where "upd_proc p (set_flags PROC_FLAG_ON_CPU) (s1\<lparr>current_process := p\<rparr>) = Some s2"
    "s' = s2\<lparr>current_page_map := e\<rparr>"
    using assms(1) p False by (auto simp: dispatch_def split: bind_splits)
  ultimately show ?thesis
    using upd_proc_same [of p "set_flags PROC_FLAG_ON_CPU" "s1\<lparr>current_process := p\<rparr>" s2 q x] same_proc_flags by auto
qed

lemma schedule_True_procs:
  assumes "schedule True s = Some s'" "procs s q = Some x"
  shows "\<exists>y. procs s' q = Some y \<and> same_proc x y"
proof (cases "current_process s = NULL")
  case False
  then obtain s1 where s1: "upd_proc (current_process s) (clear_flags PROC_FLAG_ON_CPU) s = Some s1" "dispatch s1 = Some s'"
    using assms(1) by (auto simp: schedule_def split: bind_splits)
  from upd_proc_same [OF s1(1) same_proc_flags(2) assms(2)] obtain y where
    "procs s1 q = Some y" "same_proc x y" by blast
  then show ?thesis using dispatch_procs [OF s1(2)] same_proc_trans by blast
qed (use assms in \<open>simp add: schedule_def\<close>)

lemma schedule_False_ok:
  assumes "sched_ok ms ps s"
  shows "\<exists>s'. schedule False s = Some s' \<and> sched_ok ms ps s' \<and> same_world s s' \<and>
    sleeping_queue s' = sleeping_queue s \<and>
    (current_process s \<noteq> kernel_idle_process s \<longrightarrow>
      current_process s' = hd_or (current_process s) (thread_queue s) \<and>
      thread_queue s' = tl (thread_queue s @ [current_process s])) \<and>
    (current_process s = kernel_idle_process s \<longrightarrow>
      current_process s' = hd_or (kernel_idle_process s) (thread_queue s) \<and>
      thread_queue s' = tl (thread_queue s))"
proof -
  have o: "objects_ok ms ps s" and q: "mset (places ms s) = mset ps" using assms by (auto simp: sched_ok_def)
  note p = current_ok [OF assms]
  from upd_proc_total [OF p] obtain x where
    x: "procs s (current_process s) = Some x" "upd_proc (current_process s) (clear_flags PROC_FLAG_ON_CPU) s =
      Some (s\<lparr>procs := (procs s)(current_process s \<mapsto> clear_flags PROC_FLAG_ON_CPU x)\<rparr>)" by metis
  let ?s1 = "s\<lparr>procs := (procs s)(current_process s \<mapsto> clear_flags PROC_FLAG_ON_CPU x)\<rparr>"
  have o1: "objects_ok ms ps ?s1" using objects_ok_proc [OF o x(1)] by simp
  show ?thesis
  proof (cases "current_process s = kernel_idle_process s")
    case True
    then have "mset (queued ms ?s1) = mset ps" using q by (simp add: places_def)
    from dispatch_ok [OF o1 this] True p(1) x(2) show ?thesis
      by (auto simp: schedule_def same_world_def)
  next
    case False
    then have "current_process s \<in> set ps" using mset_eq_setD [OF q] by (auto simp: places_def)
    then obtain s2 where s2: "schedule_process (current_process s) ?s1 = Some s2" "objects_ok ms ps s2"
      "same_world ?s1 s2" "thread_queue s2 = thread_queue s @ [current_process s]"
      "sleeping_queue s2 = sleeping_queue s" "current_process s2 = current_process s"
      using schedule_process_ok [OF o1, of "current_process s"] by auto
    have "mset (queued ms s2) = mset ps" using q False s2(3-5)
      by (simp add: places_def queued_def same_world_waiting [OF s2(3)])
    from dispatch_ok [OF s2(2) this] s2 p(1) x(2) False show ?thesis
      by (auto simp: schedule_def same_world_def)
  qed
qed

lemma wait_for_object_ok:
  assumes s: "sched_ok ms ps s" and m: "m \<in> set ms" and c: "current_process s \<noteq> kernel_idle_process s"
  shows "\<exists>s' mx. wait_for_object m s = Some s' \<and> sched_ok ms ps s' \<and> mutexes s m = Some mx \<and>
    mutexes s' = (mutexes s)(m \<mapsto> mx\<lparr>m_waiting := m_waiting mx @ [current_process s]\<rparr>) \<and>
    kernel_idle_process s' = kernel_idle_process s \<and> counter s' = counter s \<and>
    sleeping_queue s' = sleeping_queue s \<and>
    current_process s' = hd_or (kernel_idle_process s) (thread_queue s) \<and>
    thread_queue s' = tl (thread_queue s)"
proof -
  have o: "objects_ok ms ps s" and q: "mset (places ms s) = mset ps" using s by (auto simp: sched_ok_def)
  have m0: "m \<noteq> NULL" "m \<in> dom (mutexes s)" "distinct ms" using o m by (auto simp: objects_ok_def)
  then obtain mx where mx: "mutexes s m = Some mx" "\<not> m_lock mx" using o by (auto simp: objects_ok_def)
  let ?mx = "mx\<lparr>m_waiting := m_waiting mx @ [current_process s], m_lock := False\<rparr>"
  have e: "?mx = mx\<lparr>m_waiting := m_waiting mx @ [current_process s]\<rparr>" using mx(2) by simp
  obtain x where x: "procs s (current_process s) = Some x" using current_ok [OF s] by auto
  let ?s1 = "s\<lparr>mutexes := (mutexes s)(m \<mapsto> ?mx), procs := (procs s)(current_process s \<mapsto>
    set_flags PROC_FLAG_SLEEP_INTERRUPTIBLE x)\<rparr>"
  have o1: "objects_ok ms ps (s\<lparr>mutexes := (mutexes s)(m \<mapsto> ?mx)\<rparr>)"
    by (rule objects_ok_mutex [OF o m]) simp
  have o2: "objects_ok ms ps ?s1"
    using objects_ok_proc [OF o1, of "current_process s" x "set_flags PROC_FLAG_SLEEP_INTERRUPTIBLE x"] x by simp
  have "waiting_of s m = m_waiting mx" using mx by (simp add: waiting_of_def)
  then have "mset (queued ms ?s1) = mset (places ms s)"
    using mset_concat_upd [OF m0(3) m, of "waiting_of s" "m_waiting ?mx"] c
    by (simp add: places_def queued_def del: fun_upd_apply)
  then have q2: "mset (queued ms ?s1) = mset ps" using q by simp
  have cin: "current_process ?s1 \<in> insert (kernel_idle_process ?s1) (set ps)"
    using mset_eq_setD [OF q] c by (auto simp: places_def)
  have w: "wait_for_object m s = schedule True ?s1"
    using m0(1) mx x current_ok(1) [OF s]
    by (simp add: wait_for_object_def at_def spin_lock_def upd_proc_def)
  from schedule_True_ok [OF o2 q2 cin] show ?thesis
    using mx(1) e unfolding w by (auto simp: same_world_def)
qed

lemma wake_entries_ok:
  assumes "objects_ok ms ps s" "set qs \<subseteq> set ps"
  shows "\<exists>s'. wake_entries qs s = Some s' \<and> objects_ok ms ps s' \<and> same_world s s' \<and>
    thread_queue s' = thread_queue s @ qs \<and> sleeping_queue s' = sleeping_queue s \<and>
    current_process s' = current_process s"
  using assms
proof (induction qs arbitrary: s)
  case (Cons p qs)
  have "p \<noteq> NULL" using objects_ok_procD [OF Cons.prems(1), of p] Cons.prems(2) by auto
  moreover obtain s1 where s1: "schedule_process p s = Some s1" "objects_ok ms ps s1" "same_world s s1"
    "thread_queue s1 = thread_queue s @ [p]" "sleeping_queue s1 = sleeping_queue s"
    "current_process s1 = current_process s"
    using schedule_process_ok [OF Cons.prems(1), of p] Cons.prems(2) by auto
  moreover obtain s2 where "wake_entries qs s1 = Some s2" "objects_ok ms ps s2" "same_world s1 s2"
    "thread_queue s2 = thread_queue s1 @ qs" "sleeping_queue s2 = sleeping_queue s1"
    "current_process s2 = current_process s1"
    using Cons.IH [OF s1(2)] Cons.prems(2) by auto
  ultimately show ?case by (auto intro: same_world_trans)
qed (simp add: same_world_def)

lemma wakeup_waiting_ok:
  assumes o: "objects_ok ms ps s" and mx: "mutexes s m = Some mx" and w: "set (m_waiting mx) \<subseteq> set ps"
  shows "\<exists>s'. wakeup_waiting m s = Some s' \<and> objects_ok ms ps s' \<and>
    mutexes s' = (mutexes s)(m \<mapsto> mx\<lparr>m_waiting := []\<rparr>) \<and>
    thread_queue s' = thread_queue s @ m_waiting mx \<and> sleeping_queue s' = sleeping_queue s \<and>
    current_process s' = current_process s \<and> kernel_idle_process s' = kernel_idle_process s \<and>
    counter s' = counter s"
proof -
  have m: "m \<in> set ms" "m \<noteq> NULL" using o mx by (auto simp: objects_ok_def)
  have "\<not> m_lock mx" using o mx by (auto simp: objects_ok_def)
  then have o1: "objects_ok ms ps (s\<lparr>mutexes := (mutexes s)(m \<mapsto> mx\<lparr>m_waiting := []\<rparr>)\<rparr>)"
    using objects_ok_mutex [OF o m(1), of "mx\<lparr>m_waiting := []\<rparr>"] by simp
  from wake_entries_ok [OF o1 w] mx m(2) show ?thesis
    by (auto simp: wakeup_waiting_def at_def same_world_def)
qed

lemma sleep_ok:
  assumes s: "sched_ok ms ps s" and c: "current_process s \<noteq> kernel_idle_process s"
  shows "\<exists>s'. sleep t s = Some s' \<and> sched_ok ms ps s' \<and> same_world s s' \<and>
    sleeping_queue s' = sleeping_queue s @ [current_process s] \<and>
    current_process s' = hd_or (kernel_idle_process s) (thread_queue s) \<and>
    thread_queue s' = tl (thread_queue s)"
proof -
  have o: "objects_ok ms ps s" and q: "mset (places ms s) = mset ps" using s by (auto simp: sched_ok_def)
  note p = current_ok [OF s]
  obtain x where x: "procs s (current_process s) = Some x" using p by auto
  define y where "y = clear_flags PROC_FLAG_ON_CPU (set_flags PROC_FLAG_SLEEP_INTERRUPTIBLE
      (x\<lparr>p_sleepTick := sleep_tick (counter s) t\<rparr>))"
  let ?s1 = "s\<lparr>procs := (procs s)(current_process s \<mapsto> y), sleeping_queue := sleeping_queue s @ [current_process s],
    sleep_lock := False\<rparr>"
  have "objects_ok ms ps (s\<lparr>procs := (procs s)(current_process s \<mapsto> y)\<rparr>)"
    by (rule objects_ok_proc [OF o x]) (simp add: y_def)
  then have o1: "objects_ok ms ps ?s1" by (simp add: objects_ok_def)
  have q1: "mset (queued ms ?s1) = mset ps" using q c by (simp add: places_def queued_def)
  have cin: "current_process ?s1 \<in> insert (kernel_idle_process ?s1) (set ps)"
    using mset_eq_setD [OF q] c by (auto simp: places_def)
  have "\<not> sleep_lock s" using o by (simp add: objects_ok_def)
  then have "sleep t s = schedule True ?s1"
    using p(1) x by (simp add: sleep_def upd_proc_def at_def spin_lock_def y_def)
  with schedule_True_ok [OF o1 q1 cin] show ?thesis by (auto simp: same_world_def)
qed

lemma objects_ok_set: "set ps = set qs \<Longrightarrow> objects_ok ms ps s = objects_ok ms qs s"
  by (simp add: objects_ok_def)

lemma wait_for_object_timeout_enter_ok:
  \<comment> \<open>the process is entered twice, in the waiting list and in the sleep queue\<close>
  assumes s: "sched_ok ms ps s" and m: "m \<in> set ms" and c: "current_process s \<noteq> kernel_idle_process s"
  shows "\<exists>s' mx. wait_for_object_timeout_enter m t s = Some s' \<and>
    sched_ok ms (ps @ [current_process s]) s' \<and> mutexes s m = Some mx \<and>
    mutexes s' = (mutexes s)(m \<mapsto> mx\<lparr>m_waiting := m_waiting mx @ [current_process s]\<rparr>) \<and>
    kernel_idle_process s' = kernel_idle_process s \<and>
    sleeping_queue s' = sleeping_queue s @ [current_process s] \<and>
    current_process s' = hd_or (kernel_idle_process s) (thread_queue s) \<and>
    thread_queue s' = tl (thread_queue s)"
proof -
  have o: "objects_ok ms ps s" and q: "mset (places ms s) = mset ps" using s by (auto simp: sched_ok_def)
  have m0: "m \<noteq> NULL" "m \<in> dom (mutexes s)" "distinct ms" "\<not> sleep_lock s"
    using o m by (auto simp: objects_ok_def)
  then obtain mx where mx: "mutexes s m = Some mx" "\<not> m_lock mx" using o by (auto simp: objects_ok_def)
  let ?c = "current_process s"
  let ?mx = "mx\<lparr>m_waiting := m_waiting mx @ [?c], m_lock := False\<rparr>"
  have e: "?mx = mx\<lparr>m_waiting := m_waiting mx @ [?c]\<rparr>" using mx(2) by simp
  obtain x where x: "procs s ?c = Some x" using current_ok [OF s] by auto
  define y where "y = (clear_flags PROC_FLAG_ON_CPU (set_flags PROC_FLAG_SLEEP_INTERRUPTIBLE x))\<lparr>p_sleepTick := t\<rparr>"
  let ?s1 = "s\<lparr>mutexes := (mutexes s)(m \<mapsto> ?mx), procs := (procs s)(?c \<mapsto> y),
    sleeping_queue := sleeping_queue s @ [?c], sleep_lock := False\<rparr>"
  have cp: "?c \<in> set ps" using mset_eq_setD [OF q] c by (auto simp: places_def)
  have o1: "objects_ok ms ps (s\<lparr>mutexes := (mutexes s)(m \<mapsto> ?mx)\<rparr>)"
    by (rule objects_ok_mutex [OF o m]) simp
  have "objects_ok ms ps (s\<lparr>mutexes := (mutexes s)(m \<mapsto> ?mx), procs := (procs s)(?c \<mapsto> y)\<rparr>)"
    using objects_ok_proc [OF o1, of ?c x y] x by (simp add: y_def)
  then have "objects_ok ms ps ?s1" by (simp add: objects_ok_def)
  then have o2: "objects_ok ms (ps @ [?c]) ?s1" using objects_ok_set [of ps "ps @ [?c]"] cp by auto
  have "waiting_of s m = m_waiting mx" using mx by (simp add: waiting_of_def)
  then have "mset (queued ms ?s1) = mset (places ms s) + mset [?c]"
    using mset_concat_upd [OF m0(3) m, of "waiting_of s" "m_waiting ?mx"] c
    by (simp add: places_def queued_def del: fun_upd_apply)
  then have q2: "mset (queued ms ?s1) = mset (ps @ [?c])" using q by simp
  have cin: "current_process ?s1 \<in> insert (kernel_idle_process ?s1) (set (ps @ [?c]))" by simp
  have w: "wait_for_object_timeout_enter m t s = schedule True ?s1"
    using m0(1,4) mx x current_ok(1) [OF s]
    by (simp add: wait_for_object_timeout_enter_def at_def spin_lock_def upd_proc_def y_def)
  from schedule_True_ok [OF o2 q2 cin] show ?thesis
    using mx(1) e unfolding w by (auto simp: same_world_def)
qed

lemma first_expired_ok:
  assumes "\<And>p. p \<in> set qs \<Longrightarrow> p \<noteq> NULL \<and> p \<in> dom (procs s)"
  shows "\<exists>r. first_expired s qs = Some r \<and>
    (case r of None \<Rightarrow> \<forall>p \<in> set qs. counter s < p_sleepTick (the (procs s p))
     | Some (as, p, bs) \<Rightarrow> qs = as @ p # bs \<and> p_sleepTick (the (procs s p)) \<le> counter s \<and>
         (\<forall>p \<in> set as. counter s < p_sleepTick (the (procs s p))))"
  using assms
proof (induction qs)
  case (Cons p qs)
  obtain x where x: "at (procs s) p = Some x" "procs s p = Some x" using Cons.prems [of p] by (auto simp: at_def)
  obtain r where "first_expired s qs = Some r"
    "case r of None \<Rightarrow> \<forall>p \<in> set qs. counter s < p_sleepTick (the (procs s p))
     | Some (as, p, bs) \<Rightarrow> qs = as @ p # bs \<and> p_sleepTick (the (procs s p)) \<le> counter s \<and>
         (\<forall>p \<in> set as. counter s < p_sleepTick (the (procs s p)))"
    using Cons by auto
  then show ?case using x by (auto split: option.splits)
qed simp

lemma wakeup_sleeping_ok:
  assumes s: "sched_ok ms ps s"
  shows "\<exists>s'. wakeup_sleeping s = Some s' \<and> sched_ok ms ps s' \<and> same_world s s' \<and>
    current_process s' = current_process s \<and>
    ((\<forall>p \<in> set (sleeping_queue s). counter s < p_sleepTick (the (procs s p))) \<and>
       thread_queue s' = thread_queue s \<and> sleeping_queue s' = sleeping_queue s \<or>
     (\<exists>as p bs. sleeping_queue s = as @ p # bs \<and> p_sleepTick (the (procs s p)) \<le> counter s \<and>
       (\<forall>p \<in> set as. counter s < p_sleepTick (the (procs s p))) \<and>
       sleeping_queue s' = as @ bs \<and> thread_queue s' = thread_queue s @ [p]))"
proof -
  have o: "objects_ok ms ps s" and q: "mset (places ms s) = mset ps" using s by (auto simp: sched_ok_def)
  have sl: "\<not> sleep_lock s" using o by (simp add: objects_ok_def)
  have sp: "p \<in> set ps" if "p \<in> set (sleeping_queue s)" for p
    using mset_eq_setD [OF q] that by (auto simp: places_def queued_def)
  have "p \<noteq> NULL \<and> p \<in> dom (procs s)" if "p \<in> set (sleeping_queue s)" for p
    using objects_ok_procD [OF o sp [OF that]] .
  from first_expired_ok [of "sleeping_queue s" s, OF this] obtain r where r:
    "first_expired s (sleeping_queue s) = Some r"
    "case r of None \<Rightarrow> \<forall>p \<in> set (sleeping_queue s). counter s < p_sleepTick (the (procs s p))
     | Some (as, p, bs) \<Rightarrow> sleeping_queue s = as @ p # bs \<and> p_sleepTick (the (procs s p)) \<le> counter s \<and>
         (\<forall>p \<in> set as. counter s < p_sleepTick (the (procs s p)))" by blast
  show ?thesis
  proof (cases r)
    case None
    then have "wakeup_sleeping s = Some s" using r(1) sl by (simp add: wakeup_sleeping_def spin_lock_def)
    then show ?thesis using None r(2) s by (auto simp: same_world_def)
  next
    case (Some t)
    obtain as p bs where t: "t = (as, p, bs)" by (cases t)
    have e: "sleeping_queue s = as @ p # bs" "p_sleepTick (the (procs s p)) \<le> counter s"
      "\<forall>p \<in> set as. counter s < p_sleepTick (the (procs s p))" using r(2) Some t by auto
    have "objects_ok ms ps (s\<lparr>sleeping_queue := as @ bs\<rparr>)" using o by (simp add: objects_ok_upd)
    from schedule_process_ok [OF this, of p] obtain s1 where
      s1: "schedule_process p (s\<lparr>sleeping_queue := as @ bs\<rparr>) = Some s1" "objects_ok ms ps s1"
        "same_world s s1" "thread_queue s1 = thread_queue s @ [p]" "sleeping_queue s1 = as @ bs"
        "current_process s1 = current_process s" "sleep_lock s1 = sleep_lock s"
      using sp [of p] e(1) by (auto simp: same_world_def)
    have ki: "kernel_idle_process s1 = kernel_idle_process s" using s1(3) by (simp add: same_world_def)
    have "mset (places ms s1) = mset ps"
      using q s1(4-6) e(1) ki same_world_waiting [OF s1(3)]
      by (auto simp: places_def queued_def ac_simps split: if_splits)
    then have ok: "sched_ok ms ps s1" using s1(2) by (simp add: sched_ok_def)
    have "wakeup_sleeping s = Some s1" using r(1) Some t s1 sl
      by (simp add: wakeup_sleeping_def spin_lock_def)
    then show ?thesis using ok s1 e by auto
  qed
qed

lemma counter_ok: "sched_ok ms ps s \<Longrightarrow> sched_ok ms ps (s\<lparr>counter := c\<rparr>)"
  by (auto simp: sched_ok_def objects_ok_upd places_def)

lemma pit_interrupt_user_ok:
  assumes "sched_ok ms ps s" "cs \<noteq> 0x08"
  shows "\<exists>s'. pit_interrupt cs s = Some s' \<and> sched_ok ms ps s' \<and> mutexes s' = mutexes s \<and>
    kernel_idle_process s' = kernel_idle_process s \<and> counter s' = counter s + 1"
proof -
  from wakeup_sleeping_ok [OF counter_ok [OF assms(1), of "counter s + 1"]] obtain s1 where
    s1: "wakeup_sleeping (s\<lparr>counter := counter s + 1\<rparr>) = Some s1" "sched_ok ms ps s1"
      "same_world (s\<lparr>counter := counter s + 1\<rparr>) s1" by blast
  from schedule_False_ok [OF s1(2)] s1 assms(2) show ?thesis
    by (auto simp: pit_interrupt_def same_world_def)
qed

lemma idle_round_ok:
  assumes "sched_ok ms ps s" "current_process s = kernel_idle_process s"
  shows "\<exists>s'. idle_round s = Some s' \<and> sched_ok ms ps s' \<and> mutexes s' = mutexes s \<and>
    kernel_idle_process s' = kernel_idle_process s \<and> counter s' = counter s + 1 \<and>
    sleeping_queue s' = sleeping_queue s \<and>
    current_process s' = hd_or (kernel_idle_process s) (thread_queue s) \<and>
    thread_queue s' = tl (thread_queue s)"
  using schedule_False_ok [OF counter_ok [OF assms(1), of "counter s + 1"]] assms(2)
  by (auto simp: idle_round_def pit_interrupt_def same_world_def)

fun idle_rounds :: "nat \<Rightarrow> kstate \<Rightarrow> kstate option" where
  "idle_rounds 0 s = Some s"
| "idle_rounds (Suc n) s = do { s1 \<leftarrow> idle_round s; idle_rounds n s1 }"

section \<open>A small system\<close>

definition demo_kstate :: kstate where
  \<comment> \<open>processes at 16 and 32, the idle process at 8, one mutex at 64; 16 is running\<close>
  "demo_kstate = empty_kstate\<lparr>
     procs := [8 \<mapsto> empty_proc, 16 \<mapsto> empty_proc\<lparr>p_id := 1, p_page_directory := 24\<rparr>,
               32 \<mapsto> empty_proc\<lparr>p_id := 2, p_page_directory := 24\<rparr>],
     mms := [24 \<mapsto> \<lparr>mm_page_directory = 4096, mm_heap = 0, mm_process_count = 2, mm_lock = False\<rparr>],
     mutexes := [64 \<mapsto> \<lparr>m_lock = False, m_owner = NULL, m_waiting = []\<rparr>],
     thread_queue := [32], current_process := 16, kernel_idle_process := 8\<rparr>"

definition demo_asleep :: kstate where
  \<comment> \<open>the same system when both processes sleep\<close>
  "demo_asleep = demo_kstate\<lparr>thread_queue := [], sleeping_queue := [16, 32], current_process := 8\<rparr>"

lemma demo_sched_ok: "sched_ok [64] [16, 32] demo_kstate" "sched_ok [64] [16, 32] demo_asleep"
  by (auto simp: sched_ok_def objects_ok_def places_def queued_def waiting_of_def demo_kstate_def
      demo_asleep_def empty_kstate_def empty_proc_def at_def)

section \<open>Properties\<close>

text \<open>C35. Preemption is round robin and loses nobody: in a consistent state, \<^verbatim>\<open>schedule(false)\<close> from a
  process returns no fault, puts that process at the end of the ready queue, runs the process at the
  front of it and leaves the sleepers and the mutexes alone; the consistency of the scheduler
  (every process in exactly one place) is kept.\<close>

theorem schedule_round_robin:
  assumes "sched_ok ms ps s" "current_process s \<noteq> kernel_idle_process s"
  shows "\<exists>s'. schedule False s = Some s' \<and> sched_ok ms ps s' \<and>
    current_process s' # thread_queue s' = thread_queue s @ [current_process s] \<and>
    sleeping_queue s' = sleeping_queue s \<and> mutexes s' = mutexes s"
  using schedule_False_ok [OF assms(1)] assms(2)
  by (cases "thread_queue s") (auto simp: same_world_def)

theorem schedule_round_robin_witness:
  "\<exists>s'. schedule False demo_kstate = Some s' \<and> current_process s' = 32 \<and> thread_queue s' = [16]"
  using schedule_round_robin [OF demo_sched_ok(1)] by (auto simp: demo_kstate_def empty_kstate_def)

text \<open>\<^verbatim>\<open>wakeup_sleeping\<close> wakes only processes whose tick has come, in queue order, and one per call: either no
  sleeper is due and nothing moves, or the first due sleeper, and only that one, moves to the
  end of the ready queue.\<close>

theorem wakeup_sleeping_first_due:
  assumes "sched_ok ms ps s"
  shows "\<exists>s'. wakeup_sleeping s = Some s' \<and> sched_ok ms ps s' \<and>
    ((\<forall>p \<in> set (sleeping_queue s). counter s < p_sleepTick (the (procs s p))) \<and>
       thread_queue s' = thread_queue s \<and> sleeping_queue s' = sleeping_queue s \<or>
     (\<exists>as p bs. sleeping_queue s = as @ p # bs \<and> p_sleepTick (the (procs s p)) \<le> counter s \<and>
       (\<forall>p \<in> set as. counter s < p_sleepTick (the (procs s p))) \<and>
       sleeping_queue s' = as @ bs \<and> thread_queue s' = thread_queue s @ [p]))"
  using wakeup_sleeping_ok [OF assms] by blast

theorem wakeup_sleeping_first_due_witness:
  "\<exists>s'. wakeup_sleeping demo_asleep = Some s' \<and> sched_ok [64] [16, 32] s'"
  using wakeup_sleeping_first_due [OF demo_sched_ok(2)] by blast

text \<open>C40. Once every process sleeps, nothing wakes any of them: in the idle loop the timer interrupt arrives
  in the kernel code segment, where \<^verbatim>\<open>pit_interrupt\<close> returns before \<^verbatim>\<open>wakeup_sleeping\<close>, so after any
  number of idle rounds the tick counter has advanced by as much and the sleep queue is unchanged.\<close>

theorem idle_rounds_wake_nobody:
  assumes "sched_ok ms ps s" "current_process s = kernel_idle_process s" "thread_queue s = []"
  shows "\<exists>s'. idle_rounds n s = Some s' \<and> current_process s' = kernel_idle_process s' \<and>
    thread_queue s' = [] \<and> sleeping_queue s' = sleeping_queue s \<and> counter s' = counter s + of_nat n"
  using assms
proof (induction n arbitrary: s)
  case (Suc n)
  from idle_round_ok [OF Suc.prems(1,2)] Suc.prems obtain s1 where
    s1: "idle_round s = Some s1" "sched_ok ms ps s1" "current_process s1 = kernel_idle_process s1"
      "thread_queue s1 = []" "sleeping_queue s1 = sleeping_queue s" "counter s1 = counter s + 1" by auto
  from Suc.IH [OF s1(2-4)] s1 show ?case by auto
qed simp

theorem idle_rounds_wake_nobody_witness:
  "\<exists>s'. idle_rounds 1000 demo_asleep = Some s' \<and> sleeping_queue s' = [16, 32]"
  using idle_rounds_wake_nobody [OF demo_sched_ok(2), of 1000]
  by (auto simp: demo_asleep_def demo_kstate_def empty_kstate_def)

text \<open>\<^verbatim>\<open>wakeup_now\<close> tests \<^verbatim>\<open>cpu != core || cpu != -1\<close>: on a core other than -1 it always returns false
  without waking the process and leaves the sleep lock taken, so that the next
  \<^verbatim>\<open>wakeup_sleeping\<close> does not get past its lock.\<close>

theorem wakeup_now_leaves_lock:
  assumes "\<not> sleep_lock s" "p \<noteq> NULL" "procs s p = Some x" "core s \<noteq> -1"
  shows "\<exists>s'. wakeup_now p s = Some (False, s') \<and> thread_queue s' = thread_queue s \<and>
    sleeping_queue s' = sleeping_queue s \<and> wakeup_sleeping s' = None"
  using assms by (auto simp: wakeup_now_def spin_lock_def at_def wakeup_sleeping_def)

theorem wakeup_now_leaves_lock_witness:
  "\<exists>s'. wakeup_now 16 demo_asleep = Some (False, s') \<and> wakeup_sleeping s' = None"
  using wakeup_now_leaves_lock [of demo_asleep 16]
  by (auto simp: demo_asleep_def demo_kstate_def empty_kstate_def)

end
