(* ===== verification/Mutex.thy ===== *)
theory Mutex
  imports Scheduler
begin

text \<open>
  The sleeping mutex of \<^verbatim>\<open>kernel/sys/mutex.c\<close> over the scheduler. A call that has to wait ends its kernel
  path in \<^verbatim>\<open>schedule(true)\<close>; the result \<open>Blocked\<close> means that the process will go round the loop again
  when it is woken. The system of processes that acquire, try, acquire with a timeout, wait for and
  release mutexes, sleep and are preempted is a labelled step relation, in which any running process may release any mutex, as in the code;
  the theorems are about its executions and reachable states.
\<close>

section \<open>Operations\<close>

datatype progress = Returned | Blocked

definition mutex_init :: "ptr \<Rightarrow> kstate \<Rightarrow> kstate option" where
  "mutex_init m s =
     (if m = NULL then None
      else Some (s\<lparr>mutexes := (mutexes s)(m \<mapsto> \<lparr>m_lock = False, m_owner = NULL, m_waiting = []\<rparr>)\<rparr>))"

definition set_owner :: "ptr \<Rightarrow> ptr \<Rightarrow> kstate \<Rightarrow> kstate option" where
  \<comment> \<open>\<^verbatim>\<open>mutex->owner = p; spin_unlock(&mutex->lock)\<close>\<close>
  "set_owner m p s = do {
     mx \<leftarrow> at (mutexes s) m;
     Some (s\<lparr>mutexes := (mutexes s)(m \<mapsto> mx\<lparr>m_owner := p, m_lock := False\<rparr>)\<rparr>)
   }"

definition mutex_acquire :: "ptr \<Rightarrow> kstate \<Rightarrow> (progress \<times> kstate) option" where
  "mutex_acquire m s = do {
     mx \<leftarrow> at (mutexes s) m;
     _ \<leftarrow> spin_lock (m_lock mx);
     if m_owner mx \<noteq> NULL then do { s1 \<leftarrow> wait_for_object m s; Some (Blocked, s1) }
     else do { s1 \<leftarrow> set_owner m (current_process s) s; Some (Returned, s1) }
   }"

definition mutex_wait :: "ptr \<Rightarrow> kstate \<Rightarrow> (progress \<times> kstate) option" where
  "mutex_wait m s = do {
     mx \<leftarrow> at (mutexes s) m;
     _ \<leftarrow> spin_lock (m_lock mx);
     if m_owner mx \<noteq> NULL then do { s1 \<leftarrow> wait_for_object m s; Some (Blocked, s1) }
     else Some (Returned, s)
   }"

definition mutex_acquire_if_free :: "ptr \<Rightarrow> kstate \<Rightarrow> (bool \<times> kstate) option" where
  "mutex_acquire_if_free m s = do {
     mx \<leftarrow> at (mutexes s) m;
     _ \<leftarrow> spin_lock (m_lock mx);
     if m_owner mx \<noteq> NULL then Some (False, s)
     else do { s1 \<leftarrow> set_owner m (current_process s) s; Some (True, s1) }
   }"

definition mutex_release :: "ptr \<Rightarrow> kstate \<Rightarrow> kstate option" where
  "mutex_release m s = do {
     mx \<leftarrow> at (mutexes s) m;
     _ \<leftarrow> spin_lock (m_lock mx);
     s1 \<leftarrow> set_owner m NULL s;
     wakeup_waiting m s1
   }"

definition mutex_acquire_timeout_loop ::
  "u64 \<Rightarrow> u64 \<Rightarrow> ptr \<Rightarrow> kstate \<Rightarrow> ((int + u64) \<times> kstate) option" where
  \<comment> \<open>the loop head of \<^verbatim>\<open>mutex_acquire_timeout\<close>, with the spin lock to be taken: \<open>Inl\<close> is a return value, \<open>Inr t\<close> a wait with
     timeout argument \<open>t\<close>\<close>
  "mutex_acquire_timeout_loop start timeout_ms m s = do {
     mx \<leftarrow> at (mutexes s) m;
     _ \<leftarrow> spin_lock (m_lock mx);
     if m_owner mx \<noteq> NULL then do {
       let t = timeout_ms - (counter s - start);
       s1 \<leftarrow> wait_for_object_timeout_enter m t s;
       Some (Inr t, s1)
     } else do { s1 \<leftarrow> set_owner m (current_process s) s; Some (Inl 0, s1) }
   }"

definition mutex_acquire_timeout :: "u64 \<Rightarrow> ptr \<Rightarrow> kstate \<Rightarrow> ((int + u64) \<times> kstate) option" where
  "mutex_acquire_timeout timeout_ms m s = mutex_acquire_timeout_loop (counter s) timeout_ms m s"

definition mutex_acquire_timeout_resume ::
  "int \<Rightarrow> u64 \<Rightarrow> u64 \<Rightarrow> u64 \<Rightarrow> ptr \<Rightarrow> kstate \<Rightarrow> ((int + u64) \<times> kstate) option" where
  \<comment> \<open>the process runs again after \<^verbatim>\<open>wait_for_object_timeout(mutex, t)\<close>; \<open>ETIMEDOUT\<close> is the constant of the C library\<close>
  "mutex_acquire_timeout_resume ETIMEDOUT start timeout_ms t m s =
     (if wait_for_object_timeout_resume t s \<noteq> 0 then Some (Inl (- ETIMEDOUT), s)
      else do {
        mx \<leftarrow> at (mutexes s) m;
        _ \<leftarrow> spin_lock (m_lock mx);
        if counter s - start \<ge> timeout_ms then Some (Inl (- ETIMEDOUT), s)
        else mutex_acquire_timeout_loop start timeout_ms m s
      })"

section \<open>The system of processes\<close>

datatype activity =
    Running                      \<comment> \<open>user code, or kernel code outside this component\<close>
  | In_acquire ptr               \<comment> \<open>inside the loop of \<^verbatim>\<open>mutex_acquire\<close>\<close>
  | In_wait ptr                  \<comment> \<open>inside the loop of \<^verbatim>\<open>mutex_wait\<close>\<close>
  | In_timed ptr u64 u64 u64     \<comment> \<open>inside \<^verbatim>\<open>mutex_acquire_timeout\<close>: mutex, \<^verbatim>\<open>start_time\<close>, \<^verbatim>\<open>timeout_ms\<close>, and the
      argument of the current \<^verbatim>\<open>wait_for_object_timeout\<close>\<close>
  | In_sleep                     \<comment> \<open>inside \<^verbatim>\<open>sleep\<close>\<close>

fun waits_for :: "activity \<Rightarrow> ptr option" where
  \<comment> \<open>the mutex whose loop the process is in\<close>
  "waits_for (In_acquire m) = Some m"
| "waits_for (In_wait m) = Some m"
| "waits_for (In_timed m start ms t) = Some m"
| "waits_for _ = None"

record system =
  kst :: kstate
  act :: "ptr \<Rightarrow> activity"
  held :: "ptr \<Rightarrow> ptr set"   \<comment> \<open>the mutexes a process acquired and did not release itself since\<close>

abbreviation cur :: "system \<Rightarrow> ptr" where
  "cur y \<equiv> current_process (kst y)"

abbreviation busy :: "system \<Rightarrow> bool" where
  \<comment> \<open>a process other than the idle process is on the processor\<close>
  "busy y \<equiv> cur y \<noteq> kernel_idle_process (kst y)"

datatype event =
    Acquire ptr
  | Try ptr
  | Wait ptr
  | Release ptr bool         \<comment> \<open>does the releasing process hold the mutex?\<close>
  | Timed_wait ptr ptr       \<comment> \<open>the process, the mutex: \<^verbatim>\<open>mutex_acquire_timeout\<close> blocks\<close>
  | Timed_return ptr         \<comment> \<open>\<^verbatim>\<open>mutex_acquire_timeout\<close> returns\<close>
  | Sleep
  | Wake
  | Tick
  | Idle

definition after_acquire :: "ptr \<Rightarrow> progress \<Rightarrow> kstate \<Rightarrow> system \<Rightarrow> system" where
  "after_acquire m r s y = (case r of
     Returned \<Rightarrow> y\<lparr>kst := s, act := (act y)(cur y := Running), held := (held y)(cur y := insert m (held y (cur y)))\<rparr>
   | Blocked \<Rightarrow> y\<lparr>kst := s, act := (act y)(cur y := In_acquire m)\<rparr>)"

definition after_wait :: "ptr \<Rightarrow> progress \<Rightarrow> kstate \<Rightarrow> system \<Rightarrow> system" where
  "after_wait m r s y =
     y\<lparr>kst := s, act := (act y)(cur y := (case r of Returned \<Rightarrow> Running | Blocked \<Rightarrow> In_wait m))\<rparr>"

definition after_timed :: "ptr \<Rightarrow> u64 \<Rightarrow> u64 \<Rightarrow> int + u64 \<Rightarrow> kstate \<Rightarrow> system \<Rightarrow> system" where
  \<comment> \<open>\<^verbatim>\<open>mutex_acquire_timeout\<close> returned 0 with the mutex, returned an error, or waits again\<close>
  "after_timed m start ms r s y = (case r of
     Inl k \<Rightarrow> if k = 0 then after_acquire m Returned s y else y\<lparr>kst := s, act := (act y)(cur y := Running)\<rparr>
   | Inr t \<Rightarrow> y\<lparr>kst := s, act := (act y)(cur y := In_timed m start ms t)\<rparr>)"

definition timed_event :: "ptr \<Rightarrow> ptr \<Rightarrow> int + u64 \<Rightarrow> event" where
  "timed_event p m r = (case r of Inl k \<Rightarrow> Timed_return m | Inr t \<Rightarrow> Timed_wait p m)"

inductive step :: "event \<Rightarrow> system \<Rightarrow> system \<Rightarrow> bool" where
  acquire: "busy y \<Longrightarrow> act y (cur y) \<in> {Running, In_acquire m} \<Longrightarrow> mutex_acquire m (kst y) = Some (r, s) \<Longrightarrow>
    step (Acquire m) y (after_acquire m r s y)"
| try_acquire: "busy y \<Longrightarrow> act y (cur y) = Running \<Longrightarrow> mutex_acquire_if_free m (kst y) = Some (b, s) \<Longrightarrow>
    step (Try m) y (if b then after_acquire m Returned s y else y\<lparr>kst := s\<rparr>)"
| wait: "busy y \<Longrightarrow> act y (cur y) \<in> {Running, In_wait m} \<Longrightarrow> mutex_wait m (kst y) = Some (r, s) \<Longrightarrow>
    step (Wait m) y (after_wait m r s y)"
| release: "busy y \<Longrightarrow> act y (cur y) = Running \<Longrightarrow> mutex_release m (kst y) = Some s \<Longrightarrow>
    step (Release m (m \<in> held y (cur y))) y (y\<lparr>kst := s, held := (held y)(cur y := held y (cur y) - {m})\<rparr>)"
| timed: "busy y \<Longrightarrow> act y (cur y) = Running \<Longrightarrow> mutex_acquire_timeout ms m (kst y) = Some (r, s) \<Longrightarrow>
    step (timed_event (cur y) m r) y (after_timed m (counter (kst y)) ms r s y)"
| timed_resume: "busy y \<Longrightarrow> act y (cur y) = In_timed m start ms t \<Longrightarrow> 0 < ETIMEDOUT \<Longrightarrow>
    mutex_acquire_timeout_resume ETIMEDOUT start ms t m (kst y) = Some (r, s) \<Longrightarrow>
    step (timed_event (cur y) m r) y (after_timed m start ms r s y)"
| go_sleep: "busy y \<Longrightarrow> act y (cur y) = Running \<Longrightarrow> sleep t (kst y) = Some s \<Longrightarrow>
    step Sleep y (y\<lparr>kst := s, act := (act y)(cur y := In_sleep)\<rparr>)"
| end_sleep: "busy y \<Longrightarrow> act y (cur y) = In_sleep \<Longrightarrow> step Wake y (y\<lparr>act := (act y)(cur y := Running)\<rparr>)"
| tick_user: "busy y \<Longrightarrow> act y (cur y) = Running \<Longrightarrow> cs \<noteq> 0x08 \<Longrightarrow> pit_interrupt cs (kst y) = Some s \<Longrightarrow>
    step Tick y (y\<lparr>kst := s\<rparr>)"
| idling: "\<not> busy y \<Longrightarrow> idle_round (kst y) = Some s \<Longrightarrow> step Idle y (y\<lparr>kst := s\<rparr>)"

inductive execution :: "system \<Rightarrow> event list \<Rightarrow> system \<Rightarrow> bool" for y0 where
  start: "execution y0 [] y0"
| next_step: "execution y0 es y \<Longrightarrow> step e y y' \<Longrightarrow> execution y0 (es @ [e]) y'"

definition reachable :: "system \<Rightarrow> system \<Rightarrow> bool" where
  "reachable y0 y \<longleftrightarrow> (\<exists>es. execution y0 es y)"

inductive_cases stepE: "step e y y'"

fun timed_waiter :: "event \<Rightarrow> ptr list" where
  "timed_waiter (Timed_wait p m) = [p]"
| "timed_waiter _ = []"

definition timed_waiters :: "event list \<Rightarrow> ptr list" where
  \<comment> \<open>the processes that blocked in \<^verbatim>\<open>mutex_acquire_timeout\<close>, once for every time they did\<close>
  "timed_waiters es = concat (map timed_waiter es)"

definition initial :: "ptr list \<Rightarrow> ptr list \<Rightarrow> system \<Rightarrow> bool" where
  \<comment> \<open>all mutexes freshly initialised, nobody holds or waits for anything\<close>
  "initial ms ps y \<longleftrightarrow> sched_ok ms ps (kst y) \<and> distinct ps \<and>
     (\<forall>m mx. mutexes (kst y) m = Some mx \<longrightarrow> m_owner mx = NULL \<and> m_waiting mx = []) \<and>
     sleeping_queue (kst y) = [] \<and> (\<forall>p. held y p = {}) \<and> (\<forall>p. act y p = Running)"

section \<open>Invariants\<close>

definition owner_of :: "kstate \<Rightarrow> ptr \<Rightarrow> ptr" where
  "owner_of s m = (case mutexes s m of None \<Rightarrow> NULL | Some mx \<Rightarrow> m_owner mx)"

definition runnable :: "kstate \<Rightarrow> ptr set" where
  \<comment> \<open>on the processor or in the ready queue\<close>
  "runnable s = (if current_process s = kernel_idle_process s then {} else {current_process s}) \<union> set (thread_queue s)"

definition held_inv :: "system \<Rightarrow> bool" where
  "held_inv y \<longleftrightarrow> (\<forall>p m. p \<noteq> NULL \<longrightarrow> (m \<in> held y p \<longleftrightarrow> owner_of (kst y) m = p))"

definition wait_inv :: "system \<Rightarrow> bool" where
  "wait_inv y \<longleftrightarrow>
     (\<forall>m. waiting_of (kst y) m \<noteq> [] \<longrightarrow> owner_of (kst y) m \<noteq> NULL) \<and>
     (\<forall>p m. waits_for (act y p) = Some m \<longrightarrow> p \<in> runnable (kst y) \<union> set (waiting_of (kst y) m))"

definition sys_inv :: "ptr list \<Rightarrow> ptr list \<Rightarrow> system \<Rightarrow> bool" where
  \<comment> \<open>\<open>qs\<close> lists the processes with one more entry for each timed wait so far\<close>
  "sys_inv ms qs y \<longleftrightarrow> sched_ok ms qs (kst y) \<and> wait_inv y"

lemma owner_of_mutex [simp]:
  "owner_of (s\<lparr>mutexes := (mutexes s)(m \<mapsto> mx)\<rparr>) = (owner_of s)(m := m_owner mx)"
  by (auto simp: owner_of_def fun_eq_iff)

lemma owner_of_cong: "mutexes s' = mutexes s \<Longrightarrow> owner_of s' = owner_of s"
  by (simp add: owner_of_def fun_eq_iff)

lemma waiting_of_cong: "mutexes s' = mutexes s \<Longrightarrow> waiting_of s' = waiting_of s"
  by (simp add: waiting_of_def fun_eq_iff)

lemma waiting_mutexes:
  "mutexes s m = Some mx \<Longrightarrow> mutexes s' = (mutexes s)(m \<mapsto> mx\<lparr>m_waiting := w\<rparr>) \<Longrightarrow>
   owner_of s' = owner_of s \<and> waiting_of s' = (waiting_of s)(m := w)"
  by (auto simp: owner_of_def waiting_of_def fun_eq_iff)

lemma places_cong:
  "current_process s' = current_process s \<Longrightarrow> kernel_idle_process s' = kernel_idle_process s \<Longrightarrow>
   thread_queue s' = thread_queue s \<Longrightarrow> sleeping_queue s' = sleeping_queue s \<Longrightarrow>
   waiting_of s' = waiting_of s \<Longrightarrow> places ms s' = places ms s"
  by (simp add: places_def queued_def)

lemma waiting_queued:
  assumes "objects_ok ms ps s" "p \<in> set (waiting_of s m)"
  shows "p \<in> set (queued ms s)"
proof -
  have "m \<in> set ms" using assms by (auto simp: objects_ok_def waiting_of_def split: option.splits)
  then show ?thesis using assms(2) by (auto simp: queued_def)
qed

text \<open>When the processor passes to the head of the ready queue, every ready process stays runnable.\<close>

lemma runnable_next:
  assumes "current_process s' = hd_or (kernel_idle_process s) (thread_queue s)" "thread_queue s' = tl (thread_queue s)"
    "kernel_idle_process s' = kernel_idle_process s" "kernel_idle_process s \<notin> set (thread_queue s)"
  shows "runnable s' = set (thread_queue s)"
  using assms by (cases "thread_queue s") (auto simp: runnable_def)

lemma idle_not_ready:
  assumes "sched_ok ms ps s" shows "kernel_idle_process s \<notin> set (thread_queue s)"
proof -
  have "set (places ms s) = set ps" using assms by (intro mset_eq_setD) (simp add: sched_ok_def)
  moreover have "kernel_idle_process s \<notin> set ps" using assms by (simp add: sched_ok_def objects_ok_def)
  ultimately show ?thesis by (auto simp: places_def queued_def)
qed

section \<open>The operations in a consistent state\<close>

lemma set_owner_ok:
  assumes s: "sched_ok ms ps s" and m: "mutexes s m = Some mx"
  shows "\<exists>s'. set_owner m p s = Some s' \<and> sched_ok ms ps s' \<and>
    s' = s\<lparr>mutexes := (mutexes s)(m \<mapsto> mx\<lparr>m_owner := p\<rparr>)\<rparr> \<and>
    owner_of s' = (owner_of s)(m := p) \<and> waiting_of s' = waiting_of s"
proof -
  have o: "objects_ok ms ps s" and q: "mset (places ms s) = mset ps" using s by (auto simp: sched_ok_def)
  have l: "\<not> m_lock mx" "m \<noteq> NULL" "m \<in> set ms" using o m by (auto simp: objects_ok_def)
  let ?s' = "s\<lparr>mutexes := (mutexes s)(m \<mapsto> mx\<lparr>m_owner := p\<rparr>)\<rparr>"
  have w: "waiting_of ?s' = waiting_of s" using m by (auto simp: waiting_of_def fun_eq_iff)
  have "sched_ok ms ps ?s'"
    using objects_ok_mutex [OF o l(3), of "mx\<lparr>m_owner := p\<rparr>"] l(1) q places_cong [of ?s' s ms] w
    by (simp add: sched_ok_def)
  moreover have e: "mx\<lparr>m_owner := p, m_lock := False\<rparr> = mx\<lparr>m_owner := p\<rparr>" using l(1) by simp
  ultimately show ?thesis using l(2) m w by (simp add: set_owner_def at_def e)
qed

lemma mutex_at:
  assumes "sched_ok ms ps s" "m \<in> set ms"
  obtains mx where "mutexes s m = Some mx" "\<not> m_lock mx" "m \<noteq> NULL"
  using assms by (auto simp: sched_ok_def objects_ok_def)

lemma at_mutex_known: "sched_ok ms ps s \<Longrightarrow> at (mutexes s) m \<noteq> None \<Longrightarrow> m \<in> set ms"
  by (auto simp: at_def sched_ok_def objects_ok_def split: if_splits)

definition taken :: "ptr \<Rightarrow> kstate \<Rightarrow> kstate \<Rightarrow> bool" where
  \<comment> \<open>the current process became the owner of the free mutex\<close>
  "taken m s s' \<longleftrightarrow> owner_of s m = NULL \<and> owner_of s' = (owner_of s)(m := current_process s) \<and>
     waiting_of s' = waiting_of s \<and> current_process s' = current_process s \<and> runnable s' = runnable s"

definition queued_up :: "ptr \<Rightarrow> kstate \<Rightarrow> kstate \<Rightarrow> bool" where
  \<comment> \<open>the current process waits for the owned mutex and left the processor\<close>
  "queued_up m s s' \<longleftrightarrow> owner_of s m \<noteq> NULL \<and> owner_of s' = owner_of s \<and>
     waiting_of s' = (waiting_of s)(m := waiting_of s m @ [current_process s]) \<and> runnable s' = set (thread_queue s)"

lemma set_owner_taken:
  assumes s: "sched_ok ms ps s" and mx: "mutexes s m = Some mx" "m_owner mx = NULL"
  shows "\<exists>s'. set_owner m (current_process s) s = Some s' \<and> sched_ok ms ps s' \<and> taken m s s' \<and>
    kernel_idle_process s' = kernel_idle_process s \<and> sleeping_queue s' = sleeping_queue s"
  using set_owner_ok [OF s mx(1), of "current_process s"] mx
  by (auto simp: taken_def owner_of_def runnable_def)

lemma wait_for_object_queued:
  assumes s: "sched_ok ms ps s" and m: "m \<in> set ms" and c: "current_process s \<noteq> kernel_idle_process s"
    and w: "owner_of s m \<noteq> NULL"
  shows "\<exists>s'. wait_for_object m s = Some s' \<and> sched_ok ms ps s' \<and> queued_up m s s' \<and>
    kernel_idle_process s' = kernel_idle_process s \<and> sleeping_queue s' = sleeping_queue s"
proof -
  from wait_for_object_ok [OF s m c] obtain s' mx where
    s': "wait_for_object m s = Some s'" "sched_ok ms ps s'" "mutexes s m = Some mx"
      "mutexes s' = (mutexes s)(m \<mapsto> mx\<lparr>m_waiting := m_waiting mx @ [current_process s]\<rparr>)"
      "kernel_idle_process s' = kernel_idle_process s" "sleeping_queue s' = sleeping_queue s"
      "current_process s' = hd_or (kernel_idle_process s) (thread_queue s)" "thread_queue s' = tl (thread_queue s)"
    by auto
  have "waiting_of s m = m_waiting mx" using s'(3) by (simp add: waiting_of_def)
  with waiting_mutexes [OF s'(3,4)] runnable_next [OF s'(7,8,5) idle_not_ready [OF s]] w s'(1,2,5,6)
  show ?thesis by (simp add: queued_up_def)
qed

lemma wait_for_object_timeout_queued:
  assumes s: "sched_ok ms ps s" and m: "m \<in> set ms" and c: "current_process s \<noteq> kernel_idle_process s"
    and w: "owner_of s m \<noteq> NULL"
  shows "\<exists>s'. wait_for_object_timeout_enter m t s = Some s' \<and> sched_ok ms (ps @ [current_process s]) s' \<and> queued_up m s s'"
proof -
  from wait_for_object_timeout_enter_ok [OF s m c, of t] obtain s' mx where
    s': "wait_for_object_timeout_enter m t s = Some s'" "sched_ok ms (ps @ [current_process s]) s'"
      "mutexes s m = Some mx"
      "mutexes s' = (mutexes s)(m \<mapsto> mx\<lparr>m_waiting := m_waiting mx @ [current_process s]\<rparr>)"
      "kernel_idle_process s' = kernel_idle_process s"
      "current_process s' = hd_or (kernel_idle_process s) (thread_queue s)" "thread_queue s' = tl (thread_queue s)"
    by auto
  have "waiting_of s m = m_waiting mx" using s'(3) by (simp add: waiting_of_def)
  with waiting_mutexes [OF s'(3,4)] runnable_next [OF s'(6,7,5) idle_not_ready [OF s]] w s'(1,2)
  show ?thesis by (simp add: queued_up_def)
qed

lemma mutex_acquire_ok:
  assumes s: "sched_ok ms ps s" and b: "current_process s \<noteq> kernel_idle_process s" and m: "m \<in> set ms"
  shows "\<exists>r s'. mutex_acquire m s = Some (r, s') \<and> sched_ok ms ps s' \<and>
    kernel_idle_process s' = kernel_idle_process s \<and> sleeping_queue s' = sleeping_queue s \<and>
    (case r of Returned \<Rightarrow> taken m s s' | Blocked \<Rightarrow> queued_up m s s')"
proof -
  obtain mx where mx: "mutexes s m = Some mx" "\<not> m_lock mx" "m \<noteq> NULL" using mutex_at [OF s m] .
  have ow: "owner_of s m = m_owner mx" using mx by (simp add: owner_of_def)
  show ?thesis
    using set_owner_taken [OF s mx(1)] wait_for_object_queued [OF s m b] mx ow
    by (cases "m_owner mx = NULL") (auto simp: mutex_acquire_def at_def spin_lock_def)
qed

lemma mutex_wait_ok:
  assumes s: "sched_ok ms ps s" and b: "current_process s \<noteq> kernel_idle_process s" and m: "m \<in> set ms"
  shows "\<exists>r s'. mutex_wait m s = Some (r, s') \<and> sched_ok ms ps s' \<and>
    kernel_idle_process s' = kernel_idle_process s \<and> sleeping_queue s' = sleeping_queue s \<and>
    owner_of s' = owner_of s \<and>
    (case r of Returned \<Rightarrow> owner_of s m = NULL \<and> s' = s | Blocked \<Rightarrow> queued_up m s s')"
proof -
  obtain mx where mx: "mutexes s m = Some mx" "\<not> m_lock mx" "m \<noteq> NULL" using mutex_at [OF s m] .
  have ow: "owner_of s m = m_owner mx" using mx by (simp add: owner_of_def)
  show ?thesis
  proof (cases "m_owner mx = NULL")
    case True
    then show ?thesis using mx ow s by (auto simp: mutex_wait_def at_def spin_lock_def)
  next
    case False
    with wait_for_object_queued [OF s m b] ow obtain s' where
      s': "wait_for_object m s = Some s'" "sched_ok ms ps s'" "queued_up m s s'"
        "kernel_idle_process s' = kernel_idle_process s" "sleeping_queue s' = sleeping_queue s" by auto
    then show ?thesis using mx False by (auto simp: mutex_wait_def at_def spin_lock_def queued_up_def)
  qed
qed

lemma mutex_acquire_timeout_loop_ok:
  assumes s: "sched_ok ms ps s" and b: "current_process s \<noteq> kernel_idle_process s" and m: "m \<in> set ms"
  shows "\<exists>r s'. mutex_acquire_timeout_loop start timeout_ms m s = Some (r, s') \<and>
    (case r of Inl k \<Rightarrow> k = 0 \<and> sched_ok ms ps s' \<and> taken m s s'
     | Inr t \<Rightarrow> sched_ok ms (ps @ [current_process s]) s' \<and> queued_up m s s')"
proof -
  obtain mx where mx: "mutexes s m = Some mx" "\<not> m_lock mx" "m \<noteq> NULL" using mutex_at [OF s m] .
  have ow: "owner_of s m = m_owner mx" using mx by (simp add: owner_of_def)
  show ?thesis
    using set_owner_taken [OF s mx(1)] wait_for_object_timeout_queued [OF s m b, of "timeout_ms - (counter s - start)"] mx ow
    by (cases "m_owner mx = NULL") (auto simp: mutex_acquire_timeout_loop_def at_def spin_lock_def Let_def)
qed

lemma mutex_release_ok:
  assumes s: "sched_ok ms ps s" and m: "m \<in> set ms"
  shows "\<exists>s'. mutex_release m s = Some s' \<and> sched_ok ms ps s' \<and>
    kernel_idle_process s' = kernel_idle_process s \<and> current_process s' = current_process s \<and>
    owner_of s' = (owner_of s)(m := NULL) \<and> waiting_of s' = (waiting_of s)(m := []) \<and>
    thread_queue s' = thread_queue s @ waiting_of s m \<and> sleeping_queue s' = sleeping_queue s"
proof -
  obtain mx where mx: "mutexes s m = Some mx" "\<not> m_lock mx" "m \<noteq> NULL" using mutex_at [OF s m] .
  define s1 where "s1 = s\<lparr>mutexes := (mutexes s)(m \<mapsto> mx\<lparr>m_owner := NULL\<rparr>)\<rparr>"
  have s1: "set_owner m NULL s = Some s1" "sched_ok ms ps s1" "waiting_of s1 = waiting_of s"
    "owner_of s1 = (owner_of s)(m := NULL)"
    using set_owner_ok [OF s mx(1), of NULL] by (auto simp: s1_def)
  have o1: "objects_ok ms ps s1" and q1: "mset (places ms s1) = mset ps" using s1(2) by (auto simp: sched_ok_def)
  have mx1: "mutexes s1 m = Some (mx\<lparr>m_owner := NULL\<rparr>)" by (simp add: s1_def)
  have w: "waiting_of s1 m = m_waiting mx" using mx1 by (simp add: waiting_of_def)
  have "set (m_waiting mx) \<subseteq> set ps"
    using waiting_queued [OF o1, of _ m] mset_eq_setD [OF q1] by (auto simp: w places_def)
  then obtain s2 where s2: "wakeup_waiting m s1 = Some s2" "objects_ok ms ps s2"
    "mutexes s2 = (mutexes s1)(m \<mapsto> mx\<lparr>m_owner := NULL, m_waiting := []\<rparr>)"
    "thread_queue s2 = thread_queue s1 @ m_waiting mx" "sleeping_queue s2 = sleeping_queue s1"
    "current_process s2 = current_process s1" "kernel_idle_process s2 = kernel_idle_process s1"
    using wakeup_waiting_ok [OF o1 mx1] by auto
  have w2: "waiting_of s2 = (waiting_of s1)(m := [])" and ow: "owner_of s2 = owner_of s1"
    using s2(3) mx1 by (auto simp: waiting_of_def owner_of_def fun_eq_iff)
  have "mset (places ms s2) = mset (places ms s1)"
    using mset_concat_upd [of ms m "waiting_of s1" "[]"] o1 m s2(4-7) w
    by (simp add: places_def queued_def w2 objects_ok_def ac_simps del: fun_upd_apply)
  then have "sched_ok ms ps s2" using s2(2) q1 by (simp add: sched_ok_def)
  then show ?thesis using s1 s2 w w2 ow mx
    by (auto simp: mutex_release_def at_def spin_lock_def s1_def)
qed

lemma pit_runnable:
  assumes "sched_ok ms ps s" "cs \<noteq> 0x08" "pit_interrupt cs s = Some s'"
  shows "runnable s \<subseteq> runnable s'"
proof -
  from wakeup_sleeping_ok [OF counter_ok [OF assms(1), of "counter s + 1"]] obtain s1 where
    s1: "wakeup_sleeping (s\<lparr>counter := counter s + 1\<rparr>) = Some s1" "sched_ok ms ps s1"
      "same_world (s\<lparr>counter := counter s + 1\<rparr>) s1" "current_process s1 = current_process s"
    and tq: "thread_queue s1 = thread_queue s \<or> (\<exists>p. thread_queue s1 = thread_queue s @ [p])"
    by simp blast
  have "set (thread_queue s) \<subseteq> set (thread_queue s1)" using tq by auto
  note s1 = s1 this
  from schedule_False_ok [OF s1(2)] s1(1) assms(2,3) have s': "same_world s1 s'"
    "current_process s1 \<noteq> kernel_idle_process s1 \<longrightarrow> current_process s' = hd_or (current_process s1) (thread_queue s1) \<and>
      thread_queue s' = tl (thread_queue s1 @ [current_process s1])"
    "current_process s1 = kernel_idle_process s1 \<longrightarrow> current_process s' = hd_or (kernel_idle_process s1) (thread_queue s1) \<and>
      thread_queue s' = tl (thread_queue s1)"
    by (auto simp: pit_interrupt_def)
  have "runnable s1 \<subseteq> runnable s'" using s' idle_not_ready [OF s1(2)]
    by (cases "thread_queue s1") (auto simp: runnable_def same_world_def)
  moreover have "runnable s \<subseteq> runnable s1" using s1(3-5) by (auto simp: runnable_def same_world_def)
  ultimately show ?thesis by blast
qed


section \<open>Every step keeps the invariants\<close>

lemma sys_inv_current: "sys_inv ms qs y \<Longrightarrow> cur y \<noteq> NULL"
  using current_ok by (auto simp: sys_inv_def)

lemma wait_invD:
  "wait_inv y \<Longrightarrow> waits_for (act y p) = Some m \<Longrightarrow> p \<in> runnable (kst y) \<union> set (waiting_of (kst y) m)"
  by (simp add: wait_inv_def)

lemma wait_inv_keep:
  \<comment> \<open>the current process goes on without the mutexes changing, or leaves the processor for another reason\<close>
  assumes "wait_inv y" "waiting_of s = waiting_of (kst y)" "\<And>m. owner_of (kst y) m \<noteq> NULL \<Longrightarrow> owner_of s m \<noteq> NULL"
    "runnable (kst y) - {cur y} \<subseteq> runnable s" "waits_for a = None"
  shows "wait_inv (y\<lparr>kst := s, act := (act y)(cur y := a)\<rparr>)"
proof -
  have "p \<in> runnable s \<union> set (waiting_of s m)" if "waits_for (((act y)(cur y := a)) p) = Some m" for p m
  proof -
    have "p \<noteq> cur y" "waits_for (act y p) = Some m" using that assms(5) by (auto split: if_splits)
    with wait_invD [OF assms(1), of p m] assms(2,4) show ?thesis by auto
  qed
  then show ?thesis using assms(1-3) by (simp add: wait_inv_def)
qed

lemma wait_inv_same_act:
  assumes "wait_inv y" "waiting_of s = waiting_of (kst y)" "owner_of s = owner_of (kst y)"
    "runnable (kst y) \<subseteq> runnable s"
  shows "wait_inv (y\<lparr>kst := s\<rparr>)"
  using assms by (auto simp: wait_inv_def)

lemma wait_inv_block:
  assumes "wait_inv y" "queued_up m (kst y) s" "waits_for a = Some m"
  shows "wait_inv (y\<lparr>kst := s, act := (act y)(cur y := a)\<rparr>)"
  using assms by (auto simp: wait_inv_def queued_up_def runnable_def split: if_splits)

lemma wait_inv_held [simp]: "wait_inv (y\<lparr>held := h\<rparr>) = wait_inv y"
  by (simp add: wait_inv_def)

lemma held_inv_same: "held_inv y \<Longrightarrow> owner_of s = owner_of (kst y) \<Longrightarrow> held_inv (y\<lparr>kst := s, act := a\<rparr>)"
  by (simp add: held_inv_def)

lemma after_acquire_inv:
  assumes w: "wait_inv y" and c: "cur y \<noteq> NULL"
    and r: "case r of Returned \<Rightarrow> taken m (kst y) s | Blocked \<Rightarrow> queued_up m (kst y) s"
  shows "wait_inv (after_acquire m r s y) \<and> (held_inv y \<longrightarrow> held_inv (after_acquire m r s y))"
proof (cases r)
  case Returned
  then have t: "taken m (kst y) s" using r by simp
  then have "wait_inv (y\<lparr>kst := s, act := (act y)(cur y := Running)\<rparr>)"
    using c by (intro wait_inv_keep [OF w]) (auto simp: taken_def)
  moreover have "held_inv y \<longrightarrow> held_inv (after_acquire m r s y)"
    using t c Returned by (auto simp: held_inv_def taken_def after_acquire_def)
  ultimately show ?thesis using Returned by (simp add: after_acquire_def)
next
  case Blocked
  then show ?thesis using r wait_inv_block [OF w, of m s "In_acquire m"]
    by (auto simp: after_acquire_def queued_up_def intro: held_inv_same)
qed

lemma acquire_step:
  assumes i: "sys_inv ms qs y" and b: "busy y" and a: "mutex_acquire m (kst y) = Some (r, s)"
  shows "sys_inv ms qs (after_acquire m r s y) \<and> (held_inv y \<longrightarrow> held_inv (after_acquire m r s y))"
proof -
  have f: "sched_ok ms qs (kst y)" "wait_inv y" using i by (auto simp: sys_inv_def)
  have m: "m \<in> set ms" using a at_mutex_known [OF f(1), of m] by (auto simp: mutex_acquire_def split: bind_splits)
  from mutex_acquire_ok [OF f(1) b m] a have s: "sched_ok ms qs s"
    "case r of Returned \<Rightarrow> taken m (kst y) s | Blocked \<Rightarrow> queued_up m (kst y) s" by auto
  from after_acquire_inv [OF f(2) sys_inv_current [OF i] s(2)] s(1) show ?thesis
    by (auto simp: sys_inv_def after_acquire_def split: progress.splits)
qed

lemma wait_step:
  assumes i: "sys_inv ms qs y" and b: "busy y" and a: "mutex_wait m (kst y) = Some (r, s)"
  shows "sys_inv ms qs (after_wait m r s y) \<and> (held_inv y \<longrightarrow> held_inv (after_wait m r s y))"
proof -
  have f: "sched_ok ms qs (kst y)" "wait_inv y" using i by (auto simp: sys_inv_def)
  have m: "m \<in> set ms" using a at_mutex_known [OF f(1), of m] by (auto simp: mutex_wait_def split: bind_splits)
  from mutex_wait_ok [OF f(1) b m] a have s: "sched_ok ms qs s" "owner_of s = owner_of (kst y)"
    "case r of Returned \<Rightarrow> owner_of (kst y) m = NULL \<and> s = kst y | Blocked \<Rightarrow> queued_up m (kst y) s" by auto
  have "wait_inv (after_wait m r s y)"
    using s(2,3) wait_inv_keep [OF f(2), of s Running] wait_inv_block [OF f(2), of m s "In_wait m"]
    by (cases r) (auto simp: after_wait_def)
  then show ?thesis using s held_inv_same by (auto simp: sys_inv_def after_wait_def)
qed

lemma try_step:
  assumes i: "sys_inv ms qs y" and b: "busy y" and a: "mutex_acquire_if_free m (kst y) = Some (c, s)"
    and y': "y' = (if c then after_acquire m Returned s y else y\<lparr>kst := s\<rparr>)"
  shows "sys_inv ms qs y' \<and> (held_inv y \<longrightarrow> held_inv y')"
proof (cases c)
  case True
  then have "mutex_acquire m (kst y) = Some (Returned, s)"
    using a by (auto simp: mutex_acquire_if_free_def mutex_acquire_def split: bind_splits if_splits)
  from acquire_step [OF i b this] True y' show ?thesis by simp
next
  case False
  then have "s = kst y" using a by (auto simp: mutex_acquire_if_free_def split: bind_splits if_splits)
  then show ?thesis using False i y' by simp
qed

lemma release_step:
  assumes i: "sys_inv ms qs y" and a: "mutex_release m (kst y) = Some s"
    and y': "y' = y\<lparr>kst := s, held := (held y)(cur y := held y (cur y) - {m})\<rparr>"
  shows "sys_inv ms qs y' \<and> (m \<in> held y (cur y) \<and> held_inv y \<longrightarrow> held_inv y')"
proof -
  have f: "sched_ok ms qs (kst y)" "wait_inv y" using i by (auto simp: sys_inv_def)
  have m: "m \<in> set ms" using a at_mutex_known [OF f(1), of m] by (auto simp: mutex_release_def split: bind_splits)
  from mutex_release_ok [OF f(1) m] a have s: "sched_ok ms qs s" "current_process s = cur y"
    "kernel_idle_process s = kernel_idle_process (kst y)"
    "owner_of s = (owner_of (kst y))(m := NULL)" "waiting_of s = (waiting_of (kst y))(m := [])"
    "thread_queue s = thread_queue (kst y) @ waiting_of (kst y) m" by auto
  have "runnable s = runnable (kst y) \<union> set (waiting_of (kst y) m)" using s(2,3,6) by (auto simp: runnable_def)
  then have "p \<in> runnable s \<union> set (waiting_of s m')" if "waits_for (act y p) = Some m'" for p m'
    using wait_invD [OF f(2) that] s(5) by auto
  then have "wait_inv (y\<lparr>kst := s\<rparr>)" using f(2) s(4,5) by (simp add: wait_inv_def)
  moreover have "m \<in> held y (cur y) \<and> held_inv y \<longrightarrow> held_inv y'"
    using s(4) sys_inv_current [OF i] unfolding y' by (auto simp: held_inv_def)
  ultimately show ?thesis using s(1) y' by (simp add: sys_inv_def)
qed

lemma timed_loop_step:
  assumes i: "sys_inv ms qs y" and b: "busy y" and a: "mutex_acquire_timeout_loop start ms' m (kst y) = Some (r, s)"
    and e: "e = timed_event (cur y) m r"
  shows "sys_inv ms (qs @ timed_waiter e) (after_timed m start ms' r s y) \<and>
    (held_inv y \<longrightarrow> held_inv (after_timed m start ms' r s y))"
proof -
  have f: "sched_ok ms qs (kst y)" "wait_inv y" using i by (auto simp: sys_inv_def)
  have m: "m \<in> set ms" using a at_mutex_known [OF f(1), of m]
    by (auto simp: mutex_acquire_timeout_loop_def split: bind_splits)
  note l = mutex_acquire_timeout_loop_ok [OF f(1) b m, of start ms']
  show ?thesis
  proof (cases r)
    case (Inl k)
    then have s: "k = 0" "sched_ok ms qs s" "taken m (kst y) s" using l a by auto
    with after_acquire_inv [where r = Returned and m = m and s = s, OF f(2) sys_inv_current [OF i]] Inl e show ?thesis
      by (auto simp: after_timed_def timed_event_def sys_inv_def after_acquire_def)
  next
    case (Inr t)
    then have s: "sched_ok ms (qs @ [cur y]) s" "queued_up m (kst y) s" using l a by auto
    with wait_inv_block [OF f(2) s(2), of "In_timed m start ms' t"] Inr e show ?thesis
      by (auto simp: after_timed_def timed_event_def sys_inv_def queued_up_def intro: held_inv_same)
  qed
qed

lemma timed_resume_cases:
  assumes "mutex_acquire_timeout_resume ETIMEDOUT start ms' t m k = Some (r, s)"
  shows "r = Inl (- ETIMEDOUT) \<and> s = k \<or> mutex_acquire_timeout_loop start ms' m k = Some (r, s)"
proof (cases "wait_for_object_timeout_resume t k \<noteq> 0 \<or> ms' \<le> counter k - start")
  case True
  then show ?thesis using assms by (auto simp: mutex_acquire_timeout_resume_def split: bind_splits if_splits)
next
  case False
  then have "mutex_acquire_timeout_loop start ms' m k = Some (r, s)" using assms
    by (simp add: mutex_acquire_timeout_resume_def split: bind_splits)
  then show ?thesis ..
qed

lemma timed_resume_step:
  assumes i: "sys_inv ms qs y" and b: "busy y" and E: "0 < ETIMEDOUT"
    and a: "mutex_acquire_timeout_resume ETIMEDOUT start ms' t m (kst y) = Some (r, s)"
    and e: "e = timed_event (cur y) m r"
  shows "sys_inv ms (qs @ timed_waiter e) (after_timed m start ms' r s y) \<and>
    (held_inv y \<longrightarrow> held_inv (after_timed m start ms' r s y))"
proof -
  consider (gave_up) "r = Inl (- ETIMEDOUT)" "s = kst y"
    | (again) "mutex_acquire_timeout_loop start ms' m (kst y) = Some (r, s)"
    using timed_resume_cases [OF a] by blast
  then show ?thesis
  proof cases
    case gave_up
    have "wait_inv (y\<lparr>kst := kst y, act := (act y)(cur y := Running)\<rparr>)"
      using i by (intro wait_inv_keep) (auto simp: sys_inv_def)
    then show ?thesis using gave_up i e E held_inv_same [of y "kst y"]
      by (auto simp: after_timed_def timed_event_def sys_inv_def)
  next
    case again
    from timed_loop_step [OF i b this e] show ?thesis .
  qed
qed


lemma sys_inv_quiet:
  \<comment> \<open>steps that do not touch the mutexes\<close>
  assumes i: "sys_inv ms qs y" and s: "sched_ok ms qs s" "mutexes s = mutexes (kst y)"
    and r: "runnable (kst y) - {cur y} \<subseteq> runnable s" and a: "waits_for a = None"
  shows "sys_inv ms qs (y\<lparr>kst := s, act := (act y)(cur y := a)\<rparr>) \<and>
    (held_inv y \<longrightarrow> held_inv (y\<lparr>kst := s, act := (act y)(cur y := a)\<rparr>))"
  using i s(1) owner_of_cong [OF s(2)] waiting_of_cong [OF s(2)] wait_inv_keep [OF _ _ _ r a] held_inv_same
  by (auto simp: sys_inv_def)

definition step_keeps :: "ptr list \<Rightarrow> ptr list \<Rightarrow> event \<Rightarrow> system \<Rightarrow> system \<Rightarrow> bool" where
  "step_keeps ms qs e y y' \<longleftrightarrow> sys_inv ms (qs @ timed_waiter e) y' \<and>
     ((\<forall>m. e \<noteq> Release m False) \<longrightarrow> held_inv y \<longrightarrow> held_inv y')"

lemma step_inv:
  assumes i: "sys_inv ms qs y" and st: "step e y y'"
  shows "step_keeps ms qs e y y'"
  using st
proof cases
  case (acquire m r s)
  then show ?thesis using acquire_step [OF i] by (simp add: step_keeps_def)
next
  case (try_acquire m b s)
  then show ?thesis using try_step [OF i try_acquire(3,5) refl] by (simp add: step_keeps_def)
next
  case (wait m r s)
  then show ?thesis using wait_step [OF i] by (simp add: step_keeps_def)
next
  case (release m s)
  then show ?thesis using release_step [OF i release(5) release(2)] by (auto simp: step_keeps_def)
next
  case (timed ms' m r s)
  have "mutex_acquire_timeout_loop (counter (kst y)) ms' m (kst y) = Some (r, s)"
    using timed(5) by (simp add: mutex_acquire_timeout_def)
  from timed_loop_step [OF i timed(3) this timed(1)] timed(2) show ?thesis by (simp add: step_keeps_def)
next
  case (timed_resume m start ms' t ETIMEDOUT r s)
  from timed_resume_step [OF i timed_resume(3,5,6) timed_resume(1)] timed_resume(2)
  show ?thesis by (simp add: step_keeps_def)
next
  case (go_sleep t s)
  have k: "sched_ok ms qs (kst y)" using i by (simp add: sys_inv_def)
  from sleep_ok [OF k go_sleep(3), of t] go_sleep(5) have s: "sched_ok ms qs s" "mutexes s = mutexes (kst y)"
    "kernel_idle_process s = kernel_idle_process (kst y)"
    "current_process s = hd_or (kernel_idle_process (kst y)) (thread_queue (kst y))"
    "thread_queue s = tl (thread_queue (kst y))"
    by (auto simp: same_world_def)
  have "runnable (kst y) - {cur y} \<subseteq> runnable s"
    using runnable_next [OF s(4,5,3) idle_not_ready [OF k]] by (auto simp: runnable_def)
  from sys_inv_quiet [OF i s(1,2) this, of In_sleep] go_sleep(1,2) show ?thesis by (simp add: step_keeps_def)
next
  case end_sleep
  have "sched_ok ms qs (kst y)" using i by (simp add: sys_inv_def)
  from sys_inv_quiet [OF i this refl Diff_subset, of Running] end_sleep(1,2) show ?thesis
    by (simp add: step_keeps_def)
next
  case (tick_user cs s)
  have k: "sched_ok ms qs (kst y)" using i by (simp add: sys_inv_def)
  from pit_interrupt_user_ok [OF k tick_user(5)] tick_user(6) have s: "sched_ok ms qs s"
    "mutexes s = mutexes (kst y)" by auto
  have e: "(act y)(cur y := Running) = act y" using tick_user(4) by (simp add: fun_eq_iff)
  have "runnable (kst y) - {cur y} \<subseteq> runnable s" using pit_runnable [OF k tick_user(5,6)] by blast
  from sys_inv_quiet [OF i s this, of Running] tick_user(1,2) e show ?thesis by (simp add: step_keeps_def)
next
  case (idling s)
  have k: "sched_ok ms qs (kst y)" using i by (simp add: sys_inv_def)
  from idle_round_ok [OF this] idling have s: "sched_ok ms qs s" "mutexes s = mutexes (kst y)"
    "kernel_idle_process s = kernel_idle_process (kst y)"
    "current_process s = hd_or (kernel_idle_process (kst y)) (thread_queue (kst y))"
    "thread_queue s = tl (thread_queue (kst y))" by auto
  have "runnable (kst y) \<subseteq> runnable s"
    using runnable_next [OF s(4,5,3) idle_not_ready [OF k]] idling(3) by (auto simp: runnable_def)
  then have "wait_inv (y\<lparr>kst := s\<rparr>)" using i wait_inv_same_act waiting_of_cong [OF s(2)] owner_of_cong [OF s(2)]
    by (simp add: sys_inv_def)
  then show ?thesis using s(1) idling(1,2) owner_of_cong [OF s(2)] by (simp add: step_keeps_def sys_inv_def held_inv_def)
qed

lemma timed_waiter_current:
  assumes "step e y y'" "p \<in> set (timed_waiter e)" shows "p = cur y \<and> busy y"
  using assms by cases (auto simp: timed_event_def split: sum.splits)

lemma current_process_known:
  assumes "sched_ok ms qs s" "current_process s \<noteq> kernel_idle_process s"
  shows "current_process s \<in> set qs"
proof -
  have "set (places ms s) = set qs" using assms(1) by (intro mset_eq_setD) (simp add: sched_ok_def)
  then show ?thesis using assms(2) by (auto simp: places_def)
qed

lemma initial_inv: "initial ms ps y \<Longrightarrow> sys_inv ms ps y \<and> held_inv y"
proof -
  assume i: "initial ms ps y"
  then have "owner_of (kst y) m = NULL" "waiting_of (kst y) m = []" for m
    by (auto simp: initial_def owner_of_def waiting_of_def split: option.splits)
  then show ?thesis using i by (auto simp: initial_def sys_inv_def held_inv_def wait_inv_def)
qed

lemma execution_inv:
  assumes "execution y0 es y" "initial ms ps y0"
  shows "sys_inv ms (ps @ timed_waiters es) y \<and> set (timed_waiters es) \<subseteq> set ps \<and>
    ((\<forall>m. Release m False \<notin> set es) \<longrightarrow> held_inv y)"
  using assms
proof (induction rule: execution.induct)
  case start
  then show ?case using initial_inv by (simp add: timed_waiters_def)
next
  case (next_step es y e y')
  then have i: "sys_inv ms (ps @ timed_waiters es) y" "set (timed_waiters es) \<subseteq> set ps"
    "(\<forall>m. Release m False \<notin> set es) \<longrightarrow> held_inv y" by auto
  have "set (timed_waiter e) \<subseteq> set ps"
  proof
    fix p assume "p \<in> set (timed_waiter e)"
    from timed_waiter_current [OF next_step.hyps(2) this] have "p = cur y" "busy y" by auto
    with current_process_known [of ms "ps @ timed_waiters es" "kst y"] i(1,2) show "p \<in> set ps"
      by (auto simp: sys_inv_def)
  qed
  with step_inv [OF i(1) next_step.hyps(2)] i(2,3) show ?case
    by (auto simp: step_keeps_def timed_waiters_def)
qed

lemma reachable_inv:
  assumes "reachable y0 y" "initial ms ps y0"
  obtains qs where "sys_inv ms qs y" "set qs = set ps"
proof -
  obtain es where "execution y0 es y" using assms(1) by (auto simp: reachable_def)
  from execution_inv [OF this assms(2)] show thesis by (intro that [of "ps @ timed_waiters es"]) auto
qed

section \<open>Runs of a small system\<close>

definition demo_system :: system where
  "demo_system = \<lparr>kst = demo_kstate, act = (\<lambda>_. Running), held = (\<lambda>_. {})\<rparr>"

lemma demo_initial: "initial [64] [16, 32] demo_system"
  using demo_sched_ok(1)
  by (auto simp: initial_def demo_system_def demo_kstate_def empty_kstate_def split: if_splits)

definition demo_owned :: mutex_t where
  "demo_owned = \<lparr>m_lock = False, m_owner = 16, m_waiting = []\<rparr>"

lemma demo_preempted:
  \<comment> \<open>16 takes the mutex and is preempted by 32\<close>
  "\<exists>y. execution demo_system [Acquire 64, Tick] y \<and> sched_ok [64] [16, 32] (kst y) \<and>
     mutexes (kst y) = [64 \<mapsto> demo_owned] \<and> kernel_idle_process (kst y) = 8 \<and> cur y = 32 \<and>
     thread_queue (kst y) = [16] \<and> act y = (\<lambda>_. Running) \<and> held y = (\<lambda>_. {})(16 := {64})"
proof -
  let ?s1 = "demo_kstate\<lparr>mutexes := [64 \<mapsto> demo_owned]\<rparr>"
  have a1: "mutex_acquire 64 demo_kstate = Some (Returned, ?s1)"
    by (simp add: mutex_acquire_def demo_kstate_def empty_kstate_def at_def spin_lock_def set_owner_def demo_owned_def)
  define y1 where "y1 = after_acquire 64 Returned ?s1 demo_system"
  have r1: "execution demo_system ([] @ [Acquire 64]) y1" unfolding y1_def
    by (rule next_step [OF start], rule acquire)
      (simp_all add: demo_system_def a1, simp add: demo_kstate_def empty_kstate_def)
  have y1: "kst y1 = ?s1" "act y1 = (\<lambda>_. Running)" "held y1 = (\<lambda>_. {})(16 := {64})"
    by (simp_all add: y1_def after_acquire_def demo_system_def demo_kstate_def empty_kstate_def fun_eq_iff)
  have s1: "sched_ok [64] [16, 32] ?s1" using execution_inv [OF r1 demo_initial] y1(1)
    by (simp add: sys_inv_def timed_waiters_def)
  have b1: "current_process ?s1 \<noteq> kernel_idle_process ?s1" by (simp add: demo_kstate_def empty_kstate_def)
  have w1: "wakeup_sleeping (?s1\<lparr>counter := 1\<rparr>) = Some (?s1\<lparr>counter := 1\<rparr>)"
    by (simp add: wakeup_sleeping_def spin_lock_def demo_kstate_def empty_kstate_def)
  from schedule_False_ok [OF counter_ok [OF s1, of 1]] b1 obtain s2 where
    s2: "schedule False (?s1\<lparr>counter := 1\<rparr>) = Some s2" "sched_ok [64] [16, 32] s2"
      "mutexes s2 = [64 \<mapsto> demo_owned]" "kernel_idle_process s2 = 8" "current_process s2 = 32" "thread_queue s2 = [16]"
    by (auto simp: same_world_def demo_kstate_def empty_kstate_def)
  have p: "pit_interrupt 0x1B ?s1 = Some s2"
    using w1 s2(1) by (simp add: pit_interrupt_def demo_kstate_def empty_kstate_def)
  have "execution demo_system (([] @ [Acquire 64]) @ [Tick]) (y1\<lparr>kst := s2\<rparr>)"
    by (rule next_step [OF r1], rule tick_user [where cs = "0x1B"]) (use b1 p y1 in simp_all)
  then show ?thesis using s2 y1 by (intro exI [of _ "y1\<lparr>kst := s2\<rparr>"]) simp
qed

lemma demo_contended:
  \<comment> \<open>then 32 blocks on it\<close>
  "\<exists>y. execution demo_system [Acquire 64, Tick, Acquire 64] y \<and> owner_of (kst y) 64 = 16 \<and> act y 32 = In_acquire 64"
proof -
  from demo_preempted obtain y where y: "execution demo_system [Acquire 64, Tick] y" "sched_ok [64] [16, 32] (kst y)"
    "mutexes (kst y) = [64 \<mapsto> demo_owned]" "kernel_idle_process (kst y) = 8" "cur y = 32" "act y = (\<lambda>_. Running)"
    by blast
  have ow: "owner_of (kst y) 64 = 16" using y(3) by (simp add: owner_of_def demo_owned_def)
  from mutex_acquire_ok [OF y(2), of 64] y(4,5) obtain r s where
    s: "mutex_acquire 64 (kst y) = Some (r, s)"
      "case r of Returned \<Rightarrow> taken 64 (kst y) s | Blocked \<Rightarrow> queued_up 64 (kst y) s" by auto
  then have r: "r = Blocked" "queued_up 64 (kst y) s" using ow by (cases r, auto simp: taken_def)+
  have "execution demo_system ([Acquire 64, Tick] @ [Acquire 64]) (after_acquire 64 Blocked s y)"
    by (rule next_step [OF y(1)], rule acquire) (use s(1) r(1) y(4-6) in simp_all)
  moreover have "owner_of s 64 = 16" using r(2) ow by (simp add: queued_up_def)
  ultimately show ?thesis using y(5)
    by (intro exI [of _ "after_acquire 64 Blocked s y"]) (simp add: after_acquire_def)
qed

lemma demo_timed:
  \<comment> \<open>or 32 waits for it with a timeout\<close>
  "\<exists>y. execution demo_system [Acquire 64, Tick, Timed_wait 32 64] y"
proof -
  from demo_preempted obtain y where y: "execution demo_system [Acquire 64, Tick] y" "sched_ok [64] [16, 32] (kst y)"
    "mutexes (kst y) = [64 \<mapsto> demo_owned]" "kernel_idle_process (kst y) = 8" "cur y = 32" "act y = (\<lambda>_. Running)"
    by blast
  have ow: "owner_of (kst y) 64 = 16" using y(3) by (simp add: owner_of_def demo_owned_def)
  from mutex_acquire_timeout_loop_ok [OF y(2), of 64 "counter (kst y)" 100] y(4,5) obtain r s where
    s: "mutex_acquire_timeout 100 64 (kst y) = Some (r, s)" "case r of Inl k \<Rightarrow> taken 64 (kst y) s | Inr t \<Rightarrow> True"
    by (fastforce simp: mutex_acquire_timeout_def split: sum.splits)
  then obtain t where r: "r = Inr t" using ow by (cases r) (auto simp: taken_def)
  have "step (timed_event (cur y) 64 r) y (after_timed 64 (counter (kst y)) 100 r s y)"
    by (rule timed) (use s(1) y(4-6) in simp_all)
  from next_step [OF y(1) this] y(5) r show ?thesis by (auto simp: timed_event_def)
qed

lemma foreign_release_breaks_exclusion:
  \<comment> \<open>32 releases the mutex that 16 holds and takes it: \<^verbatim>\<open>mutex_release\<close> does not look at the owner\<close>
  "\<exists>y. execution demo_system [Acquire 64, Tick, Release 64 False, Acquire 64] y \<and> 64 \<in> held y 16 \<and> 64 \<in> held y 32"
proof -
  from demo_preempted obtain y where y: "execution demo_system [Acquire 64, Tick] y" "sched_ok [64] [16, 32] (kst y)"
    "kernel_idle_process (kst y) = 8" "cur y = 32" "act y = (\<lambda>_. Running)" "held y = (\<lambda>_. {})(16 := {64})" by blast
  from mutex_release_ok [OF y(2), of 64] obtain s where
    s: "mutex_release 64 (kst y) = Some s" "sched_ok [64] [16, 32] s" "kernel_idle_process s = 8"
      "current_process s = 32" "owner_of s 64 = NULL" using y(3,4) by auto
  define y1 where "y1 = y\<lparr>kst := s, held := (held y)(cur y := held y (cur y) - {64})\<rparr>"
  have "step (Release 64 (64 \<in> held y (cur y))) y y1" unfolding y1_def
    by (rule release) (use s(1) y(3-5) in simp_all)
  then have "step (Release 64 False) y y1" using y(4,6) by simp
  from next_step [OF y(1) this] have r1: "execution demo_system [Acquire 64, Tick, Release 64 False] y1" by simp
  have y1: "kst y1 = s" "act y1 = (\<lambda>_. Running)" "held y1 16 = {64}" using y(4-6) by (simp_all add: y1_def)
  from mutex_acquire_ok [OF s(2), of 64] s(3,4) obtain r s' where
    a: "mutex_acquire 64 s = Some (r, s')" "case r of Returned \<Rightarrow> taken 64 s s' | Blocked \<Rightarrow> queued_up 64 s s'" by auto
  then have r: "r = Returned" using s(5) by (cases r) (auto simp: queued_up_def)
  have "step (Acquire 64) y1 (after_acquire 64 Returned s' y1)"
    by (rule acquire) (use a(1) r s(3,4) y1 in simp_all)
  from next_step [OF r1 this] s(4) y1 show ?thesis
    by (intro exI [of _ "after_acquire 64 Returned s' y1"]) (simp add: after_acquire_def)
qed

section \<open>Properties\<close>

text \<open>C1. Mutual exclusion, for callers that release only what they hold: in every execution of processes that
  acquire, try, wait for, acquire with a timeout and release mutexes, sleep and are preempted, in which no
  process released a mutex it did not hold, no two processes hold the same mutex, and a process holds a mutex exactly
  when the owner field names it. The condition is needed: \<^verbatim>\<open>mutex_release\<close> does not check the owner,
  and \<open>foreign_release_breaks_exclusion\<close> is an execution with one release by another process
  after which two processes hold the mutex.\<close>

theorem mutex_exclusion:
  assumes "initial ms ps y0" "execution y0 es y" "\<forall>m. Release m False \<notin> set es" "p \<noteq> NULL"
  shows "(m \<in> held y p \<longleftrightarrow> owner_of (kst y) m = p) \<and> (m \<in> held y p \<longrightarrow> (\<forall>q. q \<noteq> NULL \<and> m \<in> held y q \<longrightarrow> q = p))"
  using execution_inv [OF assms(2,1)] assms(3,4) by (auto simp: held_inv_def)

theorem mutex_exclusion_witness:
  "\<exists>y. execution demo_system [Acquire 64, Tick, Acquire 64] y \<and> 64 \<in> held y 16 \<and> 64 \<notin> held y 32"
proof -
  obtain y where y: "execution demo_system [Acquire 64, Tick, Acquire 64] y" "owner_of (kst y) 64 = 16"
    using demo_contended by auto
  then have "(64 \<in> held y 16 \<longleftrightarrow> owner_of (kst y) 64 = 16) \<and>
      (64 \<in> held y 16 \<longrightarrow> (\<forall>q. q \<noteq> NULL \<and> 64 \<in> held y q \<longrightarrow> q = 16))"
    by (intro mutex_exclusion [OF demo_initial y(1)]) auto
  moreover then have "64 \<notin> held y 32" using y(2) by (auto dest: spec [of _ 32])
  ultimately show ?thesis using y by blast
qed

text \<open>C2. No lost wake-up: in every reachable state, a process inside \<^verbatim>\<open>mutex_acquire\<close>, \<^verbatim>\<open>mutex_wait\<close> or
  \<^verbatim>\<open>mutex_acquire_timeout\<close> of a mutex is on the processor, in the ready queue, or in the waiting list of that mutex;
  and in the last case the mutex has an owner, whose release will wake it. No condition on who releases
  is needed.\<close>

theorem mutex_no_lost_wakeup:
  assumes "initial ms ps y0" "reachable y0 y" "p \<in> set ps"
    "act y p \<in> {In_acquire m, In_wait m} \<or> (\<exists>start timeout_ms t. act y p = In_timed m start timeout_ms t)"
  shows "p = cur y \<or> p \<in> set (thread_queue (kst y)) \<or>
    p \<in> set (waiting_of (kst y) m) \<and> owner_of (kst y) m \<noteq> NULL"
proof -
  from reachable_inv [OF assms(2,1)] have i: "wait_inv y" by (auto simp: sys_inv_def)
  have "waits_for (act y p) = Some m" using assms(4) by auto
  from wait_invD [OF i this] have "p \<in> runnable (kst y) \<or> p \<in> set (waiting_of (kst y) m)" by simp
  moreover have "owner_of (kst y) m \<noteq> NULL" if "p \<in> set (waiting_of (kst y) m)"
  proof -
    have "waiting_of (kst y) m \<noteq> []" using that by auto
    then show ?thesis using i by (simp add: wait_inv_def)
  qed
  ultimately show ?thesis by (auto simp: runnable_def split: if_splits)
qed

theorem mutex_no_lost_wakeup_witness:
  "\<exists>y. reachable demo_system y \<and> act y 32 = In_acquire 64 \<and>
     (32 = cur y \<or> 32 \<in> set (thread_queue (kst y)) \<or>
      32 \<in> set (waiting_of (kst y) 64) \<and> owner_of (kst y) 64 \<noteq> NULL)"
proof -
  obtain y where y: "reachable demo_system y" "act y 32 = In_acquire 64"
    using demo_contended by (auto simp: reachable_def)
  with mutex_no_lost_wakeup [OF demo_initial y(1), of 32 64] show ?thesis by auto
qed

text \<open>C3. Where the processes are, in every execution: on the processor, in the ready queue, in the sleep queue and in the waiting
  lists together, every process occurs once, plus once for each time it blocked in \<^verbatim>\<open>mutex_acquire_timeout\<close>, which
  enters it in the waiting list and in the sleep queue and never takes out the second entry when the first
  one wakes it. So processes are conserved, and each is in exactly one place, exactly as long
  as no call of \<^verbatim>\<open>mutex_acquire_timeout\<close> has blocked.\<close>

theorem processes_conserved:
  assumes "initial ms ps y0" "execution y0 es y"
  shows "mset (places ms (kst y)) = mset ps + mset (timed_waiters es) \<and>
    (distinct (places ms (kst y)) \<longleftrightarrow> timed_waiters es = [])"
proof -
  from execution_inv [OF assms(2,1)] have q: "mset (places ms (kst y)) = mset (ps @ timed_waiters es)"
    and t: "set (timed_waiters es) \<subseteq> set ps" by (auto simp: sys_inv_def sched_ok_def)
  have "distinct ps" using assms(1) by (simp add: initial_def)
  moreover have "distinct (places ms (kst y)) = distinct (ps @ timed_waiters es)"
    using q mset_eq_imp_distinct_iff by blast
  ultimately show ?thesis using q t by (cases "timed_waiters es") auto
qed

theorem processes_conserved_witness:
  "(\<exists>y. execution demo_system [Acquire 64, Tick, Acquire 64] y \<and> mset (places [64] (kst y)) = mset [16, 32]) \<and>
   (\<exists>y. execution demo_system [Acquire 64, Tick, Timed_wait 32 64] y \<and> mset (places [64] (kst y)) = mset [16, 32, 32])"
proof -
  obtain y z where y: "execution demo_system [Acquire 64, Tick, Acquire 64] y"
    "execution demo_system [Acquire 64, Tick, Timed_wait 32 64] z" using demo_contended demo_timed by blast
  have "mset (places [64] (kst y)) = mset [16, 32]" "mset (places [64] (kst z)) = mset [16, 32, 32]"
    using processes_conserved [OF demo_initial y(1)] processes_conserved [OF demo_initial y(2)]
    by (simp_all add: timed_waiters_def)
  then show ?thesis using y by blast
qed

text \<open>C4. No mutex path gets stuck: in every reachable state with a process on the processor, \<^verbatim>\<open>mutex_acquire\<close>,
  \<^verbatim>\<open>mutex_wait\<close>, \<^verbatim>\<open>mutex_acquire_if_free\<close>, \<^verbatim>\<open>mutex_acquire_timeout\<close> and \<^verbatim>\<open>mutex_release\<close> on a mutex of the system end
  without a fault and without spinning on a taken lock, and \<^verbatim>\<open>mutex_release\<close> moves every waiter, in order, to the ready queue.\<close>

theorem mutex_paths_complete:
  assumes "initial ms ps y0" "reachable y0 y" "busy y" "m \<in> set ms"
  shows "mutex_acquire m (kst y) \<noteq> None \<and> mutex_wait m (kst y) \<noteq> None \<and>
    mutex_acquire_if_free m (kst y) \<noteq> None \<and> mutex_acquire_timeout timeout_ms m (kst y) \<noteq> None \<and>
    (\<exists>s'. mutex_release m (kst y) = Some s' \<and> waiting_of s' m = [] \<and>
      thread_queue s' = thread_queue (kst y) @ waiting_of (kst y) m)"
proof -
  from reachable_inv [OF assms(2,1)] obtain qs where s: "sched_ok ms qs (kst y)" by (auto simp: sys_inv_def)
  from mutex_acquire_ok [OF s assms(3,4)] mutex_wait_ok [OF s assms(3,4)] mutex_release_ok [OF s assms(4)]
    mutex_acquire_timeout_loop_ok [OF s assms(3,4)]
  show ?thesis
    by (fastforce simp: mutex_acquire_def mutex_acquire_if_free_def mutex_acquire_timeout_def split: bind_splits)
qed

theorem mutex_paths_complete_witness:
  "mutex_acquire 64 demo_kstate \<noteq> None \<and> mutex_wait 64 demo_kstate \<noteq> None \<and> mutex_acquire_timeout 5 64 demo_kstate \<noteq> None"
proof -
  have "busy demo_system" by (simp add: demo_system_def demo_kstate_def empty_kstate_def)
  moreover have "reachable demo_system demo_system" using start by (auto simp: reachable_def)
  ultimately show ?thesis using mutex_paths_complete [OF demo_initial, of demo_system 64 5]
    by (simp add: demo_system_def)
qed

end
