(* ===== verification/Ring_Buffer.thy ===== *)
theory Ring_Buffer
  imports Mutex Interfaces
begin

text \<open>
  The ring buffer of \<^verbatim>\<open>libc/kernel/ring_buffer.c\<close>: positions are 64-bit words, sizes are C \<^verbatim>\<open>int\<close>s, the
  wait queues are mutexes of the kernel. A read or write that has to wait ends its kernel path in \<^verbatim>\<open>mutex_wait\<close>.
  The abstract view is the sequence of readable bytes; the theorems show that writing appends,
  reading takes from the front, popping drops the last byte, and that nothing is ever
  read or written outside the buffer.
\<close>

section \<open>Operations\<close>

record circular_buffer =
  cb_buffer :: bytes
  cb_head :: u64
  cb_tail :: u64
  cb_max :: u64
  cb_lock :: bool
  cb_wait_write :: ptr
  cb_wait_read :: ptr
  cb_blockingWrite :: bool

definition ring_buffer_create :: "int \<Rightarrow> bool \<Rightarrow> ptr \<Rightarrow> ptr \<Rightarrow> kstate \<Rightarrow> (circular_buffer \<times> kstate) option" where
  \<comment> \<open>\<open>wr\<close> and \<open>rd\<close> are the addresses of the two embedded mutexes\<close>
  "ring_buffer_create sz blocking wr rd s = do {
     s1 \<leftarrow> mutex_init rd s;
     s2 \<leftarrow> mutex_init wr s1;
     Some (\<lparr>cb_buffer = replicate (unat (to_size sz)) 0, cb_head = 0, cb_tail = 0, cb_max = to_size sz,
            cb_lock = False, cb_wait_write = wr, cb_wait_read = rd, cb_blockingWrite = blocking\<rparr>, s2)
   }"

definition ring_buffer_writeable :: "circular_buffer \<Rightarrow> int" where
  "ring_buffer_writeable cb =
     (if cb_head cb = cb_tail cb then to_int (cb_max cb - 1)
      else if cb_tail cb < cb_head cb then to_int (cb_head cb - cb_tail cb - 1)
      else to_int ((cb_max cb - cb_tail cb) + cb_head cb - 1))"

definition ring_buffer_available :: "circular_buffer \<Rightarrow> int" where
  "ring_buffer_available cb =
     (if cb_head cb = cb_tail cb then 0
      else if cb_tail cb < cb_head cb then to_int ((cb_max cb - cb_head cb) + cb_tail cb)
      else to_int (cb_tail cb - cb_head cb))"

fun put_bytes :: "circular_buffer \<Rightarrow> bytes \<Rightarrow> circular_buffer option" where
  \<comment> \<open>the copying loop of \<^verbatim>\<open>ring_buffer_write\<close>, on the bytes that remain to be written\<close>
  "put_bytes cb [] = Some cb"
| "put_bytes cb (b # bs) =
     (if cb_lock cb \<or> unat (cb_tail cb) \<ge> length (cb_buffer cb) then None
      else put_bytes (cb\<lparr>cb_buffer := (cb_buffer cb)[unat (cb_tail cb) := b],
                         cb_tail := (if cb_tail cb + 1 \<ge> cb_max cb then 0 else cb_tail cb + 1)\<rparr>) bs)"

definition signal_waiters :: "ptr \<Rightarrow> kstate \<Rightarrow> kstate option" where
  \<comment> \<open>\<^verbatim>\<open>if(mutex_acquire_if_free(q)) return written; mutex_release(q);\<close>\<close>
  "signal_waiters q s = do {
     (free, s1) \<leftarrow> mutex_acquire_if_free q s;
     if free then Some s1 else mutex_release q s1
   }"

definition wait_on :: "ptr \<Rightarrow> kstate \<Rightarrow> (progress \<times> kstate) option" where
  \<comment> \<open>\<^verbatim>\<open>mutex_acquire_if_free(q); mutex_wait(q);\<close>\<close>
  "wait_on q s = do { (_, s1) \<leftarrow> mutex_acquire_if_free q s; mutex_wait q s1 }"

datatype rb_outcome =
    Rb_return int         \<comment> \<open>the call returned\<close>
  | Rb_retry progress     \<comment> \<open>the loop starts again, at once or when the process is woken\<close>

definition ring_buffer_write ::
  "circular_buffer \<Rightarrow> int \<Rightarrow> bytes \<Rightarrow> kstate \<Rightarrow> (rb_outcome \<times> circular_buffer \<times> kstate) option" where
  \<comment> \<open>one round of the outer loop; \<open>data\<close> is the caller's buffer\<close>
  "ring_buffer_write cb sz data s =
     (if ring_buffer_writeable cb < sz then
        (if \<not> cb_blockingWrite cb then Some (Rb_return 0, cb, s)
         else do { (p, s1) \<leftarrow> wait_on (cb_wait_write cb) s; Some (Rb_retry p, cb, s1) })
      else if unat (to_size sz) > length data then None
      else do {
        cb1 \<leftarrow> put_bytes cb (take (unat (to_size sz)) data);
        s1 \<leftarrow> signal_waiters (cb_wait_read cb) s;
        Some (Rb_return (wrap_int sz), cb1, s1)
      })"

function get_bytes :: "circular_buffer \<Rightarrow> u64 \<Rightarrow> u64 \<Rightarrow> (bytes \<times> circular_buffer) option" where
  \<comment> \<open>\<^verbatim>\<open>while(ring_buffer_available(cb) > 0 && written < size)\<close>\<close>
  "get_bytes cb written sz =
     (if ring_buffer_available cb > 0 \<and> written < sz then
        (if unat (cb_head cb) \<ge> length (cb_buffer cb) then None
         else do {
           (bs, cb1) \<leftarrow> get_bytes (cb\<lparr>cb_head := (cb_head cb + 1) mod cb_max cb\<rparr>) (written + 1) sz;
           Some (cb_buffer cb ! unat (cb_head cb) # bs, cb1)
         })
      else Some ([], cb))"
  by pat_completeness auto

termination
  by (relation "measure (\<lambda>(cb, written, sz). unat sz - unat written)")
    (auto simp: unat_Suc_u64 word_less_nat_alt intro!: diff_less_mono2)

declare get_bytes.simps [simp del]

definition read_finish :: "bytes \<Rightarrow> circular_buffer \<Rightarrow> kstate \<Rightarrow> (rb_outcome \<times> bytes \<times> circular_buffer \<times> kstate) option" where
  "read_finish bs cb s = do {
     s1 \<leftarrow> signal_waiters (cb_wait_write cb) s;
     Some (Rb_return (wrap_int (int (length bs))), bs, cb, s1)
   }"

definition ring_buffer_read ::
  "circular_buffer \<Rightarrow> int \<Rightarrow> kstate \<Rightarrow> (rb_outcome \<times> bytes \<times> circular_buffer \<times> kstate) option" where
  \<comment> \<open>\<^verbatim>\<open>ring_buffer_read\<close> until it returns or waits; the bytes are what it stored in the caller's buffer\<close>
  "ring_buffer_read cb sz s =
     (if cb_lock cb then None
      else do {
        (bs, cb1) \<leftarrow> get_bytes cb 0 (to_size sz);
        if bs = [] then do {
          (p, s1) \<leftarrow> wait_on (cb_wait_read cb1) s;
          Some (Rb_retry p, [], cb1, s1)
        } else read_finish bs cb1 s
      })"

definition ring_buffer_read_resume ::
  "circular_buffer \<Rightarrow> int \<Rightarrow> kstate \<Rightarrow> (rb_outcome \<times> bytes \<times> circular_buffer \<times> kstate) option" where
  \<comment> \<open>the rest of \<^verbatim>\<open>ring_buffer_read\<close> after \<^verbatim>\<open>mutex_wait\<close> returned\<close>
  "ring_buffer_read_resume cb sz s =
     (if cb_lock cb then None
      else do {
        (bs, cb1) \<leftarrow> get_bytes cb 0 (to_size sz);
        if bs = [] then Some (Rb_return 0, [], cb1, s) else read_finish bs cb1 s
      })"

definition ring_buffer_pop :: "circular_buffer \<Rightarrow> kstate \<Rightarrow> (int \<times> circular_buffer \<times> kstate) option" where
  "ring_buffer_pop cb s =
     (if cb_lock cb then None
      else if ring_buffer_available cb = 0 then Some (0, cb, s)
      else do {
        s1 \<leftarrow> signal_waiters (cb_wait_write cb) s;
        Some (1, cb\<lparr>cb_tail := (cb_tail cb - 1 + cb_max cb) mod cb_max cb\<rparr>, s1)
      })"

definition ring_buffer_peek :: "circular_buffer \<Rightarrow> int \<Rightarrow> (int \<times> u8 option) option" where
  "ring_buffer_peek cb offset =
     (if cb_lock cb then None
      else if offset \<ge> ring_buffer_available cb then Some (0, None)
      else let index = to_int ((cb_head cb + to_size offset) mod cb_max cb)
           in if 0 \<le> index \<and> nat index < length (cb_buffer cb)
              then Some (1, Some (cb_buffer cb ! nat index)) else None)"

definition ring_buffer_read_last :: "circular_buffer \<Rightarrow> (int \<times> u8 option) option" where
  "ring_buffer_read_last cb =
     (if cb_lock cb then None
      else if ring_buffer_available cb = 0 then Some (0, None)
      else let last_index = to_int ((cb_tail cb - 1 + cb_max cb) mod cb_max cb)
           in if 0 \<le> last_index \<and> nat last_index < length (cb_buffer cb)
              then Some (1, Some (cb_buffer cb ! nat last_index)) else None)"

definition ring_buffer_discard_readable :: "circular_buffer \<Rightarrow> circular_buffer option" where
  "ring_buffer_discard_readable cb =
     (if cb_lock cb then None else Some (cb\<lparr>cb_head := cb_tail cb\<rparr>))"

section \<open>The readable bytes\<close>

definition fill :: "circular_buffer \<Rightarrow> nat" where
  "fill cb = (if cb_head cb \<le> cb_tail cb then unat (cb_tail cb) - unat (cb_head cb)
              else unat (cb_max cb) - unat (cb_head cb) + unat (cb_tail cb))"

definition contents :: "circular_buffer \<Rightarrow> bytes" where
  "contents cb = map (\<lambda>i. cb_buffer cb ! ((unat (cb_head cb) + i) mod unat (cb_max cb))) [0..<fill cb]"

definition rb_ok :: "circular_buffer \<Rightarrow> bool" where
  "rb_ok cb \<longleftrightarrow> cb_head cb < cb_max cb \<and> cb_tail cb < cb_max cb \<and> unat (cb_max cb) < 2 ^ 31 \<and>
     length (cb_buffer cb) = unat (cb_max cb) \<and> \<not> cb_lock cb"

definition rb_capacity :: "circular_buffer \<Rightarrow> nat" where
  "rb_capacity cb = unat (cb_max cb) - 1"

lemma wrap_mod: "h < n \<Longrightarrow> i < n \<Longrightarrow> (h + i) mod n = (if h + i < n then h + i else h + i - n)" for n :: nat
  by (simp add: le_mod_geq)

lemma rb_okD:
  assumes "rb_ok cb"
  shows "unat (cb_head cb) < unat (cb_max cb)" "unat (cb_tail cb) < unat (cb_max cb)"
    "0 < unat (cb_max cb)" "unat (cb_max cb) < 2 ^ 31" "length (cb_buffer cb) = unat (cb_max cb)"
    "\<not> cb_lock cb"
  using assms by (auto simp: rb_ok_def word_less_nat_alt)

lemma fill_less: "rb_ok cb \<Longrightarrow> fill cb < unat (cb_max cb)"
  using rb_okD [of cb] by (auto simp: fill_def word_le_nat_alt)

lemma head_fill: "rb_ok cb \<Longrightarrow> (unat (cb_head cb) + fill cb) mod unat (cb_max cb) = unat (cb_tail cb)"
  using rb_okD [of cb] fill_less [of cb] by (auto simp: fill_def word_le_nat_alt)

lemma length_contents [simp]: "length (contents cb) = fill cb"
  by (simp add: contents_def)

lemma unat_sub_u64: "b \<le> a \<Longrightarrow> unat (a - b) = unat a - unat b" for a b :: u64
  by (simp add: unat_sub)

lemma unat_add_u64: "unat a + unat b < 2 ^ 64 \<Longrightarrow> unat (a + b) = unat a + unat b" for a b :: u64
  by (simp add: unat_word_ariths)

lemma available_fill: "rb_ok cb \<Longrightarrow> ring_buffer_available cb = int (fill cb)"
proof -
  assume ok: "rb_ok cb"
  note d = rb_okD [OF ok]
  consider (eq) "cb_head cb = cb_tail cb" | (lt) "cb_tail cb < cb_head cb" | (gt) "cb_head cb < cb_tail cb"
    by (metis linorder_neqE)
  then show ?thesis
  proof cases
    case eq
    then show ?thesis by (simp add: ring_buffer_available_def fill_def)
  next
    case lt
    have "cb_head cb \<le> cb_max cb" using ok by (auto simp: rb_ok_def)
    then have u: "unat (cb_max cb - cb_head cb) = unat (cb_max cb) - unat (cb_head cb)" by (rule unat_sub_u64)
    have l: "unat (cb_tail cb) < unat (cb_head cb)" using lt by (simp add: word_less_nat_alt)
    have "unat ((cb_max cb - cb_head cb) + cb_tail cb) = unat (cb_max cb) - unat (cb_head cb) + unat (cb_tail cb)"
      using d l u by (subst unat_add_u64) auto
    moreover have "cb_head cb \<noteq> cb_tail cb" using l by auto
    ultimately show ?thesis using lt l d
      by (simp add: ring_buffer_available_def to_int_small fill_def word_le_nat_alt)
  next
    case gt
    have "unat (cb_tail cb - cb_head cb) = unat (cb_tail cb) - unat (cb_head cb)"
      using gt by (intro unat_sub_u64) simp
    then show ?thesis using gt d
      by (auto simp: ring_buffer_available_def to_int_small fill_def)
  qed
qed

lemma unat_sub1_u64: "0 < unat a \<Longrightarrow> unat (a - 1) = unat a - 1" for a :: u64
  using unat_sub_u64 [of 1 a] by (simp add: word_le_nat_alt)

lemma writeable_fill: "rb_ok cb \<Longrightarrow> ring_buffer_writeable cb = int (rb_capacity cb - fill cb)"
proof -
  assume ok: "rb_ok cb"
  note d = rb_okD [OF ok]
  consider (eq) "cb_head cb = cb_tail cb" | (lt) "cb_tail cb < cb_head cb" | (gt) "cb_head cb < cb_tail cb"
    by (metis linorder_neqE)
  then show ?thesis
  proof cases
    case eq
    have "unat (cb_max cb - 1) = unat (cb_max cb) - 1" using d by (intro unat_sub1_u64) simp
    then show ?thesis using eq d
      by (simp add: ring_buffer_writeable_def to_int_small fill_def rb_capacity_def)
  next
    case lt
    then have l: "unat (cb_tail cb) < unat (cb_head cb)" by (simp add: word_less_nat_alt)
    have "unat (cb_head cb - cb_tail cb) = unat (cb_head cb) - unat (cb_tail cb)"
      using lt by (intro unat_sub_u64) simp
    then have "unat (cb_head cb - cb_tail cb - 1) = unat (cb_head cb) - unat (cb_tail cb) - 1"
      using l by (simp add: unat_sub1_u64)
    moreover have "cb_head cb \<noteq> cb_tail cb" using l by auto
    ultimately show ?thesis using lt l d
      by (simp add: ring_buffer_writeable_def to_int_small fill_def rb_capacity_def word_le_nat_alt)
  next
    case gt
    then have l: "unat (cb_head cb) < unat (cb_tail cb)" by (simp add: word_less_nat_alt)
    have "cb_tail cb \<le> cb_max cb" using ok by (auto simp: rb_ok_def)
    then have u: "unat (cb_max cb - cb_tail cb) = unat (cb_max cb) - unat (cb_tail cb)" by (rule unat_sub_u64)
    have v: "unat ((cb_max cb - cb_tail cb) + cb_head cb) = unat (cb_max cb) - unat (cb_tail cb) + unat (cb_head cb)"
      using d l u by (subst unat_add_u64) auto
    then have "unat ((cb_max cb - cb_tail cb) + cb_head cb - 1) =
        unat (cb_max cb) - unat (cb_tail cb) + unat (cb_head cb) - 1"
      using d by (simp add: unat_sub1_u64)
    then show ?thesis using gt l d
      by (auto simp: ring_buffer_writeable_def to_int_small fill_def rb_capacity_def)
  qed
qed

section \<open>Writing\<close>

lemma unat_next:
  assumes "t < (m :: u64)"
  shows "unat (if t + 1 \<ge> m then 0 else t + 1) = (unat t + 1) mod unat m"
    and "(if t + 1 \<ge> m then 0 else t + 1) < m"
proof -
  have e: "unat (t + 1) = unat t + 1" using unat_Suc_u64 [OF assms] by simp
  have l: "unat t < unat m" using assms by (simp add: word_less_nat_alt)
  show "unat (if t + 1 \<ge> m then 0 else t + 1) = (unat t + 1) mod unat m"
    using e l by (cases "unat t + 1 = unat m") (auto simp: word_le_nat_alt)
  show "(if t + 1 \<ge> m then 0 else t + 1) < m"
    using assms e l by (auto simp: word_less_nat_alt word_le_nat_alt)
qed

lemma put_byte_contents:
  assumes ok: "rb_ok cb" and room: "fill cb < rb_capacity cb"
    and cb': "cb' = cb\<lparr>cb_buffer := (cb_buffer cb)[unat (cb_tail cb) := b],
                       cb_tail := (if cb_tail cb + 1 \<ge> cb_max cb then 0 else cb_tail cb + 1)\<rparr>"
  shows "rb_ok cb' \<and> contents cb' = contents cb @ [b] \<and> rb_capacity cb' = rb_capacity cb"
proof -
  note d = rb_okD [OF ok]
  let ?n = "unat (cb_max cb)" and ?h = "unat (cb_head cb)" and ?t = "unat (cb_tail cb)"
  have tm: "cb_tail cb < cb_max cb" using ok by (simp add: rb_ok_def)
  note nx = unat_next [OF tm]
  have ok': "rb_ok cb'" using ok nx(2) by (simp add: rb_ok_def cb')
  have mx: "cb_max cb' = cb_max cb" "cb_head cb' = cb_head cb" "unat (cb_tail cb') = (?t + 1) mod ?n"
    "cb_buffer cb' = (cb_buffer cb)[?t := b]"
    using nx(1) by (simp_all add: cb')
  have f: "fill cb' = fill cb + 1"
  proof -
    have "unat (cb_tail cb') = (if ?t + 1 = ?n then 0 else ?t + 1)" using mx(3) d(2) by auto
    then show ?thesis using room d mx(1,2)
      by (auto simp: fill_def rb_capacity_def word_le_nat_alt split: if_splits)
  qed
  have ne: "?t \<noteq> (?h + i) mod ?n" if "i < fill cb" for i
    using head_fill [OF ok] that fill_less [OF ok] d(1) wrap_mod [of ?h ?n i] wrap_mod [of ?h ?n "fill cb"]
    by (auto split: if_splits)
  have "contents cb' = map (\<lambda>i. (cb_buffer cb)[?t := b] ! ((?h + i) mod ?n)) ([0..<fill cb] @ [fill cb])"
    using f mx by (simp add: contents_def)
  also have "\<dots> = contents cb @ [b]"
    using ne head_fill [OF ok] d by (auto simp: contents_def nth_list_update_neq)
  finally show ?thesis using ok' mx by (simp add: rb_capacity_def)
qed

lemma put_bytes_contents:
  assumes "rb_ok cb" "fill cb + length bs \<le> rb_capacity cb"
  shows "\<exists>cb'. put_bytes cb bs = Some cb' \<and> rb_ok cb' \<and> contents cb' = contents cb @ bs \<and>
    rb_capacity cb' = rb_capacity cb"
  using assms
proof (induction bs arbitrary: cb)
  case (Cons b bs)
  define cb1 where "cb1 = cb\<lparr>cb_buffer := (cb_buffer cb)[unat (cb_tail cb) := b],
                       cb_tail := (if cb_tail cb + 1 \<ge> cb_max cb then 0 else cb_tail cb + 1)\<rparr>"
  have "fill cb < rb_capacity cb" using Cons.prems(2) by simp
  from put_byte_contents [OF Cons.prems(1) this cb1_def]
  have c1: "rb_ok cb1" "contents cb1 = contents cb @ [b]" "rb_capacity cb1 = rb_capacity cb" by auto
  have "fill cb1 = Suc (fill cb)" using arg_cong [OF c1(2), of length] by simp
  then have "fill cb1 + length bs \<le> rb_capacity cb1" using Cons.prems(2) c1(3) by simp
  from Cons.IH [OF c1(1) this] c1 show ?case
    using rb_okD [OF Cons.prems(1)] by (auto simp: cb1_def [symmetric])
qed simp

section \<open>Reading\<close>

lemma get_byte_contents:
  assumes ok: "rb_ok cb" and ne: "0 < fill cb"
  shows "rb_ok (cb\<lparr>cb_head := (cb_head cb + 1) mod cb_max cb\<rparr>) \<and>
    contents (cb\<lparr>cb_head := (cb_head cb + 1) mod cb_max cb\<rparr>) = tl (contents cb) \<and>
    cb_buffer cb ! unat (cb_head cb) = hd (contents cb)"
proof -
  note d = rb_okD [OF ok]
  let ?n = "unat (cb_max cb)" and ?h = "unat (cb_head cb)" and ?t = "unat (cb_tail cb)"
  let ?cb = "cb\<lparr>cb_head := (cb_head cb + 1) mod cb_max cb\<rparr>"
  have hm: "cb_head cb < cb_max cb" using ok by (simp add: rb_ok_def)
  have u: "unat ((cb_head cb + 1) mod cb_max cb) = (?h + 1) mod ?n"
    using unat_Suc_u64 [OF hm] by (simp add: unat_mod)
  have ok': "rb_ok ?cb" using ok u d by (auto simp: rb_ok_def word_less_nat_alt)
  have f: "fill ?cb = fill cb - 1"
  proof -
    have "unat (cb_head ?cb) = (if ?h + 1 = ?n then 0 else ?h + 1)" using u d(1) by auto
    then show ?thesis using ne d
      by (auto simp: fill_def word_le_nat_alt split: if_splits)
  qed
  have "contents ?cb = map (\<lambda>i. cb_buffer cb ! ((?h + Suc i) mod ?n)) [0..<fill cb - 1]"
    using f u by (simp add: contents_def mod_simps)
  also have "\<dots> = tl (contents cb)"
    by (rule nth_equalityI) (auto simp: contents_def nth_tl)
  finally have "contents ?cb = tl (contents cb)" .
  moreover have "hd (contents cb) = cb_buffer cb ! ?h"
    using ne d(1) by (simp add: contents_def hd_map upt_rec)
  ultimately show ?thesis using ok' by simp
qed

lemma get_bytes_contents:
  assumes "rb_ok cb"
  shows "\<exists>cb'. get_bytes cb w sz = Some (take (unat sz - unat w) (contents cb), cb') \<and> rb_ok cb' \<and>
    contents cb' = drop (unat sz - unat w) (contents cb) \<and> rb_capacity cb' = rb_capacity cb"
  using assms
proof (induction cb w sz rule: get_bytes.induct)
  case (1 cb w sz)
  show ?case
  proof (cases "0 < fill cb \<and> w < sz")
    case True
    then have c: "ring_buffer_available cb > 0 \<and> w < sz" using available_fill [OF 1(2)] by simp
    have h: "\<not> unat (cb_head cb) \<ge> length (cb_buffer cb)" using rb_okD [OF 1(2)] by simp
    let ?cb = "cb\<lparr>cb_head := (cb_head cb + 1) mod cb_max cb\<rparr>"
    note g = get_byte_contents [OF 1(2) conjunct1 [OF True]]
    obtain k where k: "unat sz - unat w = Suc k" "unat sz - unat (w + 1) = k"
    proof (rule that [OF _ refl])
      have "unat w < unat sz" "unat (w + 1) = Suc (unat w)"
        using True unat_Suc_u64 [of w sz] by (simp_all add: word_less_nat_alt)
      then show "unat sz - unat w = Suc (unat sz - unat (w + 1))" by simp
    qed
    have "\<exists>cb'. get_bytes ?cb (w + 1) sz = Some (take k (tl (contents cb)), cb') \<and> rb_ok cb' \<and>
        contents cb' = drop k (tl (contents cb)) \<and> rb_capacity cb' = rb_capacity ?cb"
      using 1(1) [OF c h] g by (simp only: k(2))
    then obtain cb' where
      cb': "get_bytes ?cb (w + 1) sz = Some (take k (tl (contents cb)), cb')" "rb_ok cb'"
        "contents cb' = drop k (tl (contents cb))" "rb_capacity cb' = rb_capacity cb"
      by (auto simp: rb_capacity_def)
    have "contents cb \<noteq> []" using True by (auto simp flip: length_0_conv)
    then obtain x xs where x: "contents cb = x # xs" by (cases "contents cb") auto
    have "get_bytes cb w sz = Some (x # take k xs, cb')"
      using cb'(1) c h g x by (subst get_bytes.simps) simp
    then show ?thesis using cb' x by (simp add: k(1))
  next
    case False
    then have "get_bytes cb w sz = Some ([], cb)" using available_fill [OF 1(2)]
      by (subst get_bytes.simps) auto
    moreover have "contents cb = [] \<or> unat sz - unat w = 0" using False
      by (auto simp: word_less_nat_alt simp flip: length_0_conv)
    ultimately show ?thesis using 1(2) by auto
  qed
qed

section \<open>The buffer as a byte channel\<close>

definition rb_get :: "circular_buffer \<Rightarrow> nat \<Rightarrow> (bytes \<times> circular_buffer) option" where
  "rb_get cb n = get_bytes cb 0 (of_nat (min n (rb_capacity cb)))"

lemma rb_get_law:
  assumes "rb_ok cb"
  shows "\<exists>cb'. rb_get cb n = Some (take n (contents cb), cb') \<and> rb_ok cb' \<and>
    contents cb' = drop n (contents cb) \<and> rb_capacity cb' = rb_capacity cb"
proof -
  have "rb_capacity cb < 2 ^ 64" using rb_okD [OF assms] by (simp add: rb_capacity_def)
  then have u: "unat (of_nat (min n (rb_capacity cb)) :: u64) = min n (rb_capacity cb)"
    by (intro unat_of_nat_u64) simp
  have "fill cb \<le> rb_capacity cb" using fill_less [OF assms] by (simp add: rb_capacity_def)
  then have "take (min n (rb_capacity cb)) (contents cb) = take n (contents cb)"
    "drop (min n (rb_capacity cb)) (contents cb) = drop n (contents cb)"
    by (auto simp: min_def)
  with get_bytes_contents [OF assms, of 0 "of_nat (min n (rb_capacity cb))"] u
  show ?thesis by (simp add: rb_get_def)
qed

interpretation rb: byte_channel rb_ok contents rb_capacity put_bytes rb_get
proof unfold_locales
  fix cb :: circular_buffer and xs :: bytes
  assume "rb_ok cb" "length (contents cb) + length xs \<le> rb_capacity cb"
  then show "\<exists>cb'. put_bytes cb xs = Some cb' \<and> rb_ok cb' \<and> contents cb' = contents cb @ xs \<and>
      rb_capacity cb' = rb_capacity cb"
    using put_bytes_contents [of cb xs] by simp
qed (rule rb_get_law)

lemma to_size_u64_small: "0 \<le> i \<Longrightarrow> i < 2 ^ 31 \<Longrightarrow> unat (to_size i) = nat i"
  using unat_of_nat_u64 [of "nat i"] by (simp add: to_size_def flip: of_nat_nat)



lemma unat_pred_mod:
  assumes "t < (m :: u64)" "unat m < 2 ^ 31"
  shows "unat ((t - 1 + m) mod m) = (unat t + unat m - 1) mod unat m"
proof -
  have l: "unat t < unat m" using assms by (simp add: word_less_nat_alt)
  have "unat (t + m) = unat t + unat m" using l assms(2) by (intro unat_add_u64) simp
  then have "unat (t + m - 1) = unat t + unat m - 1" using l by (intro unat_sub1_u64 [THEN trans]) auto
  then show ?thesis by (simp add: unat_mod algebra_simps)
qed

lemma pop_contents:
  assumes ok: "rb_ok cb" and ne: "0 < fill cb"
  shows "rb_ok (cb\<lparr>cb_tail := (cb_tail cb - 1 + cb_max cb) mod cb_max cb\<rparr>) \<and>
    contents (cb\<lparr>cb_tail := (cb_tail cb - 1 + cb_max cb) mod cb_max cb\<rparr>) = butlast (contents cb)"
proof -
  note d = rb_okD [OF ok]
  let ?cb = "cb\<lparr>cb_tail := (cb_tail cb - 1 + cb_max cb) mod cb_max cb\<rparr>"
  let ?n = "unat (cb_max cb)" and ?t = "unat (cb_tail cb)"
  have tm: "cb_tail cb < cb_max cb" using ok by (simp add: rb_ok_def)
  have u: "unat (cb_tail ?cb) = (?t + ?n - 1) mod ?n" using unat_pred_mod [OF tm d(4)] by simp
  then have u2: "unat (cb_tail ?cb) = (if ?t = 0 then ?n - 1 else ?t - 1)"
    using d(2) by (auto simp: le_mod_geq)
  have ok': "rb_ok ?cb" using ok u d(2,3) by (auto simp: rb_ok_def word_less_nat_alt)
  have "fill ?cb = fill cb - 1" using u2 ne d
    by (auto simp: fill_def word_le_nat_alt split: if_splits)
  then have "contents ?cb = butlast (contents cb)"
    by (intro nth_equalityI) (auto simp: contents_def nth_butlast)
  then show ?thesis using ok' by simp
qed

lemma wait_queue_ready:
  assumes "sched_ok ms ps s" "q \<in> set ms"
  shows "\<exists>s'. signal_waiters q s = Some s' \<and> sched_ok ms ps s'"
proof -
  have o: "objects_ok ms ps s" using assms by (simp add: sched_ok_def)
  obtain mx where mx: "mutexes s q = Some mx" "\<not> m_lock mx" "q \<noteq> NULL"
    using o assms(2) by (auto simp: objects_ok_def)
  then show ?thesis
    using set_owner_ok [OF assms(1) mx(1), of "current_process s"] mutex_release_ok [OF assms]
    by (auto simp: signal_waiters_def mutex_acquire_if_free_def at_def spin_lock_def)
qed

lemma get_bytes_frame: "get_bytes cb w sz = Some (bs, cb') \<Longrightarrow> \<exists>h. cb' = cb\<lparr>cb_head := h\<rparr>"
proof (induction cb w sz arbitrary: bs cb' rule: get_bytes.induct)
  case (1 cb w sz)
  show ?case
  proof (cases "ring_buffer_available cb > 0 \<and> w < sz \<and> \<not> unat (cb_head cb) \<ge> length (cb_buffer cb)")
    case True
    then obtain bs1 where "get_bytes (cb\<lparr>cb_head := (cb_head cb + 1) mod cb_max cb\<rparr>) (w + 1) sz = Some (bs1, cb')"
      using 1(2) by (subst (asm) get_bytes.simps) (auto split: bind_splits)
    then show ?thesis using 1(1) True by fastforce
  next
    case False
    then have "cb' = cb\<lparr>cb_head := cb_head cb\<rparr>" using 1(2) by (subst (asm) get_bytes.simps) (auto split: if_splits)
    then show ?thesis by blast
  qed
qed

lemma peek_contents:
  assumes "rb_ok cb" "i < fill cb"
  shows "ring_buffer_peek cb (int i) = Some (1, Some (contents cb ! i))"
proof -
  note d = rb_okD [OF assms(1)]
  let ?n = "unat (cb_max cb)"
  have av: "ring_buffer_available cb = int (fill cb)" using available_fill [OF assms(1)] .
  have small: "to_int x = int (unat x)" if "unat x < ?n" for x :: u64 using that d(4) by (intro to_int_small) simp
  have "i < 2 ^ 64" using assms(2) fill_less [OF assms(1)] d(4) by simp
  then have "unat (cb_head cb + of_nat i) = unat (cb_head cb) + i"
    using d assms(2) fill_less [OF assms(1)] by (subst unat_add_u64) (simp_all add: unat_of_nat_u64)
  then have "unat ((cb_head cb + of_nat i) mod cb_max cb) = (unat (cb_head cb) + i) mod ?n"
    by (simp add: unat_mod)
  then show ?thesis
    using d av assms(2) small [of "(cb_head cb + of_nat i) mod cb_max cb"]
    by (simp add: ring_buffer_peek_def Let_def contents_def)
qed

section \<open>Properties\<close>

definition demo_rb :: circular_buffer where
  \<comment> \<open>four cells, head at 3 and tail at 1: the readable bytes 7, 9 wrap around\<close>
  "demo_rb = \<lparr>cb_buffer = [9, 0, 0, 7], cb_head = 3, cb_tail = 1, cb_max = 4, cb_lock = False,
     cb_wait_write = 64, cb_wait_read = 64, cb_blockingWrite = False\<rparr>"

lemma demo_rb_facts:
  "rb_ok demo_rb" "contents demo_rb = [7, 9]" "fill demo_rb = 2" "rb_capacity demo_rb = 3"
  by (simp_all add: rb_ok_def demo_rb_def contents_def fill_def rb_capacity_def upt_rec word_le_nat_alt)

text \<open>\<^verbatim>\<open>ring_buffer_write\<close> without blocking is all or nothing: when the bytes fit in the free space they
  are appended to the readable bytes, in order, and their number is returned; otherwise 0 is
  returned and the buffer is unchanged. In both cases the buffer stays well formed and no store
  falls outside it.\<close>

theorem ring_buffer_write_all_or_nothing:
  assumes "rb_ok cb" "\<not> cb_blockingWrite cb" "sched_ok ms ps s" "cb_wait_read cb \<in> set ms"
    "0 \<le> sz" "nat sz \<le> length data" "sz < 2 ^ 31"
  shows "\<exists>r cb' s'. ring_buffer_write cb sz data s = Some (Rb_return r, cb', s') \<and> rb_ok cb' \<and> sched_ok ms ps s' \<and>
    (if nat sz \<le> rb_capacity cb - fill cb
     then r = sz \<and> contents cb' = contents cb @ take (nat sz) data else r = 0 \<and> cb' = cb)"
proof (cases "nat sz \<le> rb_capacity cb - fill cb")
  case True
  have f: "fill cb \<le> rb_capacity cb" using fill_less [OF assms(1)] by (simp add: rb_capacity_def)
  have n: "unat (to_size sz) = nat sz" using to_size_u64_small [OF assms(5,7)] .
  have w: "\<not> ring_buffer_writeable cb < sz" using writeable_fill [OF assms(1)] True by simp
  have "fill cb + length (take (nat sz) data) \<le> rb_capacity cb" using True f by simp
  from put_bytes_contents [OF assms(1) this] obtain cb' where
    cb': "put_bytes cb (take (nat sz) data) = Some cb'" "rb_ok cb'"
      "contents cb' = contents cb @ take (nat sz) data" by auto
  obtain s' where "signal_waiters (cb_wait_read cb) s = Some s'" "sched_ok ms ps s'"
    using wait_queue_ready [OF assms(3,4)] by auto
  then show ?thesis using True w n cb' assms(6) wrap_int_small [of sz] assms(5,7)
    by (simp add: ring_buffer_write_def)
next
  case False
  then show ?thesis using writeable_fill [OF assms(1)] assms
    by (auto simp: ring_buffer_write_def)
qed

theorem ring_buffer_write_all_or_nothing_witness:
  "\<exists>cb' s'. ring_buffer_write demo_rb 1 [5] demo_kstate = Some (Rb_return 1, cb', s') \<and>
     contents cb' = [7, 9, 5]"
proof -
  have "\<not> cb_blockingWrite demo_rb" "cb_wait_read demo_rb \<in> set [64]" by (simp_all add: demo_rb_def)
  from ring_buffer_write_all_or_nothing [OF demo_rb_facts(1) this(1) demo_sched_ok(1) this(2), of 1 "[5]"]
  show ?thesis by (auto simp: demo_rb_facts(2-4))
qed

text \<open>\<^verbatim>\<open>ring_buffer_read\<close> of a non-empty buffer returns at once with the first readable bytes, at
  most as many as asked for, and removes exactly those.\<close>

theorem ring_buffer_read_takes_front:
  assumes "rb_ok cb" "0 < fill cb" "sched_ok ms ps s" "cb_wait_write cb \<in> set ms" "0 < sz" "sz < 2 ^ 31"
  shows "\<exists>cb' s'. ring_buffer_read cb sz s =
      Some (Rb_return (min sz (int (fill cb))), take (nat sz) (contents cb), cb', s') \<and>
    rb_ok cb' \<and> contents cb' = drop (nat sz) (contents cb) \<and> sched_ok ms ps s'"
proof -
  have n: "unat (to_size sz) = nat sz" using to_size_u64_small [of sz] assms(5,6) by simp
  from get_bytes_contents [OF assms(1), of 0 "to_size sz"] n obtain cb' where
    cb': "get_bytes cb 0 (to_size sz) = Some (take (nat sz) (contents cb), cb')" "rb_ok cb'"
      "contents cb' = drop (nat sz) (contents cb)" by auto
  have w: "cb_wait_write cb' = cb_wait_write cb" using get_bytes_frame [OF cb'(1)] by auto
  have "contents cb \<noteq> []" using assms(2) by (auto simp flip: length_0_conv)
  then have ne: "take (nat sz) (contents cb) \<noteq> []" using assms(5) by simp
  have len: "int (length (take (nat sz) (contents cb))) = min sz (int (fill cb))"
    using assms(5) by (auto simp: min_def)
  obtain s' where "signal_waiters (cb_wait_write cb') s = Some s'" "sched_ok ms ps s'"
    using wait_queue_ready [OF assms(3)] w assms(4) by auto
  moreover have "wrap_int (min sz (int (fill cb))) = min sz (int (fill cb))"
    using assms(5,6) by (intro wrap_int_small) auto
  ultimately show ?thesis using cb' ne len rb_okD(6) [OF assms(1)]
    by (simp add: ring_buffer_read_def read_finish_def)
qed

theorem ring_buffer_read_takes_front_witness:
  "\<exists>cb' s'. ring_buffer_read demo_rb 1 demo_kstate = Some (Rb_return 1, [7], cb', s') \<and> contents cb' = [9]"
proof -
  have "cb_wait_write demo_rb \<in> set [64]" "0 < fill demo_rb" by (simp_all add: demo_rb_facts(3)) (simp add: demo_rb_def)
  from ring_buffer_read_takes_front [OF demo_rb_facts(1) this(2) demo_sched_ok(1) this(1), of 1]
  show ?thesis by (auto simp: demo_rb_facts(2-4))
qed

text \<open>C36. The buffer is a first-in first-out byte channel: two writes that fit, followed by a
  read of any length, yield the first bytes of what was there before, the first write and the
  second write, in this order, and leave the rest.\<close>

theorem ring_buffer_fifo:
  assumes "rb_ok cb" "length (contents cb) + length xs + length ys \<le> rb_capacity cb"
  shows "\<exists>cb1 cb2 cb3. put_bytes cb xs = Some cb1 \<and> put_bytes cb1 ys = Some cb2 \<and>
    rb_get cb2 n = Some (take n (contents cb @ xs @ ys), cb3) \<and>
    contents cb3 = drop n (contents cb @ xs @ ys)"
  using assms by (rule rb.put_put_get)

theorem ring_buffer_fifo_witness:
  "\<exists>cb1 cb2 cb3. put_bytes demo_rb [5] = Some cb1 \<and> put_bytes cb1 [] = Some cb2 \<and>
    rb_get cb2 2 = Some ([7, 9], cb3) \<and> contents cb3 = [5]"
  using ring_buffer_fifo [OF demo_rb_facts(1), of "[5]" "[]" 2] by (auto simp: demo_rb_facts(2-4))

text \<open>Line editing: on a non-empty buffer \<^verbatim>\<open>ring_buffer_pop\<close> drops exactly the last byte written,
  \<^verbatim>\<open>ring_buffer_read_last\<close> shows it, and \<^verbatim>\<open>ring_buffer_peek\<close> at an offset below the fill level
  shows the byte at that offset; none of them reads outside the buffer.\<close>

theorem ring_buffer_pop_peek:
  assumes "rb_ok cb" "0 < fill cb" "sched_ok ms ps s" "cb_wait_write cb \<in> set ms" "i < fill cb"
  shows "(\<exists>cb' s'. ring_buffer_pop cb s = Some (1, cb', s') \<and> rb_ok cb' \<and> sched_ok ms ps s' \<and>
      contents cb' = butlast (contents cb)) \<and>
    ring_buffer_read_last cb = Some (1, Some (last (contents cb))) \<and>
    ring_buffer_peek cb (int i) = Some (1, Some (contents cb ! i))"
proof -
  note d = rb_okD [OF assms(1)]
  let ?n = "unat (cb_max cb)"
  have av: "ring_buffer_available cb = int (fill cb)" using available_fill [OF assms(1)] .
  have p: "\<exists>cb' s'. ring_buffer_pop cb s = Some (1, cb', s') \<and> rb_ok cb' \<and> sched_ok ms ps s' \<and>
      contents cb' = butlast (contents cb)"
    using wait_queue_ready [OF assms(3,4)] pop_contents [OF assms(1,2)] d(6) av assms(2)
    by (auto simp: ring_buffer_pop_def)
  have tm: "cb_tail cb < cb_max cb" using assms(1) by (simp add: rb_ok_def)
  have ti: "unat ((cb_tail cb - 1 + cb_max cb) mod cb_max cb) = (unat (cb_tail cb) + ?n - 1) mod ?n"
    using unat_pred_mod [OF tm d(4)] .
  have small: "to_int x = int (unat x)" if "unat x < ?n" for x :: u64 using that d(4) by (intro to_int_small) simp
  have pred: "(unat (cb_tail cb) + ?n - 1) mod ?n = (unat (cb_head cb) + (fill cb - 1)) mod ?n"
    using head_fill [OF assms(1)] assms(2) d fill_less [OF assms(1)]
      wrap_mod [of "unat (cb_head cb)" ?n "fill cb"] wrap_mod [of "unat (cb_head cb)" ?n "fill cb - 1"]
    by (auto simp: le_mod_geq split: if_splits)
  have l: "contents cb \<noteq> []" using assms(2) by (auto simp flip: length_0_conv)
  have "last (contents cb) = cb_buffer cb ! ((unat (cb_head cb) + (fill cb - 1)) mod ?n)"
    using l assms(2) by (subst last_conv_nth) (simp_all add: contents_def)
  then have r: "ring_buffer_read_last cb = Some (1, Some (last (contents cb)))"
    using d av assms(2) ti pred small [of "(cb_tail cb - 1 + cb_max cb) mod cb_max cb"]
    by (simp add: ring_buffer_read_last_def Let_def)
  have "ring_buffer_peek cb (int i) = Some (1, Some (contents cb ! i))" by (rule peek_contents [OF assms(1,5)])
  with p r show ?thesis by blast
qed

theorem ring_buffer_pop_peek_witness:
  "(\<exists>cb' s'. ring_buffer_pop demo_rb demo_kstate = Some (1, cb', s') \<and> contents cb' = [7]) \<and>
   ring_buffer_read_last demo_rb = Some (1, Some 9) \<and> ring_buffer_peek demo_rb 1 = Some (1, Some 9)"
proof -
  have "cb_wait_write demo_rb \<in> set [64]" "0 < fill demo_rb" "1 < fill demo_rb"
    by (simp_all add: demo_rb_facts(3)) (simp add: demo_rb_def)
  from ring_buffer_pop_peek [OF demo_rb_facts(1) this(2) demo_sched_ok(1) this(1,3)]
  show ?thesis by (auto simp: demo_rb_facts(2))
qed

end
