(* ===== verification/Frame_Alloc.thy ===== *)
theory Frame_Alloc
  imports Prelude Interfaces
begin

text \<open>
  The physical memory manager of \<^verbatim>\<open>kernel/arch/amd64/memmgr.c\<close>: a word per 4 KiB frame, 1 when the frame
  is in use, and a search position that is kept between calls. The search may read the word behind the
  array; the model keeps it as \<open>pm_past_end\<close>. A read further outside is a fault.
\<close>

section \<open>Operations\<close>

definition BITMAP_SIZE :: int where
  "BITMAP_SIZE = 524288"

record pmm =
  pm_map :: "int \<Rightarrow> u32"
  pm_past_end :: u32
  pm_idx :: int
  pm_lock :: bool

definition PAGE_TO_ADDRESS :: "int \<Rightarrow> u64" where
  \<comment> \<open>\<^verbatim>\<open>page << 12\<close> on an \<^verbatim>\<open>int\<close>, then converted to \<^verbatim>\<open>uintptr_t\<close>\<close>
  "PAGE_TO_ADDRESS page = to_size (wrap_int (page * 4096))"

definition ADDRESS_TO_PAGE :: "u64 \<Rightarrow> int" where
  \<comment> \<open>\<^verbatim>\<open>addr >> 12\<close>, assigned to an \<^verbatim>\<open>int\<close>\<close>
  "ADDRESS_TO_PAGE addr = to_int (drop_bit 12 addr)"

definition memmgr_phys_mark_page :: "int \<Rightarrow> pmm \<Rightarrow> pmm option" where
  "memmgr_phys_mark_page i s =
     (if i \<ge> BITMAP_SIZE then Some s
      else if i < 0 then None else Some (s\<lparr>pm_map := (pm_map s)(i := 1)\<rparr>))"

definition memmgr_phys_free_page :: "int \<Rightarrow> pmm \<Rightarrow> pmm option" where
  "memmgr_phys_free_page i s =
     (if i \<ge> BITMAP_SIZE then Some s
      else if i < 0 then None else Some (s\<lparr>pm_map := (pm_map s)(i := 0)\<rparr>))"

function kalloc_search :: "pmm \<Rightarrow> int \<Rightarrow> bool \<Rightarrow> int option \<times> int" where
  \<comment> \<open>the search loop: the free index it stops at, or \<open>None\<close> for the \<^verbatim>\<open>break\<close>; the second component is the value left in \<^verbatim>\<open>idx\<close>.
     A position below the array has no value in the model and is treated by \<open>kalloc_frame\<close>\<close>
  "kalloc_search s i restart =
     (if (if i < BITMAP_SIZE then pm_map s i else pm_past_end s) = 0 then (Some i, i)
      else if i \<ge> BITMAP_SIZE then
        (if restart then kalloc_search s 1 False else (None, i))
      else kalloc_search s (i + 1) restart)"
  by pat_completeness auto

termination
  by (relation "measures [\<lambda>(s, i, r). if r then 1 else 0, \<lambda>(s, i, r). nat (BITMAP_SIZE - i)]")
    auto

declare kalloc_search.simps [simp del]

definition kalloc_frame :: "pmm \<Rightarrow> (u64 \<times> pmm) option" where
  "kalloc_frame s =
     (if pm_lock s \<or> pm_idx s < 0 \<or> pm_idx s > BITMAP_SIZE then None
      else case kalloc_search s (pm_idx s) (pm_idx s > 0) of
        (Some i, _) \<Rightarrow> do {
          s1 \<leftarrow> memmgr_phys_mark_page i (s\<lparr>pm_idx := i\<rparr>);
          Some (PAGE_TO_ADDRESS i, s1)
        }
      | (None, i) \<Rightarrow> Some (0, s\<lparr>pm_idx := i\<rparr>))"

definition kfree_frame :: "u64 \<Rightarrow> pmm \<Rightarrow> pmm option" where
  "kfree_frame addr s =
     (if pm_lock s then None
      else do {
        let frame_idx = ADDRESS_TO_PAGE addr;
        s1 \<leftarrow> memmgr_phys_free_page frame_idx s;
        Some (if pm_idx s1 = frame_idx then s1\<lparr>pm_idx := pm_idx s1 - 1\<rparr>
              else if frame_idx < pm_idx s1 then s1\<lparr>pm_idx := frame_idx\<rparr> else s1)
      })"

section \<open>The boot-time memory map\<close>

record mmap_entry =
  me_addr :: u64
  me_len :: u64
  me_type :: u32

definition MULTIBOOT_MEMORY_AVAILABLE :: u32 where
  "MULTIBOOT_MEMORY_AVAILABLE = 1"

function mark_range :: "u64 \<Rightarrow> u64 \<Rightarrow> nat \<Rightarrow> pmm \<Rightarrow> pmm option" where
  \<comment> \<open>\<^verbatim>\<open>for(unsigned long i = from; i < to; i += 0x1000)\<close>, at most \<open>fuel\<close> rounds\<close>
  "mark_range i to 0 s = (if i < to then None else Some s)"
| "mark_range i to (Suc fuel) s =
     (if i < to then do {
        s1 \<leftarrow> memmgr_phys_mark_page (ADDRESS_TO_PAGE i) s;
        mark_range (i + 0x1000) to fuel s1
      } else Some s)"
  by pat_completeness auto

termination
  by (relation "measure (\<lambda>(i, to, fuel, s). fuel)") auto

definition mark_entry :: "nat \<Rightarrow> mmap_entry \<Rightarrow> pmm \<Rightarrow> pmm option" where
  "mark_entry fuel e s =
     (if me_type e \<noteq> MULTIBOOT_MEMORY_AVAILABLE
      then mark_range (me_addr e) (me_addr e + me_len e) fuel s else Some s)"

definition memmgr_init_phys :: "nat \<Rightarrow> mmap_entry list \<Rightarrow> pmm \<Rightarrow> pmm option" where
  \<comment> \<open>the part of \<^verbatim>\<open>memmgr_init\<close> that fills the frame map: the reserved regions and the low 16 MiB\<close>
  "memmgr_init_phys fuel entries s = do {
     s1 \<leftarrow> foldM (mark_entry fuel) entries (s\<lparr>pm_lock := False\<rparr>);
     s2 \<leftarrow> foldM (\<lambda>i. memmgr_phys_mark_page (ADDRESS_TO_PAGE (of_nat (i * 0x1000)))) [0..<0x1001] s1;
     Some (s2\<lparr>pm_lock := False\<rparr>)
   }"

section \<open>The search\<close>

definition used_frames :: "pmm \<Rightarrow> nat set" where
  "used_frames s = {i. int i < BITMAP_SIZE \<and> pm_map s (int i) \<noteq> 0}"

definition pmm_ok :: "pmm \<Rightarrow> bool" where
  "pmm_ok s \<longleftrightarrow> \<not> pm_lock s \<and> 0 \<le> pm_idx s \<and> pm_idx s \<le> BITMAP_SIZE"

lemma kalloc_search_ge:
  "kalloc_search s i r = (Some j, k) \<Longrightarrow> 0 \<le> i \<Longrightarrow> i \<le> BITMAP_SIZE \<Longrightarrow>
   k = j \<and> 0 \<le> j \<and> j \<le> BITMAP_SIZE \<and>
   (if j < BITMAP_SIZE then pm_map s j else pm_past_end s) = 0"
proof (induction s i r rule: kalloc_search.induct)
  case (1 s i r)
  show ?case
  proof (cases "(if i < BITMAP_SIZE then pm_map s i else pm_past_end s) = 0")
    case True
    then show ?thesis using 1(3-5) by (subst (asm) kalloc_search.simps) auto
  next
    case False
    show ?thesis
    proof (cases "i \<ge> BITMAP_SIZE")
      case big: True
      then have "r" "kalloc_search s 1 False = (Some j, k)"
        using 1(3) False by (subst (asm) kalloc_search.simps, auto split: if_splits)+
      then show ?thesis using 1(1) False big by (simp add: BITMAP_SIZE_def)
    next
      case small: False
      then have "kalloc_search s (i + 1) r = (Some j, k)"
        using 1(3) False by (subst (asm) kalloc_search.simps) (auto split: if_splits)
      then show ?thesis using 1(2) [OF False small] 1(4) small by simp
    qed
  qed
qed

lemma kalloc_search_first:
  assumes "i \<le> j" "j < BITMAP_SIZE" "pm_map s j = 0" "\<forall>k. i \<le> k \<and> k < j \<longrightarrow> pm_map s k \<noteq> 0"
  shows "kalloc_search s i r = (Some j, j)"
proof -
  obtain n where "j = i + int n" using assms(1) zle_iff_zadd by blast
  then show ?thesis using assms
  proof (induction n arbitrary: i)
    case 0
    then show ?case by (subst kalloc_search.simps) simp
  next
    case (Suc n)
    then have "kalloc_search s (i + 1) r = (Some j, j)" by (intro Suc.IH) auto
    moreover have "pm_map s i \<noteq> 0" "i < BITMAP_SIZE" using Suc.prems by auto
    ultimately show ?case by (subst kalloc_search.simps) simp
  qed
qed

lemma kalloc_search_none:
  "kalloc_search s i r = (None, k) \<Longrightarrow> BITMAP_SIZE \<le> k"
proof (induction s i r rule: kalloc_search.induct)
  case (1 s i r)
  have F: "(if i < BITMAP_SIZE then pm_map s i else pm_past_end s) \<noteq> 0"
    using 1(3) by (subst (asm) kalloc_search.simps) (auto split: if_splits)
  show ?case
  proof (cases "i \<ge> BITMAP_SIZE")
    case True
    have e: "kalloc_search s i r = (if r then kalloc_search s 1 False else (None, i))"
      using F True by (subst kalloc_search.simps) simp
    show ?thesis
    proof (cases r)
      case R: True
      then show ?thesis using 1(1) [OF F True R] 1(3) e by simp
    next
      case False
      then show ?thesis using 1(3) e True by simp
    qed
  next
    case False
    have "kalloc_search s (i + 1) r = (None, k)"
      using 1(3) F False by (subst (asm) kalloc_search.simps) simp
    then show ?thesis using 1(2) [OF F False] by simp
  qed
qed

lemma page_address:
  assumes "0 \<le> i" "i < BITMAP_SIZE"
  shows "PAGE_TO_ADDRESS i = of_nat (nat i * 4096)" "unat (PAGE_TO_ADDRESS i) = nat i * 4096"
    "ADDRESS_TO_PAGE (PAGE_TO_ADDRESS i) = i"
proof -
  have b: "0 \<le> i * 4096" "i * 4096 < 2 ^ 31" using assms by (simp_all add: BITMAP_SIZE_def)
  have w: "wrap_int (i * 4096) = i * 4096"
    unfolding wrap_int_def signed_of_int using b by (simp add: signed_take_bit_int_eq_self)
  have e: "i * 4096 = int (nat i * 4096)" using assms(1) by simp
  show p: "PAGE_TO_ADDRESS i = of_nat (nat i * 4096)"
    unfolding PAGE_TO_ADDRESS_def w by (subst e) (rule to_size_of_nat)
  show u: "unat (PAGE_TO_ADDRESS i) = nat i * 4096"
    unfolding p using assms by (intro unat_of_nat_u64) (simp add: BITMAP_SIZE_def)
  have "unat (drop_bit 12 (PAGE_TO_ADDRESS i)) = nat i"
    using u by (simp add: drop_bit_eq_div unat_div)
  then show "ADDRESS_TO_PAGE (PAGE_TO_ADDRESS i) = i"
    using assms by (simp add: ADDRESS_TO_PAGE_def to_int_small BITMAP_SIZE_def)
qed

lemma kalloc_frame_cases:
  assumes "kalloc_frame s = Some (a, s')"
  shows "(\<exists>i. 0 \<le> i \<and> i < BITMAP_SIZE \<and> pm_map s i = 0 \<and> a = PAGE_TO_ADDRESS i \<and>
      s' = s\<lparr>pm_idx := i, pm_map := (pm_map s)(i := 1)\<rparr>) \<or>
    (BITMAP_SIZE \<le> pm_idx s' \<and> pm_map s' = pm_map s)"
proof -
  have ok: "\<not> pm_lock s" "0 \<le> pm_idx s" "pm_idx s \<le> BITMAP_SIZE"
    using assms by (auto simp: kalloc_frame_def split: if_splits)
  obtain r k where r: "kalloc_search s (pm_idx s) (pm_idx s > 0) = (r, k)" by (cases "kalloc_search s (pm_idx s) (pm_idx s > 0)")
  show ?thesis
  proof (cases r)
    case None
    then show ?thesis using assms r kalloc_search_none [of s _ _ k] ok by (auto simp: kalloc_frame_def)
  next
    case (Some i)
    then have "k = i" "0 \<le> i" "i \<le> BITMAP_SIZE" "(if i < BITMAP_SIZE then pm_map s i else pm_past_end s) = 0"
      using kalloc_search_ge r ok by auto
    then show ?thesis using assms r Some ok
      by (auto simp: kalloc_frame_def memmgr_phys_mark_page_def split: if_splits)
  qed
qed

section \<open>The frame map as an allocator\<close>

definition alloc_frame :: "pmm \<Rightarrow> (nat \<times> pmm) option" where
  \<comment> \<open>for the specifications only: a call of \<^verbatim>\<open>kalloc_frame\<close> that hands out a frame of the map, as a frame number. The code
     has no such test; what it returns without a free frame is \<open>kalloc_frame_exhausted\<close>\<close>
  "alloc_frame s = (case kalloc_frame s of None \<Rightarrow> None
     | Some (a, s') \<Rightarrow> if pm_idx s' < BITMAP_SIZE then Some (unat a div 4096, s') else None)"

definition release_frame :: "pmm \<Rightarrow> nat \<Rightarrow> pmm option" where
  "release_frame s f = (if int f < BITMAP_SIZE then kfree_frame (PAGE_TO_ADDRESS (int f)) s else None)"

lemma alloc_frame_law:
  assumes "alloc_frame s = Some (f, s')"
  shows "f \<notin> used_frames s \<and> used_frames s' = insert f (used_frames s)"
proof -
  obtain a where a: "kalloc_frame s = Some (a, s')" "pm_idx s' < BITMAP_SIZE" "f = unat a div 4096"
    using assms by (auto simp: alloc_frame_def split: option.splits if_splits)
  from kalloc_frame_cases [OF a(1)] a(2) obtain i where
    i: "0 \<le> i" "i < BITMAP_SIZE" "pm_map s i = 0" "a = PAGE_TO_ADDRESS i"
      "s' = s\<lparr>pm_idx := i, pm_map := (pm_map s)(i := 1)\<rparr>" by auto
  have "int f = i" using page_address(2) [OF i(1,2)] a(3) i(1,4) by simp
  then show ?thesis using i by (auto simp: used_frames_def)
qed

lemma release_frame_law:
  assumes "release_frame s f = Some s'"
  shows "used_frames s' = used_frames s - {f}"
proof -
  have f: "int f < BITMAP_SIZE" "kfree_frame (PAGE_TO_ADDRESS (int f)) s = Some s'"
    using assms by (auto simp: release_frame_def split: if_splits)
  have "pm_map s' = (pm_map s)(int f := 0)"
    using f page_address(3) [of "int f"]
    by (auto simp: kfree_frame_def memmgr_phys_free_page_def Let_def split: if_splits)
  then show ?thesis by (auto simp: used_frames_def)
qed

interpretation fa: frame_allocator used_frames alloc_frame release_frame
  by unfold_locales (simp_all add: alloc_frame_law release_frame_law)

fun alloc_frames :: "nat \<Rightarrow> pmm \<Rightarrow> (nat list \<times> pmm) option" where
  "alloc_frames 0 s = Some ([], s)"
| "alloc_frames (Suc n) s = do {
     (f, s1) \<leftarrow> alloc_frame s;
     (fs, s2) \<leftarrow> alloc_frames n s1;
     Some (f # fs, s2)
   }"

lemma alloc_frames_eq: "alloc_frames n s = fa.alloc_many n s"
  by (induction n arbitrary: s) (auto split: option.splits bind_splits)

section \<open>Repeated allocation\<close>

fun kalloc_frames :: "nat \<Rightarrow> pmm \<Rightarrow> (u64 list \<times> pmm) option" where
  \<comment> \<open>a caller's loop of \<^verbatim>\<open>kalloc_frame\<close>\<close>
  "kalloc_frames 0 s = Some ([], s)"
| "kalloc_frames (Suc n) s = do { (a, s1) \<leftarrow> kalloc_frame s; (as, s2) \<leftarrow> kalloc_frames n s1; Some (a # as, s2) }"

definition available :: "pmm \<Rightarrow> nat set" where
  \<comment> \<open>the free frames that a search from the current position reaches\<close>
  "available s = {i. int i < BITMAP_SIZE \<and> pm_map s (int i) = 0 \<and>
     (pm_idx s \<le> int i \<or> pm_idx s > 0 \<and> pm_past_end s \<noteq> 0 \<and> 1 \<le> i)}"

definition exhausted :: "pmm \<Rightarrow> u64" where
  \<comment> \<open>what \<^verbatim>\<open>kalloc_frame\<close> returns when no frame is available\<close>
  "exhausted s = (if pm_past_end s = 0 then 0xFFFFFFFF80000000 else 0)"

lemma finite_available: "finite (available s)"
proof -
  have "available s \<subseteq> {..<nat BITMAP_SIZE}" by (auto simp: available_def)
  then show ?thesis by (rule finite_subset) simp
qed

lemma frame_address_inj:
  "i < 524288 \<Longrightarrow> j < 524288 \<Longrightarrow> (of_nat (i * 4096) :: u64) = of_nat (j * 4096) \<Longrightarrow> i = j"
proof -
  assume a: "i < 524288" "j < 524288" "(of_nat (i * 4096) :: u64) = of_nat (j * 4096)"
  have "unat (of_nat (i * 4096) :: u64) = i * 4096" "unat (of_nat (j * 4096) :: u64) = j * 4096"
    using a(1,2) by (intro unat_of_nat_u64; simp)+
  then show "i = j" using a(3) by (metis mult_cancel2 zero_neq_numeral)
qed

lemma first_free_obtain:
  assumes "i \<le> m" "m < BITMAP_SIZE" "pm_map s m = 0"
  obtains j where "i \<le> j" "j < BITMAP_SIZE" "pm_map s j = 0" "\<forall>k. i \<le> k \<and> k < j \<longrightarrow> pm_map s k \<noteq> 0"
proof -
  let ?S = "{j. i \<le> j \<and> j < BITMAP_SIZE \<and> pm_map s j = 0}"
  have f: "finite ?S" by (rule finite_subset [of _ "{i..<BITMAP_SIZE}"]) auto
  have "m \<in> ?S" using assms by simp
  then have mn: "Min ?S \<in> ?S" using f by (intro Min_in) auto
  have "pm_map s k \<noteq> 0" if "i \<le> k" "k < Min ?S" for k
  proof
    assume "pm_map s k = 0"
    then have "k \<in> ?S" using that mn by auto
    then have "Min ?S \<le> k" by (rule Min_le [OF f])
    then show False using that by simp
  qed
  then show thesis using that [of "Min ?S"] mn by blast
qed

lemma kalloc_search_past:
  assumes "0 \<le> i" "i \<le> BITMAP_SIZE" "\<forall>k. i \<le> k \<and> k < BITMAP_SIZE \<longrightarrow> pm_map s k \<noteq> 0"
  shows "kalloc_search s i r = kalloc_search s BITMAP_SIZE r"
proof -
  obtain n where "BITMAP_SIZE = i + int n" using assms(2) zle_iff_zadd by blast
  then show ?thesis using assms
  proof (induction n arbitrary: i)
    case (Suc n)
    then have "kalloc_search s (i + 1) r = kalloc_search s BITMAP_SIZE r" by (intro Suc.IH) auto
    moreover have "pm_map s i \<noteq> 0" "i < BITMAP_SIZE" using Suc.prems by auto
    ultimately show ?case by (subst kalloc_search.simps) simp
  qed simp
qed

lemma kalloc_frame_available:
  assumes ok: "pmm_ok s" and av: "available s \<noteq> {}"
  shows "\<exists>i. i \<in> available s \<and> kalloc_frame s = Some (of_nat (i * 4096), s\<lparr>pm_idx := int i, pm_map := (pm_map s)(int i := 1)\<rparr>) \<and>
    available (s\<lparr>pm_idx := int i, pm_map := (pm_map s)(int i := 1)\<rparr>) = available s - {i}"
proof -
  have b: "\<not> pm_lock s" "0 \<le> pm_idx s" "pm_idx s \<le> BITMAP_SIZE" using ok by (auto simp: pmm_ok_def)
  have found: "\<exists>i. i \<in> available s \<and> kalloc_frame s = Some (of_nat (i * 4096), s\<lparr>pm_idx := int i, pm_map := (pm_map s)(int i := 1)\<rparr>) \<and>
      available (s\<lparr>pm_idx := int i, pm_map := (pm_map s)(int i := 1)\<rparr>) = available s - {i}"
    if j: "0 \<le> j" "j < BITMAP_SIZE" "kalloc_search s (pm_idx s) (pm_idx s > 0) = (Some j, j)" "nat j \<in> available s"
      "available (s\<lparr>pm_idx := j, pm_map := (pm_map s)(j := 1)\<rparr>) = available s - {nat j}" for j
  proof -
    have "kalloc_frame s = Some (of_nat (nat j * 4096), s\<lparr>pm_idx := j, pm_map := (pm_map s)(j := 1)\<rparr>)"
      using b j(1-3) page_address(1) [OF j(1,2)] by (simp add: kalloc_frame_def memmgr_phys_mark_page_def)
    then show ?thesis using j(1,4,5) by (intro exI [of _ "nat j"]) simp
  qed
  show ?thesis
  proof (cases "\<exists>m. pm_idx s \<le> m \<and> m < BITMAP_SIZE \<and> pm_map s m = 0")
    case True
    then obtain j where j: "pm_idx s \<le> j" "j < BITMAP_SIZE" "pm_map s j = 0" "\<forall>k. pm_idx s \<le> k \<and> k < j \<longrightarrow> pm_map s k \<noteq> 0"
      using first_free_obtain by metis
    have mem: "nat j \<in> available s" using j b(2) by (simp add: available_def)
    have rest: "available (s\<lparr>pm_idx := j, pm_map := (pm_map s)(j := 1)\<rparr>) = available s - {nat j}"
    proof (rule set_eqI)
      fix i
      have "pm_map s (int i) \<noteq> 0" if "pm_idx s \<le> int i" "int i < j" using j(4) that by blast
      then show "i \<in> available (s\<lparr>pm_idx := j, pm_map := (pm_map s)(j := 1)\<rparr>) \<longleftrightarrow> i \<in> available s - {nat j}"
        using j(1) b(2) by (auto simp: available_def)
    qed
    show ?thesis using found [OF _ j(2) kalloc_search_first [OF j] mem rest] j(1) b(2) by simp
  next
    case False
    obtain m where m: "m \<in> available s" using av by blast
    then have "\<not> pm_idx s \<le> int m" using False by (auto simp: available_def)
    then have p: "pm_idx s > 0" "pm_past_end s \<noteq> 0" "1 \<le> int m" "int m < BITMAP_SIZE" "pm_map s (int m) = 0"
      using m by (auto simp: available_def)
    then have w: "\<exists>m. 1 \<le> m \<and> m < BITMAP_SIZE \<and> pm_map s m = 0" by blast
    obtain j where j: "1 \<le> j" "j < BITMAP_SIZE" "pm_map s j = 0" "\<forall>k. 1 \<le> k \<and> k < j \<longrightarrow> pm_map s k \<noteq> 0"
      using w first_free_obtain by metis
    have "kalloc_search s (pm_idx s) True = kalloc_search s BITMAP_SIZE True" using False b by (intro kalloc_search_past) auto
    also have "\<dots> = kalloc_search s 1 False" using p by (subst kalloc_search.simps) simp
    also have "\<dots> = (Some j, j)" by (rule kalloc_search_first [OF j])
    finally have s: "kalloc_search s (pm_idx s) (pm_idx s > 0) = (Some j, j)" using p by simp
    have "1 \<le> nat j" using j(1) by simp
    then have mem: "nat j \<in> available s" using j p(1,2) unfolding available_def by simp
    have rest: "available (s\<lparr>pm_idx := j, pm_map := (pm_map s)(j := 1)\<rparr>) = available s - {nat j}"
      using j(1) p by (auto simp: available_def)
    show ?thesis using found [OF _ j(2) s mem rest] j(1) by simp
  qed
qed

lemma kalloc_frame_exhausted:
  assumes ok: "pmm_ok s" and av: "available s = {}"
  shows "kalloc_frame s = Some (exhausted s, s\<lparr>pm_idx := BITMAP_SIZE\<rparr>)"
proof -
  have b: "\<not> pm_lock s" "0 \<le> pm_idx s" "pm_idx s \<le> BITMAP_SIZE" using ok by (auto simp: pmm_ok_def)
  have n: "pm_map s k \<noteq> 0" if "0 \<le> k" "k < BITMAP_SIZE" "pm_idx s \<le> k \<or> pm_idx s > 0 \<and> pm_past_end s \<noteq> 0 \<and> 1 \<le> k" for k
  proof
    assume "pm_map s k = 0"
    then have "nat k \<in> available s" using that by (auto simp: available_def)
    then show False using av by simp
  qed
  have past: "kalloc_search s (pm_idx s) r = kalloc_search s BITMAP_SIZE r" for r
    using n b by (intro kalloc_search_past) auto
  show ?thesis
  proof (cases "pm_past_end s = 0")
    case True
    then have "kalloc_search s BITMAP_SIZE r = (Some BITMAP_SIZE, BITMAP_SIZE)" for r by (subst kalloc_search.simps) simp
    moreover have "PAGE_TO_ADDRESS BITMAP_SIZE = 0xFFFFFFFF80000000" by code_simp
    ultimately show ?thesis using True b past by (simp add: kalloc_frame_def memmgr_phys_mark_page_def exhausted_def)
  next
    case False
    have none: "kalloc_search s BITMAP_SIZE False = (None, BITMAP_SIZE)" using False by (subst kalloc_search.simps) simp
    have "kalloc_search s BITMAP_SIZE True = (None, BITMAP_SIZE)" if "pm_idx s > 0"
    proof -
      have "kalloc_search s BITMAP_SIZE True = kalloc_search s 1 False" using False by (subst kalloc_search.simps) simp
      also have "\<dots> = kalloc_search s BITMAP_SIZE False"
        using n that False by (intro kalloc_search_past) (auto simp: BITMAP_SIZE_def)
      finally show ?thesis using none by simp
    qed
    then have "kalloc_search s (pm_idx s) (pm_idx s > 0) = (None, BITMAP_SIZE)" using past none by (cases "pm_idx s > 0") simp_all
    then show ?thesis using False b by (simp add: kalloc_frame_def exhausted_def)
  qed
qed

lemma kalloc_frames_total:
  assumes "pmm_ok s"
  shows "\<exists>is s'. kalloc_frames n s = Some (map (\<lambda>i. of_nat (i * 4096)) is @ replicate (n - card (available s)) (exhausted s), s') \<and>
    length is = min n (card (available s)) \<and> distinct is \<and> set is \<subseteq> available s \<and> used_frames s' = used_frames s \<union> set is"
  using assms
proof (induction n arbitrary: s)
  case (Suc n)
  show ?case
  proof (cases "available s = {}")
    case True
    let ?s = "s\<lparr>pm_idx := BITMAP_SIZE\<rparr>"
    have "pmm_ok ?s" "available ?s = {}" "exhausted ?s = exhausted s" "used_frames ?s = used_frames s"
      using Suc.prems True by (auto simp: pmm_ok_def available_def exhausted_def used_frames_def BITMAP_SIZE_def)
    with Suc.IH [of ?s] kalloc_frame_exhausted [OF Suc.prems True] True show ?thesis by auto
  next
    case False
    from kalloc_frame_available [OF Suc.prems False] obtain i s1 where
      i: "i \<in> available s" "kalloc_frame s = Some (of_nat (i * 4096), s1)" "available s1 = available s - {i}"
        "s1 = s\<lparr>pm_idx := int i, pm_map := (pm_map s)(int i := 1)\<rparr>" by blast
    have ib: "int i < BITMAP_SIZE" using i(1) by (simp add: available_def)
    then have s1: "pmm_ok s1" "exhausted s1 = exhausted s" "used_frames s1 = insert i (used_frames s)"
      using Suc.prems i(4) by (auto simp: pmm_ok_def exhausted_def used_frames_def)
    have c: "card (available s) = Suc (card (available s1))"
      unfolding i(3) by (rule card.remove [OF finite_available i(1)])
    from Suc.IH [OF s1(1)] obtain "is" s' where
      k: "kalloc_frames n s1 = Some (map (\<lambda>i. of_nat (i * 4096)) is @ replicate (n - card (available s1)) (exhausted s1), s')"
        "length is = min n (card (available s1))" "distinct is" "set is \<subseteq> available s1" "used_frames s' = used_frames s1 \<union> set is"
      by blast
    then show ?thesis using i c s1 by (intro exI [of _ "i # is"] exI [of _ s']) auto
  qed
qed simp

section \<open>Properties\<close>

definition demo_pmm :: pmm where
  \<comment> \<open>frames 0 to 6 are used, the search position is 5\<close>
  "demo_pmm = \<lparr>pm_map = (\<lambda>i. if i < 7 then 1 else 0), pm_past_end = 1, pm_idx = 5, pm_lock = False\<rparr>"

text \<open>\<^verbatim>\<open>kalloc_frame\<close> hands out the first free frame at or after the search position: it returns the page-aligned
  address of that frame, marks exactly that frame as used and leaves every other frame as it was.\<close>

theorem kalloc_frame_first_free:
  assumes "pmm_ok s" "pm_idx s \<le> j" "j < BITMAP_SIZE" "pm_map s j = 0"
    "\<forall>k. pm_idx s \<le> k \<and> k < j \<longrightarrow> pm_map s k \<noteq> 0"
  shows "\<exists>s'. kalloc_frame s = Some (of_nat (nat j * 4096), s') \<and> pmm_ok s' \<and>
    pm_map s' = (pm_map s)(j := 1) \<and> used_frames s' = insert (nat j) (used_frames s)"
proof -
  have j: "0 \<le> j" using assms(1,2) by (simp add: pmm_ok_def)
  have e: "kalloc_frame s = Some (of_nat (nat j * 4096), s\<lparr>pm_idx := j, pm_map := (pm_map s)(j := 1)\<rparr>)"
    using assms j kalloc_search_first [OF assms(2-5)] page_address(1) [OF j assms(3)]
    by (simp add: kalloc_frame_def pmm_ok_def memmgr_phys_mark_page_def)
  then show ?thesis using assms j by (auto simp: pmm_ok_def used_frames_def)
qed

theorem kalloc_frame_first_free_witness:
  "\<exists>s'. kalloc_frame demo_pmm = Some (0x7000, s') \<and> pm_map s' 7 = 1"
  using kalloc_frame_first_free [of demo_pmm 7] by (auto simp: demo_pmm_def pmm_ok_def BITMAP_SIZE_def)

text \<open>C34. A loop of \<^verbatim>\<open>kalloc_frame\<close> calls hands out no frame twice while there are frames it can find, and then keeps returning
  the same value: \<open>n\<close> calls return the addresses of pairwise different frames, as many as are available up to \<open>n\<close>, none of which was in use and which
  are marked as used, and for each further call \<^verbatim>\<open>0\<close>, or, when the word behind the map is zero, each time the same
  address behind the map, which belongs to no frame and which \<^verbatim>\<open>memmgr_phys_mark_page\<close> does not mark. Available are the free frames from the search position on
  and, unless the word behind the map stops the search, those from 1 on.\<close>

theorem kalloc_frames_distinct:
  assumes "pmm_ok s"
  shows "\<exists>is s'. kalloc_frames n s = Some (map (\<lambda>i. of_nat (i * 4096)) is @
        replicate (n - card (available s)) (if pm_past_end s = 0 then 0xFFFFFFFF80000000 else 0), s') \<and>
    length is = min n (card (available s)) \<and> distinct (map (\<lambda>i. of_nat (i * 4096) :: u64) is) \<and>
    set is \<subseteq> available s \<and> set is \<inter> used_frames s = {} \<and> used_frames s' = used_frames s \<union> set is"
proof -
  from kalloc_frames_total [OF assms, of n] obtain "is" s' where
    k: "kalloc_frames n s = Some (map (\<lambda>i. of_nat (i * 4096)) is @ replicate (n - card (available s)) (exhausted s), s')"
      "length is = min n (card (available s))" "distinct is" "set is \<subseteq> available s" "used_frames s' = used_frames s \<union> set is"
    by blast
  have "inj_on (\<lambda>i. of_nat (i * 4096) :: u64) (set is)"
  proof (rule inj_onI)
    fix i j assume "i \<in> set is" "j \<in> set is" "(of_nat (i * 4096) :: u64) = of_nat (j * 4096)"
    moreover from this have "i < 524288" "j < 524288" using k(4) by (auto simp: available_def BITMAP_SIZE_def)
    ultimately show "i = j" using frame_address_inj by blast
  qed
  then have "distinct (map (\<lambda>i. of_nat (i * 4096) :: u64) is)" unfolding distinct_map using k(3) by blast
  moreover have "set is \<inter> used_frames s = {}" using k(4) by (auto simp: available_def used_frames_def)
  ultimately show ?thesis using k(1,2,4,5) unfolding exhausted_def by blast
qed

theorem kalloc_frames_distinct_witness:
  "\<exists>is s'. kalloc_frames 2 demo_pmm = Some (map (\<lambda>i. of_nat (i * 4096)) is, s') \<and> distinct is \<and> length is = 2"
proof -
  have "{7, 8} \<subseteq> available demo_pmm" by (simp add: available_def demo_pmm_def BITMAP_SIZE_def)
  then have "card {7 :: nat, 8} \<le> card (available demo_pmm)" by (intro card_mono finite_available)
  moreover have "pmm_ok demo_pmm" by (simp add: pmm_ok_def demo_pmm_def BITMAP_SIZE_def)
  moreover have "card {7 :: nat, 8} = 2" by simp
  ultimately have c: "2 \<le> card (available demo_pmm)" "pmm_ok demo_pmm" by auto
  from kalloc_frames_distinct [OF c(2), of 2] obtain "is" s' where
    k: "kalloc_frames 2 demo_pmm = Some (map (\<lambda>i. of_nat (i * 4096)) is @
        replicate (2 - card (available demo_pmm)) (if pm_past_end demo_pmm = 0 then 0xFFFFFFFF80000000 else 0), s')"
      "length is = min 2 (card (available demo_pmm))" "distinct (map (\<lambda>i. of_nat (i * 4096) :: u64) is)" by blast
  have "2 - card (available demo_pmm) = 0" using c(1) by simp
  then have "kalloc_frames 2 demo_pmm = Some (map (\<lambda>i. of_nat (i * 4096)) is, s')" using k(1) by simp
  moreover have "distinct is" "length is = 2" using k(2,3) c(1) unfolding distinct_map by simp_all
  ultimately show ?thesis by blast
qed

text \<open>A frame below the search position that is freed is the next one handed out: \<^verbatim>\<open>kfree_frame\<close> moves the search position back to it.\<close>

theorem kfree_frame_reused:
  assumes "pmm_ok s" "0 \<le> f" "f < pm_idx s" "f < BITMAP_SIZE"
  shows "\<exists>s1 s2. kfree_frame (PAGE_TO_ADDRESS f) s = Some s1 \<and> pmm_ok s1 \<and>
    used_frames s1 = used_frames s - {nat f} \<and> kalloc_frame s1 = Some (PAGE_TO_ADDRESS f, s2)"
proof -
  let ?s1 = "s\<lparr>pm_map := (pm_map s)(f := 0), pm_idx := f\<rparr>"
  have k: "kfree_frame (PAGE_TO_ADDRESS f) s = Some ?s1"
    using assms page_address(3) [OF assms(2,4)]
    by (simp add: kfree_frame_def pmm_ok_def memmgr_phys_free_page_def)
  have "kalloc_search ?s1 f r = (Some f, f)" for r
    using assms by (intro kalloc_search_first) auto
  then have a: "\<exists>s2. kalloc_frame ?s1 = Some (PAGE_TO_ADDRESS f, s2)"
    using assms by (simp add: kalloc_frame_def pmm_ok_def memmgr_phys_mark_page_def)
  have "used_frames ?s1 = used_frames s - {nat f}" using assms(2) by (auto simp: used_frames_def)
  then show ?thesis using k a assms by (auto simp: pmm_ok_def)
qed

theorem kfree_frame_reused_witness:
  "\<exists>s1 s2. kfree_frame (PAGE_TO_ADDRESS 3) demo_pmm = Some s1 \<and> kalloc_frame s1 = Some (PAGE_TO_ADDRESS 3, s2)"
  using kfree_frame_reused [of demo_pmm 3] by (auto simp: demo_pmm_def pmm_ok_def BITMAP_SIZE_def)

end
