(* ===== verification/Paging.thy ===== *)
theory Paging
  imports Frame_Alloc
begin

text \<open>
  The virtual memory manager of \<^verbatim>\<open>kernel/arch/amd64/memmgr.c\<close>: four-level page tables in physical
  memory, taken as a store of 64-bit words. The kernel reaches physical memory through the window at
  \<^verbatim>\<open>KERNEL_MEMORY\<close>, and low memory also through the identity mapping of the boot page map, which
  every page map keeps; so the word behind a kernel pointer is the one at the low 39 bits of it.
  \<open>mmu_walk\<close> is the translation the processor performs.
\<close>

section \<open>State and constants\<close>

record vmm =
  vm_pmm :: pmm
  vm_phys :: "u64 \<Rightarrow> u64"
  vm_cur :: u64          \<comment> \<open>\<^verbatim>\<open>process_get_current_pml()\<close>\<close>
  vm_end :: u64          \<comment> \<open>the value of \<^verbatim>\<open>_end\<close>\<close>
  vm_end_loc :: u64      \<comment> \<open>the address of \<^verbatim>\<open>_end\<close>\<close>
  vm_heap :: u64         \<comment> \<open>\<^verbatim>\<open>kernel_heap_length\<close>\<close>
  vm_lock :: bool        \<comment> \<open>\<^verbatim>\<open>VIRT_MEM_LOCK\<close>\<close>

definition PAGE_PRESENT :: u64 where "PAGE_PRESENT = 1"
definition PAGE_WRITABLE :: u64 where "PAGE_WRITABLE = 2"
definition PAGE_USER :: u64 where "PAGE_USER = 4"
definition PAGE_LARGE :: u64 where "PAGE_LARGE = 128"
definition PAGE_MASK :: u64 where "PAGE_MASK = 0xfffffffffffff000"
definition KERNEL_MEMORY :: u64 where "KERNEL_MEMORY = 0xfffffe8000000000"
definition MMIO_MEMORY :: u64 where "MMIO_MEMORY = 0xfffffe0000000000"
definition LOW_MEMORY :: u64 where "LOW_MEMORY = 0x7fffffffff"
definition KERNEL_ENTRY :: u64 where "KERNEL_ENTRY = 0xffffff0000000000"
definition STACK_GUARD :: u64 where "STACK_GUARD = 2"

definition PML4_INDEX :: "u64 \<Rightarrow> u64" where "PML4_INDEX a = drop_bit 39 a AND 0x1FF"
definition PDP_INDEX :: "u64 \<Rightarrow> u64" where "PDP_INDEX a = drop_bit 30 a AND 0x1FF"
definition PD_INDEX :: "u64 \<Rightarrow> u64" where "PD_INDEX a = drop_bit 21 a AND 0x1FF"
definition PT_INDEX :: "u64 \<Rightarrow> u64" where "PT_INDEX a = drop_bit 12 a AND 0x1FF"

definition memmgr_get_from_virtual :: "u64 \<Rightarrow> u64" where
  "memmgr_get_from_virtual v = v AND LOW_MEMORY"

definition memmgr_get_from_physical :: "u64 \<Rightarrow> u64" where
  "memmgr_get_from_physical p = (if p = 0x1000 then 0x1000 else p OR KERNEL_MEMORY)"

definition memmgr_get_mmio :: "u64 \<Rightarrow> u64" where
  "memmgr_get_mmio p = p OR MMIO_MEMORY"

section \<open>Access to physical memory\<close>

definition rdw :: "vmm \<Rightarrow> u64 \<Rightarrow> u64" where
  "rdw s v = vm_phys s (v AND LOW_MEMORY)"

definition wrw :: "vmm \<Rightarrow> u64 \<Rightarrow> u64 \<Rightarrow> vmm" where
  "wrw s v x = s\<lparr>vm_phys := (vm_phys s)(v AND LOW_MEMORY := x)\<rparr>"

definition zero_page :: "vmm \<Rightarrow> u64 \<Rightarrow> vmm" where
  \<comment> \<open>\<^verbatim>\<open>memset(v, 0, 0x1000)\<close>\<close>
  "zero_page s v = (let b = v AND LOW_MEMORY in
     s\<lparr>vm_phys := (\<lambda>a. if b \<le> a \<and> a - b < 0x1000 then 0 else vm_phys s a)\<rparr>)"

definition copy_page :: "vmm \<Rightarrow> u64 \<Rightarrow> u64 \<Rightarrow> vmm" where
  \<comment> \<open>\<^verbatim>\<open>memcpy(dst, src, 4096)\<close>\<close>
  "copy_page s dst src = (let b = dst AND LOW_MEMORY; c = src AND LOW_MEMORY in
     s\<lparr>vm_phys := (\<lambda>a. if b \<le> a \<and> a - b < 0x1000 then vm_phys s (a - b + c) else vm_phys s a)\<rparr>)"

definition kallocv :: "vmm \<Rightarrow> (u64 \<times> vmm) option" where
  "kallocv s = do { (f, p) \<leftarrow> kalloc_frame (vm_pmm s); Some (f, s\<lparr>vm_pmm := p\<rparr>) }"

definition kfreev :: "u64 \<Rightarrow> vmm \<Rightarrow> vmm option" where
  "kfreev a s = do { p \<leftarrow> kfree_frame a (vm_pmm s); Some (s\<lparr>vm_pmm := p\<rparr>) }"

definition mmu_walk :: "vmm \<Rightarrow> u64 \<Rightarrow> u64 option" where
  \<comment> \<open>the physical address of a virtual one, with 1 GiB and 2 MiB pages; \<open>None\<close> is a page fault\<close>
  "mmu_walk s v =
     (let e4 = vm_phys s ((vm_cur s AND LOW_MEMORY) + 8 * PML4_INDEX v) in
      if e4 AND PAGE_PRESENT = 0 then None else
      let e3 = vm_phys s ((e4 AND PAGE_MASK AND LOW_MEMORY) + 8 * PDP_INDEX v) in
      if e3 AND PAGE_PRESENT = 0 then None else
      if e3 AND PAGE_LARGE \<noteq> 0 then Some ((e3 AND PAGE_MASK AND LOW_MEMORY) + (v AND 0x3fffffff)) else
      let e2 = vm_phys s ((e3 AND PAGE_MASK AND LOW_MEMORY) + 8 * PD_INDEX v) in
      if e2 AND PAGE_PRESENT = 0 then None else
      if e2 AND PAGE_LARGE \<noteq> 0 then Some ((e2 AND PAGE_MASK AND LOW_MEMORY) + (v AND 0x1fffff)) else
      let e1 = vm_phys s ((e2 AND PAGE_MASK AND LOW_MEMORY) + 8 * PT_INDEX v) in
      if e1 AND PAGE_PRESENT = 0 then None else
      Some ((e1 AND PAGE_MASK AND LOW_MEMORY) + (v AND 0xfff)))"

section \<open>Page table operations\<close>

definition next_table :: "bool \<Rightarrow> u64 \<Rightarrow> u64 \<Rightarrow> u64 \<Rightarrow> vmm \<Rightarrow> (u64 option \<times> vmm) option" where
  \<comment> \<open>from entry \<open>i\<close> of the table at \<open>tbl\<close> to the table below it, which is created with the entry bits \<open>fl\<close>
     when the entry is 0; \<open>None\<close> as the table when it is missing and not to be created\<close>
  "next_table create fl tbl i s =
     (let e = rdw s (tbl + 8 * i) in
      if e = 0 then
        (if \<not> create then Some (None, s)
         else do {
           (f, s1) \<leftarrow> kallocv s;
           Some (Some (f OR KERNEL_MEMORY), zero_page (wrw s1 (tbl + 8 * i) (f OR fl)) (f OR KERNEL_MEMORY))
         })
      else Some (Some (memmgr_get_from_physical (e AND PAGE_MASK)), s))"

definition memmgr_create_or_get_page :: "u64 \<Rightarrow> u64 \<Rightarrow> bool \<Rightarrow> vmm \<Rightarrow> (u64 \<times> vmm) option" where
  "memmgr_create_or_get_page virt flags create s = do {
     let fl = PAGE_PRESENT OR PAGE_WRITABLE OR flags;
     let pageMap = memmgr_get_from_physical (vm_cur s);
     (r1, s1) \<leftarrow> next_table create fl pageMap (PML4_INDEX virt) s;
     case r1 of None \<Rightarrow> Some (0, s1)
     | Some pageDirectoryPointer \<Rightarrow> do {
         (r2, s2) \<leftarrow> next_table create fl pageDirectoryPointer (PDP_INDEX virt) s1;
         case r2 of None \<Rightarrow> Some (0, s2)
         | Some pageDirectory \<Rightarrow>
             if rdw s2 (pageDirectoryPointer + 8 * PDP_INDEX virt) AND PAGE_LARGE \<noteq> 0 then Some (0, s2)
             else do {
               (r3, s3) \<leftarrow> next_table create fl pageDirectory (PD_INDEX virt) s2;
               case r3 of None \<Rightarrow> Some (0, s3)
               | Some pageTable \<Rightarrow>
                   if rdw s3 (pageDirectory + 8 * PD_INDEX virt) AND PAGE_LARGE \<noteq> 0 then Some (0, s3)
                   else let slot = pageTable + 8 * PT_INDEX virt in
                   if rdw s3 slot = 0 then
                     (if \<not> create then Some (0, s3)
                      else do {
                        (f, s4) \<leftarrow> kallocv s3;
                        let s5 = wrw s4 slot (f OR fl);
                        Some (rdw s5 slot AND PAGE_MASK, s5)
                      })
                   else Some (rdw s3 slot AND PAGE_MASK, s3)
             }
       }
   }"

definition raw_level :: "bool \<Rightarrow> bool \<Rightarrow> u64 \<Rightarrow> u64 \<Rightarrow> u64 \<Rightarrow> u64 \<Rightarrow> u64 \<Rightarrow> vmm \<Rightarrow> ((u64, u64) flow \<times> vmm) option" where
  \<comment> \<open>one level of \<^verbatim>\<open>memmgr_create_or_get_raw\<close>: \<open>Stop\<close> is a return, \<open>Go\<close> the table below; \<open>deeper\<close> tells that the frame belongs to a
     lower level\<close>
  "raw_level create deeper fl flags frame tbl i s =
     (let slot = tbl + 8 * i; e = rdw s slot in
      if e = 0 then
        (if \<not> create then Some (Stop 0, s)
         else if deeper then do {
           (f, s1) \<leftarrow> kallocv s;
           Some (Go (f OR KERNEL_MEMORY), zero_page (wrw s1 slot (f OR fl)) (f OR KERNEL_MEMORY))
         } else let s1 = zero_page (wrw s slot (frame OR flags)) (frame OR KERNEL_MEMORY)
           in Some (Stop (rdw s1 slot AND PAGE_MASK), s1))
      else Some (Go (memmgr_get_from_physical (e AND PAGE_MASK)), s))"

definition memmgr_create_or_get_raw :: "u64 \<Rightarrow> u64 \<Rightarrow> u64 \<Rightarrow> bool \<Rightarrow> int \<Rightarrow> vmm \<Rightarrow> (u64 \<times> vmm) option" where
  "memmgr_create_or_get_raw virt frame flags create level s = do {
     let fl = PAGE_PRESENT OR PAGE_WRITABLE OR flags;
     (r1, s1) \<leftarrow> raw_level create (level \<le> 3) flags flags frame
                  (memmgr_get_from_physical (vm_cur s)) (PML4_INDEX virt) s;
     case r1 of Stop a \<Rightarrow> Some (a, s1)
     | Go pdp \<Rightarrow> do {
         (r2, s2) \<leftarrow> raw_level create (level \<le> 2) fl flags frame pdp (PDP_INDEX virt) s1;
         case r2 of Stop a \<Rightarrow> Some (a, s2)
         | Go pd \<Rightarrow>
             if rdw s2 (pdp + 8 * PDP_INDEX virt) AND PAGE_LARGE \<noteq> 0 then Some (0, s2)
             else do {
               (r3, s3) \<leftarrow> raw_level create (level \<le> 1) fl flags frame pd (PD_INDEX virt) s2;
               case r3 of Stop a \<Rightarrow> Some (a, s3)
               | Go pt \<Rightarrow>
                   if rdw s3 (pd + 8 * PD_INDEX virt) AND PAGE_LARGE \<noteq> 0 then Some (0, s3)
                   else let slot = pt + 8 * PT_INDEX virt in
                   if rdw s3 slot = 0 then
                     (if \<not> create then Some (0, s3)
                      else let s4 = wrw s3 slot (frame OR flags) in Some (rdw s4 slot AND PAGE_MASK, s4))
                   else Some (rdw s3 slot AND PAGE_MASK, s3)
             }
       }
   }"

definition memmgr_get_page_physical :: "u64 \<Rightarrow> vmm \<Rightarrow> (u64 \<times> vmm) option" where
  "memmgr_get_page_physical virt s = do {
     (p, s1) \<leftarrow> memmgr_create_or_get_page virt 0 False s;
     Some (if p = 0 then 0 else p + virt mod 4096, s1)
   }"

definition free_in_table :: "vmm \<Rightarrow> u64 \<Rightarrow> u64 \<Rightarrow> u64 \<Rightarrow> nat \<Rightarrow> u64 \<times> u64 \<Rightarrow> (u64, u64 \<times> u64) flow" where
  \<comment> \<open>the innermost loop body of \<^verbatim>\<open>get_free_page\<close>; the state is \<^verbatim>\<open>freeMemory\<close> and \<^verbatim>\<open>baseAddress\<close>\<close>
  "free_in_table s len start pageTable k fb = (case fb of (free, base) \<Rightarrow>
     let page = rdw s (pageTable + 8 * of_nat k) in
     if page \<noteq> 0 \<and> page \<noteq> KERNEL_MEMORY then Go (0, 0)
     else let base1 = (if base = 0 then start + 0x1000 * of_nat k else base);
              free1 = free + 0x1000
          in if free1 > len then Stop base1 else Go (free1, base1))"

definition free_in_directory :: "vmm \<Rightarrow> u64 \<Rightarrow> u64 \<Rightarrow> u64 \<Rightarrow> nat \<Rightarrow> u64 \<times> u64 \<Rightarrow> (u64, u64 \<times> u64) flow" where
  "free_in_directory s len start pageDirectory j fb = (case fb of (free, base) \<Rightarrow>
     let e = rdw s (pageDirectory + 8 * of_nat j);
         pageTable = memmgr_get_from_physical (e AND PAGE_MASK);
         here = start + 0x200000 * of_nat j
     in if pageTable AND PAGE_LARGE \<noteq> 0 then Go fb
        else if e = 0 then
          (let base1 = (if base = 0 then here else base); free1 = free + 0x200000
           in if free1 > len then Stop base1 else Go (free1, base1))
        else if e AND PAGE_USER = 0 then Go fb
        else for_flow (free_in_table s len here pageTable) [0..<512] fb)"

definition free_in_pdp :: "vmm \<Rightarrow> u64 \<Rightarrow> u64 \<Rightarrow> nat \<Rightarrow> u64 \<times> u64 \<Rightarrow> (u64, u64 \<times> u64) flow" where
  "free_in_pdp s len pageDirectoryPointer i fb = (case fb of (free, base) \<Rightarrow>
     let e = rdw s (pageDirectoryPointer + 8 * of_nat i);
         here = 0x40000000 * of_nat i
     in if e AND PAGE_LARGE \<noteq> 0 then Go fb
        else if e = 0 then
          (let base1 = (if base = 0 then here else base); free1 = free + 0x40000000
           in if free1 > len then Stop base1 else Go (free1, base1))
        else if e AND PAGE_USER = 0 then Go fb
        else for_flow (free_in_directory s len here (memmgr_get_from_physical (e AND PAGE_MASK))) [0..<512] fb)"

definition get_free_page :: "u64 \<Rightarrow> vmm \<Rightarrow> u64" where
  \<comment> \<open>the test for a null \<^verbatim>\<open>pageDirectoryPointer\<close> never holds: \<^verbatim>\<open>memmgr_get_from_physical\<close> is never 0\<close>
  "get_free_page len s =
     (let pageMap = memmgr_get_from_physical (vm_cur s);
          pdp = memmgr_get_from_physical (rdw s pageMap AND PAGE_MASK)
      in if pdp = 0 then - 1
         else case for_flow (free_in_pdp s len pdp) [0..<512] (0, 0) of Stop a \<Rightarrow> a | Go _ \<Rightarrow> - 1)"

definition memmgr_delete_page :: "u64 \<Rightarrow> vmm \<Rightarrow> vmm option" where
  "memmgr_delete_page virt s =
     (let pageMap = memmgr_get_from_physical (vm_cur s);
          e4 = rdw s (pageMap + 8 * PML4_INDEX virt);
          pdp = memmgr_get_from_physical (e4 AND PAGE_MASK)
      in if pdp = 0 \<or> e4 AND PAGE_LARGE \<noteq> 0 then Some s else
      let e3 = rdw s (pdp + 8 * PDP_INDEX virt);
          pd = memmgr_get_from_physical (e3 AND PAGE_MASK)
      in if pd = 0 \<or> e3 AND PAGE_LARGE \<noteq> 0 then Some s else
      let e2 = rdw s (pd + 8 * PD_INDEX virt);
          pt = memmgr_get_from_physical (e2 AND PAGE_MASK)
      in if pt = 0 \<or> e2 AND PAGE_LARGE \<noteq> 0 then Some s else
      let slot = pt + 8 * PT_INDEX virt; frame = rdw s slot
      in do {
        s1 \<leftarrow> (if frame AND PAGE_PRESENT \<noteq> 0 then kfreev (frame AND PAGE_MASK) s else Some s);
        Some (wrw s1 slot 0)
      })"

definition memmgr_map_frame_to_virtual :: "u64 \<Rightarrow> u64 \<Rightarrow> u64 \<Rightarrow> vmm \<Rightarrow> vmm option" where
  "memmgr_map_frame_to_virtual frame virt flags s = do {
     let pageFlags = to_size (to_int flags);
     let fl = PAGE_PRESENT OR PAGE_WRITABLE OR (flags AND 0x3f);
     (r1, s1) \<leftarrow> next_table True fl (memmgr_get_from_physical (vm_cur s)) (PML4_INDEX virt) s;
     pdp \<leftarrow> r1;
     (r2, s2) \<leftarrow> next_table True fl pdp (PDP_INDEX virt) s1;
     pd \<leftarrow> r2;
     (r3, s3) \<leftarrow> next_table True fl pd (PD_INDEX virt) s2;
     pt \<leftarrow> r3;
     Some (wrw s3 (pt + 8 * PT_INDEX virt) (frame OR PAGE_PRESENT OR PAGE_WRITABLE OR pageFlags))
   }"

definition page_count :: "u64 \<Rightarrow> nat" where
  \<comment> \<open>\<^verbatim>\<open>count = len / 4096; if(len % 4096 != 0) count++;\<close>\<close>
  "page_count len = unat len div 4096 + (if unat len mod 4096 \<noteq> 0 then 1 else 0)"

definition align_up :: "u64 \<Rightarrow> u64" where
  \<comment> \<open>\<^verbatim>\<open>if(a % PAGE_SIZE != 0) a = (a + PAGE_SIZE) & ~(PAGE_SIZE - 1);\<close>\<close>
  "align_up a = (if a mod 4096 \<noteq> 0 then (a + 4096) AND NOT 0xfff else a)"

definition memmgr_map_mmio :: "u64 \<Rightarrow> u64 \<Rightarrow> u64 \<Rightarrow> bool \<Rightarrow> vmm \<Rightarrow> (u64 \<times> vmm) option" where
  "memmgr_map_mmio addr len flags is_kernel s = do {
     let addr1 = (if addr \<noteq> 0 then align_up addr else addr);
     let flags1 = (if \<not> is_kernel then flags OR PAGE_USER else flags);
     let start = MMIO_MEMORY + addr1;
     s1 \<leftarrow> foldM (\<lambda>i. memmgr_map_frame_to_virtual (addr1 + 0x1000 * of_nat i) (start + 0x1000 * of_nat i) flags1)
            [0..<page_count len + 1] s;
     Some (start, s1)
   }"

definition memmgr_get_page_level :: "u64 \<Rightarrow> vmm \<Rightarrow> u8" where
  "memmgr_get_page_level virt s =
     (let pageMap = memmgr_get_from_physical (vm_cur s);
          e4 = rdw s (pageMap + 8 * PML4_INDEX virt);
          pdp = memmgr_get_from_physical (e4 AND PAGE_MASK)
      in if pdp = 0 then - 1 else if e4 AND PAGE_LARGE \<noteq> 0 then 3 else
      let e3 = rdw s (pdp + 8 * PDP_INDEX virt);
          pd = memmgr_get_from_physical (e3 AND PAGE_MASK)
      in if pd = 0 then - 1 else if e3 AND PAGE_LARGE \<noteq> 0 then 2 else
      let e2 = rdw s (pd + 8 * PD_INDEX virt);
          pt = memmgr_get_from_physical (e2 AND PAGE_MASK)
      in if pt = 0 then - 1 else if e2 AND PAGE_LARGE \<noteq> 0 then 1 else 0)"

definition memmgr_check_user :: "u64 \<Rightarrow> vmm \<Rightarrow> bool" where
  "memmgr_check_user virt s =
     (let pageMap = memmgr_get_from_physical (vm_cur s);
          e4 = rdw s (pageMap + 8 * PML4_INDEX virt);
          pdp = memmgr_get_from_physical (e4 AND PAGE_MASK)
      in if e4 AND PAGE_USER = 0 \<or> pdp = 0 then False else if e4 AND PAGE_LARGE \<noteq> 0 then True else
      let e3 = rdw s (pdp + 8 * PDP_INDEX virt);
          pd = memmgr_get_from_physical (e3 AND PAGE_MASK)
      in if e3 AND PAGE_USER = 0 \<or> pd = 0 then False else if e3 AND PAGE_LARGE \<noteq> 0 then True else
      let e2 = rdw s (pd + 8 * PD_INDEX virt);
          pt = memmgr_get_from_physical (e2 AND PAGE_MASK)
      in if e2 AND PAGE_USER = 0 \<or> pt = 0 then False else if e2 AND PAGE_LARGE \<noteq> 0 then True else
      rdw s (pt + 8 * PT_INDEX virt) AND PAGE_USER \<noteq> 0)"

definition CHECK_PTR :: "u64 \<Rightarrow> vmm \<Rightarrow> bool" where
  "CHECK_PTR p s \<longleftrightarrow> p < 0xfffffe0000000000 \<and> memmgr_check_user p s"

section \<open>Regions\<close>

definition create_pages :: "u64 \<Rightarrow> u64 \<Rightarrow> nat list \<Rightarrow> vmm \<Rightarrow> vmm option" where
  "create_pages start flags is s =
     foldM (\<lambda>i s. do { (_, s1) \<leftarrow> memmgr_create_or_get_page (start + 0x1000 * of_nat i) flags True s; Some s1 }) is s"

definition zero_virtual :: "u64 \<Rightarrow> vmm \<Rightarrow> vmm option" where
  \<comment> \<open>\<^verbatim>\<open>memset(v, 0, 0x1000)\<close> at a page-aligned address of the current address space\<close>
  "zero_virtual v s = do { p \<leftarrow> mmu_walk s v; Some (zero_page s p) }"

definition mmap :: "u64 \<Rightarrow> u64 \<Rightarrow> bool \<Rightarrow> vmm \<Rightarrow> (u64 \<times> vmm) option" where
  "mmap addr0 len is_kernel s =
     (let addr = (if addr0 \<noteq> 0 \<and> addr0 mod 4096 \<noteq> 0 then addr0 AND NOT 0xfff else addr0);
          count = page_count len; user = (if is_kernel then 0 else PAGE_USER)
      in if addr = 0 then
           (if is_kernel then do {
              let start = align_up (vm_end s);
              s1 \<leftarrow> create_pages start 0 [0..<count] s;
              Some (start, s1)
            } else do {
              let start = get_free_page len s;
              s1 \<leftarrow> create_pages start PAGE_USER [0..<count] s;
              Some (start, s1)
            })
         else do {
           r \<leftarrow> foldM (\<lambda>i (found, s). if found then Some (found, s) else do {
                    (p, s1) \<leftarrow> memmgr_create_or_get_page (addr + 0x1000 * of_nat i) user False s;
                    Some (p \<noteq> 0, s1) }) [0..<count] (False, s);
           if fst r then Some (0, snd r)
           else do {
             s2 \<leftarrow> foldM (\<lambda>i s. do {
                      (_, s1) \<leftarrow> memmgr_create_or_get_page (addr + 0x1000 * of_nat i) user True s;
                      zero_virtual (addr + 0x1000 * of_nat i) s1 }) [0..<count] (snd r);
             Some (addr, s2)
           }
         })"

definition munmap :: "u64 \<Rightarrow> u64 \<Rightarrow> vmm \<Rightarrow> vmm option" where
  "munmap addr0 len s =
     (let addr = (if addr0 \<noteq> 0 \<and> addr0 mod 4096 \<noteq> 0 then addr0 AND NOT 0xfff else addr0)
      in foldM (\<lambda>i s. if \<not> memmgr_check_user (addr + 0x1000 * of_nat i) s then Some s
                      else memmgr_delete_page (addr + 0x1000 * of_nat i) s) [1..<page_count len + 1] s)"

definition memmgr_create_stack :: "bool \<Rightarrow> u64 \<Rightarrow> vmm \<Rightarrow> (u64 \<times> vmm) option" where
  "memmgr_create_stack user len s =
     (if \<not> user then do {
        let start = align_up (vm_end s + vm_heap s);
        (_, s1) \<leftarrow> memmgr_create_or_get_raw start 0 STACK_GUARD True 0 s;
        s2 \<leftarrow> create_pages start (PAGE_PRESENT OR PAGE_WRITABLE) [1..<page_count len + 1] s1;
        Some (start + 0x1000, s2\<lparr>vm_heap := vm_heap s2 + len\<rparr>)
      } else do {
        let start = get_free_page (len + 4096) s;
        (_, s1) \<leftarrow> memmgr_create_or_get_raw start 0 STACK_GUARD True 0 s;
        s2 \<leftarrow> create_pages start (PAGE_USER OR PAGE_PRESENT OR PAGE_WRITABLE) [1..<page_count len + 1] s1;
        Some (start + 0x1000, s2)
      })"

definition sbrk :: "int \<Rightarrow> vmm \<Rightarrow> (u64 \<times> vmm) option" where
  \<comment> \<open>\<^verbatim>\<open>&_end + x\<close> is scaled by the size of \<^verbatim>\<open>unsigned long long\<close>\<close>
  "sbrk len s =
     (if vm_lock s then None
      else do {
        (p, s1) \<leftarrow> (if len > 0 then do {
                      (b, s1) \<leftarrow> mmap 0 (vm_heap s + to_size len) True s;
                      Some (b + vm_heap s, s1)
                    } else do {
                      let a = vm_end_loc s + 8 * (KERNEL_ENTRY + vm_heap s + to_size len);
                      s1 \<leftarrow> munmap a (to_size len) s;
                      Some (a, s1)
                    });
        Some (p, s1\<lparr>vm_heap := vm_heap s1 + to_size len\<rparr>)
      })"

definition brk :: "u64 \<Rightarrow> vmm \<Rightarrow> (u64 \<times> vmm) option" where
  "brk len s =
     (if vm_lock s then None
      else do {
        let prev = vm_heap s;
        let s1 = s\<lparr>vm_heap := len\<rparr>;
        s2 \<leftarrow> (if prev > len then munmap (vm_end_loc s1 + 8 * (KERNEL_ENTRY + len)) (prev - len) s1
               else do { (_, s2) \<leftarrow> mmap 0 len True s1; Some s2 });
        let start = (if vm_end_loc s2 AND 0xfff = 0 then (vm_end_loc s2 + 4096) AND NOT 0xfff else vm_end_loc s2);
        Some (start + vm_heap s2, s2)
      })"

section \<open>Whole address spaces\<close>

definition clear_table :: "u64 \<Rightarrow> vmm \<Rightarrow> vmm option" where
  "clear_table pageTable s =
     foldM (\<lambda>k s. let e = rdw s (pageTable + 8 * of_nat k) in
       if e AND PAGE_PRESENT \<noteq> 0 then kfreev (e AND PAGE_MASK) s else Some s) [0..<512] s"

definition clear_directory :: "u64 \<Rightarrow> vmm \<Rightarrow> vmm option" where
  "clear_directory pageDirectory s =
     foldM (\<lambda>j s. let e = rdw s (pageDirectory + 8 * of_nat j) in
       if e AND PAGE_PRESENT = 0 \<or> e AND PAGE_LARGE \<noteq> 0 then Some s
       else do {
         s1 \<leftarrow> clear_table (memmgr_get_from_physical (e AND PAGE_MASK)) s;
         kfreev (rdw s1 (pageDirectory + 8 * of_nat j) AND PAGE_MASK) s1
       }) [0..<512] s"

definition memmgr_clear_page_map :: "u64 \<Rightarrow> vmm \<Rightarrow> vmm option" where
  "memmgr_clear_page_map pageMap s = do {
     let pm = memmgr_get_from_physical pageMap;
     let pdp = memmgr_get_from_physical (rdw s pm AND PAGE_MASK);
     s1 \<leftarrow> foldM (\<lambda>i s. let e = rdw s (pdp + 8 * of_nat i) in
             if e AND PAGE_PRESENT = 0 \<or> e AND PAGE_LARGE \<noteq> 0 then Some s
             else do {
               s1 \<leftarrow> clear_directory (memmgr_get_from_physical (e AND PAGE_MASK)) s;
               kfreev (rdw s1 (pdp + 8 * of_nat i) AND PAGE_MASK) s1
             }) [0..<512] s;
     s2 \<leftarrow> kfreev (rdw s1 pm) s1;
     kfreev pageMap s2
   }"

definition USER_TABLE :: u64 where
  "USER_TABLE = PAGE_PRESENT OR PAGE_WRITABLE OR PAGE_USER"

definition clone_page :: "u64 \<Rightarrow> u64 \<Rightarrow> nat \<Rightarrow> vmm \<Rightarrow> vmm option" where
  \<comment> \<open>the innermost loop body of \<^verbatim>\<open>memmgr_clone_page_map\<close>\<close>
  "clone_page old new l s =
     (let page = rdw s (old + 8 * of_nat l) in
      if page = 0 then Some s
      else if page AND PAGE_USER \<noteq> 0 then do {
        (f, s1) \<leftarrow> kallocv s;
        Some (copy_page (wrw s1 (new + 8 * of_nat l) (f OR USER_TABLE))
                (memmgr_get_from_physical f) (memmgr_get_from_physical (page AND PAGE_MASK)))
      } else Some (wrw s (new + 8 * of_nat l) page))"

definition clone_level :: "(u64 \<Rightarrow> u64 \<Rightarrow> nat \<Rightarrow> vmm \<Rightarrow> vmm option) \<Rightarrow> u64 \<Rightarrow> u64 \<Rightarrow> nat \<Rightarrow> vmm \<Rightarrow> vmm option" where
  \<comment> \<open>one entry of a directory: large entries are copied, empty ones skipped, others get a new table
     filled by the loop over the level below\<close>
  "clone_level below old new k s =
     (let e = rdw s (old + 8 * of_nat k) in
      if e AND PAGE_LARGE \<noteq> 0 then Some (wrw s (new + 8 * of_nat k) e)
      else if e = 0 then Some s
      else do {
        (f, s1) \<leftarrow> kallocv s;
        let tbl = memmgr_get_from_physical f;
        foldM (below (memmgr_get_from_physical (e AND PAGE_MASK)) tbl) [0..<512]
          (zero_page (wrw s1 (new + 8 * of_nat k) (f OR USER_TABLE)) tbl)
      })"

definition memmgr_clone_page_map :: "u64 \<Rightarrow> u64 \<Rightarrow> vmm \<Rightarrow> vmm option" where
  "memmgr_clone_page_map old new s = do {
     s1 \<leftarrow> foldM (\<lambda>i s. let e = rdw s (old + 8 * of_nat i) in
             if e AND PAGE_LARGE = 0 \<and> e \<noteq> 0 \<and> i \<in> {508, 509, 510} then Some (wrw s (new + 8 * of_nat i) e)
             else clone_level (clone_level (clone_level clone_page)) old new i s)
           [0..<511] (zero_page s new);
     Some (wrw s1 (new + 8 * 511) (memmgr_get_from_virtual new))
   }"

section \<open>Addresses\<close>

lemma unat_low: "unat (v AND LOW_MEMORY) = unat v mod 2 ^ 39"
proof -
  have "LOW_MEMORY = mask 39" by (simp add: LOW_MEMORY_def mask_eq_exp_minus_1)
  then have "v AND LOW_MEMORY = take_bit 39 v" by (simp add: take_bit_eq_mask)
  then show ?thesis by (simp add: take_bit_eq_mod unat_mod)
qed

lemma low_small: "unat v < 2 ^ 39 \<Longrightarrow> v AND LOW_MEMORY = v"
  by (metis mod_less unat_low word_unat_eq_iff)

lemma or_window:
  assumes "unat b < 2 ^ 39"
  shows "b OR KERNEL_MEMORY = b + KERNEL_MEMORY"
proof -
  have km: "KERNEL_MEMORY = push_bit 39 0x1fffffd" by (simp add: KERNEL_MEMORY_def push_bit_eq_mult)
  have b: "b = take_bit 39 b"
  proof -
    have "unat (take_bit 39 b) = unat b" using assms by (simp add: take_bit_eq_mod unat_mod)
    then show ?thesis by (simp add: word_unat_eq_iff)
  qed
  have kb: "\<not> bit KERNEL_MEMORY n" if "n < 39" for n
    using that by (simp only: km bit_push_bit_iff) simp
  have "b AND KERNEL_MEMORY = 0"
    using kb by (subst b) (auto simp: bit_eq_iff bit_and_iff bit_take_bit_iff)
  then show ?thesis using disjunctive_add_eq_or [of b KERNEL_MEMORY] by simp
qed

definition window :: "u64 \<Rightarrow> u64 \<Rightarrow> bool" where
  \<comment> \<open>the pointer \<open>t\<close> gives access to the table in the frame at \<open>b\<close>\<close>
  "window t b \<longleftrightarrow> (\<forall>i. unat i < 512 \<longrightarrow> (t + 8 * i) AND LOW_MEMORY = b + 8 * i)"

lemma unat_slot:
  fixes b i :: u64
  assumes "unat b + 4096 \<le> 2 ^ 39" "unat i < 512"
  shows "unat (b + 8 * i) = unat b + 8 * unat i"
proof -
  have "unat (8 * i) = 8 * unat i" using assms(2) by (simp add: unat_word_ariths)
  then show ?thesis using assms by (simp add: unat_word_ariths)
qed

lemma window_or:
  assumes "unat b + 4096 \<le> 2 ^ 39"
  shows "window (b OR KERNEL_MEMORY) b"
  unfolding window_def
proof (intro allI impI)
  fix i :: u64
  assume i: "unat i < 512"
  have u: "unat (b + 8 * i) = unat b + 8 * unat i" using unat_slot [OF assms i] .
  have km: "unat KERNEL_MEMORY = 2 ^ 39 * 0x1fffffd" by (simp add: KERNEL_MEMORY_def)
  have "b OR KERNEL_MEMORY = b + KERNEL_MEMORY" using assms by (intro or_window) simp
  then have "(b OR KERNEL_MEMORY) + 8 * i = (b + 8 * i) + KERNEL_MEMORY" by (simp add: ac_simps)
  then have "unat ((b OR KERNEL_MEMORY) + 8 * i) = (unat (b + 8 * i) + unat KERNEL_MEMORY) mod 2 ^ 64"
    by (simp only: unat_word_ariths) simp
  moreover have l: "unat (b + 8 * i) < 2 ^ 39" using u assms i by simp
  ultimately have "unat ((b OR KERNEL_MEMORY) + 8 * i) = unat (b + 8 * i) + 2 ^ 39 * 0x1fffffd"
    unfolding km by simp
  then have "unat (((b OR KERNEL_MEMORY) + 8 * i) AND LOW_MEMORY) = unat (b + 8 * i) mod 2 ^ 39"
    unfolding unat_low by (simp only: mod_mult_self2)
  then have "unat (((b OR KERNEL_MEMORY) + 8 * i) AND LOW_MEMORY) = unat (b + 8 * i)"
    using l by simp
  then show "((b OR KERNEL_MEMORY) + 8 * i) AND LOW_MEMORY = b + 8 * i" by (simp add: word_unat_eq_iff)
qed

lemma window_phys:
  assumes "unat b + 4096 \<le> 2 ^ 39"
  shows "window (memmgr_get_from_physical b) b"
proof (cases "b = 0x1000")
  case True
  have "unat (0x1000 + 8 * i :: u64) < 2 ^ 39" if "unat i < 512" for i :: u64
    using unat_slot [of "0x1000" i] that by simp
  then show ?thesis using True by (simp add: window_def memmgr_get_from_physical_def low_small)
next
  case False
  then show ?thesis using window_or [OF assms] by (simp add: memmgr_get_from_physical_def)
qed

lemma index_less: "unat (PML4_INDEX v) < 512" "unat (PDP_INDEX v) < 512" "unat (PD_INDEX v) < 512"
  "unat (PT_INDEX v) < 512"
proof -
  have m: "(0x1FF :: u64) = mask 9" by (simp add: mask_eq_exp_minus_1)
  have "unat (x AND 0x1FF :: u64) < 512" for x
    unfolding m by (simp add: take_bit_eq_mask [symmetric] take_bit_eq_mod unat_mod)
  then show "unat (PML4_INDEX v) < 512" "unat (PDP_INDEX v) < 512" "unat (PD_INDEX v) < 512"
    "unat (PT_INDEX v) < 512"
    by (simp_all add: PML4_INDEX_def PDP_INDEX_def PD_INDEX_def PT_INDEX_def)
qed

lemma unat_page_mask: "unat (x AND PAGE_MASK) = unat x div 4096 * 4096"
proof -
  have m: "PAGE_MASK = NOT (mask 12)" by (simp add: PAGE_MASK_def mask_eq_exp_minus_1 not_eq_complement)
  have "x AND PAGE_MASK = push_bit 12 (drop_bit 12 x)"
    unfolding m by (rule bit_eqI) (auto simp: bit_simps)
  moreover have "unat (push_bit 12 (drop_bit 12 x)) = unat x div 4096 * 4096"
  proof -
    have "unat (drop_bit 12 x) = unat x div 4096" by (simp add: drop_bit_eq_div unat_div)
    moreover have "unat x div 4096 * 4096 \<le> unat x" by simp
    moreover have "unat x < 2 ^ 64" using unsigned_less [of x] by simp
    ultimately show ?thesis by (simp add: push_bit_eq_mult unat_word_ariths)
  qed
  ultimately show ?thesis by simp
qed

section \<open>Walking and extending a path of tables\<close>

definition frame_no :: "u64 \<Rightarrow> nat" where
  "frame_no a = unat a div 4096"

definition used :: "vmm \<Rightarrow> nat set" where
  "used s = used_frames (vm_pmm s)"

definition table_ok :: "vmm \<Rightarrow> u64 \<Rightarrow> bool" where
  "table_ok s b \<longleftrightarrow> unat b mod 4096 = 0 \<and> frame_no b \<in> used s"

definition can_alloc :: "nat \<Rightarrow> vmm \<Rightarrow> bool" where
  "can_alloc n s \<longleftrightarrow> alloc_frames n (vm_pmm s) \<noteq> None"

definition table_entry :: "u64 \<Rightarrow> bool" where
  "table_entry e \<longleftrightarrow> e AND PAGE_PRESENT \<noteq> 0 \<and> e AND PAGE_LARGE = 0"

fun path_ok :: "vmm \<Rightarrow> u64 \<Rightarrow> nat set \<Rightarrow> u64 list \<Rightarrow> bool" where
  \<comment> \<open>the tables that exist on the path lie in different frames, all marked as used; \<open>seen\<close> are the frames above\<close>
  "path_ok s b seen [] \<longleftrightarrow> table_ok s b \<and> frame_no b \<notin> seen \<and> seen \<subseteq> used s"
| "path_ok s b seen (i # is) \<longleftrightarrow> table_ok s b \<and> frame_no b \<notin> seen \<and> seen \<subseteq> used s \<and>
     (let e = vm_phys s (b + 8 * i) in
      e = 0 \<or> table_entry e \<and> path_ok s (e AND PAGE_MASK) (insert (frame_no b) seen) is)"

fun walk_tables :: "vmm \<Rightarrow> u64 \<Rightarrow> u64 list \<Rightarrow> u64 option" where
  "walk_tables s b [] = Some b"
| "walk_tables s b (i # is) =
     (let e = vm_phys s (b + 8 * i) in
      if table_entry e \<and> unat (e AND PAGE_MASK) < 2 ^ 39 then walk_tables s (e AND PAGE_MASK) is else None)"

fun path_frames :: "vmm \<Rightarrow> u64 \<Rightarrow> u64 list \<Rightarrow> nat set" where
  "path_frames s b [] = {}"
| "path_frames s b (i # is) = insert (frame_no b) (path_frames s (vm_phys s (b + 8 * i) AND PAGE_MASK) is)"

fun descend :: "u64 \<Rightarrow> u64 \<Rightarrow> u64 list \<Rightarrow> vmm \<Rightarrow> (u64 \<times> vmm) option" where
  "descend fl t [] s = Some (t, s)"
| "descend fl t (i # is) s = do { (r, s1) \<leftarrow> next_table True fl t i s; t1 \<leftarrow> r; descend fl t1 is s1 }"

lemma map_frame_descend:
  "memmgr_map_frame_to_virtual frame virt flags s = do {
     (pt, s3) \<leftarrow> descend (PAGE_PRESENT OR PAGE_WRITABLE OR (flags AND 0x3f)) (memmgr_get_from_physical (vm_cur s))
                  [PML4_INDEX virt, PDP_INDEX virt, PD_INDEX virt] s;
     Some (wrw s3 (pt + 8 * PT_INDEX virt) (frame OR PAGE_PRESENT OR PAGE_WRITABLE OR to_size (to_int flags)))
   }"
  by (auto simp: memmgr_map_frame_to_virtual_def Let_def bind_eq_None_conv split: bind_splits)

lemma used_bound: "f \<in> used s \<Longrightarrow> f < 524288"
  by (auto simp: used_def used_frames_def BITMAP_SIZE_def)

lemma table_ok_bound: "table_ok s b \<Longrightarrow> unat b + 4096 \<le> 2 ^ 31"
proof -
  assume "table_ok s b"
  then have "unat b = frame_no b * 4096" "frame_no b < 524288"
    by (auto simp: table_ok_def frame_no_def used_bound)
  then show ?thesis by simp
qed

lemma frame_no_slot:
  assumes "unat b mod 4096 = 0" "unat b + 4096 \<le> 2 ^ 39" "unat i < 512"
  shows "frame_no (b + 8 * i) = frame_no b"
proof -
  obtain k where k: "unat b = k * 4096" using assms(1) by auto
  have "unat (b + 8 * i) = k * 4096 + 8 * unat i" using unat_slot [OF assms(2,3)] k by simp
  then show ?thesis using assms(3) by (simp add: frame_no_def k)
qed

lemma zero_page_read:
  assumes "v AND LOW_MEMORY = b" "unat b mod 4096 = 0" "unat b + 4096 \<le> 2 ^ 39"
  shows "vm_phys (zero_page s v) a = (if frame_no a = frame_no b then 0 else vm_phys s a)"
proof -
  obtain k where k: "unat b = k * 4096" using assms(2) by auto
  have "b \<le> a \<and> a - b < 0x1000 \<longleftrightarrow> frame_no a = frame_no b"
  proof (cases "b \<le> a")
    case True
    then have "unat (a - b) = unat a - unat b" "unat b \<le> unat a"
      by (auto simp: unat_sub word_le_nat_alt)
    then have "a - b < 0x1000 \<longleftrightarrow> unat a - unat b < 4096" by (simp add: word_less_nat_alt)
    moreover have "unat a - k * 4096 < 4096 \<longleftrightarrow> unat a div 4096 = k" using \<open>unat b \<le> unat a\<close> k by auto
    ultimately show ?thesis using True by (simp add: frame_no_def k)
  next
    case False
    then have "unat a < unat b" by (simp add: word_le_nat_alt)
    then have "frame_no a \<noteq> frame_no b" unfolding frame_no_def k by auto
    then show ?thesis using False by simp
  qed
  then show ?thesis by (simp add: zero_page_def assms(1) Let_def)
qed

lemma alloc_frames_less: "alloc_frames (Suc n) p \<noteq> None \<Longrightarrow> alloc_frames n p \<noteq> None"
proof (induction n arbitrary: p)
  case (Suc n)
  from Suc.prems obtain f p1 where "alloc_frame p = Some (f, p1)" "alloc_frames (Suc n) p1 \<noteq> None"
    by (auto split: bind_splits)
  then show ?case using Suc.IH [of p1] by (auto split: bind_splits)
qed simp

lemma can_alloc_less: "can_alloc (Suc n) s \<Longrightarrow> can_alloc n s"
  unfolding can_alloc_def by (rule alloc_frames_less)

lemma kallocv_ok:
  assumes "can_alloc (Suc n) s"
  shows "\<exists>f p. kallocv s = Some (f, s\<lparr>vm_pmm := p\<rparr>) \<and> can_alloc n (s\<lparr>vm_pmm := p\<rparr>) \<and>
    unat f mod 4096 = 0 \<and> frame_no f < 524288 \<and> frame_no f \<notin> used s \<and>
    used (s\<lparr>vm_pmm := p\<rparr>) = insert (frame_no f) (used s)"
proof -
  from assms obtain k p where k: "alloc_frame (vm_pmm s) = Some (k, p)" "alloc_frames n p \<noteq> None"
    by (auto simp: can_alloc_def split: bind_splits)
  then obtain f where f: "kalloc_frame (vm_pmm s) = Some (f, p)" "pm_idx p < BITMAP_SIZE" "k = unat f div 4096"
    by (auto simp: alloc_frame_def split: option.splits if_splits)
  from kalloc_frame_cases [OF f(1)] f(2) obtain i where i: "0 \<le> i" "i < BITMAP_SIZE" "f = PAGE_TO_ADDRESS i" by auto
  have "unat f = nat i * 4096" using page_address(2) [OF i(1,2)] i(3) by simp
  moreover have "nat i < 524288" using i(1,2) by (simp add: BITMAP_SIZE_def)
  ultimately show ?thesis using alloc_frame_law [OF k(1)] k f
    by (auto simp: kallocv_def can_alloc_def used_def frame_no_def)
qed

lemma or_flags_mask:
  assumes "unat f mod 4096 = 0" "unat fl < 4096"
  shows "(f OR fl) AND PAGE_MASK = f"
proof -
  have m: "PAGE_MASK = NOT (mask 12)" by (simp add: PAGE_MASK_def mask_eq_exp_minus_1 not_eq_complement)
  have "fl AND PAGE_MASK = 0" using assms(2) unat_page_mask [of fl] by (simp add: word_unat_eq_iff)
  moreover have "unat (f AND PAGE_MASK) = unat f" using unat_page_mask [of f] assms(1) by auto
  then have "f AND PAGE_MASK = f" by (simp add: word_unat_eq_iff)
  ultimately show ?thesis by (simp add: bit.conj_disj_distrib2)
qed

lemma or_flags_low:
  fixes f fl :: u64
  assumes "unat f mod 4096 = 0" "n < 12"
  shows "bit (f OR fl) n = bit fl n"
proof -
  have "take_bit 12 f = 0"
    using assms(1) by (simp add: take_bit_eq_mod word_unat_eq_iff unat_mod)
  then have "\<not> bit f n" using assms(2) by (metis bit_0_eq bit_take_bit_iff bot_apply bot_bool_def)
  then show ?thesis by (simp add: bit_or_iff)
qed

lemma flag_bits: "e AND PAGE_PRESENT \<noteq> 0 \<longleftrightarrow> bit e 0" "e AND PAGE_LARGE \<noteq> 0 \<longleftrightarrow> bit e 7"
proof -
  have p: "PAGE_PRESENT = 2 ^ 0" "PAGE_LARGE = 2 ^ 7"
    by (simp_all add: PAGE_PRESENT_def PAGE_LARGE_def)
  show "e AND PAGE_PRESENT \<noteq> 0 \<longleftrightarrow> bit e 0" "e AND PAGE_LARGE \<noteq> 0 \<longleftrightarrow> bit e 7"
    unfolding p by (simp_all only: and_exp_eq_0_iff_not_bit not_not)
qed

definition table_flags :: "u64 \<Rightarrow> bool" where
  "table_flags fl \<longleftrightarrow> unat fl < 4096 \<and> bit fl 0 \<and> \<not> bit fl 7"

lemma wrw_simps [simp]:
  "vm_phys (wrw s v x) = (vm_phys s)(v AND LOW_MEMORY := x)" "vm_pmm (wrw s v x) = vm_pmm s"
  "vm_cur (wrw s v x) = vm_cur s" "used (wrw s v x) = used s"
  by (simp_all add: wrw_def used_def)

lemma zero_page_simps [simp]:
  "vm_pmm (zero_page s v) = vm_pmm s" "vm_cur (zero_page s v) = vm_cur s" "used (zero_page s v) = used s"
  by (simp_all add: zero_page_def used_def Let_def)

lemma next_table_keeps:
  assumes w: "window t b" and i: "unat i < 512" and e: "vm_phys s (b + 8 * i) \<noteq> 0"
  shows "next_table True fl t i s =
    Some (Some (memmgr_get_from_physical (vm_phys s (b + 8 * i) AND PAGE_MASK)), s)"
  using w i e by (simp add: next_table_def rdw_def window_def)

lemma next_table_creates:
  assumes w: "window t b" and t: "table_ok s b" and i: "unat i < 512" and e: "vm_phys s (b + 8 * i) = 0"
    and al: "can_alloc (Suc n) s" and fl: "table_flags fl"
  shows "\<exists>t1 c s1. next_table True fl t i s = Some (Some t1, s1) \<and> window t1 c \<and> table_ok s1 c \<and>
    can_alloc n s1 \<and> vm_cur s1 = vm_cur s \<and> frame_no c \<notin> used s \<and> used s1 = insert (frame_no c) (used s) \<and>
    table_entry (vm_phys s1 (b + 8 * i)) \<and> vm_phys s1 (b + 8 * i) AND PAGE_MASK = c \<and>
    (\<forall>j. unat j < 512 \<longrightarrow> vm_phys s1 (c + 8 * j) = 0) \<and>
    (\<forall>a. frame_no a \<in> used s \<and> a \<noteq> b + 8 * i \<longrightarrow> vm_phys s1 a = vm_phys s a)"
proof -
  from kallocv_ok [OF al] obtain f p where f: "kallocv s = Some (f, s\<lparr>vm_pmm := p\<rparr>)"
    "can_alloc n (s\<lparr>vm_pmm := p\<rparr>)" "unat f mod 4096 = 0" "frame_no f < 524288" "frame_no f \<notin> used s"
    "used (s\<lparr>vm_pmm := p\<rparr>) = insert (frame_no f) (used s)" by (elim exE conjE) (rule that)
  obtain k where k: "unat f = k * 4096" "k < 524288" using f(3,4) by (auto simp: frame_no_def)
  have fb: "unat f + 4096 \<le> 2 ^ 39" using k by simp
  have bb: "unat b + 4096 \<le> 2 ^ 39" "unat b mod 4096 = 0" using table_ok_bound [OF t] t by (auto simp: table_ok_def)
  let ?v = "f OR KERNEL_MEMORY" and ?slot = "t + 8 * i"
  let ?s1 = "zero_page (wrw (s\<lparr>vm_pmm := p\<rparr>) ?slot (f OR fl)) ?v"
  have wf: "window ?v f" using window_or [OF fb] .
  have low: "?v AND LOW_MEMORY = f" using wf by (auto simp: window_def dest: spec [of _ 0])
  have sl: "?slot AND LOW_MEMORY = b + 8 * i" using w i by (simp add: window_def)
  have fs: "frame_no (b + 8 * i) = frame_no b" using frame_no_slot [OF bb(2,1) i] .
  have ne: "frame_no b \<noteq> frame_no f" using t f(5) by (auto simp: table_ok_def)
  have rd: "vm_phys ?s1 a = (if frame_no a = frame_no f then 0 else
      if a = b + 8 * i then f OR fl else vm_phys s a)" for a
    using zero_page_read [OF low f(3) fb] sl by simp
  have ent: "vm_phys ?s1 (b + 8 * i) = f OR fl" using rd fs ne by simp
  have "bit (f OR fl) 0" "\<not> bit (f OR fl) 7"
    using fl or_flags_low [OF f(3), of 0 fl] or_flags_low [OF f(3), of 7 fl] by (auto simp: table_flags_def)
  then have "table_entry (f OR fl)" using flag_bits [of "f OR fl"] by (simp add: table_entry_def)
  moreover have "(f OR fl) AND PAGE_MASK = f" using or_flags_mask [OF f(3)] fl by (simp add: table_flags_def)
  moreover have "vm_phys ?s1 (f + 8 * j) = 0" if "unat j < 512" for j
    using rd frame_no_slot [OF f(3) fb that] by simp
  moreover have "vm_phys ?s1 a = vm_phys s a" if "frame_no a \<in> used s" "a \<noteq> b + 8 * i" for a
    using rd that f(5) by auto
  moreover have "used ?s1 = insert (frame_no f) (used s)" using f(6) by simp
  moreover have "next_table True fl t i s = Some (Some ?v, ?s1)"
    using e sl f(1) by (simp add: next_table_def rdw_def)
  moreover have "can_alloc n ?s1" using f(2) by (simp add: can_alloc_def)
  ultimately show ?thesis using wf ent f(3,5)
    by (intro exI [of _ ?v] exI [of _ f] exI [of _ ?s1]) (simp add: table_ok_def)
qed

lemma path_okD: "path_ok s b seen is \<Longrightarrow> table_ok s b \<and> frame_no b \<notin> seen \<and> seen \<subseteq> used s"
  by (cases "is") auto

lemma descend_ok:
  assumes "path_ok s b seen is" "window t b" "can_alloc (length is) s" "table_flags fl"
    "\<forall>i \<in> set is. unat i < 512"
  shows "\<exists>t1 c s1. descend fl t is s = Some (t1, s1) \<and> window t1 c \<and> table_ok s1 c \<and> vm_cur s1 = vm_cur s \<and>
    walk_tables s1 b is = Some c \<and> frame_no c \<notin> seen \<and> frame_no c \<notin> path_frames s1 b is \<and>
    (\<forall>a. frame_no a \<in> seen \<longrightarrow> vm_phys s1 a = vm_phys s a)"
  using assms
proof (induction "is" arbitrary: s b seen t)
  case Nil
  then show ?case by auto
next
  case (Cons i "is")
  have tb: "table_ok s b" "frame_no b \<notin> seen" "seen \<subseteq> used s" using path_okD [OF Cons.prems(1)] by auto
  have i: "unat i < 512" using Cons.prems(5) by simp
  have bb: "unat b + 4096 \<le> 2 ^ 39" "unat b mod 4096 = 0" using table_ok_bound [OF tb(1)] tb(1) by (auto simp: table_ok_def)
  have fs: "frame_no (b + 8 * i) = frame_no b" using frame_no_slot [OF bb(2,1) i] .
  let ?e = "vm_phys s (b + 8 * i)" and ?seen = "insert (frame_no b) seen"
  have "\<exists>t1 c s1. next_table True fl t i s = Some (Some t1, s1) \<and> window t1 c \<and>
      path_ok s1 c ?seen is \<and> can_alloc (length is) s1 \<and> vm_cur s1 = vm_cur s \<and>
      table_entry (vm_phys s1 (b + 8 * i)) \<and> vm_phys s1 (b + 8 * i) AND PAGE_MASK = c \<and>
      (\<forall>a. frame_no a \<in> seen \<longrightarrow> vm_phys s1 a = vm_phys s a)"
  proof (cases "?e = 0")
    case True
    from next_table_creates [OF Cons.prems(2) tb(1) i True _ Cons.prems(4), of "length is"] Cons.prems(3)
    obtain t1 c s1 where n: "next_table True fl t i s = Some (Some t1, s1)" "window t1 c" "table_ok s1 c"
      "can_alloc (length is) s1" "vm_cur s1 = vm_cur s" "frame_no c \<notin> used s"
      "used s1 = insert (frame_no c) (used s)"
      "table_entry (vm_phys s1 (b + 8 * i))" "vm_phys s1 (b + 8 * i) AND PAGE_MASK = c"
      "\<forall>j. unat j < 512 \<longrightarrow> vm_phys s1 (c + 8 * j) = 0"
      "\<forall>a. frame_no a \<in> used s \<and> a \<noteq> b + 8 * i \<longrightarrow> vm_phys s1 a = vm_phys s a" by auto
    have "frame_no b \<in> used s" using tb(1) by (simp add: table_ok_def)
    then have "path_ok s1 c ?seen is" using n tb(3) Cons.prems(5)
      by (cases "is") (auto simp: Let_def)
    moreover have "vm_phys s1 a = vm_phys s a" if "frame_no a \<in> seen" for a
      using n(11) that tb fs by auto
    ultimately show ?thesis using n by blast
  next
    case False
    let ?c = "?e AND PAGE_MASK"
    have p: "table_entry ?e" "path_ok s ?c ?seen is" using Cons.prems(1) False by (auto simp: Let_def)
    have "unat ?c + 4096 \<le> 2 ^ 39" using table_ok_bound [of s ?c] path_okD [OF p(2)] by simp
    then have "window (memmgr_get_from_physical ?c) ?c" by (rule window_phys)
    moreover have "can_alloc (length is) s" using Cons.prems(3) can_alloc_less by simp
    ultimately show ?thesis using next_table_keeps [OF Cons.prems(2) i False] p by auto
  qed
  then obtain t1 c s1 where n: "next_table True fl t i s = Some (Some t1, s1)" "window t1 c"
      "path_ok s1 c ?seen is" "can_alloc (length is) s1" "vm_cur s1 = vm_cur s"
      "table_entry (vm_phys s1 (b + 8 * i))" "vm_phys s1 (b + 8 * i) AND PAGE_MASK = c"
      "\<forall>a. frame_no a \<in> seen \<longrightarrow> vm_phys s1 a = vm_phys s a" by blast
  have "\<forall>i \<in> set is. unat i < 512" using Cons.prems(5) by simp
  from Cons.IH [OF n(3,2,4) Cons.prems(4) this] obtain t2 d s2 where
    d: "descend fl t1 is s1 = Some (t2, s2)" "window t2 d" "table_ok s2 d" "vm_cur s2 = vm_cur s1"
      "walk_tables s2 c is = Some d" "frame_no d \<notin> ?seen" "frame_no d \<notin> path_frames s2 c is"
      "\<forall>a. frame_no a \<in> ?seen \<longrightarrow> vm_phys s2 a = vm_phys s1 a" by blast
  have en: "vm_phys s2 (b + 8 * i) = vm_phys s1 (b + 8 * i)" using d(8) fs by simp
  have "unat c < 2 ^ 39" using table_ok_bound [of s1 c] path_okD [OF n(3)] by simp
  then have "walk_tables s2 b (i # is) = Some d" using en n(6,7) d(5) by (simp add: Let_def)
  then show ?case using n d en by auto
qed

lemma walk_tables_frame:
  "\<forall>a. frame_no a \<in> path_frames s b is \<longrightarrow> vm_phys s' a = vm_phys s a \<Longrightarrow>
   walk_tables s b is = Some c \<Longrightarrow> unat b mod 4096 = 0 \<Longrightarrow> unat b + 4096 \<le> 2 ^ 39 \<Longrightarrow>
   \<forall>i \<in> set is. unat i < 512 \<Longrightarrow> walk_tables s' b is = Some c"
proof (induction "is" arbitrary: b)
  case (Cons i "is")
  have fs: "frame_no (b + 8 * i) = frame_no b" using Cons.prems by (intro frame_no_slot) auto
  let ?c = "vm_phys s (b + 8 * i) AND PAGE_MASK"
  have en: "vm_phys s' (b + 8 * i) = vm_phys s (b + 8 * i)" using Cons.prems(1) fs by simp
  have c: "unat ?c < 2 ^ 39" "walk_tables s ?c is = Some c" using Cons.prems(2) by (auto simp: Let_def split: if_splits)
  have m: "unat ?c mod 4096 = 0" by (simp add: unat_page_mask)
  then obtain k where "unat ?c = k * 4096" by auto
  then have "unat ?c + 4096 \<le> 2 ^ 39" using c(1) by simp
  then have "walk_tables s' ?c is = Some c" using Cons.prems m c(2) by (intro Cons.IH) auto
  then show ?case using Cons.prems(2) en by (auto simp: Let_def split: if_splits)
qed simp

lemma low_masked: "unat (e AND PAGE_MASK) < 2 ^ 39 \<Longrightarrow> e AND PAGE_MASK AND LOW_MEMORY = e AND PAGE_MASK"
  using low_small [of "e AND PAGE_MASK"] by (simp only: and.assoc)

lemma mmu_walk_tables:
  assumes "walk_tables s (vm_cur s) [PML4_INDEX v, PDP_INDEX v, PD_INDEX v] = Some c"
    "unat (vm_cur s) < 2 ^ 39" "vm_phys s (c + 8 * PT_INDEX v) = e" "e AND PAGE_PRESENT \<noteq> 0"
  shows "mmu_walk s v = Some ((e AND PAGE_MASK AND LOW_MEMORY) + (v AND 0xfff))"
  using assms by (simp add: mmu_walk_def Let_def table_entry_def low_small low_masked split: if_splits)

section \<open>What a mapping does\<close>

definition path_of :: "u64 \<Rightarrow> u64 list" where
  "path_of v = [PML4_INDEX v, PDP_INDEX v, PD_INDEX v]"

definition mapped :: "vmm \<Rightarrow> u64 \<Rightarrow> u64 \<Rightarrow> u64 \<Rightarrow> bool" where
  \<comment> \<open>the tables on the path of \<open>v\<close> exist, the last one is at \<open>c\<close> and apart from the others, and holds entry \<open>e\<close>\<close>
  "mapped s v c e \<longleftrightarrow> unat (vm_cur s) mod 4096 = 0 \<and> unat (vm_cur s) + 4096 \<le> 2 ^ 39 \<and>
     walk_tables s (vm_cur s) (path_of v) = Some c \<and> unat c mod 4096 = 0 \<and> unat c + 4096 \<le> 2 ^ 39 \<and>
     frame_no c \<notin> path_frames s (vm_cur s) (path_of v) \<and> vm_phys s (c + 8 * PT_INDEX v) = e"

lemma path_of_less: "\<forall>i \<in> set (path_of v). unat i < 512"
  by (simp add: path_of_def index_less)

lemma path_frames_same:
  "\<forall>a. frame_no a \<in> path_frames s b is \<longrightarrow> vm_phys s' a = vm_phys s a \<Longrightarrow>
   walk_tables s b is = Some c \<Longrightarrow> unat b mod 4096 = 0 \<Longrightarrow> unat b + 4096 \<le> 2 ^ 39 \<Longrightarrow>
   \<forall>i \<in> set is. unat i < 512 \<Longrightarrow> path_frames s' b is = path_frames s b is"
proof (induction "is" arbitrary: b)
  case (Cons i "is")
  have "frame_no (b + 8 * i) = frame_no b" using Cons.prems by (intro frame_no_slot) auto
  then have en: "vm_phys s' (b + 8 * i) = vm_phys s (b + 8 * i)" using Cons.prems(1) by simp
  let ?c = "vm_phys s (b + 8 * i) AND PAGE_MASK"
  have c: "unat ?c < 2 ^ 39" "walk_tables s ?c is = Some c" using Cons.prems(2) by (auto simp: Let_def split: if_splits)
  have m: "unat ?c mod 4096 = 0" by (simp add: unat_page_mask)
  then obtain k where "unat ?c = k * 4096" by auto
  then have "unat ?c + 4096 \<le> 2 ^ 39" using c(1) by simp
  then have "path_frames s' ?c is = path_frames s ?c is" using Cons.prems m c(2) by (intro Cons.IH) auto
  then show ?case using en by simp
qed simp

lemma mapped_write:
  assumes "mapped s v c e" "window t c"
  shows "mapped (wrw s (t + 8 * PT_INDEX v) x) v c x"
proof -
  have m: "unat (vm_cur s) mod 4096 = 0" "unat (vm_cur s) + 4096 \<le> 2 ^ 39"
     "walk_tables s (vm_cur s) (path_of v) = Some c" "unat c mod 4096 = 0" "unat c + 4096 \<le> 2 ^ 39"
     "frame_no c \<notin> path_frames s (vm_cur s) (path_of v)" using assms(1) unfolding mapped_def by blast+
  have sl: "(t + 8 * PT_INDEX v) AND LOW_MEMORY = c + 8 * PT_INDEX v"
    using assms(2) index_less(4) by (simp add: window_def)
  have fs: "frame_no (c + 8 * PT_INDEX v) = frame_no c"
    by (rule frame_no_slot [OF m(4,5) index_less(4)])
  let ?s = "wrw s (t + 8 * PT_INDEX v) x"
  have same: "\<forall>a. frame_no a \<in> path_frames s (vm_cur s) (path_of v) \<longrightarrow> vm_phys ?s a = vm_phys s a"
    using m(6) fs by (auto simp: sl)
  show ?thesis unfolding mapped_def
    using walk_tables_frame [OF same m(3,1,2) path_of_less] path_frames_same [OF same m(3,1,2) path_of_less] m
    by (simp add: sl)
qed

lemma mapped_mmu:
  assumes "mapped s v c e"
  shows "mmu_walk s v = (if e AND PAGE_PRESENT = 0 then None else Some ((e AND PAGE_MASK AND LOW_MEMORY) + (v AND 0xfff)))"
  using assms by (simp add: mapped_def path_of_def mmu_walk_def Let_def table_entry_def low_small low_masked split: if_splits)


lemma window_masked:
  assumes "unat (e AND PAGE_MASK) < 2 ^ 39"
  shows "window (memmgr_get_from_physical (e AND PAGE_MASK)) (e AND PAGE_MASK)"
proof -
  have "unat (e AND PAGE_MASK) mod 4096 = 0" by (simp add: unat_page_mask)
  then obtain k where "unat (e AND PAGE_MASK) = k * 4096" by auto
  then show ?thesis using assms by (intro window_phys) simp
qed

lemma rdw_window: "window t b \<Longrightarrow> unat i < 512 \<Longrightarrow> rdw s (t + 8 * i) = vm_phys s (b + 8 * i)"
  by (simp add: rdw_def window_def)

lemma get_from_physical_nonzero: "memmgr_get_from_physical p \<noteq> 0"
proof -
  have "bit (p OR KERNEL_MEMORY) 63" by (simp add: bit_or_iff KERNEL_MEMORY_def)
  then have "p OR KERNEL_MEMORY \<noteq> 0" by auto
  then show ?thesis by (simp add: memmgr_get_from_physical_def)
qed

lemma mapped_reads:
  assumes "mapped s v c e"
  obtains e4 e3 e2 where
    "rdw s (memmgr_get_from_physical (vm_cur s) + 8 * PML4_INDEX v) = e4" "table_entry e4"
    "rdw s (memmgr_get_from_physical (e4 AND PAGE_MASK) + 8 * PDP_INDEX v) = e3" "table_entry e3"
    "rdw s (memmgr_get_from_physical (e3 AND PAGE_MASK) + 8 * PD_INDEX v) = e2" "table_entry e2"
    "rdw s (memmgr_get_from_physical (e2 AND PAGE_MASK) + 8 * PT_INDEX v) = e"
    "window (memmgr_get_from_physical (e2 AND PAGE_MASK)) c"
proof -
  have cur: "unat (vm_cur s) + 4096 \<le> 2 ^ 39" and w: "walk_tables s (vm_cur s) (path_of v) = Some c"
    and e: "vm_phys s (c + 8 * PT_INDEX v) = e" using assms by (simp_all add: mapped_def)
  define e4 where "e4 = vm_phys s (vm_cur s + 8 * PML4_INDEX v)"
  define e3 where "e3 = vm_phys s ((e4 AND PAGE_MASK) + 8 * PDP_INDEX v)"
  define e2 where "e2 = vm_phys s ((e3 AND PAGE_MASK) + 8 * PD_INDEX v)"
  have t: "table_entry e4" "unat (e4 AND PAGE_MASK) < 2 ^ 39" "table_entry e3" "unat (e3 AND PAGE_MASK) < 2 ^ 39"
    "table_entry e2" "unat (e2 AND PAGE_MASK) < 2 ^ 39" "e2 AND PAGE_MASK = c"
    using w by (simp_all add: path_of_def Let_def e4_def [symmetric] e3_def [symmetric] e2_def [symmetric] split: if_splits)
  show ?thesis
    using that [of e4 e3 e2] t e window_masked [OF t(6)]
      rdw_window [OF window_phys [OF cur] index_less(1)] rdw_window [OF window_masked [OF t(2)] index_less(2)]
      rdw_window [OF window_masked [OF t(4)] index_less(3)] rdw_window [OF window_masked [OF t(6)] index_less(4)]
    by (simp only: e4_def [symmetric] e3_def [symmetric] e2_def [symmetric])
qed

lemma table_entryD: "table_entry e \<Longrightarrow> e AND PAGE_LARGE = 0 \<and> e \<noteq> 0"
  by (auto simp: table_entry_def)

lemma small_flags: "unat flags < 4096 \<Longrightarrow> to_size (to_int (flags :: u64)) = flags"
  using to_int_small [of flags] by (simp add: to_size_def)

lemma high_bits_clear:
  fixes f :: u64
  assumes "\<And>n. 6 \<le> n \<Longrightarrow> \<not> bit f n"
  shows "unat f < 64"
proof -
  have "n < 6" if "bit f n" for n using assms [of n] that by (cases "n < 6") auto
  then have "take_bit 6 f = f" by (intro bit_eqI) (auto simp: bit_take_bit_iff)
  moreover have "unat (take_bit 6 f) = unat f mod 64" by (simp add: take_bit_eq_mod unat_mod)
  ultimately have "unat f = unat f mod 64" by simp
  then show ?thesis by (metis mod_less_divisor zero_less_numeral)
qed

lemma mapping_flags: "table_flags (PAGE_PRESENT OR PAGE_WRITABLE OR (flags AND 0x3f))"
proof -
  have m: "(0x3f :: u64) = mask 6" by (simp add: mask_eq_exp_minus_1)
  let ?f = "PAGE_PRESENT OR PAGE_WRITABLE OR (flags AND 0x3f)"
  have "bit ?f 0" by (simp add: PAGE_PRESENT_def bit_or_iff)
  moreover have "\<not> bit ?f n" if "6 \<le> n" for n
    using that unfolding m by (auto simp: PAGE_PRESENT_def PAGE_WRITABLE_def bit_simps bit_2_iff)
  moreover from this have "unat ?f < 64" by (rule high_bits_clear)
  ultimately show ?thesis by (simp add: table_flags_def)
qed

lemma or_small_flags:
  fixes flags :: u64
  assumes "unat flags < 4096"
  shows "unat (PAGE_PRESENT OR PAGE_WRITABLE OR flags) < 4096"
proof -
  have "unat (take_bit 12 flags) = unat flags" using assms by (simp add: take_bit_eq_mod unat_mod)
  then have "take_bit 12 flags = flags" by (simp add: word_unat_eq_iff)
  moreover have "take_bit 12 PAGE_PRESENT = PAGE_PRESENT" "take_bit 12 PAGE_WRITABLE = PAGE_WRITABLE"
    by (simp_all add: PAGE_PRESENT_def PAGE_WRITABLE_def)
  ultimately have "PAGE_PRESENT OR PAGE_WRITABLE OR flags = take_bit 12 (PAGE_PRESENT OR PAGE_WRITABLE OR flags)"
    by simp
  moreover have "unat (take_bit 12 x) < 4096" for x :: u64 by (simp add: take_bit_eq_mod unat_mod)
  ultimately show ?thesis by metis
qed

section \<open>Freeing, and two concrete address spaces\<close>

lemma mapped_pmm: "mapped s v c e \<Longrightarrow> mapped (s\<lparr>vm_pmm := p\<rparr>) v c e"
proof -
  have w: "walk_tables (s\<lparr>vm_pmm := p\<rparr>) b is = walk_tables s b is" for b "is"
    by (induction "is" arbitrary: b) (simp_all add: Let_def)
  have f: "path_frames (s\<lparr>vm_pmm := p\<rparr>) b is = path_frames s b is" for b "is"
    by (induction "is" arbitrary: b) simp_all
  show "mapped s v c e \<Longrightarrow> mapped (s\<lparr>vm_pmm := p\<rparr>) v c e" by (simp add: mapped_def w f)
qed

lemma kfreev_ok:
  assumes "\<not> pm_lock (vm_pmm s)" "unat a mod 4096 = 0" "frame_no a < 524288"
  shows "\<exists>p. kfreev a s = Some (s\<lparr>vm_pmm := p\<rparr>) \<and> used (s\<lparr>vm_pmm := p\<rparr>) = used s - {frame_no a}"
proof -
  have b: "int (frame_no a) < BITMAP_SIZE" using assms(3) by (simp add: BITMAP_SIZE_def)
  have "unat (PAGE_TO_ADDRESS (int (frame_no a))) = unat a"
    using page_address(2) [OF _ b] assms(2) by (auto simp: frame_no_def)
  then have a: "PAGE_TO_ADDRESS (int (frame_no a)) = a" by (simp add: word_unat_eq_iff)
  then have i: "ADDRESS_TO_PAGE a = int (frame_no a)" using page_address(3) [OF _ b] by simp
  then obtain p where p: "kfree_frame a (vm_pmm s) = Some p"
    using assms(1) b by (simp add: kfree_frame_def memmgr_phys_free_page_def Let_def)
  then have "release_frame (vm_pmm s) (frame_no a) = Some p" using a b by (simp add: release_frame_def)
  then show ?thesis using p release_frame_law by (auto simp: kfreev_def used_def)
qed

definition pmm_upto :: "nat \<Rightarrow> pmm" where
  \<comment> \<open>the frames up to \<open>n\<close> are used, and the search position is at \<open>n\<close>\<close>
  "pmm_upto n = \<lparr>pm_map = (\<lambda>i. if i \<le> int n then 1 else 0), pm_past_end = 1, pm_idx = int n, pm_lock = False\<rparr>"

lemma alloc_frame_upto:
  assumes "int n + 1 < BITMAP_SIZE"
  shows "alloc_frame (pmm_upto n) = Some (Suc n, pmm_upto (Suc n))"
proof -
  have "kalloc_frame (pmm_upto n) = Some (PAGE_TO_ADDRESS (int (Suc n)), pmm_upto (Suc n))"
    using assms kalloc_search_first [where s = "pmm_upto n" and i = "int n" and j = "int (Suc n)"]
    by (auto simp: kalloc_frame_def pmm_upto_def memmgr_phys_mark_page_def)
  then show ?thesis using assms page_address(2) [of "int (Suc n)"] by (simp add: alloc_frame_def pmm_upto_def)
qed

lemma alloc_frames_upto: "int n + int k < BITMAP_SIZE \<Longrightarrow> alloc_frames k (pmm_upto n) \<noteq> None"
proof (induction k arbitrary: n)
  case (Suc k)
  then have "alloc_frames k (pmm_upto (Suc n)) \<noteq> None" by (intro Suc.IH) simp
  then show ?case using alloc_frame_upto [of n] Suc.prems by auto
qed simp

definition demo_vmm :: vmm where
  \<comment> \<open>an empty page map in frame 1\<close>
  "demo_vmm = \<lparr>vm_pmm = pmm_upto 1, vm_phys = (\<lambda>_. 0), vm_cur = 0x1000, vm_end = 0x300000, vm_end_loc = 0x300000,
     vm_heap = 0, vm_lock = False\<rparr>"

definition demo_mapped :: vmm where
  \<comment> \<open>tables in frames 1 to 4, and frame 5 mapped at \<^verbatim>\<open>0x400000\<close>\<close>
  "demo_mapped = demo_vmm\<lparr>vm_pmm := pmm_upto 5,
     vm_phys := (\<lambda>_. 0)(0x1000 := 0x2003, 0x2000 := 0x3003, 0x3010 := 0x4003, 0x4000 := 0x5003)\<rparr>"

lemma demo_mapped_ok: "mapped demo_mapped 0x400123 0x4000 0x5003"
  by (simp add: mapped_def path_of_def demo_mapped_def demo_vmm_def PML4_INDEX_def PDP_INDEX_def PD_INDEX_def
      PT_INDEX_def table_entry_def PAGE_PRESENT_def PAGE_LARGE_def PAGE_MASK_def frame_no_def)

text \<open>C26. Mapping works: when the existing tables on the path of a virtual address are distinct used frames and three frames can still be
  allocated, \<^verbatim>\<open>memmgr_map_frame_to_virtual\<close> succeeds, creating whatever tables are missing, and afterwards the processor translates the
  address to the given frame with the page offset kept.\<close>

theorem map_frame_then_walk:
  assumes "path_ok s (vm_cur s) {} (path_of virt)" "can_alloc 3 s"
    "unat frame mod 4096 = 0" "unat frame < 2 ^ 39" "unat flags < 4096"
  shows "\<exists>s'. memmgr_map_frame_to_virtual frame virt flags s = Some s' \<and>
    mmu_walk s' virt = Some (frame + (virt AND 0xfff))"
proof -
  let ?fl = "PAGE_PRESENT OR PAGE_WRITABLE OR (flags AND 0x3f)"
  let ?e = "frame OR PAGE_PRESENT OR PAGE_WRITABLE OR flags"
  have cur: "unat (vm_cur s) + 4096 \<le> 2 ^ 39" "unat (vm_cur s) mod 4096 = 0"
    using path_okD [OF assms(1)] table_ok_bound [of s "vm_cur s"] by (auto simp: table_ok_def)
  have "can_alloc (length (path_of virt)) s" using assms(2) by (simp add: path_of_def numeral_3_eq_3)
  from descend_ok [OF assms(1) window_phys [OF cur(1)] this mapping_flags [of flags] path_of_less]
  obtain t c s1 where d: "descend ?fl (memmgr_get_from_physical (vm_cur s)) (path_of virt) s = Some (t, s1)"
      "window t c" "table_ok s1 c" "vm_cur s1 = vm_cur s" "walk_tables s1 (vm_cur s) (path_of virt) = Some c"
      "frame_no c \<notin> path_frames s1 (vm_cur s) (path_of virt)"
    by (elim exE conjE) (rule that)
  have "mapped s1 virt c (vm_phys s1 (c + 8 * PT_INDEX virt))"
    unfolding mapped_def using d(3,4,5,6) cur table_ok_bound [OF d(3)] by (simp add: table_ok_def)
  then have m: "mapped (wrw s1 (t + 8 * PT_INDEX virt) ?e) virt c ?e" by (rule mapped_write [OF _ d(2)])
  have fl: "unat (PAGE_PRESENT OR PAGE_WRITABLE OR flags) < 4096" using assms(5) by (rule or_small_flags)
  have "?e AND PAGE_MASK = frame" using or_flags_mask [OF assms(3) fl] by simp
  moreover from this have "?e AND PAGE_MASK AND LOW_MEMORY = frame" using low_masked [of ?e] assms(4) by simp
  moreover have "?e AND PAGE_PRESENT \<noteq> 0" unfolding flag_bits(1) by (simp add: PAGE_PRESENT_def bit_or_iff)
  ultimately have "mmu_walk (wrw s1 (t + 8 * PT_INDEX virt) ?e) virt = Some (frame + (virt AND 0xfff))"
    using mapped_mmu [OF m] by simp
  then show ?thesis using d(1) assms(5)
    by (simp add: map_frame_descend path_of_def [symmetric] small_flags del: descend.simps)
qed

theorem map_frame_then_walk_witness:
  "\<exists>s'. memmgr_map_frame_to_virtual 0x80000000 0x400123 2 demo_vmm = Some s' \<and> mmu_walk s' 0x400123 = Some 0x80000123"
proof -
  have "path_ok demo_vmm (vm_cur demo_vmm) {} (path_of 0x400123)"
    by (simp add: path_of_def demo_vmm_def table_ok_def used_def frame_no_def used_frames_def pmm_upto_def BITMAP_SIZE_def)
  moreover have "can_alloc 3 demo_vmm"
    using alloc_frames_upto [of 1 3] by (simp add: can_alloc_def demo_vmm_def BITMAP_SIZE_def)
  ultimately show ?thesis using map_frame_then_walk [of demo_vmm "0x400123" "0x80000000" 2] by simp
qed

text \<open>C27. The kernel's own translation agrees with the processor's: for an address whose tables exist and whose entry is a
  present page in a non-zero frame, \<^verbatim>\<open>memmgr_get_page_physical\<close> returns what the processor computes and changes nothing.\<close>

theorem get_page_physical_agrees_mmu:
  assumes "mapped s v c e" "e AND PAGE_PRESENT \<noteq> 0" "e AND PAGE_MASK \<noteq> 0" "unat (e AND PAGE_MASK) < 2 ^ 39"
  shows "\<exists>p. mmu_walk s v = Some p \<and> memmgr_get_page_physical v s = Some (p, s)"
proof -
  obtain e4 e3 e2 where r:
    "rdw s (memmgr_get_from_physical (vm_cur s) + 8 * PML4_INDEX v) = e4" "table_entry e4"
    "rdw s (memmgr_get_from_physical (e4 AND PAGE_MASK) + 8 * PDP_INDEX v) = e3" "table_entry e3"
    "rdw s (memmgr_get_from_physical (e3 AND PAGE_MASK) + 8 * PD_INDEX v) = e2" "table_entry e2"
    "rdw s (memmgr_get_from_physical (e2 AND PAGE_MASK) + 8 * PT_INDEX v) = e"
    using mapped_reads [OF assms(1)] by metis
  have "e \<noteq> 0" using assms(2) by auto
  then have "memmgr_create_or_get_page v 0 False s = Some (e AND PAGE_MASK, s)"
    using r table_entryD [OF r(2)] table_entryD [OF r(4)] table_entryD [OF r(6)]
    by (simp add: memmgr_create_or_get_page_def next_table_def)
  moreover have "v AND 0xfff = v mod 4096"
    using take_bit_eq_mask [of 12 v] by (simp add: mask_eq_exp_minus_1 take_bit_eq_mod)
  ultimately show ?thesis using mapped_mmu [OF assms(1)] assms(2,3) low_masked [OF assms(4)]
    by (simp add: memmgr_get_page_physical_def)
qed

theorem get_page_physical_agrees_mmu_witness:
  "\<exists>p. mmu_walk demo_mapped 0x400123 = Some p \<and> memmgr_get_page_physical 0x400123 demo_mapped = Some (p, demo_mapped)"
  by (rule get_page_physical_agrees_mmu [OF demo_mapped_ok]) (simp_all add: PAGE_PRESENT_def PAGE_MASK_def)

text \<open>Unmapping works: \<^verbatim>\<open>memmgr_delete_page\<close> on a mapped page makes the address fault in the processor and returns
  exactly the page's frame to the frame allocator.\<close>

theorem delete_page_unmaps:
  assumes "mapped s v c e" "e AND PAGE_PRESENT \<noteq> 0" "\<not> pm_lock (vm_pmm s)" "frame_no (e AND PAGE_MASK) < 524288"
  shows "\<exists>s'. memmgr_delete_page v s = Some s' \<and> mmu_walk s' v = None \<and>
    used s' = used s - {frame_no (e AND PAGE_MASK)}"
proof -
  obtain e4 e3 e2 where r:
    "rdw s (memmgr_get_from_physical (vm_cur s) + 8 * PML4_INDEX v) = e4" "table_entry e4"
    "rdw s (memmgr_get_from_physical (e4 AND PAGE_MASK) + 8 * PDP_INDEX v) = e3" "table_entry e3"
    "rdw s (memmgr_get_from_physical (e3 AND PAGE_MASK) + 8 * PD_INDEX v) = e2" "table_entry e2"
    "rdw s (memmgr_get_from_physical (e2 AND PAGE_MASK) + 8 * PT_INDEX v) = e"
    "window (memmgr_get_from_physical (e2 AND PAGE_MASK)) c"
    using mapped_reads [OF assms(1)] by metis
  have al: "unat (e AND PAGE_MASK) mod 4096 = 0" by (simp add: unat_page_mask)
  from kfreev_ok [OF assms(3) al assms(4)] obtain p where
    p: "kfreev (e AND PAGE_MASK) s = Some (s\<lparr>vm_pmm := p\<rparr>)" "used (s\<lparr>vm_pmm := p\<rparr>) = used s - {frame_no (e AND PAGE_MASK)}"
    by auto
  let ?s' = "wrw (s\<lparr>vm_pmm := p\<rparr>) (memmgr_get_from_physical (e2 AND PAGE_MASK) + 8 * PT_INDEX v) 0"
  have "memmgr_delete_page v s = Some ?s'"
    using r assms(2) p(1) table_entryD [OF r(2)] table_entryD [OF r(4)] table_entryD [OF r(6)]
    by (simp add: memmgr_delete_page_def Let_def get_from_physical_nonzero)
  moreover have "mapped (s\<lparr>vm_pmm := p\<rparr>) v c e" using assms(1) by (rule mapped_pmm)
  then have "mmu_walk ?s' v = None" using mapped_mmu [OF mapped_write [OF _ r(8), of "s\<lparr>vm_pmm := p\<rparr>" v e 0]] by simp
  ultimately show ?thesis using p(2) by (auto simp: wrw_simps)
qed

theorem delete_page_unmaps_witness:
  "\<exists>s'. memmgr_delete_page 0x400123 demo_mapped = Some s' \<and> mmu_walk s' 0x400123 = None"
  using delete_page_unmaps [OF demo_mapped_ok]
  by (auto simp: PAGE_PRESENT_def PAGE_MASK_def demo_mapped_def frame_no_def pmm_upto_def)

text \<open>\<^verbatim>\<open>munmap\<close> of a region of at most one page works on the page after it: its loop starts at index 1, so the
  page at the given address stays mapped and the next one, if it is a user page, is deleted instead.\<close>

theorem munmap_skips_first_page:
  assumes "addr mod 4096 = 0" "0 < unat len" "unat len \<le> 4096"
  shows "munmap addr len s =
    (if memmgr_check_user (addr + 0x1000) s then memmgr_delete_page (addr + 0x1000) s else Some s)"
proof -
  have "page_count len = 1" using assms(2,3) by (cases "unat len = 4096") (auto simp: page_count_def)
  then show ?thesis using assms(1) by (auto simp: munmap_def bind_eq_None_conv split: bind_splits)
qed

theorem munmap_skips_first_page_witness:
  "munmap 0x400000 0x1000 demo_vmm =
    (if memmgr_check_user 0x401000 demo_vmm then memmgr_delete_page 0x401000 demo_vmm else Some demo_vmm)"
  using munmap_skips_first_page [of "0x400000" "0x1000" demo_vmm] by simp

end
