(* ===== verification/Process.thy ===== *)
theory Process
  imports Mutex Paging
begin

text \<open>
  The life of a process, from \<^verbatim>\<open>kernel/proc/process.c\<close>: creation (\<^verbatim>\<open>process_init\<close>, \<^verbatim>\<open>process_create_idle\<close>,
  \<^verbatim>\<open>process_fork\<close>, \<^verbatim>\<open>process_clone\<close>), the descriptor table (\<^verbatim>\<open>process_open_fd\<close>, \<^verbatim>\<open>process_close_fd\<close>),
  the end (\<^verbatim>\<open>process_terminate\<close>, \<^verbatim>\<open>process_exit\<close>, \<^verbatim>\<open>process_thread_exit\<close>, \<^verbatim>\<open>process_reap\<close>) and
  the look-ups. The state \<open>machine\<close> joins the kernel state, the memory manager and the register frames.
  Addresses that \<^verbatim>\<open>calloc\<close> returns, and the fuel for the recursion over the process tree, are arguments. The
  registers that \<^verbatim>\<open>setjmp\<close> saves in assembly are not part of the model.
\<close>

section \<open>State\<close>

record regs_t =
  g_r15 :: u64
  g_r14 :: u64
  g_r13 :: u64
  g_r12 :: u64
  g_r11 :: u64
  g_r10 :: u64
  g_r9 :: u64
  g_r8 :: u64
  g_rbp :: u64
  g_rdi :: u64
  g_rsi :: u64
  g_rdx :: u64
  g_rcx :: u64
  g_rbx :: u64
  g_rax :: u64
  g_int_no :: u64
  g_err_code :: u64
  g_rip :: u64
  g_cs :: u64
  g_rflags :: u64
  g_rsp :: u64
  g_ss :: u64

definition regs_words :: "regs_t \<Rightarrow> u64 list" where
  \<comment> \<open>the memory image of the structure\<close>
  "regs_words r = [g_r15 r, g_r14 r, g_r13 r, g_r12 r, g_r11 r, g_r10 r, g_r9 r, g_r8 r, g_rbp r, g_rdi r, g_rsi r, g_rdx r, g_rcx r,
     g_rbx r, g_rax r, g_int_no r, g_err_code r, g_rip r, g_cs r, g_rflags r, g_rsp r, g_ss r]"

record machine =
  mk :: kstate
  mv :: vmm
  m_regs :: "ptr \<rightharpoonup> regs_t"        \<comment> \<open>the register frames that \<^verbatim>\<open>saved_registers\<close> can point to\<close>
  m_has_close :: "ptr \<Rightarrow> bool"      \<comment> \<open>the file nodes with a \<^verbatim>\<open>file_ops.close\<close>\<close>
  m_closed :: "ptr list"         \<comment> \<open>the calls of \<^verbatim>\<open>file_ops.close\<close>, in order\<close>

definition on_kernel :: "(kstate \<Rightarrow> kstate option) \<Rightarrow> machine \<Rightarrow> machine option" where
  "on_kernel f m = do { s \<leftarrow> f (mk m); Some (m\<lparr>mk := s\<rparr>) }"

definition memory :: "machine \<Rightarrow> vmm" where
  \<comment> \<open>the memory manager reads the page map of \<^verbatim>\<open>pcb.current_page_map\<close>\<close>
  "memory m = (mv m)\<lparr>vm_cur := current_page_map (mk m)\<rparr>"

function push_align :: "u64 \<Rightarrow> u64 \<Rightarrow> u64" where
  \<comment> \<open>\<^verbatim>\<open>while (stack & (sizeof(type)-1)) stack--\<close>\<close>
  "push_align len sp = (if sp AND (len - 1) = 0 then sp else push_align len (sp - 1))"
  by auto
termination
proof (relation "measure (\<lambda>(len, sp). unat sp)")
  fix len sp :: u64
  assume "sp AND (len - 1) \<noteq> 0"
  then have "sp \<noteq> 0" by auto
  then have "unat (sp - 1) < unat sp" by (metis unat_minus_one unat_gt_0 diff_less zero_less_one)
  then show "((len, sp - 1), len, sp) \<in> measure (\<lambda>(len, sp). unat sp)" by simp
qed simp

declare push_align.simps [simp del]

definition vwrite :: "u64 \<Rightarrow> u64 list \<Rightarrow> vmm \<Rightarrow> vmm option" where
  \<comment> \<open>a structure of words stored at a virtual address of the current address space\<close>
  "vwrite a ws s = foldM (\<lambda>(i, w) s. do {
     p \<leftarrow> mmu_walk s (a + 8 * of_nat i); Some (s\<lparr>vm_phys := (vm_phys s)(p := w)\<rparr>) }) (enumerate 0 ws) s"

definition PUSH_PTR :: "u64 \<Rightarrow> u64 list \<Rightarrow> vmm \<Rightarrow> (u64 \<times> vmm) option" where
  "PUSH_PTR stack ws s = do {
     let len = 8 * of_nat (length ws);
     let a = push_align len (stack - len);
     s1 \<leftarrow> vwrite a ws s;
     Some (a, s1)
   }"

section \<open>Descriptor tables\<close>

definition new_fd_table :: "int \<Rightarrow> fd_table_t" where
  \<comment> \<open>an empty table with room for \<open>cap\<close> handles\<close>
  "new_fd_table cap = \<lparr>fd_capacity = cap, fd_length = 0, fd_handles = replicate (nat cap) None, fd_process_count = 0,
     fd_lock = False\<rparr>"

definition free_slot :: "file_handle_t option list \<Rightarrow> nat \<Rightarrow> nat" where
  \<comment> \<open>\<^verbatim>\<open>index = 0; for(i = 0; i < capacity; i++) if(handles[i] == NULL) { index = i; break; }\<close>\<close>
  "free_slot hs cap = (case List.find (\<lambda>i. hs ! i = None) [0..<cap] of None \<Rightarrow> 0 | Some i \<Rightarrow> i)"

definition process_open_fd :: "ptr \<Rightarrow> int \<Rightarrow> kstate \<Rightarrow> (int \<times> kstate) option" where
  "process_open_fd node mode s = do {
     current \<leftarrow> at (procs s) (current_process s);
     t \<leftarrow> at (fd_tables s) (p_fd_table current);
     if fd_length t \<ge> fd_capacity t then Some (-1, s)
     else do {
       l \<leftarrow> spin_lock (fd_lock t);
       let index = free_slot (fd_handles t) (nat (fd_capacity t));
       if length (fd_handles t) < nat (fd_capacity t) \<or> length (fd_handles t) = 0 then None
       else Some (int index,
         s\<lparr>fd_tables := (fd_tables s)(p_fd_table current \<mapsto>
            t\<lparr>fd_handles := (fd_handles t)[index := Some \<lparr>fh_fileNode = node, fh_mode = mode, fh_offset = 0, fh_flags = 0\<rparr>],
              fd_length := wrap_int (fd_length t + 1), fd_lock := spin_unlock l\<rparr>)\<rparr>)
     }
   }"

definition process_close_fd :: "int \<Rightarrow> machine \<Rightarrow> machine option" where
  "process_close_fd fd m = do {
     let s = mk m;
     current \<leftarrow> at (procs s) (current_process s);
     t \<leftarrow> at (fd_tables s) (p_fd_table current);
     l \<leftarrow> spin_lock (fd_lock t);
     if fd < 0 \<or> fd \<ge> int (length (fd_handles t)) then None
     else do {
       handle \<leftarrow> fd_handles t ! nat fd;
       if fh_fileNode handle = NULL then None
       else Some (m\<lparr>
         m_closed := m_closed m @ (if m_has_close m (fh_fileNode handle) then [fh_fileNode handle] else []),
         mk := s\<lparr>fd_tables := (fd_tables s)(p_fd_table current \<mapsto>
            t\<lparr>fd_handles := (fd_handles t)[nat fd := None], fd_length := wrap_int (fd_length t - 1),
              fd_lock := spin_unlock l\<rparr>)\<rparr>\<rparr>)
     }
   }"

definition copy_handle :: "file_handle_t option \<Rightarrow> file_handle_t option" where
  \<comment> \<open>the copy of a handle made by \<^verbatim>\<open>process_fork\<close> and \<^verbatim>\<open>process_clone\<close>\<close>
  "copy_handle h = (case h of None \<Rightarrow> None
     | Some parentHandle \<Rightarrow> Some \<lparr>fh_fileNode = fh_fileNode parentHandle, fh_mode = fh_mode parentHandle,
         fh_offset = fh_offset parentHandle, fh_flags = 0\<rparr>)"

definition copy_fd_table :: "fd_table_t \<Rightarrow> fd_table_t option" where
  "copy_fd_table t =
     (if length (fd_handles t) < nat (fd_capacity t) then None
      else Some ((new_fd_table (fd_capacity t))\<lparr>fd_length := fd_length t,
        fd_handles := map copy_handle (take (nat (fd_capacity t)) (fd_handles t))\<rparr>))"

fun release_handles :: "file_handle_t option list \<Rightarrow> int \<Rightarrow> int \<Rightarrow> int \<Rightarrow> file_handle_t option list option" where
  \<comment> \<open>the loop that frees the handles of a table; the list is \<^verbatim>\<open>handles\<close> from index \<open>i\<close> on\<close>
  "release_handles [] i len capacity = (if len > 0 then None else Some [])"
| "release_handles (h # hs) i len capacity =
     (if len \<le> 0 then Some (h # hs)
      else if h = None then do { r \<leftarrow> release_handles hs (i + 1) len capacity; Some (None # r) }
      else if i + 1 > capacity then Some (None # hs)
      else do { r \<leftarrow> release_handles hs (i + 1) (len - 1) capacity; Some (None # r) })"

definition release_fd_table :: "ptr \<Rightarrow> kstate \<Rightarrow> kstate option" where
  \<comment> \<open>the part of \<^verbatim>\<open>process_terminate\<close> and \<^verbatim>\<open>process_exit\<close> that gives up the descriptor table\<close>
  "release_fd_table p s = do {
     x \<leftarrow> at (procs s) p;
     t \<leftarrow> at (fd_tables s) (p_fd_table x);
     if fd_length t > 0 then do {
       _ \<leftarrow> spin_lock (fd_lock t);
       _ \<leftarrow> release_handles (fd_handles t) 0 (fd_length t) (fd_capacity t);
       upd_proc p (\<lambda>x. x\<lparr>p_fd_table := NULL\<rparr>) (s\<lparr>fd_tables := (fd_tables s)(p_fd_table x := None)\<rparr>)
     } else Some s
   }"

section \<open>Creation\<close>

definition process_init :: "kstate \<Rightarrow> kstate" where
  "process_init s = s\<lparr>sleep_lock := spin_unlock (sleep_lock s), process_lock := spin_unlock (process_lock s),
     process_list := [], process_tree := tree_create, thread_queue := [], sleeping_queue := []\<rparr>"

definition insert_in_tree :: "nat \<Rightarrow> ptr \<Rightarrow> ptr \<Rightarrow> ptr \<Rightarrow> kstate \<Rightarrow> kstate option" where
  \<comment> \<open>\<^verbatim>\<open>tree_insert_child(process_tree, node, process)\<close>: the values that it frees are process structures\<close>
  "insert_in_tree n node process new s = do {
     (h, t, ns, vs) \<leftarrow> tree_insert_child n (tree_heap s) (process_tree s) node process new;
     Some (s\<lparr>tree_heap := h |` (- set ns), process_tree := t, procs := procs s |` (- set vs)\<rparr>)
   }"

definition new_mm :: "u64 \<Rightarrow> mm_struct_t" where
  "new_mm pml = \<lparr>mm_page_directory = pml, mm_heap = 0, mm_process_count = 1, mm_lock = False\<rparr>"

definition process_create_idle :: "ptr \<Rightarrow> ptr \<Rightarrow> ptr \<Rightarrow> u64 \<Rightarrow> machine \<Rightarrow> machine option" where
  \<comment> \<open>\<open>idle\<close> is the address of the idle loop\<close>
  "process_create_idle process mm fdt idle m = do {
     (stack, v) \<leftarrow> memmgr_create_stack False 4096 (memory m);
     let s = mk m;
     let x = empty_proc\<lparr>p_page_directory := mm, p_fd_table := fdt, p_flags := PROC_FLAG_KERNEL OR PROC_FLAG_RUNNING,
       p_main_thread := (p_main_thread empty_proc)\<lparr>th_process := process, th_priority := 0, th_rip := idle,
         th_kernel_stack := stack, th_rsp := stack\<rparr>\<rparr>;
     Some (m\<lparr>mv := v, mk := s\<lparr>procs := (procs s)(process \<mapsto> x), mms := (mms s)(mm \<mapsto> new_mm (current_page_map s)),
       fd_tables := (fd_tables s)(fdt \<mapsto> new_fd_table 8), kernel_idle_process := process\<rparr>\<rparr>)
   }"

definition link_child :: "nat \<Rightarrow> ptr \<Rightarrow> ptr \<Rightarrow> ptr \<Rightarrow> kstate \<Rightarrow> kstate option" where
  \<comment> \<open>the last part of \<^verbatim>\<open>process_fork\<close>: enter the new process in the process list, the ready queue and the tree\<close>
  "link_child n parent process node s = do {
     let s1 = s\<lparr>process_list := process_list s @ [process], thread_queue := thread_queue s @ [process]\<rparr>;
     found \<leftarrow> tree_find_child_root n (tree_heap s1) (process_tree s1) parent;
     let treeNode = (if found = NULL then t_head (process_tree s1) else found);
     insert_in_tree n treeNode process node s1
   }"

definition process_fork :: "nat \<Rightarrow> ptr \<Rightarrow> ptr \<Rightarrow> ptr \<Rightarrow> ptr \<Rightarrow> ptr \<Rightarrow> u64 \<Rightarrow> machine \<Rightarrow> (int \<times> machine) option" where
  \<comment> \<open>\<open>local\<close> is the address of the local variable \<^verbatim>\<open>registers\<close>, which ends with the call; \<open>fork_exit\<close> is the address
     of the assembly routine\<close>
  "process_fork n process mm fdt node local fork_exit m = do {
     let s = mk m;
     parent \<leftarrow> at (procs s) (current_process s);
     let pid = wrap_int (id_generator s + 1);
     (frame, v1) \<leftarrow> kallocv (memory m);
     v2 \<leftarrow> memmgr_clone_page_map (vm_cur v1) (memmgr_get_from_physical frame) v1;
     (stack, v3) \<leftarrow> memmgr_create_stack False 16384 v2;
     saved \<leftarrow> at (m_regs m) (p_saved_registers parent);
     (kernelStack, v4) \<leftarrow> PUSH_PTR (stack + 16384) (regs_words (saved\<lparr>g_rax := 0\<rparr>)) v3;
     table \<leftarrow> at (fd_tables s) (p_fd_table parent);
     child_table \<leftarrow> copy_fd_table table;
     let x = empty_proc\<lparr>p_id := pid, p_parent := p_id parent, p_tgid := pid, p_page_directory := mm,
       p_main_thread := (p_main_thread empty_proc)\<lparr>th_process := process, th_priority := th_priority (p_main_thread parent),
         th_user_stack := th_user_stack (p_main_thread parent), th_kernel_stack := stack + 16384, th_rip := fork_exit,
         th_rsp := kernelStack, th_rbp := kernelStack\<rparr>,
       p_saved_registers := local, p_uid := p_uid parent, p_gid := p_gid parent,
       p_flags := p_flags parent AND NOT PROC_FLAG_RUNNING AND NOT PROC_FLAG_ON_CPU, p_fd_table := fdt\<rparr>;
     let s1 = s\<lparr>id_generator := pid, procs := (procs s)(process \<mapsto> x), mms := (mms s)(mm \<mapsto> new_mm frame),
       fd_tables := (fd_tables s)(fdt \<mapsto> child_table)\<rparr>;
     s2 \<leftarrow> link_child n (current_process s) process node s1;
     Some (pid, m\<lparr>mk := s2, mv := v4\<rparr>)
   }"

definition CLONE_VM :: u64 where "CLONE_VM = 0x100"
definition CLONE_FILES :: u64 where "CLONE_FILES = 0x400"
definition CLONE_THREAD :: u64 where "CLONE_THREAD = 0x10000"
definition CLONE_SETTLS :: u64 where "CLONE_SETTLS = 0x80000"

definition clone_mm :: "u64 \<Rightarrow> ptr \<Rightarrow> process_t \<Rightarrow> machine \<Rightarrow> (ptr \<times> machine) option" where
  \<comment> \<open>the address space of the clone: shared, or a copy at \<open>mm\<close>\<close>
  "clone_mm flags mm parent m =
     (let s = mk m in
      if flags AND CLONE_VM \<noteq> 0 then do {
        d \<leftarrow> at (mms s) (p_page_directory parent);
        l \<leftarrow> spin_lock (mm_lock d);
        Some (p_page_directory parent, m\<lparr>mk := s\<lparr>mms := (mms s)(p_page_directory parent \<mapsto>
          d\<lparr>mm_process_count := wrap_int (mm_process_count d + 1), mm_lock := spin_unlock l\<rparr>)\<rparr>\<rparr>)
      } else do {
        (frame, v1) \<leftarrow> kallocv (memory m);
        v2 \<leftarrow> memmgr_clone_page_map (vm_cur v1) (memmgr_get_from_physical frame) v1;
        Some (mm, m\<lparr>mv := v2, mk := s\<lparr>mms := (mms s)(mm \<mapsto> new_mm frame)\<rparr>\<rparr>)
      })"

definition clone_files :: "u64 \<Rightarrow> ptr \<Rightarrow> process_t \<Rightarrow> kstate \<Rightarrow> (ptr \<times> kstate) option" where
  "clone_files flags fdt parent s = do {
     table \<leftarrow> at (fd_tables s) (p_fd_table parent);
     if flags AND CLONE_FILES \<noteq> 0 then do {
       l \<leftarrow> spin_lock (fd_lock table);
       Some (p_fd_table parent, s\<lparr>fd_tables := (fd_tables s)(p_fd_table parent \<mapsto>
         table\<lparr>fd_process_count := wrap_int (fd_process_count table + 1), fd_lock := spin_unlock l\<rparr>)\<rparr>)
     } else do {
       child_table \<leftarrow> copy_fd_table table;
       Some (fdt, s\<lparr>fd_tables := (fd_tables s)(fdt \<mapsto> child_table)\<rparr>)
     }
   }"

definition process_clone ::
  "nat \<Rightarrow> u64 \<Rightarrow> u64 \<Rightarrow> u64 \<Rightarrow> ptr \<Rightarrow> ptr \<Rightarrow> ptr \<Rightarrow> ptr \<Rightarrow> u64 \<Rightarrow> u64 \<Rightarrow> machine \<Rightarrow> (int \<times> machine) option" where
  \<comment> \<open>\<open>flags\<close>, \<open>tls\<close> and \<open>parent_tid\<close> are fields of \<^verbatim>\<open>args\<close>; \<open>kstack\<close> is the block that \<^verbatim>\<open>malloc(16384)\<close> returns.
     The register frame is copied from \<^verbatim>\<open>process->saved_registers\<close>, the field of the new process\<close>
  "process_clone n flags tls parent_tid process mm fdt node kstack fork_exit m = do {
     let s = mk m;
     parent \<leftarrow> at (procs s) (current_process s);
     let pid = wrap_int (id_generator s + 1);
     let x = empty_proc\<lparr>p_id := pid, p_parent := p_id parent,
       p_tgid := (if flags AND CLONE_THREAD \<noteq> 0 then p_tgid parent else 0)\<rparr>;
     (d, m1) \<leftarrow> clone_mm flags mm parent m;
     saved \<leftarrow> at (m_regs m1) (p_saved_registers x);
     (kernelStack, v) \<leftarrow> PUSH_PTR (kstack + 16384) (regs_words (saved\<lparr>g_rax := 0\<rparr>)) (memory m1);
     (t, s1) \<leftarrow> clone_files flags fdt parent (mk m1);
     let y = x\<lparr>p_page_directory := d,
       p_main_thread := (p_main_thread x)\<lparr>th_process := process, th_priority := th_priority (p_main_thread parent),
         th_user_stack := th_user_stack (p_main_thread parent), th_kernel_stack := kernelStack, th_rip := fork_exit,
         th_rsp := th_user_stack (p_main_thread parent),
         th_tls_base := (if flags AND CLONE_SETTLS \<noteq> 0 then tls else 0)\<rparr>,
       p_uid := p_uid parent, p_gid := p_gid parent,
       p_flags := p_flags parent AND NOT PROC_FLAG_RUNNING AND NOT PROC_FLAG_ON_CPU, p_fd_table := t\<rparr>;
     v1 \<leftarrow> (if parent_tid \<noteq> 0 then vwrite parent_tid [to_size pid] v else Some v);
     s2 \<leftarrow> insert_in_tree n NULL process node
       (s1\<lparr>id_generator := pid, procs := (procs s1)(process \<mapsto> y), process_list := process_list s1 @ [process]\<rparr>);
     Some (pid, m1\<lparr>mv := v1, mk := s2\<lparr>thread_queue := thread_queue s2 @ [process]\<rparr>\<rparr>)
   }"

section \<open>The end of a process\<close>

definition process_terminate :: "ptr \<Rightarrow> int \<Rightarrow> kstate \<Rightarrow> kstate option" where
  "process_terminate p retval s = do {
     x \<leftarrow> at (procs s) p;
     if p_id x = 1 then None
     else do {
       s1 \<leftarrow> upd_proc p (\<lambda>x. x\<lparr>p_status := retval\<rparr>) s;
       s2 \<leftarrow> release_fd_table p s1;
       upd_proc p (\<lambda>x. x\<lparr>p_flags := PROC_FLAG_FINISHED\<rparr>) s2
     }
   }"

definition kill_threads :: "nat \<Rightarrow> ptr \<Rightarrow> int \<Rightarrow> kstate \<Rightarrow> kstate option" where
  \<comment> \<open>the loop over the children in \<^verbatim>\<open>process_exit\<close>. The list holds tree nodes, which the code reads as processes: the
     field \<^verbatim>\<open>tgid\<close> lies at offset 16, where a node has the lower half of its parent pointer\<close>
  "kill_threads n p retval s = do {
     parent \<leftarrow> tree_find_child_root n (tree_heap s) (process_tree s) p;
     e \<leftarrow> nrd (tree_heap s) parent;
     foldM (\<lambda>c s. do {
       other \<leftarrow> nrd (tree_heap s) c;
       x \<leftarrow> at (procs s) p;
       if to_int (tn_parent other) = p_id x \<and> p_flags x AND PROC_FLAG_FINISHED = 0 then process_terminate c retval s
       else Some s }) (tn_children e) s
   }"

definition process_exit :: "nat \<Rightarrow> int \<Rightarrow> kstate \<Rightarrow> kstate option" where
  "process_exit n retval s = do {
     let p = current_process s;
     x \<leftarrow> at (procs s) p;
     if p_id x = 1 then None
     else do {
       s1 \<leftarrow> upd_proc p (\<lambda>x. x\<lparr>p_status := retval\<rparr>) s;
       s2 \<leftarrow> release_fd_table p s1;
       s3 \<leftarrow> upd_proc p (\<lambda>x. x\<lparr>p_cwd := None, p_flags := PROC_FLAG_FINISHED\<rparr>) s2;
       s4 \<leftarrow> (if length (process_list s3) > 1 then kill_threads n p retval s3 else Some s3);
       schedule True s4
     }
   }"

definition process_thread_exit :: "int \<Rightarrow> machine \<Rightarrow> machine option" where
  "process_thread_exit retval m = do {
     let s = mk m; let p = current_process s;
     x \<leftarrow> at (procs s) p;
     if p_id x = 1 then None
     else do {
       s1 \<leftarrow> upd_proc p (\<lambda>x. x\<lparr>p_status := retval, p_flags := PROC_FLAG_FINISHED\<rparr>) s;
       v \<leftarrow> foldM (\<lambda>i. memmgr_delete_page (th_kernel_stack (p_main_thread x) - 0x5000 + 0x1000 * of_nat i)) [0..<5] (memory m);
       s2 \<leftarrow> schedule True s1;
       Some (m\<lparr>mk := s2, mv := v\<rparr>)
     }
   }"

definition remove_by_index :: "nat \<Rightarrow> ptr list \<Rightarrow> ptr list option" where
  \<comment> \<open>\<^verbatim>\<open>list_remove_by_index\<close> on the sequence of a list, by the lemmas of \<open>Linked_List\<close>\<close>
  "remove_by_index i xs =
     (if i = 0 then Some (tl xs)
      else if i > length xs then Some xs
      else if length xs = 1 then None
      else Some (take (i - 1) xs @ drop i xs))"

definition process_reap :: "nat \<Rightarrow> ptr \<Rightarrow> machine \<Rightarrow> machine option" where
  \<comment> \<open>the position counted over \<^verbatim>\<open>prev\<close> starts at 1\<close>
  "process_reap n p m = do {
     let s = mk m;
     x \<leftarrow> at (procs s) p;
     if p_flags x AND PROC_FLAG_FINISHED = 0 then Some m
     else do {
       node \<leftarrow> tree_find_child_root n (tree_heap s) (process_tree s) p;
       (h, t) \<leftarrow> (if node \<noteq> NULL then tree_remove n (tree_heap s) (process_tree s) node else Some (tree_heap s, process_tree s));
       ps \<leftarrow> (if p \<in> set (process_list s)
               then remove_by_index (Suc (length (takeWhile (\<lambda>q. q \<noteq> p) (process_list s)))) (process_list s)
               else Some (process_list s));
       d \<leftarrow> at (mms s) (p_page_directory x);
       let d1 = d\<lparr>mm_process_count := wrap_int (mm_process_count d - 1)\<rparr>;
       (d2, v) \<leftarrow> (if mm_process_count d1 \<le> 0 then do {
            _ \<leftarrow> spin_lock (mm_lock d1);
            v \<leftarrow> memmgr_clear_page_map (mm_page_directory d1) (memory m);
            Some (None, v)
          } else Some (Some d1, mv m));
       Some (m\<lparr>mv := v, mk := s\<lparr>tree_heap := h, process_tree := t, process_list := ps,
         mms := (mms s)(p_page_directory x := d2), procs := (procs s)(p := None)\<rparr>\<rparr>)
     }
   }"

section \<open>Look-ups\<close>

fun process_get_children_recur :: "nat \<Rightarrow> theap \<Rightarrow> ptr \<Rightarrow> ptr list \<Rightarrow> ptr list option"
  and children_recur :: "nat \<Rightarrow> theap \<Rightarrow> ptr list \<Rightarrow> ptr list \<Rightarrow> ptr list option" where
  "process_get_children_recur 0 h node xs = None"
| "process_get_children_recur (Suc n) h node xs = do { e \<leftarrow> nrd h node; children_recur n h (tn_children e) xs }"
| "children_recur n h [] xs = Some xs"
| "children_recur n h (c # rest) xs = do {
     child \<leftarrow> nrd h c;
     ys \<leftarrow> process_get_children_recur n h c (xs @ [tn_value child]);
     children_recur n h rest ys
   }"

definition process_get_all_children :: "nat \<Rightarrow> ptr \<Rightarrow> kstate \<Rightarrow> ptr list option option" where
  \<comment> \<open>the inner \<open>None\<close> is the result \<^verbatim>\<open>NULL\<close>\<close>
  "process_get_all_children n p s = do {
     node \<leftarrow> tree_find_child_root n (tree_heap s) (process_tree s) p;
     if node = NULL then Some None
     else do { xs \<leftarrow> process_get_children_recur n (tree_heap s) node []; Some (Some xs) }
   }"

fun find_pid :: "int \<Rightarrow> ptr list \<Rightarrow> kstate \<Rightarrow> ptr option" where
  "find_pid pid [] s = Some NULL"
| "find_pid pid (p # ps) s = do { x \<leftarrow> at (procs s) p; if p_id x = pid then Some p else find_pid pid ps s }"

definition get_process_by_id :: "int \<Rightarrow> kstate \<Rightarrow> ptr option" where
  "get_process_by_id pid s = find_pid pid (process_list s) s"

definition acquire_process_tree_lock :: "kstate \<Rightarrow> kstate option" where
  "acquire_process_tree_lock s = do { l \<leftarrow> spin_lock (process_lock s); Some (s\<lparr>process_lock := l\<rparr>) }"

definition release_process_tree_lock :: "kstate \<Rightarrow> kstate" where
  "release_process_tree_lock s = s\<lparr>process_lock := spin_unlock (process_lock s)\<rparr>"


section \<open>Descriptor tables are kept consistent\<close>

fun used_slots :: "file_handle_t option list \<Rightarrow> nat" where
  "used_slots [] = 0"
| "used_slots (h # hs) = (if h = None then 0 else 1) + used_slots hs"

definition fd_ok :: "fd_table_t \<Rightarrow> bool" where
  "fd_ok t \<longleftrightarrow> 0 \<le> fd_capacity t \<and> fd_capacity t < 2 ^ 31 \<and> length (fd_handles t) = nat (fd_capacity t) \<and>
     fd_length t = int (used_slots (fd_handles t)) \<and> \<not> fd_lock t"

lemma used_slots_update:
  "i < length hs \<Longrightarrow> int (used_slots (hs[i := h])) =
    int (used_slots hs) - (if hs ! i = None then 0 else 1) + (if h = None then 0 else 1)"
proof (induction hs arbitrary: i)
  case (Cons x hs)
  show ?case
  proof (cases i)
    case (Suc k)
    then show ?thesis using Cons.IH [of k] Cons.prems by simp
  qed simp
qed simp

lemma used_slots_le: "used_slots hs \<le> length hs"
  by (induction hs) auto

lemma used_slots_full: "used_slots hs = length hs \<longleftrightarrow> None \<notin> set hs"
proof (induction hs)
  case (Cons h hs)
  then show ?case using used_slots_le [of hs] by auto
qed simp

lemma free_slot_lowest:
  assumes "None \<in> set hs"
  shows "free_slot hs (length hs) < length hs \<and> hs ! free_slot hs (length hs) = None \<and>
    (\<forall>j < free_slot hs (length hs). hs ! j \<noteq> None)"
proof (cases "List.find (\<lambda>i. hs ! i = None) [0..<length hs]")
  case None
  then have "\<forall>i < length hs. hs ! i \<noteq> None" by (auto simp: find_None_iff)
  then show ?thesis using assms by (auto simp: in_set_conv_nth)
next
  case (Some k)
  then obtain i where "i < length [0..<length hs]" "hs ! ([0..<length hs] ! i) = None"
    "k = [0..<length hs] ! i" "\<forall>j < i. hs ! ([0..<length hs] ! j) \<noteq> None" by (auto simp: find_Some_iff)
  then show ?thesis using Some by (auto simp: free_slot_def)
qed

lemma process_open_fd_ok:
  fixes node :: ptr and mode :: int
  assumes "at (procs s) (current_process s) = Some x" "at (fd_tables s) (p_fd_table x) = Some t" "fd_ok t"
    "None \<in> set (fd_handles t)"
  defines "i \<equiv> free_slot (fd_handles t) (length (fd_handles t))"
  defines "t' \<equiv> t\<lparr>fd_handles := (fd_handles t)[i := Some \<lparr>fh_fileNode = node, fh_mode = mode, fh_offset = 0, fh_flags = 0\<rparr>],
      fd_length := fd_length t + 1, fd_lock := False\<rparr>"
  shows "process_open_fd node mode s = Some (int i, s\<lparr>fd_tables := (fd_tables s)(p_fd_table x \<mapsto> t')\<rparr>)" "fd_ok t'"
proof -
  note fs = free_slot_lowest [OF assms(4)]
  have "used_slots (fd_handles t) < length (fd_handles t)"
    using used_slots_le [of "fd_handles t"] used_slots_full [of "fd_handles t"] assms(4) by linarith
  then have l: "fd_length t < fd_capacity t" "fd_length t + 1 \<le> fd_capacity t" "fd_capacity t < 2 ^ 31" "0 \<le> fd_length t"
    using assms(3) by (auto simp: fd_ok_def)
  have w: "wrap_int (fd_length t + 1) = fd_length t + 1" using l by (intro wrap_int_small) auto
  show "process_open_fd node mode s = Some (int i, s\<lparr>fd_tables := (fd_tables s)(p_fd_table x \<mapsto> t')\<rparr>)"
    using assms(1-3) l fs w
    by (auto simp: process_open_fd_def fd_ok_def spin_lock_def spin_unlock_def i_def t'_def Let_def)
  show "fd_ok t'"
    using assms(3) fs used_slots_update [of i "fd_handles t"] by (simp add: fd_ok_def t'_def i_def)
qed


lemma children_exist:
  "rose_at h par t \<Longrightarrow> q \<in> set (addrs t) \<Longrightarrow> nrd h q = Some e \<Longrightarrow> \<forall>c \<in> set (tn_children e). \<exists>o'. nrd h c = Some o'"
proof (induction t arbitrary: par)
  case (Rose p v ts)
  show ?case
  proof (cases "q = p")
    case True
    then have "tn_children e = map r_addr ts" using Rose.prems by (auto simp: nrd_def)
    moreover have "\<exists>o'. nrd h (r_addr t) = Some o'" if "t \<in> set ts" for t
    proof -
      have "rose_at h p t" using Rose.prems(1) that by simp
      then have "\<exists>e. r_addr t \<noteq> NULL \<and> h (r_addr t) = Some e" by (rule rose_at_in) simp
      then show ?thesis by (auto simp: nrd_def)
    qed
    ultimately show ?thesis by auto
  next
    case False
    then obtain t where t: "t \<in> set ts" "q \<in> set (addrs t)" using Rose.prems(2) by (auto simp: addrs_Rose)
    then have "rose_at h p t" using Rose.prems(1) by simp
    then show ?thesis using Rose.IH [OF t(1) _ t(2) Rose.prems(3)] by blast
  qed
qed

lemma release_handles_total:
  "len = int (used_slots hs) \<Longrightarrow> i + int (length hs) = capacity \<Longrightarrow> release_handles hs i len capacity \<noteq> None"
proof (induction hs arbitrary: i len)
  case (Cons h hs)
  show ?case
  proof (cases "len \<le> 0")
    case False
    have "release_handles hs (i + 1) (if h = None then len else len - 1) capacity \<noteq> None"
      using Cons.prems by (intro Cons.IH) (auto split: if_splits)
    then show ?thesis using False by (auto split: if_splits)
  qed simp
qed simp

lemma release_fd_table_ok:
  assumes "at (procs s) p = Some x" "at (fd_tables s) (p_fd_table x) = Some t" "fd_ok t"
  shows "release_fd_table p s =
    (if fd_length t > 0 then Some (s\<lparr>fd_tables := (fd_tables s)(p_fd_table x := None),
       procs := (procs s)(p \<mapsto> x\<lparr>p_fd_table := NULL\<rparr>)\<rparr>) else Some s)"
proof -
  have "release_handles (fd_handles t) 0 (fd_length t) (fd_capacity t) \<noteq> None"
    using assms(3) by (intro release_handles_total) (auto simp: fd_ok_def)
  then show ?thesis using assms
    by (auto simp: release_fd_table_def fd_ok_def spin_lock_def upd_proc_def at_def split: if_splits)
qed

section \<open>Linking and unlinking\<close>

lemma insert_in_tree_ok:
  assumes "tree_repr (tree_heap s) (process_tree s) r" "q \<in> set (addrs r)" "node \<notin> set (addrs r)" "node \<noteq> NULL"
  shows "\<exists>h t. insert_in_tree n q p node s = Some (s\<lparr>tree_heap := h, process_tree := t\<rparr>) \<and>
    tree_repr h t (graft q (Rose node p []) r)"
proof -
  from tree_insert_child_repr [OF assms, of n p] obtain h t where
    "tree_insert_child n (tree_heap s) (process_tree s) q p node = Some (h, t, [], [])"
    "tree_repr h t (graft q (Rose node p []) r)" by blast
  then show ?thesis by (intro exI [of _ h] exI [of _ t]) (cases s, simp add: insert_in_tree_def restrict_map_def)
qed

definition parent_node :: "ptr \<Rightarrow> rose \<Rightarrow> ptr" where
  \<comment> \<open>the node of a process, or the root when it has none\<close>
  "parent_node p r = (if first_with p (preorder r) = NULL then r_addr r else first_with p (preorder r))"

lemma parent_node_in: "parent_node p r \<in> set (addrs r)"
  using first_with_in [of p "preorder r"] by (simp add: parent_node_def addrs_conv)

lemma link_child_ok:
  assumes "tree_repr (tree_heap s) (process_tree s) r" "depth r \<le> n" "node \<notin> set (addrs r)" "node \<noteq> NULL"
  shows "\<exists>h t. link_child n parent p node s = Some (s\<lparr>process_list := process_list s @ [p],
      thread_queue := thread_queue s @ [p], tree_heap := h, process_tree := t\<rparr>) \<and>
    tree_repr h t (graft (parent_node parent r) (Rose node p []) r)"
proof -
  let ?s1 = "s\<lparr>process_list := process_list s @ [p], thread_queue := thread_queue s @ [p]\<rparr>"
  have t: "t_head (process_tree s) = r_addr r" using assms(1) by (simp add: tree_repr_def)
  have "tree_repr (tree_heap ?s1) (process_tree ?s1) r" using assms(1) by simp
  from insert_in_tree_ok [OF this parent_node_in assms(3,4), of n parent p] obtain h t where
    "insert_in_tree n (parent_node parent r) p node ?s1 = Some (?s1\<lparr>tree_heap := h, process_tree := t\<rparr>)"
    "tree_repr h t (graft (parent_node parent r) (Rose node p []) r)" by blast
  moreover have "link_child n parent p node s = insert_in_tree n (parent_node parent r) p node ?s1"
    using find_in_tree [OF assms(1,2)] t by (simp add: link_child_def parent_node_def)
  ultimately show ?thesis by (intro exI [of _ h] exI [of _ t]) simp
qed

lemma sched_ok_add:
  assumes "sched_ok ms ps s" "p \<noteq> NULL" "p \<noteq> kernel_idle_process s" "procs s p = Some x"
    "at (mms s) (p_page_directory x) = Some mm"
  shows "sched_ok ms (ps @ [p]) (s\<lparr>process_list := l, thread_queue := thread_queue s @ [p], tree_heap := h, process_tree := t\<rparr>)"
    (is "sched_ok _ _ ?s")
proof -
  have w: "waiting_of ?s = waiting_of s" by (simp add: waiting_of_def fun_eq_iff)
  have "objects_ok ms (ps @ [p]) ?s" using assms by (auto simp: sched_ok_def objects_ok_def)
  moreover have "mset (places ms ?s) = mset (ps @ [p])"
    using assms(1) by (auto simp: sched_ok_def places_def queued_def w split: if_splits)
  ultimately show ?thesis by (simp add: sched_ok_def)
qed

lemma kill_threads_nop:
  assumes r: "tree_repr (tree_heap s) (process_tree s) r" "depth r \<le> n" and p: "first_with p (preorder r) \<noteq> NULL"
    and x: "at (procs s) p = Some x" "p_flags x = PROC_FLAG_FINISHED"
  shows "kill_threads n p retval s = Some s"
proof -
  let ?q = "first_with p (preorder r)"
  have a: "?q \<in> set (addrs r)" using first_with_in [OF p] by (simp add: addrs_conv)
  have ro: "rose_at (tree_heap s) NULL r" using r(1) by (simp add: tree_repr_def)
  obtain e where e: "nrd (tree_heap s) ?q = Some e" using rose_at_in [OF ro a] by (auto simp: nrd_def)
  have kids: "\<forall>c \<in> set (tn_children e). \<exists>o'. nrd (tree_heap s) c = Some o'"
    using children_exist [OF ro a] e by blast
  have f: "PROC_FLAG_FINISHED AND PROC_FLAG_FINISHED \<noteq> 0" by (simp add: PROC_FLAG_FINISHED_def)
  have "foldM (\<lambda>c s. do { other \<leftarrow> nrd (tree_heap s) c; x \<leftarrow> at (procs s) p;
      if to_int (tn_parent other) = p_id x \<and> p_flags x AND PROC_FLAG_FINISHED = 0 then process_terminate c retval s
      else Some s }) cs s = Some s" if "\<forall>c \<in> set cs. \<exists>o'. nrd (tree_heap s) c = Some o'" for cs
    using that x f by (induction cs) auto
  then show ?thesis using find_in_tree [OF r] e kids by (simp add: kill_threads_def)
qed


lemma remove_by_index_at:
  assumes "ps = as @ p # bs" "as @ bs \<noteq> []"
  shows "remove_by_index (Suc (length as)) ps = Some (as @ bs)"
  using assms by (auto simp: remove_by_index_def)

lemma children_recur_spec:
  assumes "\<And>t ys. t \<in> set ts \<Longrightarrow> process_get_children_recur n h (r_addr t) ys = Some (ys @ tl (map snd (preorder t)))"
    "\<And>t. t \<in> set ts \<Longrightarrow> rose_at h par t"
  shows "children_recur n h (map r_addr ts) xs = Some (xs @ concat (map (\<lambda>t. map snd (preorder t)) ts))"
  using assms
proof (induction ts arbitrary: xs)
  case (Cons t ts)
  obtain p v us where t: "t = Rose p v us" by (cases t)
  have "nrd h p = Some \<lparr>tn_value = v, tn_children = map r_addr us, tn_parent = par\<rparr>"
    using Cons.prems(2) [of t] t by (simp add: nrd_def)
  moreover have "process_get_children_recur n h p ys = Some (ys @ tl (map snd (preorder t)))" for ys
    using Cons.prems(1) [of t ys] t by simp
  ultimately show ?case using Cons.IH [OF Cons.prems] t by simp
qed simp

lemma process_get_children_spec:
  "rose_at h par t \<Longrightarrow> depth t \<le> n \<Longrightarrow>
   process_get_children_recur n h (r_addr t) xs = Some (xs @ tl (map snd (preorder t)))"
proof (induction n arbitrary: par t xs)
  case 0
  then show ?case using depth_pos [of t] by simp
next
  case (Suc n)
  obtain p v ts where t: "t = Rose p v ts" by (cases t)
  have r: "rose_at h p u" if "u \<in> set ts" for u using Suc.prems(1) t that by simp
  have "process_get_children_recur n h (r_addr u) ys = Some (ys @ tl (map snd (preorder u)))" if "u \<in> set ts" for u ys
    using Suc.IH [OF r [OF that]] depth_kid [OF that] Suc.prems(2) t by simp
  then have "children_recur n h (map r_addr ts) xs = Some (xs @ concat (map (\<lambda>t. map snd (preorder t)) ts))"
    using r by (rule children_recur_spec)
  then show ?case using Suc.prems(1) t by (simp add: nrd_def map_concat comp_def)
qed

lemma objects_ok_subset: "objects_ok ms ps s \<Longrightarrow> set ps' \<subseteq> set ps \<Longrightarrow> objects_ok ms ps' s"
  unfolding objects_ok_def by blast

lemma exit_objects:
  assumes "sched_ok ms ps s" "procs s p = Some x" "p_page_directory y = p_page_directory x"
  shows "objects_ok ms (remove1 q ps) (s\<lparr>procs := (procs s)(p \<mapsto> y), fd_tables := f\<rparr>)"
proof -
  have "objects_ok ms ps (s\<lparr>procs := (procs s)(p \<mapsto> y)\<rparr>)"
    using assms by (intro objects_ok_proc [of _ _ _ _ x]) (auto simp: sched_ok_def)
  then have "objects_ok ms ps (s\<lparr>procs := (procs s)(p \<mapsto> y), fd_tables := f\<rparr>)" by (simp add: objects_ok_def)
  then show ?thesis using set_remove1_subset [of q ps] by (rule objects_ok_subset)
qed

lemma process_exit_ok:
  assumes "sched_ok ms ps s" "current_process s \<noteq> kernel_idle_process s" "distinct ps"
    "procs s (current_process s) = Some x" "p_id x \<noteq> 1" "at (fd_tables s) (p_fd_table x) = Some t" "fd_ok t"
    "tree_repr (tree_heap s) (process_tree s) r" "depth r \<le> n" "first_with (current_process s) (preorder r) \<noteq> NULL"
  shows "\<exists>s' y. process_exit n retval s = Some s' \<and> sched_ok ms (remove1 (current_process s) ps) s' \<and>
    current_process s \<notin> set (places ms s') \<and> current_process s' = hd_or (kernel_idle_process s) (thread_queue s) \<and>
    procs s' (current_process s) = Some y \<and> p_status y = retval \<and> p_flags y AND PROC_FLAG_FINISHED \<noteq> 0"
proof -
  let ?p = "current_process s"
  have p: "?p \<noteq> NULL" using current_ok [OF assms(1)] by simp
  let ?s1 = "s\<lparr>procs := (procs s)(?p \<mapsto> x\<lparr>p_status := retval\<rparr>)\<rparr>"
  have s1: "upd_proc ?p (\<lambda>x. x\<lparr>p_status := retval\<rparr>) s = Some ?s1" using p assms(4) by (simp add: upd_proc_def at_def)
  have "at (procs ?s1) ?p = Some (x\<lparr>p_status := retval\<rparr>)" "at (fd_tables ?s1) (p_fd_table (x\<lparr>p_status := retval\<rparr>)) = Some t"
    using p assms(6) by (simp_all add: at_def)
  note rel = release_fd_table_ok [OF this assms(7)]
  obtain f z where s2: "release_fd_table ?p ?s1 = Some (s\<lparr>procs := (procs s)(?p \<mapsto> z), fd_tables := f\<rparr>)"
    "p_status z = retval" "p_page_directory z = p_page_directory x"
  proof (cases "fd_length t > 0")
    case True
    then show ?thesis using that [of "(fd_tables s)(p_fd_table x := None)" "x\<lparr>p_status := retval, p_fd_table := NULL\<rparr>"] rel
      by simp
  next
    case False
    then show ?thesis using that [of "fd_tables s" "x\<lparr>p_status := retval\<rparr>"] rel by simp
  qed
  let ?y = "z\<lparr>p_cwd := None, p_flags := PROC_FLAG_FINISHED\<rparr>"
  let ?s3 = "s\<lparr>procs := (procs s)(?p \<mapsto> ?y), fd_tables := f\<rparr>"
  have s3: "upd_proc ?p (\<lambda>x. x\<lparr>p_cwd := None, p_flags := PROC_FLAG_FINISHED\<rparr>)
      (s\<lparr>procs := (procs s)(?p \<mapsto> z), fd_tables := f\<rparr>) = Some ?s3" using p by (simp add: upd_proc_def at_def)
  have k: "kill_threads n ?p retval ?s3 = Some ?s3" using assms(8-10) p by (intro kill_threads_nop) (auto simp: at_def)
  then have e: "process_exit n retval s = schedule True ?s3"
    using s1 s2(1) s3 assms(4,5) p by (simp add: process_exit_def at_def Let_def)
  have o: "objects_ok ms (remove1 ?p ps) ?s3" using exit_objects [OF assms(1,4)] s2(3) by simp
  have q: "mset (queued ms ?s3) = mset (remove1 ?p ps)"
  proof -
    have "waiting_of ?s3 = waiting_of s" by (simp add: waiting_of_def fun_eq_iff)
    then have "mset (queued ms ?s3) = mset (queued ms s)" by (simp add: queued_def)
    moreover have "add_mset ?p (mset (queued ms s)) = mset ps" using assms(1,2) by (simp add: sched_ok_def places_def)
    ultimately show ?thesis by (metis add_mset_remove_trivial mset_remove1)
  qed
  obtain s' where s': "schedule True ?s3 = Some s'" "sched_ok ms (remove1 ?p ps) s'"
    "current_process s' = hd_or (kernel_idle_process s) (thread_queue s)"
    using schedule_True_any [OF o q] p by auto
  obtain w where w: "procs s' ?p = Some w" "same_proc ?y w" using schedule_True_procs [OF s'(1), of ?p ?y] by auto
  have "p_status w = retval \<and> p_flags w AND PROC_FLAG_FINISHED \<noteq> 0"
    using w(2) s2(2) by (auto simp: same_proc_def PROC_FLAG_FINISHED_def)
  moreover have "?p \<notin> set (places ms s')"
    using s'(2) assms(3) mset_eq_setD [of "places ms s'" "remove1 ?p ps"] by (auto simp: sched_ok_def)
  ultimately show ?thesis using e s' w(1) by auto
qed

section \<open>Properties\<close>

definition demo_handle :: file_handle_t where
  "demo_handle = \<lparr>fh_fileNode = 800, fh_mode = 0, fh_offset = 5, fh_flags = 0\<rparr>"

definition demo_fds :: fd_table_t where
  "demo_fds = \<lparr>fd_capacity = 3, fd_length = 1, fd_handles = [Some demo_handle, None, None], fd_process_count = 0, fd_lock = False\<rparr>"

definition demo_proc :: "int \<Rightarrow> process_t" where
  "demo_proc pid = empty_proc\<lparr>p_id := pid, p_fd_table := 100, p_page_directory := 200\<rparr>"

definition demo_life :: kstate where
  \<comment> \<open>processes 1, 2 and 3 in the tree of \<open>demo_rose\<close>; 2 runs, 9 is the idle process\<close>
  "demo_life = empty_kstate\<lparr>procs := [1 \<mapsto> demo_proc 1, 2 \<mapsto> demo_proc 2, 3 \<mapsto> demo_proc 3, 9 \<mapsto> empty_proc],
     fd_tables := [100 \<mapsto> demo_fds], mms := [200 \<mapsto> new_mm 4096], process_list := [1, 2, 3],
     process_tree := demo_tree, tree_heap := demo_tree_heap, thread_queue := [3, 1], current_process := 2,
     kernel_idle_process := 9\<rparr>"

lemma demo_life_simps [simp]:
  "procs demo_life = [1 \<mapsto> demo_proc 1, 2 \<mapsto> demo_proc 2, 3 \<mapsto> demo_proc 3, 9 \<mapsto> empty_proc]"
  "fd_tables demo_life = [100 \<mapsto> demo_fds]" "mms demo_life = [200 \<mapsto> new_mm 4096]" "process_list demo_life = [1, 2, 3]"
  "process_tree demo_life = demo_tree" "tree_heap demo_life = demo_tree_heap" "thread_queue demo_life = [3, 1]"
  "current_process demo_life = 2" "kernel_idle_process demo_life = 9" "sleeping_queue demo_life = []"
  "mutexes demo_life = Map.empty" "sleep_lock demo_life = False"
  by (simp_all add: demo_life_def empty_kstate_def)

lemma demo_proc_simps [simp]:
  "p_id (demo_proc i) = i" "p_fd_table (demo_proc i) = 100" "p_page_directory (demo_proc i) = 200"
  by (simp_all add: demo_proc_def)

lemma demo_fds_ok: "fd_ok demo_fds"
  by (simp add: fd_ok_def demo_fds_def)

lemma demo_life_ok: "sched_ok [] [1, 2, 3] demo_life"
  by (auto simp: sched_ok_def objects_ok_def places_def queued_def at_def)

text \<open>\<^verbatim>\<open>process_open_fd\<close> returns the lowest free descriptor: with a consistent table it installs the handle there,
  leaves every other descriptor alone and keeps the table consistent; with a full table it returns -1 and changes nothing.\<close>

theorem process_open_fd_lowest:
  assumes "at (procs s) (current_process s) = Some x" "at (fd_tables s) (p_fd_table x) = Some t" "fd_ok t"
  shows "if None \<in> set (fd_handles t)
    then \<exists>i t'. process_open_fd node mode s = Some (int i, s\<lparr>fd_tables := (fd_tables s)(p_fd_table x \<mapsto> t')\<rparr>) \<and>
      i < length (fd_handles t) \<and> fd_handles t ! i = None \<and> (\<forall>j < i. fd_handles t ! j \<noteq> None) \<and> fd_ok t' \<and>
      fd_handles t' = (fd_handles t)[i := Some \<lparr>fh_fileNode = node, fh_mode = mode, fh_offset = 0, fh_flags = 0\<rparr>]
    else process_open_fd node mode s = Some (-1, s)"
proof (cases "None \<in> set (fd_handles t)")
  case True
  note ok = process_open_fd_ok [OF assms True, where node = node and mode = mode]
  then show ?thesis using True free_slot_lowest [OF True] by fastforce
next
  case False
  then have "fd_length t = fd_capacity t" using assms(3) used_slots_full [of "fd_handles t"] by (auto simp: fd_ok_def)
  then show ?thesis using False assms by (simp add: process_open_fd_def)
qed

theorem process_open_fd_lowest_witness:
  "\<exists>i t'. process_open_fd 900 2 demo_life = Some (int i, demo_life\<lparr>fd_tables := (fd_tables demo_life)(100 \<mapsto> t')\<rparr>) \<and> i < 3 \<and> fd_ok t'"
  using process_open_fd_lowest [of demo_life "demo_proc 2" demo_fds 900 2] demo_fds_ok
  by (auto simp: at_def demo_fds_def)

text \<open>C33. Opening and closing a descriptor is a round trip: \<^verbatim>\<open>process_close_fd\<close> of the descriptor that \<^verbatim>\<open>process_open_fd\<close> returned
  restores the table and the rest of the kernel state, and calls the close operation of the file exactly once if it has one.\<close>

theorem open_close_fd_roundtrip:
  assumes "at (procs (mk m)) (current_process (mk m)) = Some x" "at (fd_tables (mk m)) (p_fd_table x) = Some t" "fd_ok t"
    "None \<in> set (fd_handles t)" "node \<noteq> NULL"
  shows "\<exists>i s. process_open_fd node mode (mk m) = Some (i, s) \<and>
    process_close_fd i (m\<lparr>mk := s\<rparr>) = Some (m\<lparr>m_closed := m_closed m @ (if m_has_close m node then [node] else [])\<rparr>)"
proof -
  define i where "i = free_slot (fd_handles t) (length (fd_handles t))"
  define t' where "t' = t\<lparr>fd_handles := (fd_handles t)[i := Some \<lparr>fh_fileNode = node, fh_mode = mode, fh_offset = 0, fh_flags = 0\<rparr>],
      fd_length := fd_length t + 1, fd_lock := False\<rparr>"
  let ?s = "(mk m)\<lparr>fd_tables := (fd_tables (mk m))(p_fd_table x \<mapsto> t')\<rparr>"
  note ok = process_open_fd_ok [OF assms(1-4), where node = node and mode = mode, folded i_def, folded t'_def]
  have i: "i < length (fd_handles t)" "fd_handles t ! i = None" using free_slot_lowest [OF assms(4)] by (auto simp: i_def)
  have l: "\<not> fd_lock t" "fd_length t < 2 ^ 31" "0 \<le> fd_length t" "p_fd_table x \<noteq> NULL" "fd_tables (mk m) (p_fd_table x) = Some t"
    using assms(2,3) used_slots_le [of "fd_handles t"] by (auto simp: fd_ok_def at_def split: if_splits)
  have w: "wrap_int (fd_length t) = fd_length t" using l by (intro wrap_int_small) auto
  have t: "t'\<lparr>fd_handles := (fd_handles t)[i := None], fd_length := fd_length t, fd_lock := False\<rparr> = t"
    using l(1) i by (cases t) (auto simp: t'_def list_update_same_conv)
  have "process_close_fd (int i) (m\<lparr>mk := ?s\<rparr>) =
    Some (m\<lparr>m_closed := m_closed m @ (if m_has_close m node then [node] else []),
      mk := (mk m)\<lparr>fd_tables := (fd_tables (mk m))(p_fd_table x \<mapsto> t)\<rparr>\<rparr>)"
    using assms(1,5) l(4) i w t
    by (simp add: process_close_fd_def at_def spin_lock_def spin_unlock_def t'_def split: if_splits)
  moreover have "(fd_tables (mk m))(p_fd_table x \<mapsto> t) = fd_tables (mk m)" using l(5) by auto
  ultimately show ?thesis using ok(1) by (auto intro!: exI [of _ "int i"] exI [of _ ?s])
qed


definition demo_machine :: machine where
  "demo_machine = \<lparr>mk = demo_life, mv = demo_vmm, m_regs = Map.empty, m_has_close = (\<lambda>n. n = 900), m_closed = []\<rparr>"

theorem open_close_fd_roundtrip_witness:
  "\<exists>i s. process_open_fd 900 2 demo_life = Some (i, s) \<and>
    process_close_fd i (demo_machine\<lparr>mk := s\<rparr>) = Some (demo_machine\<lparr>m_closed := [900]\<rparr>)"
  using open_close_fd_roundtrip [of demo_machine "demo_proc 2" demo_fds 900 2] demo_fds_ok
  by (simp add: at_def demo_fds_def demo_machine_def)

text \<open>\<^verbatim>\<open>process_fork\<close> links the child completely: the process list and the ready queue get the child as their last
  entry, the tree gets it as the last child of its parent's node (of the root when the parent has none), and the scheduler's
  bookkeeping stays consistent with the child added.\<close>

theorem fork_links_child:
  assumes "sched_ok ms ps s" "tree_repr (tree_heap s) (process_tree s) r" "depth r \<le> n"
    "node \<notin> set (addrs r)" "node \<noteq> NULL" "p \<noteq> NULL" "p \<noteq> kernel_idle_process s" "procs s p = Some x"
    "at (mms s) (p_page_directory x) = Some mm"
  shows "\<exists>s'. link_child n parent p node s = Some s' \<and> sched_ok ms (ps @ [p]) s' \<and>
    process_list s' = process_list s @ [p] \<and> thread_queue s' = thread_queue s @ [p] \<and>
    tree_repr (tree_heap s') (process_tree s') (graft (parent_node parent r) (Rose node p []) r) \<and> procs s' = procs s"
proof -
  obtain h t where "link_child n parent p node s = Some (s\<lparr>process_list := process_list s @ [p],
      thread_queue := thread_queue s @ [p], tree_heap := h, process_tree := t\<rparr>)"
    "tree_repr h t (graft (parent_node parent r) (Rose node p []) r)"
    using link_child_ok [OF assms(2-5)] by blast
  then show ?thesis using sched_ok_add [OF assms(1,6-9)] by simp
qed

theorem fork_links_child_witness:
  "\<exists>s'. link_child 2 2 4 64 (demo_life\<lparr>procs := (procs demo_life)(4 \<mapsto> demo_proc 4)\<rparr>) = Some s' \<and>
    thread_queue s' = [3, 1, 4] \<and>
    tree_repr (tree_heap s') (process_tree s') (Rose 16 1 [Rose 32 2 [Rose 64 4 []], Rose 48 3 []])"
proof -
  let ?s = "demo_life\<lparr>procs := (procs demo_life)(4 \<mapsto> demo_proc 4)\<rparr>"
  have "sched_ok [] [1, 2, 3] ?s"
    by (auto simp: sched_ok_def objects_ok_def places_def queued_def at_def)
  moreover have "graft (parent_node 2 demo_rose) (Rose 64 4 []) demo_rose = Rose 16 1 [Rose 32 2 [Rose 64 4 []], Rose 48 3 []]"
    by (simp add: parent_node_def demo_rose_def first_with_def)
  ultimately show ?thesis
    using fork_links_child [of "[]" "[1, 2, 3]" ?s demo_rose 2 64 4 "demo_proc 4" "new_mm 4096" 2] demo_rose_facts
    by (auto simp: at_def)
qed

text \<open>C31. \<^verbatim>\<open>process_exit\<close> takes the process out of scheduling: for a process other than init with a consistent descriptor table
  and a node in the process tree it does not fault, the process is finished with the given status and in none of the queues, the
  next ready process runs, and the bookkeeping of the other processes stays consistent.\<close>

theorem process_exit_leaves_scheduler:
  assumes "sched_ok ms ps s" "current_process s \<noteq> kernel_idle_process s" "distinct ps"
    "procs s (current_process s) = Some x" "p_id x \<noteq> 1" "at (fd_tables s) (p_fd_table x) = Some t" "fd_ok t"
    "tree_repr (tree_heap s) (process_tree s) r" "depth r \<le> n" "first_with (current_process s) (preorder r) \<noteq> NULL"
  shows "\<exists>s' y. process_exit n retval s = Some s' \<and> sched_ok ms (remove1 (current_process s) ps) s' \<and>
    current_process s \<notin> set (places ms s') \<and> current_process s' = hd_or (kernel_idle_process s) (thread_queue s) \<and>
    procs s' (current_process s) = Some y \<and> p_status y = retval \<and> p_flags y AND PROC_FLAG_FINISHED \<noteq> 0"
  using assms by (rule process_exit_ok)

theorem process_exit_leaves_scheduler_witness:
  "\<exists>s'. process_exit 2 7 demo_life = Some s' \<and> current_process s' = 3 \<and> sched_ok [] [1, 3] s'"
  using process_exit_leaves_scheduler [OF demo_life_ok, of "demo_proc 2" demo_fds demo_rose 2 7] demo_fds_ok demo_rose_facts
  by (auto simp: at_def hd_or_def demo_rose_def first_with_def)


text \<open>C32. \<^verbatim>\<open>process_reap\<close> of a finished process other than the root of the tree frees it everywhere: its subtree leaves the process tree,
  the process leaves the process list (which had another entry), its structure is freed, and its address space is released
  when it was the last user of it and only uncounted otherwise.\<close>

theorem process_reap_unlinks:
  assumes "at (procs (mk m)) p = Some x" "p_flags x AND PROC_FLAG_FINISHED \<noteq> 0"
    "tree_repr (tree_heap (mk m)) (process_tree (mk m)) r" "depth r \<le> n"
    "first_with p (preorder r) \<noteq> NULL" "first_with p (preorder r) \<noteq> r_addr r"
    "process_list (mk m) = as @ p # bs" "p \<notin> set as" "as @ bs \<noteq> []"
    "at (mms (mk m)) (p_page_directory x) = Some d" "0 < mm_process_count d" "mm_process_count d < 2 ^ 31" "\<not> mm_lock d"
    "memmgr_clear_page_map (mm_page_directory d) (memory m) = Some v"
  shows "\<exists>m'. process_reap n p m = Some m' \<and> process_list (mk m') = as @ bs \<and> procs (mk m') p = None \<and>
    tree_repr (tree_heap (mk m')) (process_tree (mk m')) (prune (first_with p (preorder r)) r) \<and>
    (if mm_process_count d = 1 then mms (mk m') (p_page_directory x) = None \<and> mv m' = v
     else mms (mk m') (p_page_directory x) = Some (d\<lparr>mm_process_count := mm_process_count d - 1\<rparr>) \<and> mv m' = mv m)"
proof -
  let ?q = "first_with p (preorder r)"
  have "?q \<in> set (addrs r)" using first_with_in [OF assms(5)] by (simp add: addrs_conv)
  from tree_remove_repr [OF assms(3) this assms(6,4)] obtain h t where
    t: "tree_remove n (tree_heap (mk m)) (process_tree (mk m)) ?q = Some (h, t)" "tree_repr h t (prune ?q r)" by blast
  have "takeWhile (\<lambda>q. q \<noteq> p) (as @ p # bs) = as" using assms(8) by (auto simp: takeWhile_append takeWhile_eq_all_conv)
  then have l: "remove_by_index (Suc (length (takeWhile (\<lambda>q. q \<noteq> p) (process_list (mk m))))) (process_list (mk m)) = Some (as @ bs)"
    using remove_by_index_at [OF assms(7,9)] assms(7) by simp
  have i: "p \<in> set (process_list (mk m))" using assms(7) by simp
  have w: "wrap_int (mm_process_count d - 1) = mm_process_count d - 1" using assms(11,12) by (intro wrap_int_small) auto
  note step = process_reap_def Let_def find_in_tree [OF assms(3,4)] t(1) l i w
  show ?thesis
  proof (cases "mm_process_count d = 1")
    case True
    have "process_reap n p m = Some (m\<lparr>mv := v, mk := (mk m)\<lparr>tree_heap := h, process_tree := t, process_list := as @ bs,
        mms := (mms (mk m))(p_page_directory x := None), procs := (procs (mk m))(p := None)\<rparr>\<rparr>)"
      using True assms(1,2,5,10,13,14) by (simp add: step spin_lock_def wrap_int_small)
    then show ?thesis using True t(2) by simp
  next
    case False
    have "process_reap n p m = Some (m\<lparr>mv := mv m, mk := (mk m)\<lparr>tree_heap := h, process_tree := t, process_list := as @ bs,
        mms := (mms (mk m))(p_page_directory x \<mapsto> d\<lparr>mm_process_count := mm_process_count d - 1\<rparr>),
        procs := (procs (mk m))(p := None)\<rparr>\<rparr>)"
      using False assms(1,2,5,10,11) by (simp add: step)
    then show ?thesis using False t(2) by simp
  qed
qed


lemma foldM_nop: "(\<And>x. x \<in> set xs \<Longrightarrow> f x s = Some s) \<Longrightarrow> foldM f xs s = Some s"
  by (induction xs) auto

lemma demo_clear: "\<exists>v. memmgr_clear_page_map 0x5000 demo_vmm = Some v"
proof -
  have z: "rdw demo_vmm a = 0" for a by (simp add: rdw_def demo_vmm_def)
  have l: "\<not> pm_lock (vm_pmm demo_vmm)" by (simp add: demo_vmm_def pmm_upto_def)
  obtain p where p: "kfreev 0 demo_vmm = Some (demo_vmm\<lparr>vm_pmm := p\<rparr>)" "\<not> pm_lock p"
    using l by (auto simp: kfreev_def kfree_frame_def memmgr_phys_free_page_def ADDRESS_TO_PAGE_def Let_def
        demo_vmm_def pmm_upto_def BITMAP_SIZE_def to_int_def)
  have "\<exists>v. kfreev 0x5000 (demo_vmm\<lparr>vm_pmm := p\<rparr>) = Some v"
    using kfreev_ok [of "demo_vmm\<lparr>vm_pmm := p\<rparr>" "0x5000"] p(2) by (auto simp: frame_no_def)
  then show ?thesis
    by (simp add: memmgr_clear_page_map_def Let_def z foldM_nop p(1))
qed

definition demo_finished :: machine where
  \<comment> \<open>process 2 is finished; it is the only user of the address space at 0x5000\<close>
  "demo_finished = demo_machine\<lparr>mk := demo_life\<lparr>procs := (procs demo_life)(2 \<mapsto> (demo_proc 2)\<lparr>p_flags := PROC_FLAG_FINISHED,
     p_page_directory := 300\<rparr>), mms := [200 \<mapsto> new_mm 4096, 300 \<mapsto> new_mm 0x5000], current_process := 1,
     thread_queue := [3], current_page_map := 0x1000\<rparr>\<rparr>"

theorem process_reap_unlinks_witness:
  "\<exists>m'. process_reap 2 2 demo_finished = Some m' \<and> process_list (mk m') = [1, 3] \<and> procs (mk m') 2 = None \<and>
    mms (mk m') 300 = None \<and> tree_repr (tree_heap (mk m')) (process_tree (mk m')) (Rose 16 1 [Rose 48 3 []])"
proof -
  have mem: "memory demo_finished = demo_vmm"
    by (simp add: memory_def demo_finished_def demo_machine_def demo_vmm_def)
  obtain v where v: "memmgr_clear_page_map (mm_page_directory (new_mm 0x5000)) (memory demo_finished) = Some v"
    using demo_clear by (auto simp: mem new_mm_def)
  have pr: "prune 32 demo_rose = Rose 16 1 [Rose 48 3 []]" "first_with 2 (preorder demo_rose) = 32"
    by (simp_all add: demo_rose_def first_with_def)
  show ?thesis
    using process_reap_unlinks [of demo_finished 2 "(demo_proc 2)\<lparr>p_flags := PROC_FLAG_FINISHED, p_page_directory := 300\<rparr>"
        demo_rose 2 "[1]" "[3]" "new_mm 0x5000" v] v demo_rose_facts pr
    by (auto simp: at_def demo_finished_def demo_machine_def PROC_FLAG_FINISHED_def new_mm_def)
qed

text \<open>\<^verbatim>\<open>process_get_all_children\<close> lists exactly the descendants of a process, in preorder: of the first node, in preorder, that holds it;
  it returns \<^verbatim>\<open>NULL\<close> exactly when no node holds it.\<close>

theorem all_children_preorder:
  assumes "tree_repr (tree_heap s) (process_tree s) r" "depth r \<le> n"
  shows "process_get_all_children n p s = Some (map_option (\<lambda>t. tl (map snd (preorder t))) (first_subtree p r))"
proof (cases "first_subtree p r")
  case None
  then show ?thesis using find_in_tree [OF assms] first_subtree_addr [of p r] by (simp add: process_get_all_children_def)
next
  case (Some t)
  then have t: "t \<in> set (subtrees r)" by (auto simp: first_subtree_def find_Some_iff)
  have "rose_at (tree_heap s) NULL r" using assms(1) by (simp add: tree_repr_def)
  from subtrees_rose_at [OF this t] obtain q where q: "rose_at (tree_heap s) q t" by blast
  then have "r_addr t \<noteq> NULL" using rose_at_in [OF q, of "r_addr t"] by simp
  moreover have "process_get_children_recur n (tree_heap s) (r_addr t) [] = Some (tl (map snd (preorder t)))"
    using process_get_children_spec [OF q, of n "[]"] subtrees_depth [OF t] assms(2) by simp
  ultimately show ?thesis using Some find_in_tree [OF assms] first_subtree_addr [of p r]
    by (simp add: process_get_all_children_def)
qed

theorem all_children_preorder_witness:
  "process_get_all_children 2 1 demo_life = Some (Some [2, 3])"
  using all_children_preorder [of demo_life demo_rose 2 1] demo_rose_facts
  by (simp add: first_subtree_def demo_rose_def)

text \<open>\<^verbatim>\<open>process_clone\<close> copies the register frame from the field \<^verbatim>\<open>saved_registers\<close> of the structure it has just allocated with
  \<^verbatim>\<open>calloc\<close>, so it reads through \<^verbatim>\<open>NULL\<close> on every call.\<close>

lemma process_clone_reads_null: "process_clone n flags tls ptid process mm fdt node kstack fork_exit m = None"
  by (auto simp: process_clone_def empty_proc_def at_def Let_def bind_eq_None_conv split: bind_splits)

end
