(* ===== verification/Signals.thy ===== *)
theory Signals
  imports Process
begin

text \<open>
  Signals, from \<^verbatim>\<open>kernel/proc/ipc.c\<close> and the end of \<^verbatim>\<open>kernel/proc/process.c\<close>: signal sets, masks and handlers,
  sending, and delivery on the way back to user space. The signal numbers and the constants \<^verbatim>\<open>SIG_BLOCK\<close> and the like come
  from the ABI headers of the C library, which is not part of the repository: they are the fields of \<open>signal_abi\<close>, an argument
  of the operations. \<^verbatim>\<open>SIGSET_NWORDS\<close> is 16, and the words have 64 bits.
\<close>

section \<open>Signal sets\<close>

definition SIGSET_NWORDS :: nat where
  "SIGSET_NWORDS = 16"

definition sigemptyset :: "sigset_t \<Rightarrow> sigset_t" where
  "sigemptyset set0 = replicate SIGSET_NWORDS 0 @ drop SIGSET_NWORDS set0"

definition sigfillset :: "sigset_t \<Rightarrow> sigset_t" where
  "sigfillset set0 = replicate SIGSET_NWORDS (NOT 0) @ drop SIGSET_NWORDS set0"

definition sig_word :: "int \<Rightarrow> nat" where
  \<comment> \<open>\<^verbatim>\<open>(signum-1)/(8*sizeof(uint32_t))\<close>\<close>
  "sig_word signum = nat (signum - 1) div 32"

definition sig_bit :: "int \<Rightarrow> u64" where
  "sig_bit signum = push_bit (nat (signum - 1) mod 32) 1"

definition sigaddset :: "sigset_t \<Rightarrow> int \<Rightarrow> (int \<times> sigset_t) option" where
  \<comment> \<open>\<open>None\<close>: the word lies outside the set\<close>
  "sigaddset set0 signum =
     (if signum \<le> 0 \<or> signum > 1024 then Some (-1, set0)
      else if sig_word signum \<ge> length set0 then None
      else Some (0, set0[sig_word signum := set0 ! sig_word signum OR sig_bit signum]))"

definition sigdelset :: "sigset_t \<Rightarrow> int \<Rightarrow> (int \<times> sigset_t) option" where
  "sigdelset set0 signum =
     (if signum \<le> 0 \<or> signum > 1024 then Some (-1, set0)
      else if sig_word signum \<ge> length set0 then None
      else Some (0, set0[sig_word signum := set0 ! sig_word signum AND NOT (sig_bit signum)]))"

definition sigismember :: "sigset_t \<Rightarrow> int \<Rightarrow> int option" where
  "sigismember set0 signum =
     (if signum \<le> 0 \<or> signum > 1024 then Some (-1)
      else if sig_word signum \<ge> length set0 then None
      else Some (if set0 ! sig_word signum AND sig_bit signum \<noteq> 0 then 1 else 0))"

definition has_pending_signals :: "process_t \<Rightarrow> bool" where
  "has_pending_signals x = (\<exists>w \<in> set (take SIGSET_NWORDS (p_pending x)). w \<noteq> 0)"

section \<open>Masks and handlers\<close>

record signal_abi =
  SIG_BLOCK :: int
  SIG_UNBLOCK :: int
  SIG_SETMASK :: int
  SIG_DFL :: u64
  SA_NODEFER :: u32
  SIGKILL :: int
  SIG_terminate :: "int list"   \<comment> \<open>\<^verbatim>\<open>SIGALRM, SIGKILL, SIGHUP, SIGINT, SIGIO, SIGPIPE, SIGTERM, SIGUSR1, SIGUSR2\<close> and the core dump group
    \<^verbatim>\<open>SIGABRT, SIGFPE, SIGILL, SIGQUIT, SIGSEGV\<close>\<close>
  SIG_stop :: "int list"        \<comment> \<open>\<^verbatim>\<open>SIGSTOP, SIGTSTP, SIGTTIN, SIGTTOU\<close>\<close>

definition block_words :: "sigset_t \<Rightarrow> sigset_t \<Rightarrow> sigset_t" where
  "block_words new blocked = map2 (OR) (take SIGSET_NWORDS new) (take SIGSET_NWORDS blocked) @ drop SIGSET_NWORDS blocked"

definition unblock_words :: "sigset_t \<Rightarrow> sigset_t \<Rightarrow> sigset_t option" where
  \<comment> \<open>the loop counts the words of the set, and takes the counter for a signal number\<close>
  "unblock_words new blocked =
     foldM (\<lambda>i b. do {
       r \<leftarrow> sigismember new (int i);
       if r \<noteq> 0 then map_option snd (sigdelset b (int i)) else Some b }) [0..<SIGSET_NWORDS] blocked"

definition process_set_signal_mask :: "signal_abi \<Rightarrow> int \<Rightarrow> sigset_t \<Rightarrow> kstate \<Rightarrow> kstate option" where
  "process_set_signal_mask abi how new s = do {
     let p = current_process s;
     s1 \<leftarrow> (if how = SIG_BLOCK abi then upd_proc p (\<lambda>x. x\<lparr>p_blocked := block_words new (p_blocked x)\<rparr>) s else Some s);
     x \<leftarrow> at (procs s1) p;
     s2 \<leftarrow> (if how = SIG_UNBLOCK abi then do {
              b \<leftarrow> unblock_words new (p_blocked x);
              upd_proc p (\<lambda>x. x\<lparr>p_blocked := b\<rparr>) s1
            } else Some s1);
     if how = SIG_SETMASK abi then upd_proc p (\<lambda>x. x\<lparr>p_blocked := p_blocked x\<rparr>) s2 else Some s2
   }"

definition process_set_signal_handler :: "int \<Rightarrow> signal_handler_t \<Rightarrow> kstate \<Rightarrow> kstate option" where
  \<comment> \<open>the action is given with the fields of a handler\<close>
  "process_set_signal_handler signum action s = do {
     x \<leftarrow> at (procs s) (current_process s);
     _ \<leftarrow> spin_lock (p_lock x);
     if signum < 0 \<or> nat signum \<ge> length (p_signalHandlers x) then None
     else upd_proc (current_process s) (\<lambda>x. x\<lparr>p_lock := False, p_signalHandlers := (p_signalHandlers x)[nat signum :=
       (p_signalHandlers x ! nat signum)\<lparr>sh_handler := sh_handler action, sh_mask := sh_mask action, sh_flags := sh_flags action,
         sh_restorer := (if sh_flags action AND 0x04000000 \<noteq> 0 then sh_restorer action
                         else sh_restorer (p_signalHandlers x ! nat signum))\<rparr>]\<rparr>) s
   }"

definition process_get_signal_handler :: "int \<Rightarrow> kstate \<Rightarrow> signal_handler_t option" where
  "process_get_signal_handler signum s = do {
     x \<leftarrow> at (procs s) (current_process s);
     if signum < 0 \<or> nat signum \<ge> length (p_signalHandlers x) then None else Some (p_signalHandlers x ! nat signum)
   }"

section \<open>Sending and delivery\<close>

definition process_send_signal :: "ptr \<Rightarrow> int \<Rightarrow> kstate \<Rightarrow> kstate option" where
  "process_send_signal p signum s = do {
     x \<leftarrow> at (procs s) p;
     if p_flags x AND PROC_FLAG_FINISHED \<noteq> 0 \<or> signum > 32 then Some s
     else do {
       _ \<leftarrow> spin_lock (p_lock x);
       (_, pending) \<leftarrow> sigaddset (p_pending x) signum;
       upd_proc p (\<lambda>x. x\<lparr>p_pending := pending, p_lock := False\<rparr>) s
     }
   }"

datatype sig_flow =
  Returns machine              \<comment> \<open>the call comes back\<close>
| Leaves machine               \<comment> \<open>the process has exited\<close>
| Enters u64 u64 int machine   \<comment> \<open>\<^verbatim>\<open>iretq\<close> to a user handler: its address, the stack pointer and the signal number in \<^verbatim>\<open>rdi\<close>\<close>
| Suspends machine             \<comment> \<open>the process waits in \<^verbatim>\<open>schedule(true)\<close> for another signal\<close>

definition process_enter_signal :: "regs_t \<Rightarrow> int \<Rightarrow> machine \<Rightarrow> sig_flow option" where
  "process_enter_signal regs signum m = do {
     x \<leftarrow> at (procs (mk m)) (current_process (mk m));
     if signum < 0 \<or> nat signum \<ge> length (p_signalHandlers x) then None
     else do {
       let h = p_signalHandlers x ! nat signum;
       (a1, v1) \<leftarrow> PUSH_PTR (g_rsp regs) (regs_words regs) (memory m);
       (a2, v2) \<leftarrow> PUSH_PTR a1 [to_size signum] v1;
       (a3, v3) \<leftarrow> PUSH_PTR a2 (p_blocked x) v2;
       (a4, v4) \<leftarrow> PUSH_PTR a3 [sh_restorer h] v3;
       Some (Enters (sh_handler h) a4 signum (m\<lparr>mv := v4\<rparr>))
     }
   }"

definition process_signal_return :: "regs_t \<Rightarrow> machine \<Rightarrow> (int \<times> machine) option" where
  \<comment> \<open>\<^verbatim>\<open>POP_PTR\<close> stores its third argument to the stack: \<open>regs\<close>, the value of the local variable \<^verbatim>\<open>regs\<close>, is never assigned\<close>
  "process_signal_return regs m = do {
     x \<leftarrow> at (procs (mk m)) (current_process (mk m));
     saved \<leftarrow> at (m_regs m) (p_saved_registers x);
     let sp = g_rsp saved;
     v1 \<leftarrow> vwrite sp (p_blocked x) (memory m);
     let sp1 = sp + 8 * of_nat (length (p_blocked x));
     v2 \<leftarrow> vwrite sp1 [0] v1;
     v3 \<leftarrow> vwrite (sp1 + 8) (regs_words regs) v2;
     Some (0, m\<lparr>mv := v3, m_regs := (m_regs m)(p_saved_registers x \<mapsto>
       saved\<lparr>g_rsp := g_rsp regs, g_rip := g_rip regs, g_rax := g_rax regs, g_rbx := g_rbx regs, g_rcx := g_rcx regs,
         g_rdx := g_rdx regs, g_rsi := g_rsi regs, g_rdi := g_rdi regs, g_rbp := g_rbp regs, g_r8 := g_r8 regs, g_r9 := g_r9 regs,
         g_r10 := g_r9 regs, g_r11 := g_r9 regs, g_r12 := g_r9 regs, g_r13 := g_r9 regs, g_r14 := g_r9 regs, g_r15 := g_r9 regs,
         g_rflags := g_rflags regs OR push_bit 9 1 OR push_bit 21 1\<rparr>)\<rparr>)
   }"

definition default_action :: "signal_abi \<Rightarrow> nat \<Rightarrow> ptr \<Rightarrow> int \<Rightarrow> machine \<Rightarrow> sig_flow option" where
  \<comment> \<open>the \<^verbatim>\<open>switch\<close> of \<^verbatim>\<open>handle_signal\<close> for a signal without handler; \<open>Returns\<close> is the fall through to the code after it\<close>
  "default_action abi n p signum m =
     (if signum \<in> set (SIG_terminate abi) then do { s \<leftarrow> process_exit n 0 (mk m); Some (Leaves (m\<lparr>mk := s\<rparr>)) }
      else if signum \<in> set (SIG_stop abi) then do {
        s1 \<leftarrow> upd_proc p (\<lambda>x. clear_flags PROC_FLAG_ON_CPU (set_flags PROC_FLAG_SLEEP_INTERRUPTIBLE x)) (mk m);
        x \<leftarrow> at (procs s1) p;
        if has_pending_signals x then Some (Returns (m\<lparr>mk := s1\<rparr>))
        else do { s2 \<leftarrow> schedule True s1; Some (Suspends (m\<lparr>mk := s2\<rparr>)) }
      } else Some (Returns m))"

definition signal_action :: "signal_abi \<Rightarrow> nat \<Rightarrow> ptr \<Rightarrow> int \<Rightarrow> regs_t \<Rightarrow> machine \<Rightarrow> sig_flow option" where
  \<comment> \<open>the part of \<^verbatim>\<open>handle_signal\<close> after the \<^verbatim>\<open>switch\<close>\<close>
  "signal_action abi n p signum regs m = do {
     x \<leftarrow> at (procs (mk m)) p;
     if sh_handler (p_signalHandlers x ! nat signum) = SIG_DFL abi then
       (if signum = SIGKILL abi then do { s \<leftarrow> process_exit n 0 (mk m); Some (Leaves (m\<lparr>mk := s\<rparr>)) }
        else Some (Returns m))
     else do {
       let c = current_process (mk m);
       y \<leftarrow> at (procs (mk m)) c;
       s1 \<leftarrow> (if sh_flags (p_signalHandlers y ! nat signum) AND SA_NODEFER abi \<noteq> 0 then do {
                (_, b) \<leftarrow> sigaddset (p_blocked y) signum;
                upd_proc c (\<lambda>x. x\<lparr>p_blocked := b\<rparr>) (mk m)
              } else Some (mk m));
       process_enter_signal regs signum (m\<lparr>mk := s1\<rparr>)
     }
   }"

definition handle_signal :: "signal_abi \<Rightarrow> nat \<Rightarrow> ptr \<Rightarrow> int \<Rightarrow> regs_t \<Rightarrow> machine \<Rightarrow> sig_flow option" where
  "handle_signal abi n p signum regs m = do {
     x \<leftarrow> at (procs (mk m)) p;
     if signum < 0 \<or> nat signum \<ge> length (p_signalHandlers x) then None
     else do {
       r \<leftarrow> (if sh_handler (p_signalHandlers x ! nat signum) = 0 then default_action abi n p signum m else Some (Returns m));
       case r of Returns m1 \<Rightarrow> signal_action abi n p signum regs m1 | _ \<Rightarrow> Some r
     }
   }"

definition stop_resume :: "signal_abi \<Rightarrow> nat \<Rightarrow> ptr \<Rightarrow> int \<Rightarrow> regs_t \<Rightarrow> machine \<Rightarrow> sig_flow option" where
  \<comment> \<open>the stopped process runs again inside \<^verbatim>\<open>while(!has_pending_signals(process)) schedule(true)\<close>\<close>
  "stop_resume abi n p signum regs m = do {
     x \<leftarrow> at (procs (mk m)) p;
     if has_pending_signals x then signal_action abi n p signum regs m
     else do { s \<leftarrow> schedule True (mk m); Some (Suspends (m\<lparr>mk := s\<rparr>)) }
   }"

definition deliverable :: "process_t \<Rightarrow> int \<Rightarrow> bool option" where
  \<comment> \<open>\<^verbatim>\<open>sigismember(&pending, i) && !sigismember(&blocked, i)\<close>\<close>
  "deliverable x i = do {
     a \<leftarrow> sigismember (p_pending x) i;
     if a = 0 then Some False
     else do { b \<leftarrow> sigismember (p_blocked x) i; Some (b = 0) }
   }"

fun check_loop :: "signal_abi \<Rightarrow> nat \<Rightarrow> ptr \<Rightarrow> regs_t \<Rightarrow> int list \<Rightarrow> machine \<Rightarrow> sig_flow option" where
  \<comment> \<open>the loop of \<^verbatim>\<open>process_check_signals\<close>; the lock is released in every round\<close>
  "check_loop abi n p regs [] m = Some (Returns m)"
| "check_loop abi n p regs (i # is) m = do {
     x \<leftarrow> at (procs (mk m)) p;
     d \<leftarrow> deliverable x i;
     r \<leftarrow> (if d then do {
            (_, pending) \<leftarrow> sigdelset (p_pending x) i;
            s1 \<leftarrow> upd_proc p (\<lambda>x. x\<lparr>p_pending := pending, p_lock := False\<rparr>) (mk m);
            handle_signal abi n p i regs (m\<lparr>mk := s1\<rparr>)
          } else Some (Returns m));
     case r of Returns m1 \<Rightarrow> do {
         s2 \<leftarrow> upd_proc p (\<lambda>x. x\<lparr>p_lock := False\<rparr>) (mk m1);
         check_loop abi n p regs is (m1\<lparr>mk := s2\<rparr>)
       }
     | _ \<Rightarrow> Some r
   }"

definition process_check_signals :: "signal_abi \<Rightarrow> nat \<Rightarrow> regs_t \<Rightarrow> machine \<Rightarrow> sig_flow option" where
  "process_check_signals abi n regs m = do {
     let p = current_process (mk m);
     x \<leftarrow> at (procs (mk m)) p;
     if p_flags x AND PROC_FLAG_FINISHED \<noteq> 0 then Some (Returns m)
     else do {
       l \<leftarrow> spin_lock (p_lock x);
       s1 \<leftarrow> upd_proc p (\<lambda>x. x\<lparr>p_lock := l\<rparr>) (mk m);
       check_loop abi n p regs [1..31] (m\<lparr>mk := s1\<rparr>)
     }
   }"

section \<open>Signal sets behave as sets\<close>

lemma sig_position:
  assumes "1 \<le> i" "1 \<le> j" "i \<noteq> j" "sig_word i = sig_word j"
  shows "nat (i - 1) mod 32 \<noteq> nat (j - 1) mod 32"
proof
  assume "nat (i - 1) mod 32 = nat (j - 1) mod 32"
  then have "nat (i - 1) = nat (j - 1)" using assms(4) unfolding sig_word_def by (metis mult_div_mod_eq)
  then show False using assms(1-3) by simp
qed

lemma sig_bit_and: "w AND sig_bit i \<noteq> 0 \<longleftrightarrow> bit w (nat (i - 1) mod 32)"
proof -
  have "sig_bit i = 2 ^ (nat (i - 1) mod 32)" by (simp add: sig_bit_def push_bit_eq_mult)
  then show ?thesis by (simp only: and_exp_eq_0_iff_not_bit not_not)
qed

lemma bit_sig_bit: "bit (sig_bit i) k \<longleftrightarrow> k = nat (i - 1) mod 32 \<and> k < 64"
  by (auto simp: sig_bit_def push_bit_eq_mult bit_exp_iff)

definition in_sigset :: "sigset_t \<Rightarrow> int \<Rightarrow> bool" where
  "in_sigset w i \<longleftrightarrow> bit (w ! sig_word i) (nat (i - 1) mod 32)"

lemma sig_word_less: "1 \<le> i \<Longrightarrow> i \<le> 512 \<Longrightarrow> sig_word i < 16"
  by (simp add: sig_word_def div_less_iff_less_mult)

lemma sigismember_in: "length w = 16 \<Longrightarrow> 1 \<le> i \<Longrightarrow> i \<le> 512 \<Longrightarrow> sigismember w i = Some (if in_sigset w i then 1 else 0)"
  using sig_word_less [of i] by (simp add: sigismember_def sig_bit_and in_sigset_def)

lemma sigaddset_in:
  assumes "length w = 16" "1 \<le> i" "i \<le> 512"
  obtains w' where "sigaddset w i = Some (0, w')" "length w' = 16"
    "\<And>j. 1 \<le> j \<Longrightarrow> j \<le> 512 \<Longrightarrow> in_sigset w' j \<longleftrightarrow> j = i \<or> in_sigset w j"
proof -
  let ?w = "w[sig_word i := w ! sig_word i OR sig_bit i]"
  have "in_sigset ?w j \<longleftrightarrow> j = i \<or> in_sigset w j" if j: "1 \<le> j" "j \<le> 512" for j
    using sig_word_less [OF assms(2,3)] sig_word_less [OF j] sig_position [OF assms(2) j(1)] assms(1)
    by (cases "j = i") (auto simp: in_sigset_def nth_list_update bit_or_iff bit_sig_bit)
  moreover have "sigaddset w i = Some (0, ?w)" using assms sig_word_less [OF assms(2,3)] by (simp add: sigaddset_def)
  ultimately show ?thesis using that [of ?w] assms(1) by simp
qed

lemma sigdelset_in:
  assumes "length w = 16" "1 \<le> i" "i \<le> 512"
  obtains w' where "sigdelset w i = Some (0, w')" "length w' = 16"
    "\<And>j. 1 \<le> j \<Longrightarrow> j \<le> 512 \<Longrightarrow> in_sigset w' j \<longleftrightarrow> j \<noteq> i \<and> in_sigset w j"
proof -
  let ?w = "w[sig_word i := w ! sig_word i AND NOT (sig_bit i)]"
  have "in_sigset ?w j \<longleftrightarrow> j \<noteq> i \<and> in_sigset w j" if j: "1 \<le> j" "j \<le> 512" for j
    using sig_word_less [OF assms(2,3)] sig_word_less [OF j] sig_position [OF assms(2) j(1)] assms(1)
    by (cases "j = i") (auto simp: in_sigset_def nth_list_update bit_and_iff bit_not_iff bit_sig_bit dest: bit_imp_le_length)
  moreover have "sigdelset w i = Some (0, ?w)" using assms sig_word_less [OF assms(2,3)] by (simp add: sigdelset_def)
  ultimately show ?thesis using that [of ?w] assms(1) by simp
qed


lemma deliverable_in:
  assumes "length (p_pending x) = 16" "length (p_blocked x) = 16" "1 \<le> i" "i \<le> 512"
  shows "deliverable x i = Some (in_sigset (p_pending x) i \<and> \<not> in_sigset (p_blocked x) i)"
  using sigismember_in [OF assms(1,3,4)] sigismember_in [OF assms(2,3,4)] by (simp add: deliverable_def)

lemma check_loop_skip:
  assumes "procs (mk m) p = Some x" "p \<noteq> NULL" "\<not> p_lock x" "\<forall>i \<in> set as. deliverable x i = Some False"
  shows "check_loop abi n p regs (as @ is) m = check_loop abi n p regs is m"
  using assms(4)
proof (induction as)
  case (Cons i as)
  have l: "x\<lparr>p_lock := False\<rparr> = x" using assms(3) by simp
  have "upd_proc p (\<lambda>x. x\<lparr>p_lock := False\<rparr>) (mk m) = Some (mk m)"
    using assms(1,2) l by (simp add: upd_proc_def at_def fun_upd_idem)
  then show ?case using Cons assms(1,2) by (simp add: at_def)
qed simp

lemma check_loop_deliver:
  assumes "procs (mk m) p = Some x" "p \<noteq> NULL" "deliverable x i = Some True" "sigdelset (p_pending x) i = Some (0, w)"
    "handle_signal abi n p i regs (m\<lparr>mk := (mk m)\<lparr>procs := (procs (mk m))(p \<mapsto> x\<lparr>p_pending := w, p_lock := False\<rparr>)\<rparr>\<rparr>) = Some r"
    "\<forall>m'. r \<noteq> Returns m'"
  shows "check_loop abi n p regs (i # is) m = Some r"
  using assms by (cases r) (simp_all add: at_def upd_proc_def)

text \<open>The first round releases the lock that was just taken.\<close>

lemma check_loop_lock:
  assumes "procs (mk m) p = Some x" "p \<noteq> NULL"
  shows "check_loop abi n p regs (i # is) (m\<lparr>mk := (mk m)\<lparr>procs := (procs (mk m))(p \<mapsto> x\<lparr>p_lock := True\<rparr>)\<rparr>\<rparr>) =
    check_loop abi n p regs (i # is) (m\<lparr>mk := (mk m)\<lparr>procs := (procs (mk m))(p \<mapsto> x\<lparr>p_lock := False\<rparr>)\<rparr>\<rparr>)"
proof -
  have "deliverable (x\<lparr>p_lock := l\<rparr>) i = deliverable x i" for l
    by (cases "sigismember (p_pending x) i") (simp_all add: deliverable_def)
  then show ?thesis using assms
    by (cases "deliverable x i") (auto simp: at_def upd_proc_def split: bind_splits sig_flow.splits)
qed

lemma upto_split:
  assumes "1 \<le> i" "i \<le> 31"
  shows "[1..31] = [1..i - 1] @ i # [i + 1..31]"
  using assms upto_split2 [of 1 i 31] upto_rec2 [of 1 i] by (simp add: upto_split1)

definition linux_abi :: signal_abi where
  \<comment> \<open>the documented values of the Linux ABI\<close>
  "linux_abi = \<lparr>SIG_BLOCK = 0, SIG_UNBLOCK = 1, SIG_SETMASK = 2, SIG_DFL = 0, SA_NODEFER = 0x40000000, SIGKILL = 9,
     SIG_terminate = [14, 9, 1, 2, 29, 13, 15, 10, 12, 6, 8, 4, 3, 11], SIG_stop = [19, 20, 21, 22]\<rparr>"


lemma block_words_in:
  assumes "length new = 16" "length b = 16" "1 \<le> i" "i \<le> 512"
  shows "length (block_words new b) = 16" "in_sigset (block_words new b) i \<longleftrightarrow> in_sigset new i \<or> in_sigset b i"
  using assms sig_word_less [OF assms(3,4)] by (auto simp: block_words_def SIGSET_NWORDS_def in_sigset_def bit_or_iff)

lemma unblock_words_in:
  assumes "length new = 16" "length b = 16"
  obtains b' where "unblock_words new b = Some b'" "length b' = 16"
    "\<And>j. 1 \<le> j \<Longrightarrow> j \<le> 512 \<Longrightarrow> in_sigset b' j \<longleftrightarrow> in_sigset b j \<and> \<not> (j < 16 \<and> in_sigset new j)"
proof -
  let ?f = "\<lambda>i b. do { r \<leftarrow> sigismember new (int i); if r \<noteq> 0 then map_option snd (sigdelset b (int i)) else Some b }"
  have "\<exists>b'. foldM ?f [0..<k] b = Some b' \<and> length b' = 16 \<and>
    (\<forall>j. 1 \<le> j \<and> j \<le> 512 \<longrightarrow> in_sigset b' j = (in_sigset b j \<and> \<not> (j < int k \<and> in_sigset new j)))" if "k \<le> 16" for k
    using that
  proof (induction k)
    case (Suc k)
    then obtain b1 where b1: "foldM ?f [0..<k] b = Some b1" "length b1 = 16"
      "\<forall>j. 1 \<le> j \<and> j \<le> 512 \<longrightarrow> in_sigset b1 j = (in_sigset b j \<and> \<not> (j < int k \<and> in_sigset new j))" by auto
    have "foldM ?f [] = Some" by (rule ext) simp
    then have next1: "foldM ?f [0..<Suc k] b = ?f k b1" using b1(1) by (simp add: foldM_append)
    consider "k = 0" | "0 < k" "\<not> in_sigset new (int k)" | "0 < k" "in_sigset new (int k)" by blast
    then show ?case
    proof cases
      case 1
      then show ?thesis using next1 b1 by (simp add: sigismember_def sigdelset_def)
    next
      case 2
      then have "?f k b1 = Some b1" using sigismember_in [OF assms(1), of "int k"] Suc.prems by simp
      moreover have "(j < int (Suc k) \<and> in_sigset new j) = (j < int k \<and> in_sigset new j)" for j
        using 2(2) by (cases "j = int k") auto
      ultimately show ?thesis using next1 b1 by simp
    next
      case 3
      obtain b2 where b2: "sigdelset b1 (int k) = Some (0, b2)" "length b2 = 16"
        "\<And>j. 1 \<le> j \<Longrightarrow> j \<le> 512 \<Longrightarrow> in_sigset b2 j \<longleftrightarrow> j \<noteq> int k \<and> in_sigset b1 j"
        using sigdelset_in [OF b1(2), of "int k"] 3(1) Suc.prems by auto
      have "?f k b1 = Some b2" using sigismember_in [OF assms(1), of "int k"] 3 Suc.prems b2(1) by simp
      moreover have "(j < int (Suc k) \<and> in_sigset new j) = (j = int k \<or> j < int k \<and> in_sigset new j)" for j
        using 3(2) by (cases "j = int k") auto
      ultimately show ?thesis using next1 b2 b1(3) by auto
    qed
  qed (use assms in auto)
  from this [of 16] obtain b' where "foldM ?f [0..<16] b = Some b'" "length b' = 16"
    "\<forall>j. 1 \<le> j \<and> j \<le> 512 \<longrightarrow> in_sigset b' j = (in_sigset b j \<and> \<not> (j < int 16 \<and> in_sigset new j))" by auto
  then show ?thesis using that [of b'] by (simp add: unblock_words_def SIGSET_NWORDS_def)
qed

section \<open>Properties\<close>

text \<open>For the signal numbers up to 512 a signal set behaves as a set: \<^verbatim>\<open>sigaddset\<close> and \<^verbatim>\<open>sigdelset\<close> change the membership of exactly their
  signal. For the numbers from 513 on, which the functions accept, the access falls outside the set: the code counts words of
  32 bits where the words have 64.\<close>

theorem sigset_operations:
  assumes "length w = 16" "1 \<le> i" "i \<le> 512"
  shows "\<exists>a d. sigaddset w i = Some (0, a) \<and> sigdelset w i = Some (0, d) \<and>
    (\<forall>j. 1 \<le> j \<and> j \<le> 512 \<longrightarrow> sigismember a j = (if j = i then Some 1 else sigismember w j) \<and>
      sigismember d j = (if j = i then Some 0 else sigismember w j)) \<and>
    (\<forall>k. 512 < k \<and> k \<le> 1024 \<longrightarrow> sigismember w k = None \<and> sigaddset w k = None)"
proof -
  obtain a where a: "sigaddset w i = Some (0, a)" "length a = 16"
    "\<And>j. 1 \<le> j \<Longrightarrow> j \<le> 512 \<Longrightarrow> in_sigset a j \<longleftrightarrow> j = i \<or> in_sigset w j" using sigaddset_in [OF assms] by blast
  obtain d where d: "sigdelset w i = Some (0, d)" "length d = 16"
    "\<And>j. 1 \<le> j \<Longrightarrow> j \<le> 512 \<Longrightarrow> in_sigset d j \<longleftrightarrow> j \<noteq> i \<and> in_sigset w j" using sigdelset_in [OF assms] by blast
  have "16 \<le> sig_word k" if "512 < k" for k
  proof -
    have "512 div 32 \<le> nat (k - 1) div 32" using that by (intro div_le_mono) simp
    then show ?thesis by (simp add: sig_word_def)
  qed
  then have "\<forall>k. 512 < k \<and> k \<le> 1024 \<longrightarrow> sigismember w k = None \<and> sigaddset w k = None"
    using assms(1) by (auto simp: sigismember_def sigaddset_def)
  then show ?thesis using a d sigismember_in [OF a(2)] sigismember_in [OF d(2)] sigismember_in [OF assms(1)]
    by (intro exI [of _ a] exI [of _ d]) simp
qed

theorem sigset_operations_witness:
  "\<exists>a d. sigaddset (replicate 16 0) 33 = Some (0, a) \<and> sigdelset (replicate 16 0) 33 = Some (0, d) \<and> sigismember a 33 = Some 1"
  using sigset_operations [of "replicate 16 0" 33] by auto

text \<open>\<^verbatim>\<open>process_check_signals\<close> handles the pending, unblocked signals from the lowest number up: with none of them it returns with nothing
  changed, and otherwise it takes the lowest one off the pending set and handles it; when that does not come back (the process
  exits, stops, or enters a user handler) nothing else happens.\<close>

theorem check_signals_lowest:
  assumes "current_process (mk m) = p" "p \<noteq> NULL" "procs (mk m) p = Some x" "\<not> p_lock x"
    "p_flags x AND PROC_FLAG_FINISHED = 0" "length (p_pending x) = 16" "length (p_blocked x) = 16"
  shows "((\<forall>i. 1 \<le> i \<and> i \<le> 31 \<longrightarrow> in_sigset (p_pending x) i \<longrightarrow> in_sigset (p_blocked x) i) \<longrightarrow>
      process_check_signals abi n regs m = Some (Returns m)) \<and>
    (\<forall>i w r. 1 \<le> i \<and> i \<le> 31 \<and> in_sigset (p_pending x) i \<and> \<not> in_sigset (p_blocked x) i \<and>
      (\<forall>j. 1 \<le> j \<and> j < i \<longrightarrow> in_sigset (p_pending x) j \<longrightarrow> in_sigset (p_blocked x) j) \<and>
      sigdelset (p_pending x) i = Some (0, w) \<and>
      handle_signal abi n p i regs (m\<lparr>mk := (mk m)\<lparr>procs := (procs (mk m))(p \<mapsto> x\<lparr>p_pending := w\<rparr>)\<rparr>\<rparr>) = Some r \<and>
      (\<forall>m'. r \<noteq> Returns m') \<longrightarrow>
      process_check_signals abi n regs m = Some r)"
proof -
  have l: "x\<lparr>p_lock := False\<rparr> = x" "(procs (mk m))(p \<mapsto> x) = procs (mk m)" using assms(3,4) by auto
  have d: "deliverable x i = Some (in_sigset (p_pending x) i \<and> \<not> in_sigset (p_blocked x) i)" if "1 \<le> i" "i \<le> 31" for i
    using deliverable_in [OF assms(6,7)] that by simp
  have "[1..31] = 1 # [2..31::int]" by (simp add: upto_rec1)
  then have c: "process_check_signals abi n regs m = check_loop abi n p regs [1..31] m"
    using check_loop_lock [OF assms(3,2), of abi n regs 1 "[2..31]"] l assms(1-5)
    by (simp add: process_check_signals_def at_def spin_lock_def upd_proc_def)
  have skip: "check_loop abi n p regs (as @ is) m = check_loop abi n p regs is m"
    if "\<forall>i \<in> set as. 1 \<le> i \<and> i \<le> 31 \<and> (in_sigset (p_pending x) i \<longrightarrow> in_sigset (p_blocked x) i)" for as "is"
    using that d by (intro check_loop_skip [OF assms(3,2,4)]) auto
  show ?thesis
  proof (intro conjI impI allI)
    assume "\<forall>i. 1 \<le> i \<and> i \<le> 31 \<longrightarrow> in_sigset (p_pending x) i \<longrightarrow> in_sigset (p_blocked x) i"
    then show "process_check_signals abi n regs m = Some (Returns m)" using c skip [of "[1..31]" "[]"] by simp
  next
    fix i w r
    assume i: "1 \<le> i \<and> i \<le> 31 \<and> in_sigset (p_pending x) i \<and> \<not> in_sigset (p_blocked x) i \<and>
      (\<forall>j. 1 \<le> j \<and> j < i \<longrightarrow> in_sigset (p_pending x) j \<longrightarrow> in_sigset (p_blocked x) j) \<and>
      sigdelset (p_pending x) i = Some (0, w) \<and>
      handle_signal abi n p i regs (m\<lparr>mk := (mk m)\<lparr>procs := (procs (mk m))(p \<mapsto> x\<lparr>p_pending := w\<rparr>)\<rparr>\<rparr>) = Some r \<and>
      (\<forall>m'. r \<noteq> Returns m')"
    then have "check_loop abi n p regs [1..31] m = check_loop abi n p regs (i # [i + 1..31]) m"
      using upto_split [of i] skip [of "[1..i - 1]" "i # [i + 1..31]"] by simp
    also have "x\<lparr>p_pending := w, p_lock := False\<rparr> = x\<lparr>p_pending := w\<rparr>" using assms(4) by (cases x) simp
    then have "check_loop abi n p regs (i # [i + 1..31]) m = Some r" using i d [of i]
      by (intro check_loop_deliver [OF assms(3,2), of i w]) auto
    finally show "process_check_signals abi n regs m = Some r" using c by simp
  qed
qed


definition demo_regs :: regs_t where
  "demo_regs = \<lparr>g_r15 = 0, g_r14 = 0, g_r13 = 0, g_r12 = 0, g_r11 = 0, g_r10 = 0, g_r9 = 0, g_r8 = 0, g_rbp = 0, g_rdi = 0,
     g_rsi = 0, g_rdx = 0, g_rcx = 0, g_rbx = 0, g_rax = 0, g_int_no = 0, g_err_code = 0, g_rip = 0, g_cs = 0, g_rflags = 0,
     g_rsp = 0, g_ss = 0\<rparr>"

definition demo_pending :: process_t where
  "demo_pending = (demo_proc 2)\<lparr>p_pending := 0x4000 # replicate 15 0\<rparr>"

definition demo_signalled :: machine where
  \<comment> \<open>process 2 runs with signal 15 pending and no handlers\<close>
  "demo_signalled = demo_machine\<lparr>mk := demo_life\<lparr>procs := (procs demo_life)(2 \<mapsto> demo_pending)\<rparr>\<rparr>"

lemma demo_pending_facts:
  "in_sigset (p_pending demo_pending) i \<longleftrightarrow> i = 15" if "1 \<le> i" "i \<le> 31"
proof -
  have "in_sigset (p_pending demo_pending) i \<longleftrightarrow> bit (2 ^ 14 :: u64) (nat (i - 1))"
    using that by (simp add: in_sigset_def sig_word_def demo_pending_def)
  also have "\<dots> \<longleftrightarrow> i = 15" using that by (auto simp only: bit_exp_iff) (auto simp: nat_eq_iff2)
  finally show ?thesis .
qed

theorem check_signals_lowest_witness:
  "\<exists>m'. process_check_signals linux_abi 2 demo_regs demo_signalled = Some (Leaves m') \<and> current_process (mk m') = 3"
proof -
  let ?x = "demo_pending\<lparr>p_pending := 0 # replicate 15 0\<rparr>"
  let ?s = "demo_life\<lparr>procs := (procs demo_life)(2 \<mapsto> ?x)\<rparr>"
  let ?m = "demo_signalled\<lparr>mk := (mk demo_signalled)\<lparr>procs := (procs (mk demo_signalled))(2 \<mapsto> ?x)\<rparr>\<rparr>"
  have x: "p_fd_table ?x = 100" "p_page_directory ?x = 200" "p_id ?x = 2" "p_signalHandlers ?x = p_signalHandlers empty_proc"
    by (simp_all add: demo_pending_def demo_proc_def)
  have s: "mk ?m = ?s" by (simp add: demo_signalled_def)
  have "sched_ok [] [1, 2, 3] ?s" using x
    by (auto simp: sched_ok_def objects_ok_def places_def queued_def at_def)
  then obtain s' where s': "process_exit 2 0 ?s = Some s'" "current_process s' = 3"
    using process_exit_ok [of "[]" "[1, 2, 3]" ?s ?x demo_fds demo_rose 2 0] x demo_fds_ok demo_rose_facts
    by (auto simp: at_def hd_or_def demo_rose_def first_with_def)
  have h: "length (p_signalHandlers ?x) = 32" "sh_handler (p_signalHandlers ?x ! nat 15) = 0"
    unfolding x(4) by (simp_all add: empty_proc_def)
  have "handle_signal linux_abi 2 2 15 demo_regs m = Some (Leaves (m\<lparr>mk := s'\<rparr>))" if m: "mk m = ?s" for m
  proof -
    have "at (procs (mk m)) 2 = Some ?x" unfolding m by (simp add: at_def)
    moreover have "default_action linux_abi 2 2 15 m = Some (Leaves (m\<lparr>mk := s'\<rparr>))"
      using s'(1) m by (simp add: default_action_def linux_abi_def)
    ultimately show ?thesis using h by (simp add: handle_signal_def)
  qed
  from this [OF s] have "handle_signal linux_abi 2 2 15 demo_regs ?m = Some (Leaves (?m\<lparr>mk := s'\<rparr>))" .
  moreover have "sigdelset (p_pending demo_pending) 15 = Some (0, 0 # replicate 15 0)"
    by (simp add: sigdelset_def sig_word_def sig_bit_def demo_pending_def)
  moreover have c: "current_process (mk demo_signalled) = 2" "2 \<noteq> NULL" "procs (mk demo_signalled) 2 = Some demo_pending"
    by (simp_all add: demo_signalled_def)
  moreover have p: "\<not> p_lock demo_pending" "p_flags demo_pending AND PROC_FLAG_FINISHED = 0"
    "length (p_pending demo_pending) = 16" "length (p_blocked demo_pending) = 16" "\<not> in_sigset (p_blocked demo_pending) 15"
    by (simp_all add: demo_pending_def demo_proc_def empty_proc_def in_sigset_def sig_word_def)
  moreover have "in_sigset (p_pending demo_pending) 15" "\<forall>j. 1 \<le> j \<and> j < 15 \<longrightarrow> \<not> in_sigset (p_pending demo_pending) j"
    using demo_pending_facts by auto
  ultimately have "process_check_signals linux_abi 2 demo_regs demo_signalled = Some (Leaves (?m\<lparr>mk := s'\<rparr>))"
    by (intro check_signals_lowest [OF c p(1-4), THEN conjunct2, rule_format, of 15 "0 # replicate 15 0"]) simp
  then show ?thesis using s'(2) by simp
qed


text \<open>What \<^verbatim>\<open>process_set_signal_mask\<close> does to the mask of the running process, when the three constants are different: \<^verbatim>\<open>SIG_BLOCK\<close> adds the given
  signals; \<^verbatim>\<open>SIG_UNBLOCK\<close> removes those of the given signals that are below 16 and no others; \<^verbatim>\<open>SIG_SETMASK\<close> changes nothing.\<close>

theorem signal_mask_effect:
  assumes "distinct [SIG_BLOCK abi, SIG_UNBLOCK abi, SIG_SETMASK abi]" "current_process s = p" "p \<noteq> NULL" "procs s p = Some x"
    "length new = 16" "length (p_blocked x) = 16"
  shows "process_set_signal_mask abi (SIG_SETMASK abi) new s = Some s \<and>
    (\<exists>b. process_set_signal_mask abi (SIG_BLOCK abi) new s = Some (s\<lparr>procs := (procs s)(p \<mapsto> x\<lparr>p_blocked := b\<rparr>)\<rparr>) \<and>
      (\<forall>i. 1 \<le> i \<and> i \<le> 512 \<longrightarrow> in_sigset b i = (in_sigset (p_blocked x) i \<or> in_sigset new i))) \<and>
    (\<exists>b. process_set_signal_mask abi (SIG_UNBLOCK abi) new s = Some (s\<lparr>procs := (procs s)(p \<mapsto> x\<lparr>p_blocked := b\<rparr>)\<rparr>) \<and>
      (\<forall>i. 1 \<le> i \<and> i \<le> 512 \<longrightarrow> in_sigset b i = (in_sigset (p_blocked x) i \<and> \<not> (i < 16 \<and> in_sigset new i))))"
proof (intro conjI)
  have s: "(procs s)(p \<mapsto> x) = procs s" using assms(4) by auto
  then show "process_set_signal_mask abi (SIG_SETMASK abi) new s = Some s"
    using assms by (auto simp: process_set_signal_mask_def at_def upd_proc_def)
  let ?b = "block_words new (p_blocked x)"
  have "process_set_signal_mask abi (SIG_BLOCK abi) new s = Some (s\<lparr>procs := (procs s)(p \<mapsto> x\<lparr>p_blocked := ?b\<rparr>)\<rparr>)"
    using assms(1-4) by (auto simp: process_set_signal_mask_def at_def upd_proc_def)
  then show "\<exists>b. process_set_signal_mask abi (SIG_BLOCK abi) new s = Some (s\<lparr>procs := (procs s)(p \<mapsto> x\<lparr>p_blocked := b\<rparr>)\<rparr>) \<and>
      (\<forall>i. 1 \<le> i \<and> i \<le> 512 \<longrightarrow> in_sigset b i = (in_sigset (p_blocked x) i \<or> in_sigset new i))"
    using block_words_in [OF assms(5,6)] by auto
  obtain b where b: "unblock_words new (p_blocked x) = Some b"
    "\<And>j. 1 \<le> j \<Longrightarrow> j \<le> 512 \<Longrightarrow> in_sigset b j \<longleftrightarrow> in_sigset (p_blocked x) j \<and> \<not> (j < 16 \<and> in_sigset new j)"
    using unblock_words_in [OF assms(5,6)] by blast
  have "process_set_signal_mask abi (SIG_UNBLOCK abi) new s = Some (s\<lparr>procs := (procs s)(p \<mapsto> x\<lparr>p_blocked := b\<rparr>)\<rparr>)"
    using assms(1-4) b(1) by (auto simp: process_set_signal_mask_def at_def upd_proc_def)
  then show "\<exists>b. process_set_signal_mask abi (SIG_UNBLOCK abi) new s = Some (s\<lparr>procs := (procs s)(p \<mapsto> x\<lparr>p_blocked := b\<rparr>)\<rparr>) \<and>
      (\<forall>i. 1 \<le> i \<and> i \<le> 512 \<longrightarrow> in_sigset b i = (in_sigset (p_blocked x) i \<and> \<not> (i < 16 \<and> in_sigset new i)))"
    using b(2) by auto
qed

theorem signal_mask_effect_witness:
  "process_set_signal_mask linux_abi 2 (replicate 16 0xffff) demo_life = Some demo_life"
  using signal_mask_effect [of linux_abi demo_life 2 "demo_proc 2" "replicate 16 0xffff"]
  by (simp add: linux_abi_def demo_proc_def empty_proc_def)

text \<open>\<^verbatim>\<open>process_signal_return\<close> restores nothing: it returns 0, and the registers it installs are those of a local variable that no statement
  assigns, whatever the user stack holds.\<close>

lemma signal_return_restores_nothing:
  assumes "process_signal_return regs m = Some (r, m')" "procs (mk m) (current_process (mk m)) = Some x"
  shows "r = 0 \<and> mk m' = mk m \<and>
    (\<exists>saved. m_regs m' (p_saved_registers x) = Some saved \<and> g_rip saved = g_rip regs \<and> g_rsp saved = g_rsp regs \<and> g_r12 saved = g_r9 regs)"
  using assms by (auto simp: process_signal_return_def at_def Let_def split: bind_splits if_splits)

end
