(* ===== verification/Vfs.thy ===== *)
theory Vfs
  imports Kernel_State Cstring "HOL-Library.Multiset"
begin

text \<open>
  The virtual file system of \<^verbatim>\<open>kernel/fs/vfs.c\<close>: the tree of file nodes, path resolution with the
  drivers' \<^verbatim>\<open>find_dir\<close> as the fallback, mounting, and the operations on paths and handles.

  File nodes live in a map from their addresses, the nodes of \<^verbatim>\<open>file_tree\<close> in the store of \<open>Tree\<close>. A function
  pointer of \<^verbatim>\<open>struct file_operations\<close> is the name of the function, and a \<open>driver\<close> says
  what a call of each name does; \<open>Ramfs\<close> gives the one of the RAM file system. The blocks that \<^verbatim>\<open>calloc\<close> and \<^verbatim>\<open>kcalloc\<close>
  return are taken from \<open>v_supply\<close>; an empty supply is an allocation that returned
  \<^verbatim>\<open>NULL\<close>, which the code dereferences. Freed nodes leave the map, so a later access is a fault.
  A path is its bytes without the terminator, and \<open>path_tokens\<close> is the sequence \<^verbatim>\<open>strtok_r\<close> yields for it.
  The constants of the C library's ABI headers are fields of an argument.

  The fuel \<open>n\<close> bounds the depth of \<^verbatim>\<open>file_tree\<close>, \<open>k\<close> the number of rounds of the loop over the working directory.
\<close>

section \<open>Data\<close>

type_synonym fname = "string option"

record file_operations =
  op_read :: fname
  op_write :: fname
  op_seek :: fname
  op_open :: fname
  op_close :: fname
  op_read_dir :: fname
  op_mkdir :: fname
  op_find_dir :: fname
  op_get_size :: fname
  op_chmod :: fname
  op_chown :: fname
  op_create :: fname
  op_ioctl :: fname
  op_poll :: fname
  op_rename :: fname
  op_delete :: fname
  op_link :: fname

record file_node_t =
  fn_name :: bytes
  fn_full_path :: bytes
  fn_id :: u64
  fn_owner :: u64
  fn_owner_group :: u64
  fn_access_mask :: u64
  fn_type :: u64
  fn_size :: u64
  fn_cached :: bool
  fn_fs :: ptr
  fn_file_ops :: file_operations
  fn_ref_count :: int

record list_dir_t =
  ld_name :: bytes
  ld_type :: u64
  ld_size :: u64

record 'd vfs =
  v_nodes :: "ptr \<rightharpoonup> file_node_t"
  v_tree_heap :: theap
  v_file_tree :: tree_t
  v_root_node :: ptr
  v_id_generator :: int
  v_supply :: "ptr list"
  v_has_process :: bool
  v_cwd :: "bytes option"
  v_cwd_file :: ptr
  v_fs_owner :: "ptr \<rightharpoonup> ptr"
  v_priv :: 'd

text \<open>What a call through a function pointer does, by the name of the function.\<close>

record 'd driver =
  call_read :: "string \<Rightarrow> ptr \<Rightarrow> u64 \<Rightarrow> u64 \<Rightarrow> 'd vfs \<Rightarrow> (int \<times> u8 option list \<times> 'd vfs) option"
  call_write :: "string \<Rightarrow> ptr \<Rightarrow> bytes \<Rightarrow> u64 \<Rightarrow> 'd vfs \<Rightarrow> (int \<times> 'd vfs) option"
  call_open :: "string \<Rightarrow> ptr \<Rightarrow> int \<Rightarrow> 'd vfs \<Rightarrow> 'd vfs option"
  call_read_dir :: "string \<Rightarrow> ptr \<Rightarrow> int \<Rightarrow> 'd vfs \<Rightarrow> (int \<times> list_dir_t list \<times> 'd vfs) option"
  call_mkdir :: "string \<Rightarrow> ptr \<Rightarrow> bytes \<Rightarrow> 'd vfs \<Rightarrow> (bool \<times> 'd vfs) option"
  call_find_dir :: "string \<Rightarrow> ptr \<Rightarrow> bytes \<Rightarrow> 'd vfs \<Rightarrow> (ptr \<times> 'd vfs) option"
  call_get_size :: "string \<Rightarrow> ptr \<Rightarrow> 'd vfs \<Rightarrow> int option"
  call_create :: "string \<Rightarrow> ptr \<Rightarrow> bytes \<Rightarrow> int \<Rightarrow> 'd vfs \<Rightarrow> (bool \<times> 'd vfs) option"
  call_poll :: "string \<Rightarrow> ptr \<Rightarrow> int \<Rightarrow> 'd vfs \<Rightarrow> int option"
  call_rename :: "string \<Rightarrow> ptr \<Rightarrow> bytes \<Rightarrow> 'd vfs \<Rightarrow> (ptr \<times> 'd vfs) option"
  call_delete :: "string \<Rightarrow> ptr \<Rightarrow> 'd vfs \<Rightarrow> (int \<times> 'd vfs) option"

text \<open>The constants of \<^verbatim>\<open>mlibc/abis/linux\<close>.\<close>

record fs_abi =
  ENOENT :: int
  EEXIST :: int
  EINVAL :: int
  EXDEV :: int
  EISDIR :: int
  ENOTDIR :: int
  EACCES :: int
  EBUSY :: int
  POLL_EVENTS :: int

definition FILE_TYPE_FILE :: u64 where "FILE_TYPE_FILE = 0x0"
definition FILE_TYPE_BLOCK_DEVICE :: u64 where "FILE_TYPE_BLOCK_DEVICE = 0x3"
definition FILE_TYPE_DIR :: u64 where "FILE_TYPE_DIR = 0x5"
definition FILE_TYPE_NAMED_PIPE :: u64 where "FILE_TYPE_NAMED_PIPE = 0x6"
definition FILE_TYPE_MOUNT_POINT :: u64 where "FILE_TYPE_MOUNT_POINT = 0x7"
definition FILE_TYPE_SOCKET :: u64 where "FILE_TYPE_SOCKET = 0x10"
definition O_WRONLY :: int where "O_WRONLY = 1"
definition O_CREAT :: int where "O_CREAT = 64"
definition O_TRUNC :: int where "O_TRUNC = 512"
definition O_APPEND :: int where "O_APPEND = 1024"
definition O_DIRECTORY :: int where "O_DIRECTORY = 65536"

definition no_ops :: file_operations where
  "no_ops = \<lparr>op_read = None, op_write = None, op_seek = None, op_open = None, op_close = None, op_read_dir = None,
     op_mkdir = None, op_find_dir = None, op_get_size = None, op_chmod = None, op_chown = None, op_create = None,
     op_ioctl = None, op_poll = None, op_rename = None, op_delete = None, op_link = None\<rparr>"

definition empty_node :: file_node_t where
  \<comment> \<open>a node fresh from \<^verbatim>\<open>calloc\<close>\<close>
  "empty_node = \<lparr>fn_name = [], fn_full_path = [], fn_id = 0, fn_owner = 0, fn_owner_group = 0, fn_access_mask = 0,
     fn_type = 0, fn_size = 0, fn_cached = False, fn_fs = NULL, fn_file_ops = no_ops, fn_ref_count = 0\<rparr>"

definition calloc_addr :: "'d vfs \<Rightarrow> (ptr \<times> 'd vfs) option" where
  "calloc_addr s = (case v_supply s of [] \<Rightarrow> None | a # as \<Rightarrow> Some (a, s\<lparr>v_supply := as\<rparr>))"

definition put_node :: "ptr \<Rightarrow> file_node_t \<Rightarrow> 'd vfs \<Rightarrow> 'd vfs" where
  "put_node p f s = s\<lparr>v_nodes := (v_nodes s)(p \<mapsto> f)\<rparr>"

definition upd_node :: "ptr \<Rightarrow> (file_node_t \<Rightarrow> file_node_t) \<Rightarrow> 'd vfs \<Rightarrow> 'd vfs option" where
  "upd_node p g s = do { f \<leftarrow> at (v_nodes s) p; Some (put_node p (g f) s) }"

definition free_node :: "ptr \<Rightarrow> 'd vfs \<Rightarrow> 'd vfs" where
  "free_node p s = s\<lparr>v_nodes := (v_nodes s)(p := None)\<rparr>"

definition set_name :: "bytes \<Rightarrow> file_node_t \<Rightarrow> file_node_t option" where
  \<comment> \<open>\<^verbatim>\<open>strncpy(node->name, name, strlen(name))\<close> into the 256 zero bytes of the field\<close>
  "set_name nm f = (if length nm < 256 then Some (f\<lparr>fn_name := nm\<rparr>) else None)"

definition get_next_file_id :: "'d vfs \<Rightarrow> int \<times> 'd vfs" where
  "get_next_file_id s = (v_id_generator s, s\<lparr>v_id_generator := wrap_int (v_id_generator s + 1)\<rparr>)"

definition find_node :: "nat \<Rightarrow> ptr \<Rightarrow> 'd vfs \<Rightarrow> ptr option" where
  \<comment> \<open>\<^verbatim>\<open>tree_find_child_root(file_tree, node)\<close>\<close>
  "find_node n p s = tree_find_child_root n (v_tree_heap s) (v_file_tree s) p"

definition insert_node :: "nat \<Rightarrow> ptr \<Rightarrow> ptr \<Rightarrow> 'd vfs \<Rightarrow> (ptr \<times> 'd vfs) option" where
  \<comment> \<open>\<^verbatim>\<open>tree_insert_child(file_tree, parent, node)\<close>: the values that it frees are file nodes\<close>
  "insert_node n parent node s = do {
     (new, s1) \<leftarrow> calloc_addr s;
     (h, t, ns, vs) \<leftarrow> tree_insert_child n (v_tree_heap s1) (v_file_tree s1) parent node new;
     Some (new, s1\<lparr>v_tree_heap := h |` (- set ns), v_file_tree := t, v_nodes := v_nodes s1 |` (- set vs)\<rparr>)
   }"

definition remove_node :: "nat \<Rightarrow> ptr \<Rightarrow> 'd vfs \<Rightarrow> 'd vfs option" where
  "remove_node n treeNode s = do {
     (h, t) \<leftarrow> tree_remove n (v_tree_heap s) (v_file_tree s) treeNode;
     Some (s\<lparr>v_tree_heap := h, v_file_tree := t\<rparr>)
   }"

section \<open>Path resolution\<close>

function path_tokens :: "bytes \<Rightarrow> bytes list" where
  \<comment> \<open>what successive calls of \<^verbatim>\<open>strtok_r(path, "/", &save)\<close> yield before they yield \<^verbatim>\<open>NULL\<close>\<close>
  "path_tokens s =
     (let s1 = dropWhile (\<lambda>b. b = 47) s
      in if s1 = [] then [] else takeWhile (\<lambda>b. b \<noteq> 47) s1 # path_tokens (tl (dropWhile (\<lambda>b. b \<noteq> 47) s1)))"
  by auto

termination
proof (relation "measure length", simp)
  fix s s1 :: bytes
  assume s1: "s1 = dropWhile (\<lambda>b. b = 47) s" "s1 \<noteq> []"
  have "hd s1 \<noteq> 47" using hd_dropWhile [of "\<lambda>b. b = 47" s] s1 by auto
  then have "length (dropWhile (\<lambda>b. b \<noteq> 47) s1) \<le> length (tl s1)"
    using s1(2) by (cases s1) (simp_all add: length_dropWhile_le)
  also have "length (tl s1) < length s1" using s1(2) by simp
  finally have "length (tl (dropWhile (\<lambda>b. b \<noteq> 47) s1)) < length s1" by simp
  moreover have "length s1 \<le> length s" by (simp add: s1(1) length_dropWhile_le)
  ultimately show "(tl (dropWhile (\<lambda>b. b \<noteq> 47) s1), s) \<in> measure length" by simp
qed

declare path_tokens.simps [simp del]

fun find_name :: "'d vfs \<Rightarrow> ptr list \<Rightarrow> bytes \<Rightarrow> ptr option" where
  "find_name s [] name = Some NULL"
| "find_name s (child # cs) name = do {
     node \<leftarrow> nrd (v_tree_heap s) child;
     file \<leftarrow> at (v_nodes s) (tn_value node);
     if name = fn_name file then Some child else find_name s cs name
   }"

definition get_child :: "'d vfs \<Rightarrow> ptr \<Rightarrow> bytes \<Rightarrow> ptr option" where
  "get_child s parent name = do { e \<leftarrow> nrd (v_tree_heap s) parent; find_name s (tn_children e) name }"

definition cache_node :: "nat \<Rightarrow> ptr \<Rightarrow> ptr \<Rightarrow> 'd vfs \<Rightarrow> (ptr \<times> 'd vfs) option" where
  "cache_node n parent node s = do {
     s1 \<leftarrow> upd_node node (\<lambda>f. f\<lparr>fn_cached := True\<rparr>) s;
     insert_node n parent node s1
   }"

datatype cwd_result = Cwd_Return ptr | Cwd_At ptr ptr

fun cwd_loop :: "nat \<Rightarrow> 'd driver \<Rightarrow> nat \<Rightarrow> ptr \<Rightarrow> ptr \<Rightarrow> bytes list \<Rightarrow> 'd vfs \<Rightarrow> (cwd_result \<times> 'd vfs) option" where
  \<comment> \<open>the loop over the working directory; \<open>Cwd_At\<close> gives the variables \<^verbatim>\<open>current\<close> and \<^verbatim>\<open>fCwd\<close> at its end\<close>
  "cwd_loop 0 dr n current fCwd toks s = None"
| "cwd_loop (Suc k) dr n current fCwd [] s = Some (Cwd_At current fCwd, s)"
| "cwd_loop (Suc k) dr n current fCwd (pch # ts) s =
     (if pch = cstr ''..'' then
        if current = t_head (v_file_tree s) then Some (Cwd_Return (v_root_node s), s)
        else do {
          e \<leftarrow> nrd (v_tree_heap s) current;
          cwd_loop k dr n (if tn_parent e \<noteq> NULL then tn_parent e else current) fCwd ts s
        }
      else if pch = cstr ''.'' then cwd_loop k dr n current fCwd ts s
      else do {
        next \<leftarrow> get_child s current pch;
        if next \<noteq> NULL then cwd_loop k dr n next current (pch # ts) s
        else do {
          e \<leftarrow> nrd (v_tree_heap s) current;
          fs_node \<leftarrow> at (v_nodes s) (tn_value e);
          (node, s1) \<leftarrow> (case op_find_dir (fn_file_ops fs_node) of None \<Rightarrow> Some (NULL, s)
                        | Some f \<Rightarrow> call_find_dir dr f (tn_value e) pch s);
          if node \<noteq> NULL then do {
            (next, s2) \<leftarrow> cache_node n current node s1;
            cwd_loop k dr n next current (pch # ts) s2
          } else Some (Cwd_At (t_head (v_file_tree s1)) current, s1)
        }
      })"

type_synonym 'd resolved = "(ptr \<times> (ptr \<times> bytes) option \<times> 'd vfs) option"

fun path_loop :: "'d driver \<Rightarrow> nat \<Rightarrow> ptr \<Rightarrow> bytes list \<Rightarrow> 'd vfs \<Rightarrow> 'd resolved" where
  \<comment> \<open>the loop over the path; the second component of the result is what is stored to \<^verbatim>\<open>*outParent\<close> and \<^verbatim>\<open>*outFileName\<close>\<close>
  "path_loop dr n current [] s =
     (if current = NULL then Some (NULL, None, s)
      else do { e \<leftarrow> nrd (v_tree_heap s) current; Some (tn_value e, None, s) })"
| "path_loop dr n current (pch # ts) s =
     (if pch = cstr ''..'' then
        if current = t_head (v_file_tree s) then Some (v_root_node s, None, s)
        else do {
          e \<leftarrow> nrd (v_tree_heap s) current;
          path_loop dr n (if tn_parent e \<noteq> NULL then tn_parent e else current) ts s
        }
      else if pch = cstr ''.'' then path_loop dr n current ts s
      else do {
        next \<leftarrow> get_child s current pch;
        if next \<noteq> NULL then path_loop dr n next ts s
        else do {
          e \<leftarrow> nrd (v_tree_heap s) current;
          fs_node \<leftarrow> at (v_nodes s) (tn_value e);
          case op_find_dir (fn_file_ops fs_node) of
            None \<Rightarrow> (if ts = [] then Some (NULL, Some (tn_value e, pch), s) else path_loop dr n NULL ts s)
          | Some f \<Rightarrow> do {
              (node, s1) \<leftarrow> call_find_dir dr f (tn_value e) pch s;
              if node \<noteq> NULL then do {
                (next, s2) \<leftarrow> cache_node n current node s1;
                path_loop dr n next ts s2
              } else do {
                e1 \<leftarrow> nrd (v_tree_heap s1) current;
                Some (NULL, if ts = [] then Some (tn_value e1, pch) else None, s1)
              }
            }
        }
      })"

definition resolve_path :: "nat \<Rightarrow> 'd driver \<Rightarrow> nat \<Rightarrow> bytes \<Rightarrow> bytes \<Rightarrow> 'd vfs \<Rightarrow> 'd resolved" where
  \<comment> \<open>a path or working directory without tokens passes \<^verbatim>\<open>NULL\<close> to \<^verbatim>\<open>strcmp\<close>\<close>
  "resolve_path k dr n cwd file s =
     (if file = cstr ''/'' then Some (v_root_node s, None, s)
      else do {
        (r, s1) \<leftarrow> (if take 1 file = cstr ''/'' then Some (Cwd_At (t_head (v_file_tree s)) NULL, s)
                    else if path_tokens cwd = [] then None
                    else cwd_loop k dr n (t_head (v_file_tree s)) NULL (path_tokens cwd) s);
        case r of
          Cwd_Return p \<Rightarrow> Some (p, None, s1)
        | Cwd_At current fCwd \<Rightarrow>
            if path_tokens file = [] then None
            else path_loop dr n (if current \<noteq> NULL then current else fCwd) (path_tokens file) s1
      })"

section \<open>Mounting and directories\<close>

definition vfs_read_dir :: "nat \<Rightarrow> ptr \<Rightarrow> int \<Rightarrow> 'd vfs \<Rightarrow> (int \<times> list_dir_t list \<times> 'd vfs) option" where
  \<comment> \<open>the loop reads each child, a node of the tree, as if it were a file node; it ends after the entry that reaches \<open>maxEntries\<close>\<close>
  "vfs_read_dir n node maxEntries s = do {
     treeNode \<leftarrow> find_node n node s;
     if treeNode = NULL then Some (0, [], s)
     else do {
       e \<leftarrow> nrd (v_tree_heap s) treeNode;
       ds \<leftarrow> foldM (\<lambda>child ds. do {
              subNode \<leftarrow> at (v_nodes s) child;
              Some (ds @ [\<lparr>ld_name = fn_name subNode, ld_type = fn_type subNode, ld_size = fn_size subNode\<rparr>])
            }) (take (max 1 (nat maxEntries)) (tn_children e)) [];
       Some (int (length ds), ds, s)
     }
   }"

definition vfs_create :: "nat \<Rightarrow> ptr \<Rightarrow> bytes \<Rightarrow> int \<Rightarrow> 'd vfs \<Rightarrow> (bool \<times> 'd vfs) option" where
  "vfs_create n parent filename mode s = do {
     treeNode \<leftarrow> find_node n parent s;
     if treeNode = NULL then Some (False, s)
     else do {
       (node, s1) \<leftarrow> calloc_addr s;
       let (i, s2) = get_next_file_id s1;
       f \<leftarrow> set_name filename (empty_node\<lparr>fn_type := FILE_TYPE_FILE, fn_size := 0, fn_ref_count := 0, fn_id := to_size i\<rparr>);
       (_, s3) \<leftarrow> insert_node n treeNode node (put_node node f s2);
       Some (True, s3)
     }
   }"

definition mount_directly :: "nat \<Rightarrow> 'd driver \<Rightarrow> nat \<Rightarrow> bytes \<Rightarrow> ptr \<Rightarrow> 'd vfs \<Rightarrow> (int \<times> 'd vfs) option" where
  "mount_directly k dr n name node s =
     (if name = cstr ''/'' then do {
        s1 \<leftarrow> (if v_root_node s \<noteq> NULL then do {
                 root \<leftarrow> at (v_nodes s) (v_root_node s);
                 s1 \<leftarrow> upd_node node (\<lambda>f. f\<lparr>fn_size := fn_size f + fn_size root\<rparr>) s;
                 Some (free_node (v_root_node s) s1)
               } else Some s);
        e \<leftarrow> nrd (v_tree_heap s1) (t_head (v_file_tree s1));
        Some (0, s1\<lparr>v_root_node := node,
          v_tree_heap := (v_tree_heap s1)(t_head (v_file_tree s1) \<mapsto> e\<lparr>tn_value := node\<rparr>)\<rparr>)
      } else do {
        (_, out, s1) \<leftarrow> resolve_path k dr n (cstr ''/'') name s;
        case out of None \<Rightarrow> Some (1, s1)
        | Some (parent, fileName) \<Rightarrow> if parent = NULL then Some (1, s1) else do {
            treeNode \<leftarrow> find_node n parent s1;
            if treeNode = NULL then Some (2, s1)
            else do {
              e \<leftarrow> nrd (v_tree_heap s1) treeNode;
              s2 \<leftarrow> upd_node (tn_value e) (\<lambda>f. f\<lparr>fn_size := fn_size f + 1\<rparr>) s1;
              (_, s3) \<leftarrow> insert_node n treeNode node s2;
              Some (0, s3)
            }
          }
      })"

definition register_mount ::
  "nat \<Rightarrow> 'd driver \<Rightarrow> nat \<Rightarrow> bytes \<Rightarrow> (bytes \<Rightarrow> 'd vfs \<Rightarrow> (ptr \<times> 'd vfs) option) \<Rightarrow> 'd vfs \<Rightarrow> (int \<times> 'd vfs) option" where
  "register_mount k dr n name func s = do { (mount, s1) \<leftarrow> func name s; mount_directly k dr n name mount s1 }"

definition mount_empty :: "nat \<Rightarrow> 'd driver \<Rightarrow> nat \<Rightarrow> bytes \<Rightarrow> int \<Rightarrow> 'd vfs \<Rightarrow> (int \<times> 'd vfs) option" where
  "mount_empty k dr n name fileType s = do {
     (node, s1) \<leftarrow> calloc_addr s;
     f \<leftarrow> set_name name (empty_node\<lparr>fn_size := 0, fn_type := to_size fileType, fn_id := 0, fn_ref_count := 0\<rparr>);
     mount_directly k dr n name node (put_node node f s1)
   }"

fun parent_names :: "nat \<Rightarrow> 'd vfs \<Rightarrow> ptr \<Rightarrow> bytes list option" where
  \<comment> \<open>the loop of \<^verbatim>\<open>get_full_path\<close> over the parents, up to the root\<close>
  "parent_names 0 s parent = None"
| "parent_names (Suc n) s parent = do {
     e \<leftarrow> nrd (v_tree_heap s) parent;
     if tn_parent e = NULL \<or> tn_value e = v_root_node s then Some []
     else do {
       f \<leftarrow> at (v_nodes s) (tn_value e);
       names \<leftarrow> parent_names n s (tn_parent e);
       Some (fn_name f # names)
     }
   }"

definition get_full_path :: "nat \<Rightarrow> ptr \<Rightarrow> 'd vfs \<Rightarrow> bytes option option" where
  \<comment> \<open>\<open>Some None\<close> is \<^verbatim>\<open>null\<close>; the path and its terminator have to fit into the allocated block\<close>
  "get_full_path n node s = do {
     f \<leftarrow> at (v_nodes s) node;
     treeNode \<leftarrow> find_node n node s;
     if treeNode = NULL then Some None
     else do {
       e \<leftarrow> nrd (v_tree_heap s) treeNode;
       names \<leftarrow> parent_names n s (tn_parent e);
       let pathSize = sum_list (map (\<lambda>nm. length nm + 1) names);
       let path = concat (map (\<lambda>nm. 47 # nm) (rev (fn_name f # names)));
       if length path + 1 \<le> pathSize then Some (Some path) else None
     }
   }"

section \<open>Opening and creating\<close>

fun open_path :: "nat \<Rightarrow> 'd driver \<Rightarrow> nat \<Rightarrow> bytes \<Rightarrow> int \<Rightarrow> 'd vfs \<Rightarrow> (ptr \<times> 'd vfs) option"
  and get_cwd_name :: "nat \<Rightarrow> 'd driver \<Rightarrow> nat \<Rightarrow> 'd vfs \<Rightarrow> (bytes \<times> 'd vfs) option"
  and create_path :: "nat \<Rightarrow> 'd driver \<Rightarrow> nat \<Rightarrow> bytes \<Rightarrow> int \<Rightarrow> 'd vfs \<Rightarrow> (ptr \<times> 'd vfs) option" where
  \<comment> \<open>\<^verbatim>\<open>open\<close>, \<^verbatim>\<open>get_cwd_name\<close> and \<^verbatim>\<open>create\<close> call each other; the first argument bounds the depth of the calls\<close>
  "open_path 0 dr n filename mode s = None"
| "open_path (Suc k) dr n filename mode s =
     (if filename = cstr ''/'' then Some (v_root_node s, s)
      else do {
        (cwd, s0) \<leftarrow> get_cwd_name k dr n s;
        (node0, _, s1) \<leftarrow> resolve_path k dr n cwd filename s0;
        if node0 = NULL \<and> mode AND O_CREAT = 0 then Some (NULL, s1)
        else do {
          (node, s2) \<leftarrow> (if node0 = NULL then create_path k dr n filename (mode AND NOT O_CREAT) s1 else Some (node0, s1));
          f \<leftarrow> at (v_nodes s2) node;
          if mode AND O_DIRECTORY \<noteq> 0 \<and> (fn_type f \<noteq> FILE_TYPE_DIR \<or> fn_type f \<noteq> FILE_TYPE_MOUNT_POINT) then Some (NULL, s2)
          else case op_open (fn_file_ops f) of
            None \<Rightarrow> Some (node, s2)
          | Some g \<Rightarrow> do { s3 \<leftarrow> call_open dr g node mode s2; Some (node, s3) }
        }
      })"
| "get_cwd_name 0 dr n s = None"
| "get_cwd_name (Suc k) dr n s =
     (if \<not> v_has_process s then Some (cstr ''/'', s)
      else let s1 = (if v_cwd s = None then s\<lparr>v_cwd := Some (cstr ''/'')\<rparr> else s) in
      if v_cwd_file s1 = NULL then do {
        cwd \<leftarrow> v_cwd s1;
        (cwd_file, s2) \<leftarrow> open_path k dr n cwd 0 s1;
        if cwd_file = NULL then Some (cstr ''/'', s2)
        else do { cwd2 \<leftarrow> v_cwd s2; Some (cwd2, s2\<lparr>v_cwd_file := cwd_file\<rparr>) }
      } else do { cwd \<leftarrow> v_cwd s1; Some (cwd, s1) })"
| "create_path 0 dr n filename mode s = None"
| "create_path (Suc k) dr n filename mode s = do {
     (node, _, s1) \<leftarrow> resolve_path k dr n (cstr ''/'') filename s;
     if node \<noteq> NULL then Some (NULL, s1)
     else do {
       (_, out, s2) \<leftarrow> resolve_path k dr n (cstr ''/'') filename s1;
       case out of None \<Rightarrow> Some (NULL, s2)
       | Some (parent, outFileName) \<Rightarrow> if parent = NULL then Some (NULL, s2) else do {
           p \<leftarrow> at (v_nodes s2) parent;
           g \<leftarrow> op_create (fn_file_ops p);
           (_, s3) \<leftarrow> call_create dr g parent outFileName mode s2;
           s4 \<leftarrow> upd_node parent (\<lambda>f. f\<lparr>fn_size := fn_size f + 1\<rparr>) s3;
           open_path k dr n filename (mode AND NOT O_CREAT) s4
         }
     }
   }"

declare open_path.simps [simp del] get_cwd_name.simps [simp del] create_path.simps [simp del]

definition mkdir_path :: "nat \<Rightarrow> 'd driver \<Rightarrow> nat \<Rightarrow> bytes \<Rightarrow> 'd vfs \<Rightarrow> (ptr \<times> 'd vfs) option" where
  \<comment> \<open>\<^verbatim>\<open>mkdir\<close>; \<^verbatim>\<open>memcmp\<close> is not negated, so the guard refuses the one-letter names other than the root\<close>
  "mkdir_path k dr n dirname s =
     (if length dirname = 1 \<and> dirname \<noteq> cstr ''/'' then Some (NULL, s)
      else do {
        (node, s1) \<leftarrow> open_path k dr n dirname 0 s;
        if node \<noteq> NULL then Some (NULL, s1)
        else do {
          (_, out, s2) \<leftarrow> resolve_path k dr n (cstr ''/'') dirname s1;
          case out of None \<Rightarrow> Some (NULL, s2)
          | Some (parent, filename) \<Rightarrow> if parent = NULL then Some (NULL, s2) else do {
              p \<leftarrow> at (v_nodes s2) parent;
              g \<leftarrow> op_mkdir (fn_file_ops p);
              (ok, s3) \<leftarrow> call_mkdir dr g parent filename s2;
              if ok then open_path k dr n filename 0 s3 else Some (NULL, s3)
            }
        }
      })"

definition mkdir_vfs :: "nat \<Rightarrow> 'd driver \<Rightarrow> nat \<Rightarrow> bytes \<Rightarrow> 'd vfs \<Rightarrow> (ptr \<times> 'd vfs) option" where
  \<comment> \<open>\<^verbatim>\<open>strncpy(node->name, filename, strlen(dirname))\<close> pads with zeros to the length of the whole path\<close>
  "mkdir_vfs k dr n dirname s =
     (if length dirname = 1 \<and> dirname \<noteq> cstr ''/'' then Some (NULL, s)
      else do {
        (node0, s1) \<leftarrow> open_path k dr n dirname 0 s;
        if node0 \<noteq> NULL then Some (NULL, s1)
        else do {
          (_, out, s2) \<leftarrow> resolve_path k dr n (cstr ''/'') dirname s1;
          case out of None \<Rightarrow> Some (NULL, s2)
          | Some (parent, filename) \<Rightarrow> if parent = NULL then Some (NULL, s2) else do {
              treeNode \<leftarrow> find_node n parent s2;
              if treeNode = NULL then Some (NULL, s2)
              else do {
                (node, s3) \<leftarrow> calloc_addr s2;
                let (i, s4) = get_next_file_id s3;
                f \<leftarrow> (if length dirname \<le> 256 then set_name filename (empty_node\<lparr>fn_type := FILE_TYPE_DIR, fn_id := to_size i, fn_size := 0,
                       fn_ref_count := 0, fn_file_ops := no_ops\<lparr>op_read_dir := Some ''vfs_read_dir'', op_create := Some ''vfs_create''\<rparr>\<rparr>)
                     else None);
                s5 \<leftarrow> upd_node parent (\<lambda>f. f\<lparr>fn_size := fn_size f + 1\<rparr>) (put_node node f s4);
                (_, s6) \<leftarrow> insert_node n treeNode node s5;
                Some (node, s6)
              }
            }
        }
      })"

section \<open>Operations on nodes and handles\<close>

definition getdents :: "'d driver \<Rightarrow> nat \<Rightarrow> ptr \<Rightarrow> int \<Rightarrow> 'd vfs \<Rightarrow> (int \<times> list_dir_t list option \<times> 'd vfs) option" where
  \<comment> \<open>the second component is what is stored to \<^verbatim>\<open>*buffer\<close>\<close>
  "getdents dr n node maxEntries s =
     (if maxEntries \<le> 0 then Some (0, None, s)
      else do {
        treeNode \<leftarrow> find_node n node s;
        if treeNode = NULL then Some (0, None, s)
        else do {
          f \<leftarrow> at (v_nodes s) node;
          g \<leftarrow> op_read_dir (fn_file_ops f);
          (i, dir, s1) \<leftarrow> call_read_dir dr g node maxEntries s;
          Some (i, Some dir, s1)
        }
      })"

definition get_size :: "'d driver \<Rightarrow> ptr \<Rightarrow> 'd vfs \<Rightarrow> int option" where
  "get_size dr node s = do {
     f \<leftarrow> at (v_nodes s) node;
     case op_get_size (fn_file_ops f) of Some g \<Rightarrow> call_get_size dr g node s | None \<Rightarrow> Some (to_int (fn_size f))
   }"

definition read_handle :: "'d driver \<Rightarrow> file_handle_t \<Rightarrow> u64 \<Rightarrow> 'd vfs \<Rightarrow> (int \<times> u8 option list \<times> 'd vfs) option" where
  \<comment> \<open>\<^verbatim>\<open>read\<close>; the second component is what is copied to the buffer, \<open>None\<close> for a byte that was never written\<close>
  "read_handle dr handle len s =
     (if fh_mode handle AND O_WRONLY \<noteq> 0 then Some (-1, [], s)
      else do {
        f \<leftarrow> at (v_nodes s) (fh_fileNode handle);
        g \<leftarrow> op_read (fn_file_ops f);
        call_read dr g (fh_fileNode handle) (fh_offset handle) len s
      })"

definition write_handle :: "'d driver \<Rightarrow> file_handle_t \<Rightarrow> bytes \<Rightarrow> 'd vfs \<Rightarrow> (int \<times> file_handle_t \<times> 'd vfs) option" where
  "write_handle dr handle buffer s = do {
     f \<leftarrow> at (v_nodes s) (fh_fileNode handle);
     let handle1 = (if fh_mode handle AND O_APPEND \<noteq> 0 then handle\<lparr>fh_offset := fn_size f\<rparr> else handle);
     g \<leftarrow> op_write (fn_file_ops f);
     (r, s1) \<leftarrow> call_write dr g (fh_fileNode handle1) buffer (fh_offset handle1) s;
     Some (r, handle1, s1)
   }"

definition unlink_node :: "'d driver \<Rightarrow> nat \<Rightarrow> ptr \<Rightarrow> 'd vfs \<Rightarrow> (int \<times> 'd vfs) option" where
  \<comment> \<open>\<^verbatim>\<open>if(node->file_ops.delete) { ... }\<close>: the driver deletes the file, and then its node leaves the tree\<close>
  "unlink_node dr n node s = do {
     f \<leftarrow> at (v_nodes s) node;
     case op_delete (fn_file_ops f) of None \<Rightarrow> Some (0, s)
     | Some g \<Rightarrow> do {
         (result, s1) \<leftarrow> call_delete dr g node s;
         if result \<noteq> 0 then Some (result, s1)
         else do {
           treeNode \<leftarrow> find_node n node s1;
           s2 \<leftarrow> (if treeNode \<noteq> NULL then remove_node n treeNode s1 else Some s1);
           Some (0, s2)
         }
       }
   }"

definition delete_path :: "nat \<Rightarrow> 'd driver \<Rightarrow> nat \<Rightarrow> fs_abi \<Rightarrow> bytes \<Rightarrow> 'd vfs \<Rightarrow> (int \<times> 'd vfs) option" where
  "delete_path k dr n abi filename s = do {
     (node, s1) \<leftarrow> open_path k dr n filename 0 s;
     if node = NULL then Some (- ENOENT abi, s1)
     else do {
       (result, s2) \<leftarrow> unlink_node dr n node s1;
       if result \<noteq> 0 then Some (result, s2) else Some (0, free_node node s2)
     }
   }"

fun has_ancestor :: "nat \<Rightarrow> 'd vfs \<Rightarrow> ptr \<Rightarrow> ptr \<Rightarrow> bool option" where
  \<comment> \<open>\<^verbatim>\<open>while(parent != NULL) { if(parent->value == node) ...; parent = parent->parent; }\<close>\<close>
  "has_ancestor 0 s parent node = None"
| "has_ancestor (Suc n) s parent node =
     (if parent = NULL then Some False
      else do { e \<leftarrow> nrd (v_tree_heap s) parent; if tn_value e = node then Some True else has_ancestor n s (tn_parent e) node })"

definition move_file ::
  "nat \<Rightarrow> 'd driver \<Rightarrow> nat \<Rightarrow> fs_abi \<Rightarrow> ptr \<Rightarrow> bytes \<Rightarrow> 'd vfs \<Rightarrow> (int \<times> 'd vfs) option" where
  \<comment> \<open>the variable \<^verbatim>\<open>parent\<close> is not initialised: without a store by \<^verbatim>\<open>resolve_path\<close> its value is indeterminate\<close>
  "move_file k dr n abi node newpath s = do {
     (new, s1) \<leftarrow> open_path k dr n newpath 0 s;
     (early, s4) \<leftarrow>
       (if new = NULL then do {
          (cwd, s2) \<leftarrow> get_cwd_name k dr n s1;
          (_, out, s3) \<leftarrow> resolve_path k dr n cwd newpath s2;
          (parent, _) \<leftarrow> out;
          Some (if parent = NULL then Some (- ENOENT abi) else None, s3)
        } else do {
          nw \<leftarrow> at (v_nodes s1) new;
          size \<leftarrow> (if fn_type nw = FILE_TYPE_DIR then get_size dr new s1 else Some 0);
          if size > 0 then Some (Some (- EEXIST abi), s1)
          else do {
            (result, s2) \<leftarrow> unlink_node dr n node s1;
            if result \<noteq> 0 then Some (Some (- EINVAL abi), s2) else Some (None, free_node node s2)
          }
        });
     case early of Some r \<Rightarrow> Some (r, s4)
     | None \<Rightarrow> do {
         f \<leftarrow> at (v_nodes s4) node;
         if fn_fs f = NULL then Some (- EXDEV abi, s4) else do {
         nw \<leftarrow> at (v_nodes s4) new;
         if fn_fs nw = NULL then Some (- EXDEV abi, s4) else do {
         _ \<leftarrow> at (v_fs_owner s4) (fn_fs f);
         if fn_type nw = FILE_TYPE_DIR \<and> fn_type f \<noteq> fn_type nw then Some (- EISDIR abi, s4)
         else if fn_type nw = FILE_TYPE_FILE \<and> fn_type f \<noteq> fn_type nw then Some (- ENOTDIR abi, s4)
         else case op_rename (fn_file_ops f) of None \<Rightarrow> Some (- EACCES abi, s4)
         | Some g \<Rightarrow> do {
             treeNode \<leftarrow> find_node n node s4;
             e \<leftarrow> nrd (v_tree_heap s4) treeNode;
             below \<leftarrow> has_ancestor n s4 (tn_parent e) node;
             if below then Some (- EINVAL abi, s4)
             else do {
               s5 \<leftarrow> remove_node n treeNode s4;
               (newFile, s6) \<leftarrow> call_rename dr g node newpath s5;
               Some (if newFile = NULL then - EBUSY abi else 0, s6)
             }
           } } }
       }
   }"

definition fpoll :: "'d driver \<Rightarrow> fs_abi \<Rightarrow> file_handle_t \<Rightarrow> int \<Rightarrow> 'd vfs \<Rightarrow> int option" where
  "fpoll dr abi handle requested0 s = do {
     let requested = requested0 AND POLL_EVENTS abi;
     f \<leftarrow> at (v_nodes s) (fh_fileNode handle);
     case op_poll (fn_file_ops f) of Some g \<Rightarrow> call_poll dr g (fh_fileNode handle) requested s
     | None \<Rightarrow> Some (if fn_type f \<in> {FILE_TYPE_FILE, FILE_TYPE_DIR, FILE_TYPE_MOUNT_POINT} then requested else 0)
   }"

definition create_handle :: "ptr \<Rightarrow> file_handle_t" where
  "create_handle node = \<lparr>fh_fileNode = node, fh_mode = 4, fh_offset = 0, fh_flags = 0\<rparr>"

definition vfs_install :: "nat \<Rightarrow> 'd vfs \<Rightarrow> 'd vfs option" where
  "vfs_install n s = do {
     let s1 = s\<lparr>v_file_tree := tree_create\<rparr>;
     (root, s2) \<leftarrow> calloc_addr s1;
     let (i, s3) = get_next_file_id s2;
     f \<leftarrow> set_name (cstr ''[root]'') (empty_node\<lparr>fn_type := FILE_TYPE_MOUNT_POINT, fn_id := to_size i, fn_size := 0,
            fn_ref_count := 0, fn_file_ops := no_ops\<lparr>op_read_dir := Some ''vfs_read_dir''\<rparr>\<rparr>);
     (_, s4) \<leftarrow> insert_node n NULL root (put_node root f (s3\<lparr>v_root_node := root\<rparr>));
     Some s4
   }"

section \<open>Well-formed file trees\<close>

definition node_name :: "'d vfs \<Rightarrow> ptr \<Rightarrow> bytes" where
  "node_name s p = (case v_nodes s p of None \<Rightarrow> [] | Some f \<Rightarrow> fn_name f)"

definition vals :: "rose \<Rightarrow> ptr list" where
  "vals r = map snd (preorder r)"

definition vfs_ok :: "'d vfs \<Rightarrow> rose \<Rightarrow> bool" where
  \<comment> \<open>the store holds the tree \<open>r\<close>, its values are distinct live file nodes, the root is \<^verbatim>\<open>root_node\<close>, and fresh blocks are unused\<close>
  "vfs_ok s r \<longleftrightarrow> tree_repr (v_tree_heap s) (v_file_tree s) r \<and> v_root_node s = r_val r \<and>
     distinct (vals r) \<and> (\<forall>v \<in> set (vals r). v \<noteq> NULL \<and> v_nodes s v \<noteq> None) \<and>
     distinct (v_supply s) \<and> (\<forall>a \<in> set (v_supply s). a \<noteq> NULL \<and> a \<notin> set (addrs r) \<and> v_nodes s a = None)"

lemma mset_preorder_graft:
  "mset (preorder (graft q new t)) = mset (preorder t) + repeat_mset (count_list (addrs t) q) (mset (preorder new))"
proof (induction t)
  case (Rose p v ts)
  have *: "(\<Sum>u\<leftarrow>us. mset (preorder (graft q new u))) = (\<Sum>u\<leftarrow>us. mset (preorder u)) +
      repeat_mset (count_list (concat (map addrs us)) q) (mset (preorder new))" if "set us \<subseteq> set ts" for us
    using that Rose.IH by (induction us) (auto simp: left_add_mult_distrib_mset)
  have "(\<Sum>u\<leftarrow>ts. mset (preorder (graft q new u))) = (\<Sum>u\<leftarrow>ts. mset (preorder u)) +
      repeat_mset (count_list (concat (map addrs ts)) q) (mset (preorder new))" by (rule *) simp
  then show ?case
    by (simp add: addrs_Rose mset_concat comp_def left_add_mult_distrib_mset)
qed

lemma mset_vals_graft:
  assumes "q \<in> set (addrs t)" "distinct (addrs t)"
  shows "mset (vals (graft q (Rose a v []) t)) = add_mset v (mset (vals t))"
proof -
  have "count_list (addrs t) q = 1" using assms by (metis count_list_0_iff distinct_count_atmost_1 count_mset)
  then show ?thesis
    using arg_cong [OF mset_preorder_graft [of q "Rose a v []" t], of "image_mset snd"] by (simp add: vals_def)
qed

lemma vals_graft:
  assumes "vfs_ok s r" "q \<in> set (addrs r)"
  shows "set (vals (graft q (Rose a v []) r)) = insert v (set (vals r))"
    and "v \<notin> set (vals r) \<Longrightarrow> distinct (vals (graft q (Rose a v []) r))"
proof -
  have "distinct (addrs r)" using assms(1) by (simp add: vfs_ok_def tree_repr_def)
  note m = mset_vals_graft [OF assms(2) this, of a v]
  show "set (vals (graft q (Rose a v []) r)) = insert v (set (vals r))"
    using arg_cong [OF m, of set_mset] by simp
  assume "v \<notin> set (vals r)"
  then have "distinct (v # vals r)" using assms(1) by (simp add: vfs_ok_def)
  moreover have "mset (v # vals r) = mset (vals (graft q (Rose a v []) r))" using m by simp
  ultimately show "distinct (vals (graft q (Rose a v []) r))" using mset_eq_imp_distinct_iff by blast
qed

lemma r_val_graft [simp]: "r_val (graft q n t) = r_val t"
  by (cases t) simp

lemma vfs_ok_root: "vfs_ok s r \<Longrightarrow> t_head (v_file_tree s) = r_addr r \<and> v_root_node s = r_val r"
  by (simp add: vfs_ok_def tree_repr_def)

lemma insert_node_ok:
  assumes ok: "vfs_ok s r" and q: "q \<in> set (addrs r)" and sup: "v_supply s = a # as"
    and node: "node \<noteq> NULL" "v_nodes s node \<noteq> None" "node \<notin> set (vals r)"
  shows "\<exists>h t. insert_node n q node s = Some (a, s\<lparr>v_tree_heap := h, v_file_tree := t, v_supply := as\<rparr>) \<and>
    vfs_ok (s\<lparr>v_tree_heap := h, v_file_tree := t, v_supply := as\<rparr>) (graft q (Rose a node []) r)"
proof -
  have t: "tree_repr (v_tree_heap s) (v_file_tree s) r" "a \<notin> set (addrs r)" "a \<noteq> NULL"
    using ok sup by (auto simp: vfs_ok_def)
  from tree_insert_child_repr [OF t(1) q t(2,3), of n node] obtain h t' where
    i: "tree_insert_child n (v_tree_heap s) (v_file_tree s) q node a = Some (h, t', [], [])"
    "tree_repr h t' (graft q (Rose a node []) r)" by blast
  have "insert_node n q node s = Some (a, s\<lparr>v_tree_heap := h, v_file_tree := t', v_supply := as\<rparr>)"
    using i(1) sup by (cases s) (simp add: insert_node_def calloc_addr_def restrict_map_def)
  moreover have "distinct (vals (graft q (Rose a node []) r))" by (rule vals_graft(2) [OF ok q node(3)])
  then have "vfs_ok (s\<lparr>v_tree_heap := h, v_file_tree := t', v_supply := as\<rparr>) (graft q (Rose a node []) r)"
    using ok i(2) node sup vals_graft(1) [OF ok q, of a node] set_addrs_graft [OF q, of "Rose a node []"]
    by (auto simp: vfs_ok_def addrs_Rose)
  ultimately show ?thesis by blast
qed

lemma subtree_facts:
  assumes "vfs_ok s r" "t \<in> set (subtrees r)"
  shows "r_addr t \<in> set (addrs r)" "r_val t \<in> set (vals r)" "r_val t \<noteq> NULL" "\<exists>f. v_nodes s (r_val t) = Some f"
    "first_with (r_val t) (preorder r) = r_addr t" "r_addr t \<noteq> NULL"
proof -
  have p: "(r_addr t, r_val t) \<in> set (preorder r)" using assms(2) by (auto simp flip: subtrees_preorder)
  then show a: "r_addr t \<in> set (addrs r)" and v: "r_val t \<in> set (vals r)" by (force simp: addrs_def vals_def)+
  show "r_val t \<noteq> NULL" "\<exists>f. v_nodes s (r_val t) = Some f" using assms(1) v by (auto simp: vfs_ok_def)
  have "distinct (map snd (preorder r))" using assms(1) by (simp add: vfs_ok_def vals_def)
  then have "first_with (r_val t) xs = r_addr t" if "(r_addr t, r_val t) \<in> set xs" "distinct (map snd xs)" for xs
    using that by (induction xs) (force simp: first_with_def)+
  then show "first_with (r_val t) (preorder r) = r_addr t" using p \<open>distinct (map snd (preorder r))\<close> by blast
  show "r_addr t \<noteq> NULL" using assms(1) rose_at_nonnull a by (auto simp: vfs_ok_def tree_repr_def)
qed

lemma find_node_subtree:
  assumes "vfs_ok s r" "depth r \<le> n" "t \<in> set (subtrees r)"
  shows "find_node n (r_val t) s = Some (r_addr t)"
  using assms find_in_tree subtree_facts(5) [OF assms(1,3)] by (auto simp: find_node_def vfs_ok_def)

section \<open>The name walk\<close>

datatype walk_result = Found rose | Missing rose bytes "bytes list"

definition find_kid :: "'d vfs \<Rightarrow> bytes \<Rightarrow> rose \<Rightarrow> rose option" where
  "find_kid s x t = List.find (\<lambda>u. node_name s (r_val u) = x) (r_kids t)"

fun name_walk :: "'d vfs \<Rightarrow> rose \<Rightarrow> rose list \<Rightarrow> bytes list \<Rightarrow> walk_result" where
  \<comment> \<open>the specification: follow the names from the node on top of the stack, which holds its ancestors;
     \<^verbatim>\<open>..\<close> at the root ends the walk there\<close>
  "name_walk s r st [] = Found (hd st)"
| "name_walk s r st (x # xs) =
     (if x = cstr ''..'' then if tl st = [] then Found r else name_walk s r (tl st) xs
      else if x = cstr ''.'' then name_walk s r st xs
      else case find_kid s x (hd st) of Some u \<Rightarrow> name_walk s r (u # st) xs | None \<Rightarrow> Missing (hd st) x xs)"

fun stack_ok :: "rose \<Rightarrow> rose list \<Rightarrow> bool" where
  "stack_ok r [] \<longleftrightarrow> False"
| "stack_ok r [t] \<longleftrightarrow> t = r"
| "stack_ok r (t # u # st) \<longleftrightarrow> t \<in> set (r_kids u) \<and> stack_ok r (u # st)"

lemma kid_subtree: "t \<in> set (r_kids u) \<Longrightarrow> u \<in> set (subtrees r) \<Longrightarrow> t \<in> set (subtrees r)"
proof (induction r)
  case (Rose p v ts)
  have self: "t \<in> set (subtrees t)" by (cases t) simp
  show ?case
  proof (cases "u = Rose p v ts")
    case True
    then show ?thesis using Rose.prems(1) self by auto
  next
    case False
    then show ?thesis using Rose by auto
  qed
qed

lemma stack_subtree: "stack_ok r st \<Longrightarrow> hd st \<in> set (subtrees r)"
proof (induction r st rule: stack_ok.induct)
  case (2 r t)
  then show ?case by (cases r) simp
qed (auto intro: kid_subtree)

lemma stack_rose_at:
  assumes "rose_at h NULL r" "stack_ok r st"
  shows "rose_at h (if tl st = [] then NULL else r_addr (hd (tl st))) (hd st)"
  using assms
proof (induction r st rule: stack_ok.induct)
  case (3 r t u st)
  then have "rose_at h (if st = [] then NULL else r_addr (hd st)) u" by (auto split: if_splits)
  then have "rose_at h (r_addr u) t" using "3.prems" by (cases u) simp
  then show ?case by simp
qed auto

lemma stack_below_root:
  assumes "distinct (addrs r)" "stack_ok r st" "tl st \<noteq> []"
  shows "r_addr (hd st) \<noteq> r_addr r"
proof -
  have "stack_ok r st \<Longrightarrow> tl st \<noteq> [] \<Longrightarrow> \<exists>k \<in> set (r_kids r). hd st \<in> set (subtrees k)"
  proof (induction r st rule: stack_ok.induct)
    case (3 r t u st)
    show ?case
    proof (cases "st = []")
      case True
      have "t \<in> set (subtrees t)" by (cases t) simp
      then show ?thesis using 3 True by auto
    next
      case False
      then have "\<exists>k \<in> set (r_kids r). u \<in> set (subtrees k)" using 3 by simp
      then show ?thesis using kid_subtree [of t u] "3.prems"(1) by auto
    qed
  qed auto
  then obtain k where k: "k \<in> set (r_kids r)" "hd st \<in> set (subtrees k)" using assms(2,3) by blast
  have "r_addr (hd st) \<in> set (addrs k)" using k(2) by (force simp: addrs_def simp flip: subtrees_preorder)
  then have "r_addr (hd st) \<in> set (concat (map addrs (r_kids r)))" using k(1) by auto
  then show ?thesis using assms(1) by (cases r) (auto simp: addrs_Rose)
qed

lemma find_name_kids:
  assumes "\<And>u. u \<in> set us \<Longrightarrow> rose_at (v_tree_heap s) par u" "\<And>u. u \<in> set us \<Longrightarrow> r_val u \<noteq> NULL \<and> v_nodes s (r_val u) \<noteq> None"
  shows "find_name s (map r_addr us) x =
    Some (case List.find (\<lambda>u. node_name s (r_val u) = x) us of None \<Rightarrow> NULL | Some u \<Rightarrow> r_addr u)"
  using assms
proof (induction us)
  case (Cons u us)
  obtain f where f: "v_nodes s (r_val u) = Some f" "r_val u \<noteq> NULL" using Cons.prems(2) [of u] by auto
  have "nrd (v_tree_heap s) (r_addr u) = Some \<lparr>tn_value = r_val u, tn_children = map r_addr (r_kids u), tn_parent = par\<rparr>"
    using Cons.prems(1) [of u] by (cases u) (simp add: nrd_def)
  then show ?case using Cons f by (auto simp: at_def node_name_def)
qed simp

lemma stack_node:
  assumes "vfs_ok s r" "stack_ok r st"
  shows "nrd (v_tree_heap s) (r_addr (hd st)) = Some \<lparr>tn_value = r_val (hd st), tn_children = map r_addr (r_kids (hd st)),
      tn_parent = (if tl st = [] then NULL else r_addr (hd (tl st)))\<rparr>"
    and "get_child s (r_addr (hd st)) x = Some (case find_kid s x (hd st) of None \<Rightarrow> NULL | Some u \<Rightarrow> r_addr u)"
    and "u \<in> set (r_kids (hd st)) \<Longrightarrow> r_addr u \<noteq> NULL"
proof -
  have "rose_at (v_tree_heap s) NULL r" using assms(1) by (simp add: vfs_ok_def tree_repr_def)
  note ra = stack_rose_at [OF this assms(2)]
  show n: "nrd (v_tree_heap s) (r_addr (hd st)) = Some \<lparr>tn_value = r_val (hd st), tn_children = map r_addr (r_kids (hd st)),
      tn_parent = (if tl st = [] then NULL else r_addr (hd (tl st)))\<rparr>"
    using ra by (cases "hd st") (simp add: nrd_def)
  have k: "rose_at (v_tree_heap s) (r_addr (hd st)) u" if "u \<in> set (r_kids (hd st))" for u
    using ra that by (cases "hd st") simp
  have v: "r_val u \<noteq> NULL \<and> v_nodes s (r_val u) \<noteq> None" if "u \<in> set (r_kids (hd st))" for u
    using subtree_facts(3,4) [OF assms(1) kid_subtree [OF that stack_subtree [OF assms(2)]]] by auto
  show "get_child s (r_addr (hd st)) x = Some (case find_kid s x (hd st) of None \<Rightarrow> NULL | Some u \<Rightarrow> r_addr u)"
    using n find_name_kids [OF k v, of "r_kids (hd st)" x] by (simp add: get_child_def find_kid_def)
  show "r_addr u \<noteq> NULL" if "u \<in> set (r_kids (hd st))" using rose_at_root [OF k [OF that]] by simp
qed

lemma find_kid_in: "find_kid s x t = Some u \<Longrightarrow> u \<in> set (r_kids t) \<and> node_name s (r_val u) = x"
  by (auto simp: find_kid_def find_Some_iff)

text \<open>What \<^verbatim>\<open>resolve_path\<close> does at a name that the tree does not have.\<close>

definition missing_step :: "'d driver \<Rightarrow> nat \<Rightarrow> rose \<Rightarrow> bytes \<Rightarrow> bytes list \<Rightarrow> 'd vfs \<Rightarrow> 'd resolved" where
  "missing_step dr n t x ts s = do {
     fs_node \<leftarrow> at (v_nodes s) (r_val t);
     case op_find_dir (fn_file_ops fs_node) of
       None \<Rightarrow> (if ts = [] then Some (NULL, Some (r_val t, x), s) else path_loop dr n NULL ts s)
     | Some f \<Rightarrow> do {
         (node, s1) \<leftarrow> call_find_dir dr f (r_val t) x s;
         if node \<noteq> NULL then do {
           (next, s2) \<leftarrow> cache_node n (r_addr t) node s1;
           path_loop dr n next ts s2
         } else do {
           e1 \<leftarrow> nrd (v_tree_heap s1) (r_addr t);
           Some (NULL, if ts = [] then Some (tn_value e1, x) else None, s1)
         }
       }
   }"

lemma path_loop_walk:
  assumes "vfs_ok s r" "stack_ok r st"
  shows "path_loop dr n (r_addr (hd st)) toks s =
    (case name_walk s r st toks of Found t \<Rightarrow> Some (r_val t, None, s) | Missing t x ts \<Rightarrow> missing_step dr n t x ts s)"
  using assms(2)
proof (induction toks arbitrary: st)
  case Nil
  then show ?case using stack_node(1) [OF assms(1) Nil] subtree_facts(6) [OF assms(1) stack_subtree [OF Nil]] by simp
next
  case (Cons x xs)
  note nd = stack_node [OF assms(1) Cons.prems]
  have d: "distinct (addrs r)" "t_head (v_file_tree s) = r_addr r" "v_root_node s = r_val r"
    using assms(1) by (simp_all add: vfs_ok_def tree_repr_def)
  consider (up) "x = cstr ''..''" | (here) "x \<noteq> cstr ''..''" "x = cstr ''.''" | (name) "x \<noteq> cstr ''..''" "x \<noteq> cstr ''.''" by blast
  then show ?case
  proof cases
    case up
    show ?thesis
    proof (cases "tl st")
      case Nil
      then have "st = [r]" using Cons.prems by (cases "(r, st)" rule: stack_ok.cases) auto
      then show ?thesis using up d by simp
    next
      case C: (Cons u us)
      then have ok: "stack_ok r (u # us)" using Cons.prems by (cases "(r, st)" rule: stack_ok.cases) auto
      have "r_addr u \<noteq> NULL" using subtree_facts(6) [OF assms(1) stack_subtree [OF ok]] by simp
      then show ?thesis
        using Cons.IH [OF ok] up d nd(1) C stack_below_root [OF d(1) Cons.prems] by simp
    qed
  next
    case here
    then show ?thesis using Cons.IH [OF Cons.prems] by simp
  next
    case name
    show ?thesis
    proof (cases "find_kid s x (hd st)")
      case None
      obtain e where e: "nrd (v_tree_heap s) (r_addr (hd st)) = Some e" "tn_value e = r_val (hd st)" using nd(1) by simp
      obtain f where f: "at (v_nodes s) (r_val (hd st)) = Some f"
        using subtree_facts(3,4) [OF assms(1) stack_subtree [OF Cons.prems]] by (auto simp: at_def)
      show ?thesis using name nd(2) None by (cases "op_find_dir (fn_file_ops f)") (simp_all add: missing_step_def e f)
    next
      case (Some u)
      then have "stack_ok r (u # st)" using find_kid_in [OF Some] Cons.prems by (cases st) auto
      moreover have "r_addr u \<noteq> NULL" using nd(3) find_kid_in [OF Some] by blast
      ultimately show ?thesis using Cons.IH [of "u # st"] name nd(2) Some by simp
    qed
  qed
qed

section \<open>Growing the tree\<close>

definition grown :: "'d vfs \<Rightarrow> rose \<Rightarrow> ptr \<Rightarrow> bytes \<Rightarrow> ptr \<Rightarrow> rose \<Rightarrow> 'd vfs \<Rightarrow> bool" where
  \<comment> \<open>\<open>s'\<close> is \<open>s\<close> with a new node \<open>node\<close> of the given name as the last child at \<open>q\<close>\<close>
  "grown s r q nm node r' s' \<longleftrightarrow> (\<exists>a. r' = graft q (Rose a node []) r) \<and> vfs_ok s' r' \<and> node \<notin> set (vals r) \<and>
     node_name s' node = nm \<and> (\<forall>v \<in> set (vals r). node_name s' v = node_name s v)"

lemma find_kid_graft:
  assumes "\<And>u. u \<in> set (r_kids t) \<Longrightarrow> node_name s' (r_val u) = node_name s (r_val u)"
  shows "find_kid s' x (graft q new t) =
    (case find_kid s x t of Some u \<Rightarrow> Some (graft q new u)
     | None \<Rightarrow> if r_addr t = q \<and> node_name s' (r_val new) = x then Some new else None)"
proof -
  obtain p v ts where t: "t = Rose p v ts" by (cases t)
  have "List.find (\<lambda>u. node_name s' (r_val u) = x) (map (graft q new) us @ zs) =
    (case List.find (\<lambda>u. node_name s (r_val u) = x) us of Some u \<Rightarrow> Some (graft q new u)
     | None \<Rightarrow> List.find (\<lambda>u. node_name s' (r_val u) = x) zs)" if "set us \<subseteq> set ts" for us zs
    using that assms t by (induction us) auto
  then show ?thesis by (auto simp: find_kid_def t split: option.splits)
qed

lemma grafted_subtree: "q \<in> set (addrs r) \<Longrightarrow> new \<in> set (subtrees (graft q new r))"
proof (induction r)
  case (Rose p v ts)
  have "new \<in> set (subtrees new)" by (cases new) simp
  then show ?case using Rose by (auto simp: addrs_Rose)
qed

lemma grafted_node:
  assumes "rose_at h par (graft q (Rose a v []) r)" "q \<in> set (addrs r)"
  shows "nrd h a = Some \<lparr>tn_value = v, tn_children = [], tn_parent = q\<rparr>"
  using assms
proof (induction r arbitrary: par)
  case (Rose p w ts)
  show ?case
  proof (cases "p = q")
    case True
    then show ?thesis using Rose.prems(1) by (simp add: nrd_def)
  next
    case False
    then obtain t where "t \<in> set ts" "q \<in> set (addrs t)" using Rose.prems(2) by (auto simp: addrs_Rose)
    then show ?thesis using Rose.IH [of t p] Rose.prems(1) by simp
  qed
qed

lemma vals_in: "vfs_ok s r \<Longrightarrow> stack_ok r st \<Longrightarrow> u \<in> set (r_kids (hd st)) \<Longrightarrow> r_val u \<in> set (vals r)"
  using kid_subtree [OF _ stack_subtree] subtree_facts(2) by blast

lemma walk_graft:
  assumes "vfs_ok s r" "\<forall>v \<in> set (vals r). node_name s' v = node_name s v" "stack_ok r st"
  shows "case name_walk s r st toks of
      Found u \<Rightarrow> name_walk s' (graft q new r) (map (graft q new) st) toks = Found (graft q new u)
    | Missing t x ts \<Rightarrow> ts = [] \<and> r_addr t = q \<and> node_name s' (r_val new) = x \<longrightarrow>
        name_walk s' (graft q new r) (map (graft q new) st) toks = Found new"
  using assms(3)
proof (induction toks arbitrary: st)
  case Nil
  then show ?case by (cases st) auto
next
  case (Cons y ys)
  note st = Cons.prems
  have hd: "hd (map (graft q new) st) = graft q new (hd st)" "tl (map (graft q new) st) = map (graft q new) (tl st)"
    using st by (cases st; simp)+
  have k: "find_kid s' y (graft q new (hd st)) = (case find_kid s y (hd st) of Some u \<Rightarrow> Some (graft q new u)
     | None \<Rightarrow> if r_addr (hd st) = q \<and> node_name s' (r_val new) = y then Some new else None)"
    using assms(2) vals_in [OF assms(1) st] by (intro find_kid_graft) auto
  consider (up) "y = cstr ''..''" | (here) "y \<noteq> cstr ''..''" "y = cstr ''.''" | (name) "y \<noteq> cstr ''..''" "y \<noteq> cstr ''.''" by blast
  then show ?case
  proof cases
    case up
    have "stack_ok r (tl st)" if "tl st \<noteq> []" using st that by (cases "(r, st)" rule: stack_ok.cases) auto
    moreover have "name_walk s' (graft q new r) (map (graft q new) st) (y # ys) =
      name_walk s' (graft q new r) (map (graft q new) (tl st)) ys" if "tl st \<noteq> []"
      using that up by (simp add: hd)
    ultimately show ?thesis using up hd Cons.IH [of "tl st"]
      by (cases "tl st = []") (auto split: walk_result.splits)
  next
    case here
    then show ?thesis using Cons.IH [OF st] by (auto split: walk_result.splits)
  next
    case name
    show ?thesis
    proof (cases "find_kid s y (hd st)")
      case None
      then show ?thesis using name hd k by (auto split: walk_result.splits)
    next
      case (Some w)
      then have "stack_ok r (w # st)" using st find_kid_in [OF Some] by (cases st) auto
      then show ?thesis using name hd k Some Cons.IH [of "w # st"] by (auto split: walk_result.splits)
    qed
  qed
qed

lemma resolve_absolute:
  assumes "vfs_ok s r" "take 1 f = cstr ''/''" "path_tokens f \<noteq> []"
  shows "resolve_path k dr n cwd f s =
    (case name_walk s r [r] (path_tokens f) of Found t \<Rightarrow> Some (r_val t, None, s) | Missing t x ts \<Rightarrow> missing_step dr n t x ts s)"
proof -
  have "f \<noteq> cstr ''/''" using assms(3) by (auto simp: cstr_def path_tokens.simps)
  moreover have "r_addr r \<noteq> NULL" using assms(1) rose_at_root by (auto simp: vfs_ok_def tree_repr_def)
  ultimately have "resolve_path k dr n cwd f s = path_loop dr n (r_addr r) (path_tokens f) s"
    using assms vfs_ok_root [OF assms(1)] by (simp add: resolve_path_def)
  then show ?thesis using path_loop_walk [OF assms(1), of "[r]" dr n "path_tokens f"] by simp
qed

lemma add_file:
  assumes ok: "vfs_ok s r" and q: "q \<in> set (addrs r)" and sup: "v_supply s = b # a # as"
  shows "\<exists>h t. let s' = s\<lparr>v_supply := as, v_id_generator := i, v_nodes := (v_nodes s)(b \<mapsto> f), v_tree_heap := h, v_file_tree := t\<rparr> in
    insert_node n q b (put_node b f (s\<lparr>v_supply := a # as, v_id_generator := i\<rparr>)) = Some (a, s') \<and>
    grown s r q (fn_name f) b (graft q (Rose a b []) r) s'"
proof -
  let ?s1 = "put_node b f (s\<lparr>v_supply := a # as, v_id_generator := i\<rparr>)"
  have b: "b \<noteq> NULL" "v_nodes s b = None" "b \<notin> set (vals r)" "b \<notin> set (a # as)"
    using ok sup by (auto simp: vfs_ok_def)
  have ok1: "vfs_ok ?s1 r" using ok sup b by (auto simp: vfs_ok_def put_node_def)
  have "v_supply ?s1 = a # as" "v_nodes ?s1 b \<noteq> None" by (simp_all add: put_node_def)
  from insert_node_ok [OF ok1 q this(1) b(1) this(2) b(3), of n] obtain h t where
    i: "insert_node n q b ?s1 = Some (a, ?s1\<lparr>v_tree_heap := h, v_file_tree := t, v_supply := as\<rparr>)"
    "vfs_ok (?s1\<lparr>v_tree_heap := h, v_file_tree := t, v_supply := as\<rparr>) (graft q (Rose a b []) r)" by blast
  have e: "?s1\<lparr>v_tree_heap := h, v_file_tree := t, v_supply := as\<rparr> =
    s\<lparr>v_supply := as, v_id_generator := i, v_nodes := (v_nodes s)(b \<mapsto> f), v_tree_heap := h, v_file_tree := t\<rparr>"
    by (simp add: put_node_def)
  have "node_name (s\<lparr>v_supply := as, v_id_generator := i, v_nodes := (v_nodes s)(b \<mapsto> f), v_tree_heap := h, v_file_tree := t\<rparr>) v =
    (if v = b then fn_name f else node_name s v)" for v by (simp add: node_name_def)
  then show ?thesis using i b(3) unfolding e grown_def Let_def by (intro exI [of _ h] exI [of _ t]) auto
qed

section \<open>Creators of files\<close>

text \<open>
  The contract behind \<^verbatim>\<open>file_ops.create\<close>: the function adds a node of the given name below the directory. What
  \<^verbatim>\<open>create\<close> and \<^verbatim>\<open>open\<close> rely on follows from it: the new path resolves to the new node
  and every path that resolved before still resolves to the same node.
\<close>

locale file_creator =
  fixes creat :: "nat \<Rightarrow> ptr \<Rightarrow> bytes \<Rightarrow> int \<Rightarrow> 'd vfs \<Rightarrow> (bool \<times> 'd vfs) option"
    and blocks :: nat
  assumes creat_law: "vfs_ok s r \<Longrightarrow> depth r \<le> n \<Longrightarrow> t \<in> set (subtrees r) \<Longrightarrow> length nm < 256 \<Longrightarrow>
      blocks \<le> length (v_supply s) \<Longrightarrow>
      \<exists>node r' s'. creat n (r_val t) nm mode s = Some (True, s') \<and> grown s r (r_addr t) nm node r' s'"
begin

lemma created_path_resolves:
  assumes "vfs_ok s r" "depth r \<le> n" "take 1 file = cstr ''/''" "name_walk s r [r] (path_tokens file) = Missing t nm []"
    "t \<in> set (subtrees r)" "length nm < 256" "blocks \<le> length (v_supply s)"
  shows "\<exists>node r' s'. creat n (r_val t) nm mode s = Some (True, s') \<and> vfs_ok s' r' \<and> node \<notin> set (vals r) \<and>
    resolve_path k dr m cwd file s' = Some (node, None, s') \<and>
    (\<forall>other u. take 1 other = cstr ''/'' \<longrightarrow> path_tokens other \<noteq> [] \<longrightarrow> name_walk s r [r] (path_tokens other) = Found u \<longrightarrow>
      resolve_path k dr m cwd other s' = Some (r_val u, None, s'))"
proof -
  from creat_law [OF assms(1,2,5,6,7), of mode] obtain node r' s' where
    c: "creat n (r_val t) nm mode s = Some (True, s')" "grown s r (r_addr t) nm node r' s'" by blast
  then obtain a where r': "r' = graft (r_addr t) (Rose a node []) r" and g: "vfs_ok s' r'" "node \<notin> set (vals r)"
    "node_name s' node = nm" "\<forall>v \<in> set (vals r). node_name s' v = node_name s v" by (auto simp: grown_def)
  note w = walk_graft [OF assms(1) g(4), where st = "[r]" and q = "r_addr t" and new = "Rose a node []"]
  note rp = resolve_absolute [OF g(1)]
  have "path_tokens file \<noteq> []" using assms(4) by auto
  then have "resolve_path k dr m cwd file s' = Some (node, None, s')"
    using rp [OF assms(3)] w [of "path_tokens file"] assms(4) g(3) r' by simp
  moreover have "resolve_path k dr m cwd other s' = Some (r_val u, None, s')"
    if "take 1 other = cstr ''/''" "path_tokens other \<noteq> []" "name_walk s r [r] (path_tokens other) = Found u" for other u
    using rp [OF that(1,2)] w [of "path_tokens other"] that(3) r' by simp
  ultimately show ?thesis using c(1) g(1,2) by blast
qed

end

lemma vfs_create_law:
  assumes "vfs_ok s r" "depth r \<le> n" "t \<in> set (subtrees r)" "length nm < 256" "2 \<le> length (v_supply s)"
  shows "\<exists>node r' s'. vfs_create n (r_val t) nm mode s = Some (True, s') \<and> grown s r (r_addr t) nm node r' s'"
proof -
  obtain b a as where sup: "v_supply s = b # a # as" using assms(5) by (auto simp: numeral_2_eq_2 Suc_le_length_iff)
  let ?f = "empty_node\<lparr>fn_type := FILE_TYPE_FILE, fn_size := 0, fn_ref_count := 0, fn_id := to_size (v_id_generator s), fn_name := nm\<rparr>"
  from add_file [OF assms(1) subtree_facts(1) [OF assms(1,3)] sup, where i = "wrap_int (v_id_generator s + 1)" and f = ?f and n = n]
  obtain s' where "insert_node n (r_addr t) b (put_node b ?f (s\<lparr>v_supply := a # as, v_id_generator := wrap_int (v_id_generator s + 1)\<rparr>)) =
      Some (a, s')" "grown s r (r_addr t) nm b (graft (r_addr t) (Rose a b []) r) s'" by (auto simp: Let_def)
  moreover have "r_addr t \<noteq> NULL" using subtree_facts(6) [OF assms(1,3)] .
  ultimately show ?thesis
    using find_node_subtree [OF assms(1-3)] sup assms(4)
    by (auto simp: vfs_create_def calloc_addr_def get_next_file_id_def set_name_def)
qed

interpretation vfs_files: file_creator vfs_create 2
  by unfold_locales (rule vfs_create_law)

section \<open>Opening\<close>

definition cwd_known :: "'d vfs \<Rightarrow> bool" where
  \<comment> \<open>no process runs, or its working directory is open\<close>
  "cwd_known s \<longleftrightarrow> \<not> v_has_process s \<or> v_cwd_file s \<noteq> NULL \<and> v_cwd s \<noteq> None"

definition no_find_dir :: "'d vfs \<Rightarrow> ptr \<Rightarrow> bool" where
  "no_find_dir s p \<longleftrightarrow> (\<exists>f. v_nodes s p = Some f \<and> op_find_dir (fn_file_ops f) = None)"

lemma get_cwd_name_known: "cwd_known s \<Longrightarrow> \<exists>c. get_cwd_name (Suc k) dr n s = Some (c, s)"
  by (cases "v_cwd s") (auto simp: cwd_known_def get_cwd_name.simps)

lemma missing_step_plain:
  assumes "vfs_ok s r" "t \<in> set (subtrees r)" "no_find_dir s (r_val t)"
  shows "missing_step dr n t x [] s = Some (NULL, Some (r_val t, x), s)"
  using assms(3) subtree_facts(3) [OF assms(1,2)] by (auto simp: missing_step_def no_find_dir_def at_def)

lemma open_missing:
  assumes "vfs_ok s r" "take 1 f = cstr ''/''" "name_walk s r [r] (path_tokens f) = Missing t x []"
    "t \<in> set (subtrees r)" "no_find_dir s (r_val t)" "cwd_known s"
  shows "open_path (Suc (Suc k)) dr n f 0 s = Some (NULL, s)"
    and "resolve_path k' dr n cwd f s = Some (NULL, Some (r_val t, x), s)"
proof -
  have t: "path_tokens f \<noteq> []" using assms(3) by auto
  then have "f \<noteq> cstr ''/''" by (auto simp: cstr_def path_tokens.simps)
  moreover have rp: "resolve_path k dr n c f s = Some (NULL, Some (r_val t, x), s)" for k c
    using resolve_absolute [OF assms(1,2) t] assms(3) missing_step_plain [OF assms(1,4,5)] by simp
  moreover obtain c where "get_cwd_name (Suc k) dr n s = Some (c, s)" using get_cwd_name_known [OF assms(6)] by blast
  ultimately show "open_path (Suc (Suc k)) dr n f 0 s = Some (NULL, s)" by (simp add: open_path.simps)
  show "resolve_path k' dr n cwd f s = Some (NULL, Some (r_val t, x), s)" by (rule rp)
qed

lemma open_found:
  assumes "vfs_ok s r" "take 1 f = cstr ''/''" "path_tokens f \<noteq> []" "name_walk s r [r] (path_tokens f) = Found t"
    "t \<in> set (subtrees r)" "v_nodes s (r_val t) = Some g" "op_open (fn_file_ops g) = None" "cwd_known s" "mode AND O_DIRECTORY = 0"
  shows "open_path (Suc (Suc k)) dr n f mode s = Some (r_val t, s)"
proof -
  have "f \<noteq> cstr ''/''" using assms(3) by (auto simp: cstr_def path_tokens.simps)
  moreover have "resolve_path k dr n c f s = Some (r_val t, None, s)" for k c
    using resolve_absolute [OF assms(1-3)] assms(4) by simp
  moreover obtain c where "get_cwd_name (Suc k) dr n s = Some (c, s)" using get_cwd_name_known [OF assms(8)] by blast
  ultimately show ?thesis
    using subtree_facts(3) [OF assms(1,5)] assms(6,7,9) by (simp add: open_path.simps at_def)
qed

lemma vfs_ok_upd:
  assumes "vfs_ok s r" "v_nodes s p = Some f" "fn_name g = fn_name f"
  shows "vfs_ok (put_node p g s) r" "node_name (put_node p g s) = node_name s"
  using assms by (auto simp: vfs_ok_def put_node_def node_name_def fun_eq_iff)

lemma mkdir_vfs_ok:
  assumes "vfs_ok s r" "depth r \<le> n" "take 1 f = cstr ''/''" "length f \<le> 256" "name_walk s r [r] (path_tokens f) = Missing t x []"
    "t \<in> set (subtrees r)" "no_find_dir s (r_val t)" "cwd_known s" "length x < 256" "v_supply s = b # a # as"
  shows "\<exists>s'. mkdir_vfs (Suc (Suc k)) dr n f s = Some (b, s') \<and>
    grown s r (r_addr t) x b (graft (r_addr t) (Rose a b []) r) s' \<and> cwd_known s' \<and>
    v_nodes s' b = Some (empty_node\<lparr>fn_type := FILE_TYPE_DIR, fn_id := to_size (v_id_generator s), fn_name := x,
      fn_file_ops := no_ops\<lparr>op_read_dir := Some ''vfs_read_dir'', op_create := Some ''vfs_create''\<rparr>\<rparr>)"
proof -
  let ?f = "empty_node\<lparr>fn_type := FILE_TYPE_DIR, fn_id := to_size (v_id_generator s), fn_name := x,
      fn_file_ops := no_ops\<lparr>op_read_dir := Some ''vfs_read_dir'', op_create := Some ''vfs_create''\<rparr>\<rparr>"
  have "path_tokens f \<noteq> []" using assms(5) by auto
  then have f1: "\<not> (length f = 1 \<and> f \<noteq> cstr ''/'')" using assms(3) by (auto simp: length_Suc_conv)
  obtain p where p: "v_nodes s (r_val t) = Some p" "r_val t \<noteq> NULL" using subtree_facts(3,4) [OF assms(1,6)] by blast
  let ?p = "p\<lparr>fn_size := fn_size p + 1\<rparr>"
  let ?s0 = "put_node (r_val t) ?p s"
  have ok: "vfs_ok ?s0 r" "node_name ?s0 = node_name s" using vfs_ok_upd [OF assms(1) p(1), of ?p] by simp_all
  have sup: "v_supply ?s0 = b # a # as" using assms(10) by (simp add: put_node_def)
  from add_file [OF ok(1) subtree_facts(1) [OF assms(1,6)] sup, where i = "wrap_int (v_id_generator s + 1)" and f = ?f and n = n]
  obtain h tt where ins: "let s' = ?s0\<lparr>v_supply := as, v_id_generator := wrap_int (v_id_generator s + 1),
      v_nodes := (v_nodes ?s0)(b \<mapsto> ?f), v_tree_heap := h, v_file_tree := tt\<rparr> in
    insert_node n (r_addr t) b (put_node b ?f (?s0\<lparr>v_supply := a # as, v_id_generator := wrap_int (v_id_generator s + 1)\<rparr>)) = Some (a, s') \<and>
    grown ?s0 r (r_addr t) (fn_name ?f) b (graft (r_addr t) (Rose a b []) r) s'" by blast
  have nb: "b \<noteq> r_val t" using assms(1,10) p by (auto simp: vfs_ok_def)
  have e: "put_node (r_val t) ?p (put_node b ?f (s\<lparr>v_supply := a # as, v_id_generator := wrap_int (v_id_generator s + 1)\<rparr>)) =
    put_node b ?f (?s0\<lparr>v_supply := a # as, v_id_generator := wrap_int (v_id_generator s + 1)\<rparr>)"
    using nb by (simp add: put_node_def fun_upd_twist)
  have nf: "set_name x (empty_node\<lparr>fn_type := FILE_TYPE_DIR, fn_id := to_size (v_id_generator s), fn_size := 0, fn_ref_count := 0,
      fn_file_ops := no_ops\<lparr>op_read_dir := Some ''vfs_read_dir'', op_create := Some ''vfs_create''\<rparr>\<rparr>) = Some ?f"
    using assms(9) by (simp add: set_name_def empty_node_def)
  have "r_addr t \<noteq> NULL" using subtree_facts(6) [OF assms(1,6)] .
  then have "mkdir_vfs (Suc (Suc k)) dr n f s = insert_node n (r_addr t) b (put_node b ?f
      (?s0\<lparr>v_supply := a # as, v_id_generator := wrap_int (v_id_generator s + 1)\<rparr>)) \<bind> (\<lambda>(_, s6). Some (b, s6))"
    using f1 p nb assms(4,10)
    by (simp add: mkdir_vfs_def open_missing [OF assms(1,3,5-8)] find_node_subtree [OF assms(1,2,6)]
          calloc_addr_def get_next_file_id_def nf upd_node_def at_def)
       (auto simp: put_node_def fun_upd_twist)
  moreover have "cwd_known ?s0" using assms(8) by (simp add: cwd_known_def put_node_def)
  ultimately show ?thesis using ins ok(2) by (auto simp: Let_def grown_def cwd_known_def)
qed

section \<open>Deleting\<close>

lemma preorder_prune: "set (preorder (prune q t)) \<subseteq> set (preorder t)"
proof (induction t)
  case (Rose p v ts)
  then show ?case by fastforce
qed

lemma prune_removes: "q \<noteq> r_addr t \<Longrightarrow> q \<notin> set (addrs (prune q t))"
proof (induction t)
  case (Rose p v ts)
  then show ?case by (auto simp: addrs_Rose)
qed

lemma r_val_prune [simp]: "r_val (prune q t) = r_val t"
  by (cases t) simp

lemma vals_prune:
  assumes "vfs_ok s r" "t \<in> set (subtrees r)" "r_addr t \<noteq> r_addr r"
  shows "distinct (vals (prune (r_addr t) r))" "set (vals (prune (r_addr t) r)) \<subseteq> set (vals r) - {r_val t}"
proof -
  let ?xs = "preorder (prune (r_addr t) r)"
  have d: "distinct (addrs r)" "distinct (map snd (preorder r))" using assms(1) by (simp_all add: vfs_ok_def vals_def tree_repr_def)
  have sub: "set ?xs \<subseteq> set (preorder r)" by (rule preorder_prune)
  have inj: "inj_on snd (set (preorder r))" using d(2) by (simp add: distinct_map)
  have "distinct (map fst ?xs)" using distinct_addrs_prune [OF d(1)] by (simp add: addrs_def)
  then have "distinct ?xs" by (simp add: distinct_map)
  then show "distinct (vals (prune (r_addr t) r))" using inj_on_subset [OF inj sub] by (simp add: vals_def distinct_map)
  have t: "(r_addr t, r_val t) \<in> set (preorder r)" using assms(2) by (auto simp flip: subtrees_preorder)
  have "x \<noteq> (y, r_val t)" if "x \<in> set ?xs" for x y
  proof
    assume x: "x = (y, r_val t)"
    then have "x = (r_addr t, r_val t)" using inj_onD [OF inj _ _ t] sub that by auto
    then have "r_addr t \<in> set (addrs (prune (r_addr t) r))" using that by (force simp: addrs_def)
    then show False using prune_removes [OF assms(3)] by simp
  qed
  then show "set (vals (prune (r_addr t) r)) \<subseteq> set (vals r) - {r_val t}" using sub by (force simp: vals_def)
qed

lemma remove_node_ok:
  assumes "vfs_ok s r" "depth r \<le> n" "t \<in> set (subtrees r)" "r_addr t \<noteq> r_addr r"
  shows "\<exists>h tt. remove_node n (r_addr t) s = Some (s\<lparr>v_tree_heap := h, v_file_tree := tt\<rparr>) \<and>
    vfs_ok (free_node (r_val t) (s\<lparr>v_tree_heap := h, v_file_tree := tt\<rparr>)) (prune (r_addr t) r)"
proof -
  have t: "tree_repr (v_tree_heap s) (v_file_tree s) r" using assms(1) by (simp add: vfs_ok_def)
  from tree_remove_repr [OF t subtree_facts(1) [OF assms(1,3)] assms(4,2)] obtain h tt where
    r: "tree_remove n (v_tree_heap s) (v_file_tree s) (r_addr t) = Some (h, tt)" "tree_repr h tt (prune (r_addr t) r)" by blast
  have "vfs_ok (free_node (r_val t) (s\<lparr>v_tree_heap := h, v_file_tree := tt\<rparr>)) (prune (r_addr t) r)"
    using assms(1) r(2) vals_prune [OF assms(1,3,4)] set_addrs_prune [of "r_addr t" r]
    by (auto simp: vfs_ok_def free_node_def)
  then show ?thesis using r(1) by (intro exI [of _ h] exI [of _ tt]) (simp add: remove_node_def)
qed

section \<open>Tokens in memory\<close>

fun strtok_loop :: "nat \<Rightarrow> mem \<Rightarrow> ptr \<Rightarrow> ptr \<Rightarrow> ptr \<Rightarrow> (ptr list \<times> mem) option" where
  \<comment> \<open>the values of \<^verbatim>\<open>pch\<close> until \<^verbatim>\<open>strtok_r\<close> yields \<^verbatim>\<open>NULL\<close>: a first call with the string, further calls with \<^verbatim>\<open>NULL\<close>\<close>
  "strtok_loop 0 m str0 delim saved = None"
| "strtok_loop (Suc k) m str0 delim saved = do {
     (pch, saved1, m1) \<leftarrow> strtok_r m str0 delim saved;
     if pch = NULL then Some ([], m1)
     else do { (ps, m2) \<leftarrow> strtok_loop k m1 NULL delim saved1; Some (pch # ps, m2) }
   }"

lemma cstr_at_frame:
  assumes "cstr_at m p s" "\<And>i. i \<le> length s \<Longrightarrow> m' (p + of_nat i) = m (p + of_nat i)"
  shows "cstr_at m' p s"
  using assms(1) unfolding cstr_at_nth by (auto simp: rdb_def assms(2))

lemma strtok_loop_tokens:
  assumes "cstr_at m str s" "cstr_at m delim [47]" "length s < 2 ^ 64" "\<And>i. i \<le> length s \<Longrightarrow> str + of_nat i \<noteq> delim"
    "str0 = str \<or> str0 = NULL \<and> saved = str" "length s < k"
  shows "\<exists>ps m'. strtok_loop k m str0 delim saved = Some (ps, m') \<and> list_all2 (cstr_at m') ps (path_tokens s) \<and>
    (\<forall>q. (\<forall>i < length s. q \<noteq> str + of_nat i) \<longrightarrow> m' q = m q)"
  using assms
proof (induction s arbitrary: m str str0 saved k rule: length_induct)
  case (1 s)
  obtain j where k: "k = Suc j" using "1.prems"(6) by (cases k) auto
  define s1 where "s1 = dropWhile (\<lambda>b. b = 47) s"
  define tok where "tok = takeWhile (\<lambda>b. b \<noteq> 47) s1"
  define rest where "rest = dropWhile (\<lambda>b. b \<noteq> 47) s1"
  define d where "d = length s - length s1"
  let ?p = "str + of_nat d"
  have le: "length s1 \<le> length s" by (simp add: s1_def length_dropWhile_le)
  have sr: "s1 = tok @ rest" by (simp add: tok_def rest_def)
  have in47: "(\<lambda>b. b \<in> set [47]) = (\<lambda>b :: u8. b = 47)" "(\<lambda>b. b \<notin> set [47]) = (\<lambda>b :: u8. b \<noteq> 47)" by auto
  note t = strtok_r_cstr [OF "1.prems"(1-3,5), unfolded in47, folded s1_def, folded tok_def rest_def d_def]
  have pt: "path_tokens s = (if s1 = [] then [] else tok # path_tokens (tl rest))"
    by (subst path_tokens.simps) (simp add: s1_def tok_def rest_def Let_def)
  have pn: "?p \<noteq> NULL" using cstr_at_nonnull [OF t(2)] .
  show ?case
  proof (cases "s1 = []")
    case True
    then have "strtok_r m str0 delim saved = Some (NULL, NULL, m)" "path_tokens s = []" using t(1) pt by simp_all
    then show ?thesis using k by simp
  next
    case s1: False
    show ?thesis
    proof (cases rest)
      case Nil
      obtain i where j: "j = Suc i" using "1.prems"(6) s1 le k by (cases j) auto
      have "strtok_r m NULL delim NULL = Some (NULL, NULL, m)" by (simp add: strtok_r_def)
      then show ?thesis using t s1 Nil pn pt k j sr by (simp add: path_tokens.simps [of "[]"])
    next
      case (Cons c cs)
      let ?q = "str + of_nat (d + length tok)"
      let ?m1 = "m(?q \<mapsto> 0)"
      have len: "length s = d + length tok + Suc (length cs)" using le sr Cons by (simp add: d_def)
      have cut: "cstr_at ?m1 ?p tok" "cstr_at ?m1 (?q + 1) cs"
        using cstr_at_cut [of m ?p tok c cs] t(2) sr Cons "1.prems"(3) len by (simp_all add: add.assoc)
      have qd: "?q \<noteq> delim" "?q \<noteq> delim + 1"
      proof -
        show "?q \<noteq> delim" using "1.prems"(4) [of "d + length tok"] len by simp
        have "cstr_at m (?p + of_nat (length tok)) (c # cs)" using cstr_at_drop [OF t(2), of "length tok"] sr Cons by simp
        then have "rdb m ?q = Some c" "c \<noteq> 0" by (simp_all add: add.assoc)
        then show "?q \<noteq> delim + 1" using "1.prems"(2) by auto
      qed
      have dl: "cstr_at ?m1 delim [47]" using "1.prems"(2) qd by (auto simp: rdb_def)
      have "?q + 1 + of_nat i = str + of_nat (d + length tok + 1 + i)" for i by (simp add: algebra_simps)
      note off = this
      have "\<exists>ps m'. strtok_loop j ?m1 NULL delim (?q + 1) = Some (ps, m') \<and> list_all2 (cstr_at m') ps (path_tokens cs) \<and>
        (\<forall>q. (\<forall>i < length cs. q \<noteq> ?q + 1 + of_nat i) \<longrightarrow> m' q = ?m1 q)"
      proof (rule "1.IH" [rule_format])
        show "?q + 1 + of_nat i \<noteq> delim" if "i \<le> length cs" for i
          using "1.prems"(4) [of "d + length tok + 1 + i"] that len unfolding off by simp
      qed (use cut(2) dl "1.prems"(3,6) len k in simp_all)
      then obtain ps m' where r: "strtok_loop j ?m1 NULL delim (?q + 1) = Some (ps, m')" "list_all2 (cstr_at m') ps (path_tokens cs)"
        and fr: "\<And>q. (\<forall>i < length cs. q \<noteq> ?q + 1 + of_nat i) \<Longrightarrow> m' q = ?m1 q" by blast
      have "cstr_at m' ?p tok"
      proof (rule cstr_at_frame [OF cut(1)])
        fix i assume i: "i \<le> length tok"
        have "?p + of_nat i \<noteq> ?q + 1 + of_nat l" if "l < length cs" for l
          using off_eq_iff [of "d + i" "d + length tok + 1 + l" str] i that "1.prems"(3) len by (simp add: algebra_simps)
        then show "m' (?p + of_nat i) = ?m1 (?p + of_nat i)" by (intro fr) blast
      qed
      moreover have "m' x = m x" if x: "\<forall>i < length s. x \<noteq> str + of_nat i" for x
      proof -
        have "x \<noteq> ?q + 1 + of_nat i" if "i < length cs" for i
          using x [rule_format, of "d + length tok + 1 + i"] that len unfolding off by simp
        moreover have "x \<noteq> ?q" using x [rule_format, of "d + length tok"] len by simp
        ultimately show ?thesis using fr [of x] by simp
      qed
      moreover have "strtok_r m str0 delim saved = Some (?p, ?q + 1, ?m1)"
        using t(1) s1 Cons by (simp add: add.assoc)
      ultimately show ?thesis using r pn pt s1 Cons k by (intro exI [of _ "?p # ps"] exI [of _ m']) simp
    qed
  qed
qed

section \<open>Properties\<close>

definition demo_driver :: "unit driver" where
  \<comment> \<open>no driver is loaded: every call is a jump to \<^verbatim>\<open>NULL\<close>, except the two functions of the VFS\<close>
  "demo_driver =
     \<lparr>call_read = \<lambda>_ _ _ _ _. None, call_write = \<lambda>_ _ _ _ _. None, call_open = \<lambda>_ _ _ _. None,
      call_read_dir = \<lambda>f node c s. if f = ''vfs_read_dir'' then vfs_read_dir 9 node c s else None,
      call_mkdir = \<lambda>_ _ _ _. None, call_find_dir = \<lambda>_ _ _ _. None, call_get_size = \<lambda>_ _ _. None,
      call_create = \<lambda>f p nm mode s. if f = ''vfs_create'' then vfs_create 9 p nm mode s else None,
      call_poll = \<lambda>_ _ _ _. None, call_rename = \<lambda>_ _ _ _. None, call_delete = \<lambda>_ _ _. None\<rparr>"

definition demo_vfs :: "unit vfs" where
  \<comment> \<open>the root with one directory, \<^verbatim>\<open>/dev\<close>\<close>
  "demo_vfs =
     \<lparr>v_nodes = [100 \<mapsto> empty_node\<lparr>fn_name := cstr ''[root]'', fn_type := FILE_TYPE_MOUNT_POINT\<rparr>,
        101 \<mapsto> empty_node\<lparr>fn_name := cstr ''dev'', fn_type := FILE_TYPE_DIR, fn_file_ops := no_ops\<lparr>op_create := Some ''vfs_create''\<rparr>\<rparr>],
      v_tree_heap = [16 \<mapsto> \<lparr>tn_value = 100, tn_children = [32], tn_parent = 0\<rparr>,
        32 \<mapsto> \<lparr>tn_value = 101, tn_children = [], tn_parent = 16\<rparr>],
      v_file_tree = \<lparr>t_head = 16, t_height = 1\<rparr>, v_root_node = 100, v_id_generator = 3, v_supply = [200, 48, 201, 64],
      v_has_process = False, v_cwd = None, v_cwd_file = 0, v_fs_owner = Map.empty, v_priv = ()\<rparr>"

definition demo_root :: rose where
  "demo_root = Rose 16 100 [Rose 32 101 []]"

lemma demo_vfs_ok: "vfs_ok demo_vfs demo_root" "depth demo_root \<le> 9" "cwd_known demo_vfs"
  "Rose 32 101 [] \<in> set (subtrees demo_root)" "no_find_dir demo_vfs 101"
  by (simp_all add: vfs_ok_def demo_vfs_def demo_root_def tree_repr_def addrs_def vals_def empty_node_def cwd_known_def
      no_find_dir_def no_ops_def)

lemma demo_walks:
  "path_tokens (cstr ''/dev//tty'') = [cstr ''dev'', cstr ''tty'']"
  "name_walk demo_vfs demo_root [demo_root] [cstr ''dev'', cstr ''tty''] = Missing (Rose 32 101 []) (cstr ''tty'') []"
  "name_walk demo_vfs demo_root [demo_root] [cstr ''dev''] = Found (Rose 32 101 [])"
  "take 1 (cstr ''/dev//tty'') = cstr ''/''" "path_tokens (cstr ''/dev'') = [cstr ''dev'']" "take 1 (cstr ''/dev'') = cstr ''/''"
  by (simp_all add: cstr_def path_tokens.simps find_kid_def node_name_def demo_vfs_def demo_root_def empty_node_def)

lemma demo_missing:
  "name_walk demo_vfs demo_root [demo_root] (path_tokens (cstr ''/dev//tty'')) = Missing (Rose 32 101 []) (cstr ''tty'') []"
  "name_walk demo_vfs demo_root [demo_root] (path_tokens (cstr ''/dev'')) = Found (Rose 32 101 [])"
  "length (cstr ''tty'') < 256" "length (cstr ''/dev//tty'') \<le> 256" "v_supply demo_vfs = 200 # 48 # [201, 64]"
  "2 \<le> length (v_supply demo_vfs)"
  by (simp_all only: demo_walks) (simp_all add: cstr_def demo_vfs_def)

text \<open>C11. \<^verbatim>\<open>resolve_path\<close> on an absolute path refines the name walk over the abstract file tree: a path
  whose names, with \<^verbatim>\<open>.\<close> and \<^verbatim>\<open>..\<close>, lead to a node yields that node and changes nothing; when only the last name is
  missing and the directory has no driver look-up, the result is \<^verbatim>\<open>NULL\<close> with the directory and the name
  handed out; when an inner name is missing there, the next name is looked up in \<^verbatim>\<open>NULL\<close>, a fault.\<close>

theorem resolve_path_refines_walk:
  assumes "vfs_ok s r" "take 1 file = cstr ''/''" "path_tokens file \<noteq> []"
  shows "case name_walk s r [r] (path_tokens file) of
      Found t \<Rightarrow> resolve_path k dr n cwd file s = Some (r_val t, None, s)
    | Missing t x ts \<Rightarrow> t \<in> set (subtrees r) \<and> no_find_dir s (r_val t) \<longrightarrow>
        (ts = [] \<longrightarrow> resolve_path k dr n cwd file s = Some (NULL, Some (r_val t, x), s)) \<and>
        (ts \<noteq> [] \<and> hd ts \<notin> {cstr ''.'', cstr ''..''} \<longrightarrow> resolve_path k dr n cwd file s = None)"
proof (cases "name_walk s r [r] (path_tokens file)")
  case (Found t)
  then show ?thesis using resolve_absolute [OF assms] by simp
next
  case (Missing t x ts)
  have "missing_step dr n t x ts s = None"
    if "t \<in> set (subtrees r)" "no_find_dir s (r_val t)" "ts \<noteq> []" "hd ts \<notin> {cstr ''.'', cstr ''..''}"
    using that subtree_facts(3) [OF assms(1) that(1)]
    by (cases ts) (auto simp: missing_step_def no_find_dir_def at_def get_child_def nrd_def)
  then show ?thesis using Missing resolve_absolute [OF assms] missing_step_plain [OF assms(1)] by simp
qed

theorem resolve_path_refines_walk_witness:
  "resolve_path 3 demo_driver 9 (cstr ''/'') (cstr ''/dev//tty'') demo_vfs = Some (NULL, Some (101, cstr ''tty''), demo_vfs)"
  using resolve_path_refines_walk [OF demo_vfs_ok(1) demo_walks(4), where k = 3 and dr = demo_driver and n = 9 and cwd = "cstr ''/''"]
    demo_missing(1) demo_vfs_ok(4,5) demo_walks(1) by simp

text \<open>Creating a file makes it reachable: when \<^verbatim>\<open>vfs_create\<close> is called for the directory and the name that
  \<^verbatim>\<open>resolve_path\<close> handed out, it succeeds, the path then resolves to the new node, which was no node
  before, and every path that resolved before still resolves to the same node.\<close>

theorem vfs_create_then_resolve:
  assumes "vfs_ok s r" "depth r \<le> n" "take 1 file = cstr ''/''" "name_walk s r [r] (path_tokens file) = Missing t nm []"
    "t \<in> set (subtrees r)" "length nm < 256" "2 \<le> length (v_supply s)"
  shows "\<exists>node r' s'. vfs_create n (r_val t) nm mode s = Some (True, s') \<and> vfs_ok s' r' \<and> node \<notin> set (vals r) \<and>
    resolve_path k dr m cwd file s' = Some (node, None, s') \<and>
    (\<forall>other u. take 1 other = cstr ''/'' \<longrightarrow> path_tokens other \<noteq> [] \<longrightarrow> name_walk s r [r] (path_tokens other) = Found u \<longrightarrow>
      resolve_path k dr m cwd other s' = Some (r_val u, None, s'))"
  using assms by (rule vfs_files.created_path_resolves)

theorem vfs_create_then_resolve_witness:
  "\<exists>node s'. vfs_create 9 101 (cstr ''tty'') 0 demo_vfs = Some (True, s') \<and>
    resolve_path 3 demo_driver 9 (cstr ''/'') (cstr ''/dev//tty'') s' = Some (node, None, s') \<and>
    resolve_path 3 demo_driver 9 (cstr ''/'') (cstr ''/dev'') s' = Some (101, None, s')"
proof -
  from vfs_create_then_resolve [OF demo_vfs_ok(1,2) demo_walks(4) demo_missing(1) demo_vfs_ok(4) demo_missing(3,6),
      where mode = 0 and k = 3 and dr = demo_driver and m = 9 and cwd = "cstr ''/''"]
  show ?thesis using demo_missing(2) demo_walks(5,6) by fastforce
qed

text \<open>C12. \<^verbatim>\<open>mkdir_vfs\<close> and \<^verbatim>\<open>resolve_path\<close> fit together: making a directory whose parent exists returns a fresh node of type
  directory that carries the last name of the path, its parent is the directory that the path names, the tree stays well formed, and opening the path returns this node.\<close>

theorem mkdir_vfs_then_open:
  assumes "vfs_ok s r" "depth r \<le> n" "take 1 f = cstr ''/''" "length f \<le> 256" "name_walk s r [r] (path_tokens f) = Missing t x []"
    "t \<in> set (subtrees r)" "no_find_dir s (r_val t)" "cwd_known s" "length x < 256" "v_supply s = b # a # as"
  shows "\<exists>s'. mkdir_vfs (Suc (Suc k)) dr n f s = Some (b, s') \<and> vfs_ok s' (graft (r_addr t) (Rose a b []) r) \<and>
    (\<exists>g. v_nodes s' b = Some g \<and> fn_type g = FILE_TYPE_DIR \<and> fn_name g = x) \<and>
    open_path (Suc (Suc k)) dr n f 0 s' = Some (b, s')"
proof -
  let ?r = "graft (r_addr t) (Rose a b []) r"
  from mkdir_vfs_ok [OF assms] obtain s' where
    m: "mkdir_vfs (Suc (Suc k)) dr n f s = Some (b, s')" "grown s r (r_addr t) x b ?r s'" "cwd_known s'"
    "v_nodes s' b = Some (empty_node\<lparr>fn_type := FILE_TYPE_DIR, fn_id := to_size (v_id_generator s), fn_name := x,
      fn_file_ops := no_ops\<lparr>op_read_dir := Some ''vfs_read_dir'', op_create := Some ''vfs_create''\<rparr>\<rparr>)" (is "_ = Some ?g")
    by blast
  have ok: "vfs_ok s' ?r" using m(2) by (simp add: grown_def)
  have "name_walk s' ?r [?r] (path_tokens f) = Found (Rose a b [])"
    using walk_graft [OF assms(1), where s' = s' and st = "[r]" and toks = "path_tokens f" and q = "r_addr t" and new = "Rose a b []"] m(2) assms(5) by (simp add: grown_def)
  moreover have "path_tokens f \<noteq> []" using assms(5) by auto
  moreover have "Rose a b [] \<in> set (subtrees ?r)" by (rule grafted_subtree [OF subtree_facts(1) [OF assms(1,6)]])
  ultimately have "open_path (Suc (Suc k)) dr n f 0 s' = Some (b, s')"
    using open_found [OF ok assms(3), of "Rose a b []" ?g 0] m(3,4) by (simp add: empty_node_def no_ops_def)
  then show ?thesis using m ok by (intro exI [of _ s']) (simp add: empty_node_def)
qed

theorem mkdir_vfs_then_open_witness:
  "\<exists>s'. mkdir_vfs 2 demo_driver 9 (cstr ''/dev//tty'') demo_vfs = Some (200, s') \<and>
    open_path 2 demo_driver 9 (cstr ''/dev//tty'') 0 s' = Some (200, s')"
proof -
  have nf: "no_find_dir demo_vfs (r_val (Rose 32 101 []))" using demo_vfs_ok(5) by simp
  from mkdir_vfs_then_open [OF demo_vfs_ok(1,2) demo_walks(4) demo_missing(4,1) demo_vfs_ok(4) nf demo_vfs_ok(3) demo_missing(3,5),
      where k = 0 and dr = demo_driver]
  show ?thesis by (auto simp: numeral_2_eq_2)
qed

text \<open>Look-ups in a driver are cached: when the driver of the directory finds the missing last name, \<^verbatim>\<open>resolve_path\<close> returns its node, the
  tree gains that node below the directory and stays well formed, and a second resolution returns the same
  node without asking any driver.\<close>

theorem resolve_path_caches:
  assumes "vfs_ok s r" "take 1 file = cstr ''/''" "name_walk s r [r] (path_tokens file) = Missing t x []"
    "t \<in> set (subtrees r)" "v_nodes s (r_val t) = Some d" "op_find_dir (fn_file_ops d) = Some g"
    and drv: "call_find_dir dr g (r_val t) x s = Some (node, s1)" "vfs_ok s1 r" "node \<noteq> NULL" "node \<notin> set (vals r)"
      "v_nodes s1 node = Some f" "fn_name f = x" "\<forall>v \<in> set (vals r). node_name s1 v = node_name s v" "v_supply s1 = a # as"
  shows "\<exists>s2. resolve_path k dr n cwd file s = Some (node, None, s2) \<and> vfs_ok s2 (graft (r_addr t) (Rose a node []) r) \<and>
    (\<forall>k' dr' n' cwd'. resolve_path k' dr' n' cwd' file s2 = Some (node, None, s2))"
proof -
  let ?r = "graft (r_addr t) (Rose a node []) r"
  let ?s1 = "put_node node (f\<lparr>fn_cached := True\<rparr>) s1"
  have ok: "vfs_ok ?s1 r" "node_name ?s1 = node_name s1"
    using vfs_ok_upd [OF drv(2,5), of "f\<lparr>fn_cached := True\<rparr>"] by simp_all
  have "v_supply ?s1 = a # as" "v_nodes ?s1 node \<noteq> None" using drv(8) by (simp_all add: put_node_def)
  from insert_node_ok [OF ok(1) subtree_facts(1) [OF assms(1,4)] this(1) drv(3) this(2) drv(4), of n]
  obtain h tt where i: "insert_node n (r_addr t) node ?s1 = Some (a, ?s1\<lparr>v_tree_heap := h, v_file_tree := tt, v_supply := as\<rparr>)"
    "vfs_ok (?s1\<lparr>v_tree_heap := h, v_file_tree := tt, v_supply := as\<rparr>) ?r" by blast
  define s2 where "s2 = ?s1\<lparr>v_tree_heap := h, v_file_tree := tt, v_supply := as\<rparr>"
  have toks: "path_tokens file \<noteq> []" using assms(3) by auto
  have nm: "node_name s2 v = node_name s1 v" for v using fun_cong [OF ok(2), of v] by (simp add: s2_def node_name_def)
  have r2: "\<forall>v \<in> set (vals r). node_name s2 v = node_name s v" "node_name s2 node = x"
    using drv by (simp_all add: nm) (simp add: node_name_def)
  have ok2: "vfs_ok s2 ?r" using i(2) by (simp add: s2_def)
  have w: "name_walk s2 ?r [?r] (path_tokens file) = Found (Rose a node [])"
    using walk_graft [OF assms(1) r2(1), where st = "[r]" and toks = "path_tokens file" and q = "r_addr t" and new = "Rose a node []"]
      assms(3) r2(2) by simp
  have "rose_at (v_tree_heap s2) NULL ?r" using ok2 by (simp add: vfs_ok_def tree_repr_def)
  then have "nrd (v_tree_heap s2) a = Some \<lparr>tn_value = node, tn_children = [], tn_parent = r_addr t\<rparr>"
    using grafted_node subtree_facts(1) [OF assms(1,4)] by blast
  moreover have "a \<noteq> NULL" using drv(2,8) by (simp add: vfs_ok_def)
  ultimately have "resolve_path k dr n cwd file s = Some (node, None, s2)"
    using resolve_absolute [OF assms(1,2) toks] assms(3,5,6) drv(1,3,5) subtree_facts(3) [OF assms(1,4)] i(1)
    by (simp add: missing_step_def at_def cache_node_def upd_node_def s2_def)
  moreover have "resolve_path k' dr' n' cwd' file s2 = Some (node, None, s2)" for k' dr' n' cwd'
    using resolve_absolute [OF ok2 assms(2) toks] w by simp
  ultimately show ?thesis using ok2 by blast
qed

definition demo_disk :: "unit vfs" where
  \<comment> \<open>\<open>demo_vfs\<close> with a look-up function in \<^verbatim>\<open>/dev\<close>\<close>
  "demo_disk = put_node 101 (empty_node\<lparr>fn_name := cstr ''dev'', fn_type := FILE_TYPE_DIR,
     fn_file_ops := no_ops\<lparr>op_find_dir := Some ''disk_find_dir''\<rparr>\<rparr>) demo_vfs"

definition demo_disk_driver :: "unit driver" where
  "demo_disk_driver = demo_driver\<lparr>call_find_dir := \<lambda>f p x s.
     if f = ''disk_find_dir'' \<and> x = cstr ''tty'' then Some (300, put_node 300 (empty_node\<lparr>fn_name := x\<rparr>) s) else Some (NULL, s)\<rparr>"

lemma demo_disk_facts:
  "vfs_ok demo_disk demo_root" "vfs_ok (put_node 300 (empty_node\<lparr>fn_name := cstr ''tty''\<rparr>) demo_disk) demo_root"
  "v_nodes demo_disk 101 = Some (empty_node\<lparr>fn_name := cstr ''dev'', fn_type := FILE_TYPE_DIR,
     fn_file_ops := no_ops\<lparr>op_find_dir := Some ''disk_find_dir''\<rparr>\<rparr>)"
  "300 \<notin> set (vals demo_root)" "v_supply demo_disk = [200, 48, 201, 64]"
  by (simp_all add: vfs_ok_def demo_disk_def put_node_def demo_vfs_def demo_root_def tree_repr_def addrs_def vals_def empty_node_def)

lemma demo_disk_walk:
  "name_walk demo_disk demo_root [demo_root] (path_tokens (cstr ''/dev//tty'')) = Missing (Rose 32 101 []) (cstr ''tty'') []"
  by (simp only: demo_walks(1)) (simp add: cstr_def find_kid_def node_name_def demo_disk_def put_node_def demo_vfs_def demo_root_def empty_node_def)

theorem resolve_path_caches_witness:
  "\<exists>s2. resolve_path 3 demo_disk_driver 9 (cstr ''/'') (cstr ''/dev//tty'') demo_disk = Some (300, None, s2) \<and>
    resolve_path 3 demo_driver 9 (cstr ''/'') (cstr ''/dev//tty'') s2 = Some (300, None, s2)"
proof -
  let ?d = "empty_node\<lparr>fn_name := cstr ''dev'', fn_type := FILE_TYPE_DIR, fn_file_ops := no_ops\<lparr>op_find_dir := Some ''disk_find_dir''\<rparr>\<rparr>"
  let ?f = "empty_node\<lparr>fn_name := cstr ''tty''\<rparr>"
  have *: "v_nodes demo_disk (r_val (Rose 32 101 [])) = Some ?d" "op_find_dir (fn_file_ops ?d) = Some ''disk_find_dir''"
    "call_find_dir demo_disk_driver ''disk_find_dir'' (r_val (Rose 32 101 [])) (cstr ''tty'') demo_disk = Some (300, put_node 300 ?f demo_disk)"
    "(300 :: ptr) \<noteq> NULL" "v_nodes (put_node 300 ?f demo_disk) 300 = Some ?f" "fn_name ?f = cstr ''tty''"
    "\<forall>v \<in> set (vals demo_root). node_name (put_node 300 ?f demo_disk) v = node_name demo_disk v"
    "v_supply (put_node 300 ?f demo_disk) = 200 # [48, 201, 64]"
    using demo_disk_facts(3,5) by (simp_all add: demo_disk_driver_def put_node_def node_name_def vals_def demo_root_def)
  from resolve_path_caches [OF demo_disk_facts(1) demo_walks(4) demo_disk_walk demo_vfs_ok(4) *(1-3) demo_disk_facts(2) *(4)
      demo_disk_facts(4) *(5-8), where k = 3 and n = 9 and cwd = "cstr ''/''"]
  show ?thesis by (elim exE conjE) (intro exI conjI, assumption, blast)
qed

text \<open>\<^verbatim>\<open>move_file\<close> never succeeds: whenever it returns, the result is one of the errors \<^verbatim>\<open>EEXIST\<close>, \<^verbatim>\<open>EINVAL\<close>,
  \<^verbatim>\<open>EXDEV\<close> and \<^verbatim>\<open>ENOENT\<close>. An existing target makes it delete and free the source and then read the freed node; a missing one leaves
  \<^verbatim>\<open>new\<close> at \<^verbatim>\<open>NULL\<close>.\<close>

theorem move_file_never_succeeds:
  assumes "move_file k dr n abi node newpath s = Some (r, s')"
  shows "r \<in> {- EEXIST abi, - EINVAL abi, - EXDEV abi, - ENOENT abi}"
proof -
  have n: "at m NULL = None" "at (m(node := None)) node = None" for m :: "ptr \<rightharpoonup> file_node_t" by (simp_all add: at_def)
  show ?thesis
    using assms
    by (auto simp: move_file_def free_node_def n split: bind_splits if_splits option.splits prod.splits)
qed

definition demo_abi :: fs_abi where
  "demo_abi = \<lparr>ENOENT = 2, EEXIST = 17, EINVAL = 22, EXDEV = 18, EISDIR = 21, ENOTDIR = 20, EACCES = 13, EBUSY = 16, POLL_EVENTS = 8197\<rparr>"

lemma demo_move:
  "move_file 2 demo_driver 9 demo_abi 101 (cstr ''/dev//tty'') demo_vfs = Some (-18, demo_vfs)"
proof -
  have nf: "no_find_dir demo_vfs (r_val (Rose 32 101 []))" using demo_vfs_ok(5) by simp
  note o = open_missing [OF demo_vfs_ok(1) demo_walks(4) demo_missing(1) demo_vfs_ok(4) nf demo_vfs_ok(3)]
  have "get_cwd_name 2 demo_driver 9 demo_vfs = Some (cstr ''/'', demo_vfs)"
    by (simp add: numeral_2_eq_2 get_cwd_name.simps demo_vfs_def)
  moreover have "v_nodes demo_vfs 101 = Some (empty_node\<lparr>fn_name := cstr ''dev'', fn_type := FILE_TYPE_DIR,
      fn_file_ops := no_ops\<lparr>op_create := Some ''vfs_create''\<rparr>\<rparr>)" by (simp add: demo_vfs_def)
  ultimately show ?thesis
    using o(1) [where k = 0 and dr = demo_driver and n = 9, folded numeral_2_eq_2] o(2)
    by (simp add: move_file_def at_def demo_abi_def) (simp add: empty_node_def)
qed

theorem move_file_never_succeeds_witness:
  "\<exists>r s'. move_file 2 demo_driver 9 demo_abi 101 (cstr ''/dev//tty'') demo_vfs = Some (r, s') \<and> r \<noteq> 0 \<and>
    r \<in> {- EEXIST demo_abi, - EINVAL demo_abi, - EXDEV demo_abi, - ENOENT demo_abi}"
  using move_file_never_succeeds [OF demo_move] demo_move by simp

text \<open>\<^verbatim>\<open>get_full_path\<close> never returns a path: the block it allocates has no room for the name of the node itself,
  so every call returns \<^verbatim>\<open>null\<close> or writes beyond the block.\<close>

theorem get_full_path_never_fits: "get_full_path n node s = None \<or> get_full_path n node s = Some None"
proof -
  have "length (concat (map (\<lambda>nm. 47 # nm) xs)) = sum_list (map (\<lambda>nm. length nm + 1) xs)" for xs :: "bytes list"
    by (induction xs) auto
  moreover have "sum_list (map (\<lambda>nm. Suc (length nm)) (rev xs)) = sum_list (map (\<lambda>nm. Suc (length nm)) xs)" for xs :: "bytes list"
    by (induction xs) auto
  ultimately show ?thesis by (auto simp: get_full_path_def Let_def split: bind_splits if_splits)
qed

text \<open>\<^verbatim>\<open>open\<close> does not return for a process whose working directory is set, is not the root and has not been opened yet:
  \<^verbatim>\<open>get_cwd_name\<close> opens the working directory, which asks \<^verbatim>\<open>get_cwd_name\<close> again, so no depth of
  calls suffices.\<close>

theorem open_unresolved_cwd_diverges:
  assumes "v_has_process s" "v_cwd s = Some c" "c \<noteq> cstr ''/''" "v_cwd_file s = NULL" "filename \<noteq> cstr ''/''"
  shows "open_path k dr n filename mode s = None"
  using assms(5)
proof (induction k arbitrary: filename mode rule: less_induct)
  case (less k)
  have "get_cwd_name j dr n s = None" if "j < k" for j
  proof (cases j)
    case (Suc i)
    then have "open_path i dr n c 0 s = None" using less.IH [of i c 0] that assms(3) by simp
    then show ?thesis using assms Suc by (simp add: get_cwd_name.simps)
  qed (simp add: get_cwd_name.simps)
  then show ?case using less.prems by (cases k) (simp_all add: open_path.simps)
qed

theorem open_unresolved_cwd_diverges_witness:
  "open_path 1000 demo_driver 9 (cstr ''/dev'') 0 (demo_vfs\<lparr>v_has_process := True, v_cwd := Some (cstr ''/home'')\<rparr>) = None"
  by (rule open_unresolved_cwd_diverges [where c = "cstr ''/home''"]) (simp_all add: demo_vfs_def cstr_def)

text \<open>Relative paths ignore the working directory: when the working directory begins with a plain name and no driver look-up is
  involved, the loop over it never advances to its second name and falls back to the root, so a
  relative path resolves exactly as the same path with a slash in front.\<close>

theorem relative_path_starts_at_root:
  assumes "vfs_ok s r" "\<forall>v \<in> set (vals r). no_find_dir s v" "depth r \<le> k"
    "path_tokens cwd = y # ys" "y \<notin> {cstr ''.'', cstr ''..''}" "path_tokens file \<noteq> []" "take 1 file \<noteq> cstr ''/''"
  shows "resolve_path k dr n cwd file s = resolve_path k dr n cwd (47 # file) s"
proof -
  have loop: "\<exists>fc. cwd_loop k dr n (r_addr (hd st)) fCwd (y # ys) s = Some (Cwd_At (r_addr r) fc, s)"
    if "depth (hd st) \<le> k" "stack_ok r st" for k fCwd st
    using that
  proof (induction k arbitrary: st fCwd)
    case 0
    then show ?case using depth_pos [of "hd st"] by simp
  next
    case (Suc k)
    note nd = stack_node [OF assms(1) Suc.prems(2)] and f = subtree_facts [OF assms(1) stack_subtree [OF Suc.prems(2)]]
    show ?case
    proof (cases "find_kid s y (hd st)")
      case None
      obtain e where e: "nrd (v_tree_heap s) (r_addr (hd st)) = Some e" "tn_value e = r_val (hd st)" using nd(1) by simp
      have "no_find_dir s (r_val (hd st))" using assms(2) f(2) by blast
      then obtain d where "at (v_nodes s) (r_val (hd st)) = Some d" "op_find_dir (fn_file_ops d) = None"
        using f(3) by (auto simp: no_find_dir_def at_def)
      then show ?thesis using assms(5) nd(2) None vfs_ok_root [OF assms(1)] by (simp add: e)
    next
      case (Some u)
      have u: "u \<in> set (r_kids (hd st))" using find_kid_in [OF Some] by simp
      then have "stack_ok r (u # st)" "depth u \<le> k"
        using Suc.prems by (cases st, auto) (cases "hd st", auto dest: depth_kid)
      then show ?thesis using Suc.IH [of "u # st" "r_addr (hd st)"] assms(5) nd(2) nd(3) [OF u] Some by simp
    qed
  qed
  have nn: "r_addr r \<noteq> NULL" using assms(1) rose_at_root by (auto simp: vfs_ok_def tree_repr_def)
  have t: "path_tokens (47 # file) = path_tokens file" "file \<noteq> cstr ''/''" "47 # file \<noteq> cstr ''/''" "take 1 (47 # file) = cstr ''/''"
    using assms(6,7) by (auto simp: path_tokens.simps [of "47 # file"] path_tokens.simps [of "file"] cstr_def Let_def)
  obtain fc where "cwd_loop k dr n (r_addr r) NULL (y # ys) s = Some (Cwd_At (r_addr r) fc, s)"
    using loop [of "[r]" k NULL] assms(3) by auto
  then show ?thesis using assms(4,6,7) t nn vfs_ok_root [OF assms(1)] by (simp add: resolve_path_def)
qed

theorem relative_path_starts_at_root_witness:
  "resolve_path 9 demo_driver 9 (cstr ''/dev'') (cstr ''dev'') demo_vfs = resolve_path 9 demo_driver 9 (cstr ''/dev'') (cstr ''/dev'') demo_vfs"
proof -
  have "\<forall>v \<in> set (vals demo_root). no_find_dir demo_vfs v" "cstr ''dev'' \<notin> {cstr ''.'', cstr ''..''}"
    "path_tokens (cstr ''dev'') \<noteq> []" "take 1 (cstr ''dev'') \<noteq> cstr ''/''" "47 # cstr ''dev'' = cstr ''/dev''"
    by (simp_all add: vals_def demo_root_def no_find_dir_def demo_vfs_def empty_node_def no_ops_def cstr_def path_tokens.simps)
  then show ?thesis
    using relative_path_starts_at_root [OF demo_vfs_ok(1) _ demo_vfs_ok(2) demo_walks(5), of "cstr ''dev''" demo_driver 9] by simp
qed

text \<open>C13. The loop over \<^verbatim>\<open>strtok_r\<close> in \<^verbatim>\<open>resolve_path\<close> terminates and splits the path: on a copy of the path in memory it makes at
  most one call more than the path has bytes, and the pointers it yields before \<^verbatim>\<open>NULL\<close> are, once the loop has
  ended, the terminated components of the path in order; no byte outside the copy changes.\<close>

theorem strtok_loop_splits_path:
  assumes "cstr_at m str s" "cstr_at m delim [47]" "length s < 2 ^ 64" "\<And>i. i \<le> length s \<Longrightarrow> str + of_nat i \<noteq> delim"
  shows "\<exists>ps m'. strtok_loop (Suc (length s)) m str delim saved = Some (ps, m') \<and>
    list_all2 (cstr_at m') ps (path_tokens s) \<and> (\<forall>q. (\<forall>i < length s. q \<noteq> str + of_nat i) \<longrightarrow> m' q = m q)"
  by (rule strtok_loop_tokens [OF assms]) simp_all

theorem strtok_loop_splits_path_witness:
  "\<exists>p q m'. strtok_loop 5 demo_mem 16 32 0 = Some ([p, q], m') \<and> cstr_at m' p [97] \<and> cstr_at m' q [98, 99]"
proof -
  have "16 + of_nat i \<noteq> (32 :: ptr)" if "i \<le> length [97, 47, 98, 99 :: u8]" for i
  proof -
    have "i \<in> {0, 1, 2, 3, 4}" using that by auto
    then show ?thesis by auto
  qed
  moreover have l: "Suc (length [97, 47, 98, 99 :: u8]) = 5" "length [97, 47, 98, 99 :: u8] < 2 ^ 64" by simp_all
  ultimately obtain ps m' where
    "strtok_loop 5 demo_mem 16 32 0 = Some (ps, m')" "list_all2 (cstr_at m') ps (path_tokens [97, 47, 98, 99])"
    using strtok_loop_splits_path [OF demo_strings(1,2) l(2), of 0] unfolding l(1) by blast
  moreover have "path_tokens [97, 47, 98, 99] = [[97], [98, 99]]" by (simp add: path_tokens.simps)
  ultimately show ?thesis by (auto simp: list_all2_Cons2)
qed

text \<open>\<^verbatim>\<open>delete\<close> of a node whose driver has no delete function reports success and frees the node although the file tree
  still refers to it: the next look-up that passes it reads a freed node.\<close>

theorem delete_without_driver_dangles:
  assumes "vfs_ok s r" "depth r \<le> n" "take 1 file = cstr ''/''" "path_tokens file \<noteq> []" "name_walk s r [r] (path_tokens file) = Found t"
    "t \<in> set (subtrees r)" "v_nodes s (r_val t) = Some f" "op_open (fn_file_ops f) = None" "op_delete (fn_file_ops f) = None" "cwd_known s"
  shows "\<exists>s'. delete_path (Suc (Suc k)) dr n abi file s = Some (0, s') \<and> find_node n (r_val t) s' = Some (r_addr t) \<and>
    v_nodes s' (r_val t) = None"
proof -
  have nn: "r_val t \<noteq> NULL" using subtree_facts(3) [OF assms(1,6)] .
  have "open_path (Suc (Suc k)) dr n file 0 s = Some (r_val t, s)"
    using open_found [OF assms(1,3-8,10), of 0] by simp
  then have "delete_path (Suc (Suc k)) dr n abi file s = Some (0, free_node (r_val t) s)"
    using nn assms(7,9) by (simp add: delete_path_def unlink_node_def at_def)
  moreover have "find_node n (r_val t) (free_node (r_val t) s) = Some (r_addr t)"
    using find_node_subtree [OF assms(1,2,6)] by (simp add: find_node_def free_node_def)
  ultimately show ?thesis by (simp add: free_node_def)
qed

theorem delete_without_driver_dangles_witness:
  "\<exists>s'. delete_path 2 demo_driver 9 demo_abi (cstr ''/dev'') demo_vfs = Some (0, s') \<and> find_node 9 101 s' = Some 32 \<and> v_nodes s' 101 = None"
proof -
  let ?f = "empty_node\<lparr>fn_name := cstr ''dev'', fn_type := FILE_TYPE_DIR, fn_file_ops := no_ops\<lparr>op_create := Some ''vfs_create''\<rparr>\<rparr>"
  have "path_tokens (cstr ''/dev'') \<noteq> []" "v_nodes demo_vfs (r_val (Rose 32 101 [])) = Some ?f" "op_open (fn_file_ops ?f) = None"
    "op_delete (fn_file_ops ?f) = None" using demo_walks(5) by (simp_all add: demo_vfs_def no_ops_def)
  from delete_without_driver_dangles [OF demo_vfs_ok(1,2) demo_walks(6) this(1) demo_missing(2) demo_vfs_ok(4) this(2-4) demo_vfs_ok(3),
      where k = 0 and dr = demo_driver and abi = demo_abi, folded numeral_2_eq_2]
  show ?thesis by simp
qed

end
