(* ===== verification/Ramfs.thy ===== *)
theory Ramfs
  imports Vfs
begin

text \<open>
  The RAM file system of \<^verbatim>\<open>kernel/fs/ramfs.c\<close>, a driver of the VFS. Its private data are the \<^verbatim>\<open>ram_file_t\<close> structures and the
  buffers they point to; a byte of a buffer that was never written since \<^verbatim>\<open>malloc\<close> is \<open>None\<close>. \<open>ramfs_driver\<close> binds the names of the functions to
  their definitions. The theorems show that creating, writing and reading a file through the VFS fit
  together inside the initial buffer of 4096 bytes, and what happens beyond it.
\<close>

section \<open>Data\<close>

record ram_file_t =
  rf_begin :: ptr
  rf_size :: u64

record ramfs =
  rf_files :: "ptr \<rightharpoonup> ram_file_t"
  rf_blocks :: "ptr \<rightharpoonup> u8 option list"

type_synonym rvfs = "ramfs vfs"

definition ram_malloc :: "u64 \<Rightarrow> rvfs \<Rightarrow> (ptr \<times> rvfs) option" where
  \<comment> \<open>\<^verbatim>\<open>malloc\<close>: the bytes of the block are indeterminate\<close>
  "ram_malloc n s = do {
     (p, s1) \<leftarrow> calloc_addr s;
     Some (p, s1\<lparr>v_priv := (v_priv s1)\<lparr>rf_blocks := (rf_blocks (v_priv s1))(p \<mapsto> replicate (unat n) None)\<rparr>\<rparr>)
   }"

definition copy_in :: "ptr \<Rightarrow> nat \<Rightarrow> u8 option list \<Rightarrow> rvfs \<Rightarrow> rvfs option" where
  \<comment> \<open>\<^verbatim>\<open>memcpy\<close> into the block at \<open>p\<close>, from the given position on\<close>
  "copy_in p off bs s = do {
     blk \<leftarrow> at (rf_blocks (v_priv s)) p;
     if off + length bs \<le> length blk
     then Some (s\<lparr>v_priv := (v_priv s)\<lparr>rf_blocks := (rf_blocks (v_priv s))(p \<mapsto>
            take off blk @ bs @ drop (off + length bs) blk)\<rparr>\<rparr>)
     else None
   }"

definition copy_out :: "ptr \<Rightarrow> nat \<Rightarrow> nat \<Rightarrow> rvfs \<Rightarrow> u8 option list option" where
  \<comment> \<open>\<^verbatim>\<open>memcpy\<close> from the block at \<open>p\<close>\<close>
  "copy_out p off len s = do {
     blk \<leftarrow> at (rf_blocks (v_priv s)) p;
     if off + len \<le> length blk then Some (take len (drop off blk)) else None
   }"

definition ram_file :: "ptr \<Rightarrow> rvfs \<Rightarrow> ram_file_t option" where
  \<comment> \<open>\<^verbatim>\<open>(ram_file_t*)node->fs\<close>, dereferenced\<close>
  "ram_file node s = do { f \<leftarrow> at (v_nodes s) node; at (rf_files (v_priv s)) (fn_fs f) }"

definition ramfs_ops :: file_operations where
  "ramfs_ops = no_ops\<lparr>op_delete := Some ''ramfs_delete'', op_create := Some ''ramfs_create'', op_read := Some ''ramfs_read'',
     op_write := Some ''ramfs_write''\<rparr>"

section \<open>Operations\<close>

definition ramfs_init :: "nat \<Rightarrow> ramfs driver \<Rightarrow> nat \<Rightarrow> bytes \<Rightarrow> rvfs \<Rightarrow> rvfs option" where
  \<comment> \<open>\<^verbatim>\<open>strrchr(path, '/')+1\<close> of a path without a slash is the address 1\<close>
  "ramfs_init k dr n path s =
     (if 47 \<notin> set path \<or> length path \<ge> 4096 then None
      else do {
        let file_name = rev (takeWhile (\<lambda>b. b \<noteq> 47) (rev path));
        (root, s1) \<leftarrow> calloc_addr s;
        let (i, s2) = get_next_file_id s1;
        f \<leftarrow> set_name file_name (empty_node\<lparr>fn_id := to_size i, fn_size := 0, fn_type := FILE_TYPE_MOUNT_POINT, fn_full_path := path,
               fn_ref_count := 0, fn_file_ops := ramfs_ops\<lparr>op_mkdir := Some ''ramfs_mkdir''\<rparr>\<rparr>);
        (_, s3) \<leftarrow> mount_directly k dr n path root (put_node root f s2);
        Some s3
      })"

definition ramfs_mkdir :: "nat \<Rightarrow> ptr \<Rightarrow> bytes \<Rightarrow> rvfs \<Rightarrow> (bool \<times> rvfs) option" where
  "ramfs_mkdir n parent dirname s =
     (if length dirname = 1 \<and> dirname \<noteq> cstr ''/'' then Some (False, s)
      else do {
        treeNode \<leftarrow> find_node n parent s;
        if treeNode = NULL then Some (False, s)
        else do {
          (node, s1) \<leftarrow> calloc_addr s;
          let (i, s2) = get_next_file_id s1;
          f \<leftarrow> set_name dirname (empty_node\<lparr>fn_type := FILE_TYPE_DIR, fn_id := to_size i, fn_size := 0, fn_ref_count := 0,
                 fn_file_ops := ramfs_ops\<lparr>op_mkdir := Some ''ramfs_mkdir'', op_rename := Some ''ramfs_rename''\<rparr>\<rparr>);
          s3 \<leftarrow> upd_node parent (\<lambda>p. p\<lparr>fn_size := fn_size p + 1\<rparr>) (put_node node f s2);
          (_, s4) \<leftarrow> insert_node n treeNode node s3;
          Some (True, s4)
        }
      })"

definition ramfs_read :: "ptr \<Rightarrow> u64 \<Rightarrow> u64 \<Rightarrow> rvfs \<Rightarrow> (int \<times> u8 option list \<times> rvfs) option" where
  "ramfs_read node offset len0 s = do {
     ramFile \<leftarrow> ram_file node s;
     if offset > rf_size ramFile then Some (0, [], s)
     else do {
       let len = (if offset + len0 > rf_size ramFile then offset + len0 - rf_size ramFile else len0);
       bs \<leftarrow> copy_out (rf_begin ramFile) (unat offset) (unat len) s;
       Some (to_int len, bs, s)
     }
   }"

definition ram_grow :: "ptr \<Rightarrow> u64 \<Rightarrow> rvfs \<Rightarrow> rvfs option" where
  \<comment> \<open>\<^verbatim>\<open>newBuffer = malloc(offset+length); ramFile->begin = newBuffer; memcpy(newBuffer, file, ramFile->size)\<close>; the
     size field keeps its value and the old buffer is not freed\<close>
  "ram_grow node n s = do {
     f \<leftarrow> at (v_nodes s) node;
     ramFile \<leftarrow> at (rf_files (v_priv s)) (fn_fs f);
     (newBuffer, s1) \<leftarrow> ram_malloc n s;
     let s2 = s1\<lparr>v_priv := (v_priv s1)\<lparr>rf_files := (rf_files (v_priv s1))(fn_fs f \<mapsto> ramFile\<lparr>rf_begin := newBuffer\<rparr>)\<rparr>\<rparr>;
     bs \<leftarrow> copy_out (rf_begin ramFile) 0 (unat (rf_size ramFile)) s2;
     copy_in newBuffer 0 bs s2
   }"

definition ramfs_write :: "ptr \<Rightarrow> bytes \<Rightarrow> u64 \<Rightarrow> rvfs \<Rightarrow> (int \<times> rvfs) option" where
  "ramfs_write node buffer offset s = do {
     let len = of_nat (length buffer);
     ramFile \<leftarrow> ram_file node s;
     s1 \<leftarrow> (if offset > rf_size ramFile then ram_grow node (offset + len) s else Some s);
     s2 \<leftarrow> (if offset + len > rf_size ramFile then ram_grow node (offset + len) s1 else Some s1);
     ramFile2 \<leftarrow> ram_file node s2;
     s3 \<leftarrow> copy_in (rf_begin ramFile2) (unat offset) (map Some buffer) s2;
     s4 \<leftarrow> upd_node node (\<lambda>f. if fn_size f < offset + len then f\<lparr>fn_size := offset + len\<rparr> else f) s3;
     Some (to_int len, s4)
   }"

definition ramfs_create :: "nat \<Rightarrow> ptr \<Rightarrow> bytes \<Rightarrow> int \<Rightarrow> rvfs \<Rightarrow> (bool \<times> rvfs) option" where
  "ramfs_create n parent name mode s = do {
     treeNode \<leftarrow> find_node n parent s;
     if treeNode = NULL then Some (False, s)
     else do {
       (node, s1) \<leftarrow> calloc_addr s;
       let (i, s2) = get_next_file_id s1;
       f \<leftarrow> set_name name (empty_node\<lparr>fn_type := FILE_TYPE_FILE, fn_id := to_size i, fn_size := 0, fn_ref_count := 0,
              fn_file_ops := ramfs_ops\<lparr>op_rename := Some ''ramfs_rename''\<rparr>\<rparr>);
       s3 \<leftarrow> upd_node parent (\<lambda>p. p\<lparr>fn_size := fn_size p + 1\<rparr>) (put_node node f s2);
       (ramFile, s4) \<leftarrow> calloc_addr s3;
       (begin, s5) \<leftarrow> ram_malloc 4096 s4;
       let s6 = s5\<lparr>v_priv := (v_priv s5)\<lparr>rf_files := (rf_files (v_priv s5))(ramFile \<mapsto> \<lparr>rf_begin = begin, rf_size = 4096\<rparr>)\<rparr>,
                   v_fs_owner := (v_fs_owner s5)(ramFile \<mapsto> ramFile)\<rparr>;
       s7 \<leftarrow> upd_node node (\<lambda>f. f\<lparr>fn_fs := ramFile\<rparr>) s6;
       (_, s8) \<leftarrow> insert_node n treeNode node s7;
       Some (True, s8)
     }
   }"

definition ramfs_delete :: "ptr \<Rightarrow> rvfs \<Rightarrow> (int \<times> rvfs) option" where
  "ramfs_delete node s = do {
     f \<leftarrow> at (v_nodes s) node;
     ramFile \<leftarrow> at (rf_files (v_priv s)) (fn_fs f);
     Some (0, s\<lparr>v_priv := \<lparr>rf_files = (rf_files (v_priv s))(fn_fs f := None),
       rf_blocks = (rf_blocks (v_priv s))(rf_begin ramFile := None)\<rparr>\<rparr>)
   }"

definition ramfs_open :: "int \<Rightarrow> ptr \<Rightarrow> int \<Rightarrow> rvfs \<Rightarrow> rvfs option" where
  \<comment> \<open>\<open>o_trunc\<close> is \<^verbatim>\<open>O_TRUNC\<close> of the C library's ABI headers\<close>
  "ramfs_open o_trunc node mode s =
     (if mode AND o_trunc = 0 then Some s
      else do {
        ramFile \<leftarrow> ram_file node s;
        copy_in (rf_begin ramFile) 0 (replicate (unat (rf_size ramFile)) (Some 0)) s
      })"

definition ramfs_rename :: "nat \<Rightarrow> ramfs driver \<Rightarrow> nat \<Rightarrow> ptr \<Rightarrow> bytes \<Rightarrow> rvfs \<Rightarrow> (ptr \<times> rvfs) option" where
  \<comment> \<open>the variable \<^verbatim>\<open>parent\<close> is not initialised: without a store by \<^verbatim>\<open>resolve_path\<close> its value is indeterminate\<close>
  "ramfs_rename k dr n node path s = do {
     (cwd, s1) \<leftarrow> get_cwd_name k dr n s;
     (_, out, s2) \<leftarrow> resolve_path k dr n cwd path s1;
     (parent, _) \<leftarrow> out;
     if parent = NULL then Some (NULL, s2)
     else do {
       treeNode \<leftarrow> find_node n parent s2;
       if treeNode = NULL then Some (NULL, s2)
       else do { (_, s3) \<leftarrow> insert_node n treeNode node s2; Some (node, s3) }
     }
   }"

definition ramfs_driver :: "nat \<Rightarrow> nat \<Rightarrow> ramfs driver" where
  \<comment> \<open>the functions that the nodes of this file system and of the VFS point to\<close>
  "ramfs_driver k n =
     (let dr =
     \<lparr>call_read = \<lambda>f. if f = ''ramfs_read'' then ramfs_read else (\<lambda>_ _ _ _. None),
      call_write = \<lambda>f. if f = ''ramfs_write'' then ramfs_write else (\<lambda>_ _ _ _. None),
      call_open = \<lambda>_ _ _ _. None,
      call_read_dir = \<lambda>f. if f = ''vfs_read_dir'' then vfs_read_dir n else (\<lambda>_ _ _. None),
      call_mkdir = \<lambda>f. if f = ''ramfs_mkdir'' then ramfs_mkdir n else (\<lambda>_ _ _. None),
      call_find_dir = \<lambda>_ _ _ _. None, call_get_size = \<lambda>_ _ _. None,
      call_create = \<lambda>f. if f = ''ramfs_create'' then ramfs_create n else if f = ''vfs_create'' then vfs_create n else (\<lambda>_ _ _ _. None),
      call_poll = \<lambda>_ _ _ _. None, call_rename = \<lambda>_ _ _ _. None,
      call_delete = \<lambda>f. if f = ''ramfs_delete'' then ramfs_delete else (\<lambda>_ _. None)\<rparr>
      in dr\<lparr>call_rename := \<lambda>f. if f = ''ramfs_rename'' then ramfs_rename k dr n else (\<lambda>_ _ _. None)\<rparr>)"

section \<open>Creation\<close>

definition ram_node :: "int \<Rightarrow> bytes \<Rightarrow> ptr \<Rightarrow> file_node_t" where
  \<comment> \<open>a new file as \<^verbatim>\<open>ramfs_create\<close> leaves it\<close>
  "ram_node i nm fs = empty_node\<lparr>fn_type := FILE_TYPE_FILE, fn_id := to_size i, fn_name := nm, fn_fs := fs,
     fn_file_ops := ramfs_ops\<lparr>op_rename := Some ''ramfs_rename''\<rparr>\<rparr>"

lemma ramfs_create_ok:
  assumes "vfs_ok s r" "depth r \<le> n" "t \<in> set (subtrees r)" "length nm < 256" "v_supply s = b # c # d # a # as"
    "v_nodes s (r_val t) = Some p"
  shows "\<exists>h tt. let s' = s\<lparr>v_supply := as, v_id_generator := wrap_int (v_id_generator s + 1),
      v_nodes := (v_nodes s)(r_val t \<mapsto> p\<lparr>fn_size := fn_size p + 1\<rparr>, b \<mapsto> ram_node (v_id_generator s) nm c),
      v_priv := \<lparr>rf_files = (rf_files (v_priv s))(c \<mapsto> \<lparr>rf_begin = d, rf_size = 4096\<rparr>),
        rf_blocks = (rf_blocks (v_priv s))(d \<mapsto> replicate 4096 None)\<rparr>,
      v_fs_owner := (v_fs_owner s)(c \<mapsto> c), v_tree_heap := h, v_file_tree := tt\<rparr> in
    ramfs_create n (r_val t) nm mode s = Some (True, s') \<and> grown s r (r_addr t) nm b (graft (r_addr t) (Rose a b []) r) s'"
proof -
  let ?f = "ram_node (v_id_generator s) nm c" and ?p = "p\<lparr>fn_size := fn_size p + 1\<rparr>" and ?i = "wrap_int (v_id_generator s + 1)"
  define priv where "priv = \<lparr>rf_files = (rf_files (v_priv s))(c \<mapsto> \<lparr>rf_begin = d, rf_size = 4096\<rparr>),
        rf_blocks = (rf_blocks (v_priv s))(d \<mapsto> replicate 4096 None)\<rparr>"
  define s0 where "s0 = (put_node (r_val t) ?p s)\<lparr>v_supply := b # a # as, v_priv := priv, v_fs_owner := (v_fs_owner s)(c \<mapsto> c)\<rparr>"
  have "vfs_ok (put_node (r_val t) ?p s) r" using vfs_ok_upd [OF assms(1,6), of ?p] by simp
  then have ok: "vfs_ok s0 r" using assms(5) by (auto simp: vfs_ok_def s0_def put_node_def)
  have nm: "node_name s0 = node_name s"
    using vfs_ok_upd(2) [OF assms(1,6), of ?p] by (simp add: s0_def node_name_def fun_eq_iff)
  have bt: "b \<noteq> r_val t" "b \<noteq> NULL" "r_val t \<noteq> NULL" "r_addr t \<noteq> NULL"
    using assms(1,5,6) subtree_facts(3,6) [OF assms(1,3)] by (auto simp: vfs_ok_def)
  have sup: "v_supply s0 = b # a # as" by (simp add: s0_def)
  from add_file [OF ok subtree_facts(1) [OF assms(1,3)] sup, where i = ?i and f = ?f and n = n]
  obtain h tt where ins: "insert_node n (r_addr t) b (put_node b ?f (s0\<lparr>v_supply := a # as, v_id_generator := ?i\<rparr>)) =
      Some (a, s0\<lparr>v_supply := as, v_id_generator := ?i, v_nodes := (v_nodes s0)(b \<mapsto> ?f), v_tree_heap := h, v_file_tree := tt\<rparr>)"
    and gr: "grown s0 r (r_addr t) (fn_name ?f) b (graft (r_addr t) (Rose a b []) r)
      (s0\<lparr>v_supply := as, v_id_generator := ?i, v_nodes := (v_nodes s0)(b \<mapsto> ?f), v_tree_heap := h, v_file_tree := tt\<rparr>)"
    by (auto simp: Let_def)
  have sn: "set_name nm (empty_node\<lparr>fn_type := FILE_TYPE_FILE, fn_id := to_size (v_id_generator s), fn_size := 0, fn_ref_count := 0,
      fn_file_ops := ramfs_ops\<lparr>op_rename := Some ''ramfs_rename''\<rparr>\<rparr>) = Some (?f\<lparr>fn_fs := NULL\<rparr>)"
    using assms(4) by (simp add: set_name_def empty_node_def ram_node_def)
  have "ramfs_create n (r_val t) nm mode s = insert_node n (r_addr t) b (put_node b ?f (s0\<lparr>v_supply := a # as, v_id_generator := ?i\<rparr>)) \<bind>
      (\<lambda>(_, s8). Some (True, s8))"
    using bt assms(5,6)
    by (simp add: ramfs_create_def find_node_subtree [OF assms(1-3)] calloc_addr_def get_next_file_id_def sn upd_node_def at_def
          ram_malloc_def Let_def put_node_def s0_def priv_def)
       (intro arg_cong2 [of _ _ _ _ Option.bind] arg_cong [of _ _ "insert_node n (r_addr t) b"] refl,
        cases s, simp add: ram_node_def empty_node_def fun_upd_twist)
  then have cr: "ramfs_create n (r_val t) nm mode s =
    Some (True, s0\<lparr>v_supply := as, v_id_generator := ?i, v_nodes := (v_nodes s0)(b \<mapsto> ?f), v_tree_heap := h, v_file_tree := tt\<rparr>)"
    using ins by simp
  have e: "s0\<lparr>v_supply := as, v_id_generator := ?i, v_nodes := (v_nodes s0)(b \<mapsto> ?f), v_tree_heap := h, v_file_tree := tt\<rparr> =
    s\<lparr>v_supply := as, v_id_generator := ?i, v_nodes := (v_nodes s)(r_val t \<mapsto> ?p, b \<mapsto> ?f), v_priv := priv,
      v_fs_owner := (v_fs_owner s)(c \<mapsto> c), v_tree_heap := h, v_file_tree := tt\<rparr>"
    by (simp add: s0_def put_node_def)
  have "fn_name ?f = nm" by (simp add: ram_node_def)
  then show ?thesis using cr gr nm unfolding e Let_def grown_def priv_def by (intro exI [of _ h] exI [of _ tt]) simp
qed

lemma ramfs_create_law:
  assumes "vfs_ok s r" "depth r \<le> n" "t \<in> set (subtrees r)" "length nm < 256" "4 \<le> length (v_supply s)"
  shows "\<exists>node r' s'. ramfs_create n (r_val t) nm mode s = Some (True, s') \<and> grown s r (r_addr t) nm node r' s'"
proof -
  obtain b c d a as where "v_supply s = b # c # d # a # as"
    using assms(5) by (auto simp: numeral_eq_Suc Suc_le_length_iff)
  moreover obtain p where "v_nodes s (r_val t) = Some p" using subtree_facts(4) [OF assms(1,3)] by blast
  ultimately show ?thesis using ramfs_create_ok [OF assms(1-4)] by (fastforce simp: Let_def)
qed

interpretation ram_files: file_creator ramfs_create 4
  by unfold_locales (rule ramfs_create_law)

section \<open>Reading and writing\<close>

definition same_cwd :: "'d vfs \<Rightarrow> 'd vfs \<Rightarrow> bool" where
  \<comment> \<open>the fields of the current process are the same\<close>
  "same_cwd s s' \<longleftrightarrow> v_has_process s' = v_has_process s \<and> v_cwd s' = v_cwd s \<and> v_cwd_file s' = v_cwd_file s"

definition ram_open :: "ptr \<Rightarrow> u8 option list \<Rightarrow> rvfs \<Rightarrow> bool" where
  \<comment> \<open>a file of this file system with its buffer, still of the initial size\<close>
  "ram_open node blk s \<longleftrightarrow> node \<noteq> NULL \<and> length blk = 4096 \<and>
     (\<exists>f d. v_nodes s node = Some f \<and> fn_type f = FILE_TYPE_FILE \<and> fn_fs f \<noteq> NULL \<and> rf_files (v_priv s) (fn_fs f) = Some \<lparr>rf_begin = d, rf_size = 4096\<rparr> \<and>
       d \<noteq> NULL \<and> rf_blocks (v_priv s) d = Some blk \<and>
       op_read (fn_file_ops f) = Some ''ramfs_read'' \<and> op_write (fn_file_ops f) = Some ''ramfs_write'')"

lemma unat_add_small: "unat a + n \<le> 4096 \<Longrightarrow> a + of_nat n \<le> (4096 :: u64) \<and> unat (a + of_nat n) = unat a + n"
  using unat_off [of a n] by (simp add: word_le_nat_alt)

lemma ramfs_write_inside:
  assumes "ram_open node blk s" "unat off + length bs \<le> 4096"
  shows "\<exists>s'. ramfs_write node bs off s = Some (int (length bs), s') \<and>
    ram_open node (take (unat off) blk @ map Some bs @ drop (unat off + length bs) blk) s' \<and> same_cwd s s'"
proof -
  obtain f d where f: "v_nodes s node = Some f" "node \<noteq> NULL" "fn_type f = FILE_TYPE_FILE" "fn_fs f \<noteq> NULL"
    "rf_files (v_priv s) (fn_fs f) = Some \<lparr>rf_begin = d, rf_size = 4096\<rparr>" "d \<noteq> NULL" "rf_blocks (v_priv s) d = Some blk"
    "length blk = 4096" "op_read (fn_file_ops f) = Some ''ramfs_read''" "op_write (fn_file_ops f) = Some ''ramfs_write''"
    using assms(1) by (auto simp: ram_open_def)
  have le: "\<not> off > 4096" "\<not> off + of_nat (length bs) > 4096"
    using unat_add_small [OF assms(2)] assms(2) by (auto simp: word_less_nat_alt word_le_nat_alt not_less)
  have ti: "to_int (of_nat (length bs) :: u64) = int (length bs)"
    using to_int_small [of "of_nat (length bs) :: u64"] unat_of_nat_u64 [of "length bs"] assms(2) by simp
  show ?thesis using f le assms(2)
    by (simp add: ramfs_write_def ram_file_def at_def copy_in_def upd_node_def put_node_def ti Let_def ram_open_def same_cwd_def)
qed

lemma ramfs_read_inside:
  assumes "ram_open node blk s" "unat off + n \<le> 4096"
  shows "ramfs_read node off (of_nat n) s = Some (int n, take n (drop (unat off) blk), s)"
proof -
  have le: "\<not> off > 4096" "\<not> off + of_nat n > 4096" "unat (of_nat n :: u64) = n"
    using unat_add_small [OF assms(2)] assms(2) unat_of_nat_u64 [of n] by (auto simp: word_less_nat_alt word_le_nat_alt not_less)
  have "to_int (of_nat n :: u64) = int n"
    using to_int_small [of "of_nat n :: u64"] unat_of_nat_u64 [of n] assms(2) by simp
  then show ?thesis using assms le by (auto simp: ramfs_read_def ram_open_def ram_file_def at_def copy_out_def Let_def)
qed

lemma ramfs_driver_calls:
  "call_create (ramfs_driver k n) ''ramfs_create'' = ramfs_create n" "call_read (ramfs_driver k n) ''ramfs_read'' = ramfs_read"
  "call_write (ramfs_driver k n) ''ramfs_write'' = ramfs_write" "call_delete (ramfs_driver k n) ''ramfs_delete'' = ramfs_delete"
  by (simp_all add: ramfs_driver_def Let_def)

lemma ramfs_open_creates:
  assumes "vfs_ok s r" "depth r \<le> n" "take 1 file = cstr ''/''" "name_walk s r [r] (path_tokens file) = Missing t nm []"
    "t \<in> set (subtrees r)" "v_nodes s (r_val t) = Some p" "op_find_dir (fn_file_ops p) = None"
    "op_create (fn_file_ops p) = Some ''ramfs_create''" "cwd_known s" "length nm < 256" "v_supply s = b # c # d # a # as"
    "mode AND O_DIRECTORY = 0" "mode AND O_CREAT \<noteq> 0"
  shows "\<exists>s'. open_path (Suc (Suc (Suc (Suc k)))) (ramfs_driver j n) n file mode s = Some (b, s') \<and>
    vfs_ok s' (graft (r_addr t) (Rose a b []) r) \<and> ram_open b (replicate 4096 None) s' \<and> same_cwd s s'"
proof -
  let ?dr = "ramfs_driver j n" and ?r = "graft (r_addr t) (Rose a b []) r" and ?f = "ram_node (v_id_generator s) nm c"
  have toks: "path_tokens file \<noteq> []" using assms(4) by auto
  then have fr: "file \<noteq> cstr ''/''" by (auto simp: cstr_def path_tokens.simps)
  have nf: "no_find_dir s (r_val t)" using assms(6,7) by (simp add: no_find_dir_def)
  note rp = open_missing(2) [OF assms(1,3,4,5) nf assms(9)]
  have nz: "r_val t \<noteq> NULL" "b \<noteq> NULL" "c \<noteq> NULL" "d \<noteq> NULL" "b \<noteq> r_val t"
    using assms(1,6,11) subtree_facts(3) [OF assms(1,5)] by (auto simp: vfs_ok_def)
  from ramfs_create_ok [OF assms(1,2,5,10,11,6), where mode = "mode AND NOT O_CREAT"] obtain s1 h tt where
    s1: "s1 = s\<lparr>v_supply := as, v_id_generator := wrap_int (v_id_generator s + 1),
      v_nodes := (v_nodes s)(r_val t \<mapsto> p\<lparr>fn_size := fn_size p + 1\<rparr>, b \<mapsto> ?f),
      v_priv := \<lparr>rf_files = (rf_files (v_priv s))(c \<mapsto> \<lparr>rf_begin = d, rf_size = 4096\<rparr>),
        rf_blocks = (rf_blocks (v_priv s))(d \<mapsto> replicate 4096 None)\<rparr>,
      v_fs_owner := (v_fs_owner s)(c \<mapsto> c), v_tree_heap := h, v_file_tree := tt\<rparr>"
    and cr: "ramfs_create n (r_val t) nm (mode AND NOT O_CREAT) s = Some (True, s1)" and g: "grown s r (r_addr t) nm b ?r s1"
    by (auto simp: Let_def)
  let ?p = "p\<lparr>fn_size := fn_size p + 1 + 1\<rparr>"
  define s2 where "s2 = put_node (r_val t) ?p s1"
  have n1: "v_nodes s1 (r_val t) = Some (p\<lparr>fn_size := fn_size p + 1\<rparr>)" using nz by (simp add: s1)
  have ok: "vfs_ok s2 ?r" "node_name s2 = node_name s1"
    using vfs_ok_upd [OF _ n1, of ?r ?p] g by (simp_all add: s2_def grown_def)
  have n2: "v_nodes s2 b = Some ?f" using nz by (simp add: s2_def s1 put_node_def)
  have w: "name_walk s2 ?r [?r] (path_tokens file) = Found (Rose a b [])"
    using walk_graft [OF assms(1), where s' = s2 and st = "[r]" and toks = "path_tokens file" and q = "r_addr t" and new = "Rose a b []"]
      g assms(4) by (simp add: grown_def ok(2))
  have sub: "Rose a b [] \<in> set (subtrees ?r)" by (rule grafted_subtree [OF subtree_facts(1) [OF assms(1,5)]])
  have ck: "cwd_known s2" using assms(9) by (simp add: cwd_known_def s2_def s1 put_node_def)
  have md: "((mode AND NOT O_CREAT) AND NOT O_CREAT) AND O_DIRECTORY = 0"
    using assms(12) by (metis and.assoc and.commute and_zero_eq)
  have op: "open_path (Suc (Suc k)) ?dr n file ((mode AND NOT O_CREAT) AND NOT O_CREAT) s2 = Some (b, s2)"
    using open_found [OF ok(1) assms(3) toks w sub _ _ ck md] n2 by (simp add: ram_node_def ramfs_ops_def no_ops_def)
  have "create_path (Suc (Suc (Suc k))) ?dr n file (mode AND NOT O_CREAT) s = Some (b, s2)"
    using rp nz assms(6,8) cr n1 op
    by (simp add: create_path.simps at_def ramfs_driver_calls upd_node_def s2_def)
  moreover obtain cwd where "get_cwd_name (Suc (Suc (Suc k))) ?dr n s = Some (cwd, s)" using get_cwd_name_known [OF assms(9)] by blast
  ultimately have "open_path (Suc (Suc (Suc (Suc k)))) ?dr n file mode s = Some (b, s2)"
    using fr rp assms(12,13) n2 nz by (simp add: open_path.simps(2) [of "Suc (Suc (Suc k))"] at_def)
       (simp add: ram_node_def ramfs_ops_def no_ops_def)
  moreover have "ram_open b (replicate 4096 None) s2"
    using n2 nz by (simp add: ram_open_def s2_def s1 put_node_def ram_node_def ramfs_ops_def)
  moreover have "same_cwd s s2" by (simp add: same_cwd_def s2_def s1 put_node_def)
  ultimately show ?thesis using ok(1) by blast
qed

section \<open>Properties\<close>

definition demo_ramfs :: rvfs where
  \<comment> \<open>the root with a RAM file system mounted at \<^verbatim>\<open>/tmp\<close>\<close>
  "demo_ramfs =
     \<lparr>v_nodes = [100 \<mapsto> empty_node\<lparr>fn_name := cstr ''[root]'', fn_type := FILE_TYPE_MOUNT_POINT\<rparr>,
        101 \<mapsto> empty_node\<lparr>fn_name := cstr ''tmp'', fn_type := FILE_TYPE_MOUNT_POINT, fn_file_ops := ramfs_ops\<lparr>op_mkdir := Some ''ramfs_mkdir''\<rparr>\<rparr>],
      v_tree_heap = [16 \<mapsto> \<lparr>tn_value = 100, tn_children = [32], tn_parent = 0\<rparr>,
        32 \<mapsto> \<lparr>tn_value = 101, tn_children = [], tn_parent = 16\<rparr>],
      v_file_tree = \<lparr>t_head = 16, t_height = 1\<rparr>, v_root_node = 100, v_id_generator = 3, v_supply = [200, 300, 400, 48, 201],
      v_has_process = False, v_cwd = None, v_cwd_file = 0, v_fs_owner = Map.empty,
      v_priv = \<lparr>rf_files = Map.empty, rf_blocks = Map.empty\<rparr>\<rparr>"

lemma demo_ramfs_ok: "vfs_ok demo_ramfs demo_root" "cwd_known demo_ramfs"
  "v_nodes demo_ramfs 101 = Some (empty_node\<lparr>fn_name := cstr ''tmp'', fn_type := FILE_TYPE_MOUNT_POINT,
     fn_file_ops := ramfs_ops\<lparr>op_mkdir := Some ''ramfs_mkdir''\<rparr>\<rparr>)"
  "v_supply demo_ramfs = 200 # 300 # 400 # 48 # [201]"
  by (simp_all add: vfs_ok_def demo_ramfs_def demo_root_def tree_repr_def addrs_def vals_def cwd_known_def)

lemma demo_ramfs_walk:
  "name_walk demo_ramfs demo_root [demo_root] (path_tokens (cstr ''/tmp/x'')) = Missing (Rose 32 101 []) (cstr ''x'') []"
  "take 1 (cstr ''/tmp/x'') = cstr ''/''" "length (cstr ''x'') < 256"
proof -
  have "path_tokens (cstr ''/tmp/x'') = [cstr ''tmp'', cstr ''x'']" by (simp add: cstr_def path_tokens.simps)
  then show "name_walk demo_ramfs demo_root [demo_root] (path_tokens (cstr ''/tmp/x'')) = Missing (Rose 32 101 []) (cstr ''x'') []"
    by (simp only:) (simp add: cstr_def find_kid_def node_name_def demo_ramfs_def demo_root_def empty_node_def)
qed (simp_all add: cstr_def)

text \<open>Creating, writing and reading a file through the VFS fit together: opening a missing path of a RAM
  directory with \<^verbatim>\<open>O_CREAT\<close> succeeds and returns a new node in a well-formed tree; whatever is then written through a handle
  within the first 4096 bytes is reported as written completely, and reading the same range returns
  exactly these bytes.\<close>

theorem ramfs_create_write_read:
  assumes "vfs_ok s r" "depth r \<le> n" "take 1 file = cstr ''/''" "name_walk s r [r] (path_tokens file) = Missing t nm []"
    "t \<in> set (subtrees r)" "v_nodes s (r_val t) = Some p" "op_find_dir (fn_file_ops p) = None"
    "op_create (fn_file_ops p) = Some ''ramfs_create''" "cwd_known s" "length nm < 256" "v_supply s = b # c # d # a # as"
    "mode AND O_DIRECTORY = 0" "mode AND O_CREAT \<noteq> 0"
    and h: "fh_fileNode h = b" "fh_mode h AND O_WRONLY = 0" "fh_mode h AND O_APPEND = 0" "unat (fh_offset h) + length bs \<le> 4096"
  shows "\<exists>s1 s2. open_path (Suc (Suc (Suc (Suc k)))) (ramfs_driver j n) n file mode s = Some (b, s1) \<and>
    vfs_ok s1 (graft (r_addr t) (Rose a b []) r) \<and>
    write_handle (ramfs_driver j n) h bs s1 = Some (int (length bs), h, s2) \<and>
    read_handle (ramfs_driver j n) h (of_nat (length bs)) s2 = Some (int (length bs), map Some bs, s2)"
proof -
  from ramfs_open_creates [OF assms(1-13)] obtain s1 where
    o: "open_path (Suc (Suc (Suc (Suc k)))) (ramfs_driver j n) n file mode s = Some (b, s1)"
    "vfs_ok s1 (graft (r_addr t) (Rose a b []) r)" "ram_open b (replicate 4096 None) s1" by blast
  let ?blk = "take (unat (fh_offset h)) (replicate 4096 None) @ map Some bs @ drop (unat (fh_offset h) + length bs) (replicate 4096 None)"
  from ramfs_write_inside [OF o(3) h(4)] obtain s2 where
    w: "ramfs_write b bs (fh_offset h) s1 = Some (int (length bs), s2)" "ram_open b ?blk s2" by blast
  have "take (length bs) (drop (unat (fh_offset h)) ?blk) = map Some bs" using h(4) by simp
  then have "ramfs_read b (fh_offset h) (of_nat (length bs)) s2 = Some (int (length bs), map Some bs, s2)"
    using ramfs_read_inside [OF w(2) h(4)] by simp
  moreover obtain f1 f2 where "at (v_nodes s1) b = Some f1" "op_write (fn_file_ops f1) = Some ''ramfs_write''"
    "at (v_nodes s2) b = Some f2" "op_read (fn_file_ops f2) = Some ''ramfs_read''"
    using o(3) w(2) by (auto simp: ram_open_def at_def)
  ultimately have "write_handle (ramfs_driver j n) h bs s1 = Some (int (length bs), h, s2)"
    "read_handle (ramfs_driver j n) h (of_nat (length bs)) s2 = Some (int (length bs), map Some bs, s2)"
    using h w(1) by (simp_all add: write_handle_def read_handle_def ramfs_driver_calls)
  then show ?thesis using o by blast
qed

theorem ramfs_create_write_read_witness:
  "\<exists>s1 s2. open_path 4 (ramfs_driver 0 9) 9 (cstr ''/tmp/x'') 64 demo_ramfs = Some (200, s1) \<and>
    write_handle (ramfs_driver 0 9) (create_handle 200) [104, 105] s1 = Some (2, create_handle 200, s2) \<and>
    read_handle (ramfs_driver 0 9) (create_handle 200) 2 s2 = Some (2, [Some 104, Some 105], s2)"
proof -
  let ?p = "empty_node\<lparr>fn_name := cstr ''tmp'', fn_type := FILE_TYPE_MOUNT_POINT, fn_file_ops := ramfs_ops\<lparr>op_mkdir := Some ''ramfs_mkdir''\<rparr>\<rparr>"
  have sub: "Rose 32 101 [] \<in> set (subtrees demo_root)" by (simp add: demo_root_def)
  have p: "v_nodes demo_ramfs (r_val (Rose 32 101 [])) = Some ?p" "op_find_dir (fn_file_ops ?p) = None"
    "op_create (fn_file_ops ?p) = Some ''ramfs_create''" using demo_ramfs_ok(3) by (simp_all add: ramfs_ops_def no_ops_def)
  have m: "(64 :: int) AND O_DIRECTORY = 0" "(64 :: int) AND O_CREAT \<noteq> 0" by (simp_all add: O_DIRECTORY_def O_CREAT_def)
  have h: "fh_fileNode (create_handle 200) = 200" "fh_mode (create_handle 200) AND O_WRONLY = 0"
    "fh_mode (create_handle 200) AND O_APPEND = 0" "unat (fh_offset (create_handle 200)) + length [104, 105 :: u8] \<le> 4096"
    by (simp_all add: create_handle_def O_WRONLY_def O_APPEND_def)
  from ramfs_create_write_read [OF demo_ramfs_ok(1) demo_vfs_ok(2) demo_ramfs_walk(2,1) sub p demo_ramfs_ok(2) demo_ramfs_walk(3)
      demo_ramfs_ok(4) m h, of 0 0]
  show ?thesis by (elim exE conjE) (auto simp: eval_nat_numeral)
qed

text \<open>\<^verbatim>\<open>ramfs_read\<close> past the end of the buffer copies the wrong number of bytes: a read that starts inside and ends
  beyond the buffer of size 4096 copies as many bytes as it exceeds the buffer by, not as many as are left, and faults
  when even these do not fit; a read that starts beyond the buffer copies nothing.\<close>

theorem ramfs_read_past_end:
  assumes "ram_open node blk s" "4096 < unat off + unat len" "unat off + unat len < 2 ^ 31"
  shows "ramfs_read node off len s =
    (if unat off > 4096 then Some (0, [], s)
     else if 2 * unat off + unat len \<le> 8192
     then Some (int (unat off + unat len - 4096), take (unat off + unat len - 4096) (drop (unat off) blk), s)
     else None)"
proof -
  have u: "unat (off + len) = unat off + unat len" using assms(3) by (simp add: unat_word_ariths)
  have gt: "off + len > 4096" using assms(2) u by (simp add: word_less_nat_alt)
  have "4096 \<le> off + len" using gt by simp
  then have d: "unat (off + len - 4096) = unat off + unat len - 4096" using unat_sub [of 4096 "off + len"] u by simp
  have ti: "to_int (off + len - 4096) = int (unat off + unat len - 4096)"
    using to_int_small [of "off + len - 4096"] d assms(3) by simp
  have "unat off > 4096 \<longleftrightarrow> off > 4096" by (simp add: word_less_nat_alt)
  then show ?thesis using assms gt d ti
    by (auto simp: ramfs_read_def ram_open_def ram_file_def at_def copy_out_def Let_def)
qed

definition demo_ram_file :: rvfs where
  \<comment> \<open>\<open>demo_ramfs\<close> with a file whose buffer holds zeros\<close>
  "demo_ram_file = demo_ramfs\<lparr>v_nodes := (v_nodes demo_ramfs)(200 \<mapsto> ram_node 3 (cstr ''x'') 300),
     v_priv := \<lparr>rf_files = [300 \<mapsto> \<lparr>rf_begin = 400, rf_size = 4096\<rparr>], rf_blocks = [400 \<mapsto> replicate 4096 (Some 0)]\<rparr>\<rparr>"

lemma demo_ram_open: "ram_open 200 (replicate 4096 (Some 0)) demo_ram_file"
  by (simp add: ram_open_def demo_ram_file_def ram_node_def empty_node_def ramfs_ops_def)

theorem ramfs_read_past_end_witness:
  "ramfs_read 200 0 5000 demo_ram_file = Some (904, replicate 904 (Some 0), demo_ram_file) \<and>
   ramfs_read 200 4000 5000 demo_ram_file = None"
  using ramfs_read_past_end [OF demo_ram_open, of 0 5000] ramfs_read_past_end [OF demo_ram_open, of 4000 5000] by simp

text \<open>C14. \<^verbatim>\<open>delete\<close> of a RAM file through the VFS removes it: it returns 0, exactly its node leaves the file tree, which stays well
  formed, and the node, its \<^verbatim>\<open>ram_file_t\<close> and the buffer at \<^verbatim>\<open>ramFile->begin\<close> are freed; every other node, file and buffer
  stays as it was.\<close>

theorem ramfs_delete_removes:
  assumes "vfs_ok s r" "depth r \<le> n" "take 1 file = cstr ''/''" "path_tokens file \<noteq> []" "name_walk s r [r] (path_tokens file) = Found t"
    "t \<in> set (subtrees r)" "r_addr t \<noteq> r_addr r" "v_nodes s (r_val t) = Some f" "op_open (fn_file_ops f) = None"
    "op_delete (fn_file_ops f) = Some ''ramfs_delete''" "cwd_known s" "ram_open (r_val t) blk s"
    "rf_files (v_priv s) (fn_fs f) = Some ramFile"
  shows "\<exists>s'. delete_path (Suc (Suc k)) (ramfs_driver j n) n abi file s = Some (0, s') \<and> vfs_ok s' (prune (r_addr t) r) \<and>
    ram_file (r_val t) s' = None \<and> v_nodes s' = (v_nodes s)(r_val t := None) \<and>
    rf_files (v_priv s') = (rf_files (v_priv s))(fn_fs f := None) \<and>
    rf_blocks (v_priv s) (rf_begin ramFile) = Some blk \<and>
    rf_blocks (v_priv s') = (rf_blocks (v_priv s))(rf_begin ramFile := None)"
proof -
  let ?dr = "ramfs_driver j n"
  have nn: "r_val t \<noteq> NULL" "r_addr t \<noteq> NULL" using subtree_facts(3,6) [OF assms(1,6)] .
  have o: "open_path (Suc (Suc k)) ?dr n file 0 s = Some (r_val t, s)"
    using open_found [OF assms(1,3-6,8,9,11), of 0] by simp
  define d where "d = rf_begin ramFile"
  have d: "rf_files (v_priv s) (fn_fs f) = Some \<lparr>rf_begin = d, rf_size = 4096\<rparr>" "fn_fs f \<noteq> NULL"
    "rf_blocks (v_priv s) d = Some blk"
    using assms(8,12,13) by (auto simp: ram_open_def d_def)
  define s1 where "s1 = s\<lparr>v_priv := \<lparr>rf_files = (rf_files (v_priv s))(fn_fs f := None), rf_blocks = (rf_blocks (v_priv s))(d := None)\<rparr>\<rparr>"
  have del: "ramfs_delete (r_val t) s = Some (0, s1)" using assms(8) d nn by (simp add: ramfs_delete_def at_def s1_def)
  have ok: "vfs_ok s1 r" using assms(1) by (simp add: vfs_ok_def s1_def)
  from remove_node_ok [OF ok assms(2,6,7)] obtain h tt where
    rm: "remove_node n (r_addr t) s1 = Some (s1\<lparr>v_tree_heap := h, v_file_tree := tt\<rparr>)"
    "vfs_ok (free_node (r_val t) (s1\<lparr>v_tree_heap := h, v_file_tree := tt\<rparr>)) (prune (r_addr t) r)" by blast
  have "delete_path (Suc (Suc k)) ?dr n abi file s = Some (0, free_node (r_val t) (s1\<lparr>v_tree_heap := h, v_file_tree := tt\<rparr>))"
    using o nn assms(8,10) del rm(1) find_node_subtree [OF ok assms(2,6)]
    by (simp add: delete_path_def unlink_node_def at_def ramfs_driver_calls)
  then show ?thesis using rm(2) nn d(3) by (simp add: free_node_def ram_file_def at_def s1_def d_def)
qed

definition demo_ram_tree :: rvfs where
  \<comment> \<open>\<open>demo_ramfs\<close> with the file \<^verbatim>\<open>/tmp/x\<close>\<close>
  "demo_ram_tree = demo_ram_file\<lparr>v_tree_heap := [16 \<mapsto> \<lparr>tn_value = 100, tn_children = [32], tn_parent = 0\<rparr>,
        32 \<mapsto> \<lparr>tn_value = 101, tn_children = [48], tn_parent = 16\<rparr>, 48 \<mapsto> \<lparr>tn_value = 200, tn_children = [], tn_parent = 32\<rparr>],
      v_supply := [201]\<rparr>"

theorem ramfs_delete_removes_witness:
  "\<exists>s'. delete_path 2 (ramfs_driver 0 9) 9 demo_abi (cstr ''/tmp/x'') demo_ram_tree = Some (0, s') \<and>
    vfs_ok s' (Rose 16 100 [Rose 32 101 []]) \<and> v_nodes s' 200 = None \<and> v_nodes s' 101 \<noteq> None \<and>
    rf_files (v_priv s') 300 = None \<and> rf_blocks (v_priv s') 400 = None"
proof -
  let ?r = "Rose 16 100 [Rose 32 101 [Rose 48 200 []]]" and ?f = "ram_node 3 (cstr ''x'') 300" and ?t = "Rose 48 200 []"
  have toks: "path_tokens (cstr ''/tmp/x'') = [cstr ''tmp'', cstr ''x'']" by (simp add: cstr_def path_tokens.simps)
  have w: "name_walk demo_ram_tree ?r [?r] [cstr ''tmp'', cstr ''x''] = Found ?t"
    by (simp add: cstr_def find_kid_def node_name_def demo_ram_tree_def demo_ram_file_def demo_ramfs_def ram_node_def empty_node_def)
  have "vfs_ok demo_ram_tree ?r" "depth ?r \<le> 9" "cwd_known demo_ram_tree" "?t \<in> set (subtrees ?r)" "r_addr ?t \<noteq> r_addr ?r"
    "v_nodes demo_ram_tree (r_val ?t) = Some ?f" "op_open (fn_file_ops ?f) = None" "op_delete (fn_file_ops ?f) = Some ''ramfs_delete''"
    by (simp_all add: vfs_ok_def demo_ram_tree_def demo_ram_file_def demo_ramfs_def tree_repr_def addrs_def vals_def cwd_known_def
        ram_node_def empty_node_def ramfs_ops_def no_ops_def)
  moreover have "ram_open (r_val ?t) (replicate 4096 (Some 0)) demo_ram_tree"
    using demo_ram_open by (simp add: ram_open_def demo_ram_tree_def)
  moreover have "rf_files (v_priv demo_ram_tree) (fn_fs ?f) = Some \<lparr>rf_begin = 400, rf_size = 4096\<rparr>" "fn_fs ?f = 300"
    "v_nodes demo_ram_tree 101 \<noteq> None"
    by (simp_all add: demo_ram_tree_def demo_ram_file_def demo_ramfs_def ram_node_def)
  ultimately show ?thesis
    using ramfs_delete_removes [of demo_ram_tree ?r 9 "cstr ''/tmp/x''" ?t ?f "replicate 4096 (Some 0)" "\<lparr>rf_begin = 400, rf_size = 4096\<rparr>" 0 0 demo_abi, folded numeral_2_eq_2]
      toks w demo_ramfs_walk(2) by auto
qed

end
