(* ===== verification/Tarfs.thy ===== *)
theory Tarfs
  imports Vfs
begin

text \<open>
  The read-only file system on a tar archive in memory (\<^verbatim>\<open>kernel/fs/tarfs.c\<close>), a driver of the VFS. The chain of \<^verbatim>\<open>tar_t\<close> headers is a
  list, and a pointer into it the position; the archive itself stays in memory, where \<^verbatim>\<open>tarfs_read\<close> copies from. \<^verbatim>\<open>tarfs_read_dir\<close> and
  \<^verbatim>\<open>tarfs_mount\<close> start counting from an uninitialised variable, whose value is the argument \<open>junk\<close>. An overflow of \<^verbatim>\<open>int\<close> is a
  fault. The theorems show that every file of a well-formed archive is found under its path and read back byte for byte.
\<close>

section \<open>Data\<close>

record tar_t =
  ta_begin :: u64
  ta_block :: bytes

definition ta_name :: "tar_t \<Rightarrow> bytes" where "ta_name t = take 100 (ta_block t)"
definition ta_size :: "tar_t \<Rightarrow> bytes" where "ta_size t = take 12 (drop 124 (ta_block t))"
definition ta_type :: "tar_t \<Rightarrow> u8" where "ta_type t = ta_block t ! 156"
definition ta_prefix :: "tar_t \<Rightarrow> bytes" where "ta_prefix t = take 155 (drop 345 (ta_block t))"

record tar_filesystem =
  tfs_root :: "tar_t list"
  tfs_root_node :: ptr
  tfs_len :: int

record tar_context =
  tc_fs :: ptr
  tc_entry :: "nat option"

record tarfs =
  tf_mem :: mem
  tf_archive :: "tar_t list"
  tf_systems :: "ptr \<rightharpoonup> tar_filesystem"
  tf_contexts :: "ptr \<rightharpoonup> tar_context"

type_synonym tvfs = "tarfs vfs"

section \<open>Reading headers\<close>

fun oct_loop :: "int \<Rightarrow> bytes \<Rightarrow> int option" where
  \<comment> \<open>\<^verbatim>\<open>n *= 8; n += *c - '0'\<close>\<close>
  "oct_loop n [] = Some n"
| "oct_loop n (c # cs) =
     (let n1 = n * 8; n2 = n1 + (schar c - 48) in
      if - (2 ^ 31) \<le> n1 \<and> n1 < 2 ^ 31 \<and> - (2 ^ 31) \<le> n2 \<and> n2 < 2 ^ 31 then oct_loop n2 cs else None)"

definition oct2bin :: "bytes \<Rightarrow> int \<Rightarrow> int option" where
  "oct2bin str sz = (if nat sz \<le> length str then oct_loop 0 (take (nat sz) str) else None)"

definition isBufferZero :: "bytes \<Rightarrow> int \<Rightarrow> bool" where
  "isBufferZero buf sz = list_all (\<lambda>b. b = 0) (take (nat sz) buf)"

definition read_mem :: "mem \<Rightarrow> ptr \<Rightarrow> int \<Rightarrow> (int \<times> bytes) option" where
  "read_mem m p sz = do { buf \<leftarrow> load m p (nat sz); Some (if isBufferZero buf sz then 0 else sz, buf) }"

definition crem :: "int \<Rightarrow> int \<Rightarrow> int" where
  \<comment> \<open>the operator \<^verbatim>\<open>%\<close> with a positive right operand\<close>
  "crem a b = (if 0 \<le> a then a mod b else - ((- a) mod b))"

fun init_loop :: "nat \<Rightarrow> mem \<Rightarrow> ptr \<Rightarrow> ptr \<Rightarrow> tar_t list option" where
  \<comment> \<open>the loop of \<^verbatim>\<open>tarfs_init\<close> with the limit \<^verbatim>\<open>ptr + bufsize\<close>; the list is the chain that it appends\<close>
  "init_loop 0 m lim buf = None"
| "init_loop (Suc n) m lim buf =
     (if \<not> buf < lim then Some []
      else do {
        (r, block) \<leftarrow> read_mem m buf 512;
        if r = 0 then
          (if buf + 512 > lim then Some []
           else if lim - (buf + 512) \<ge> 512 then do { _ \<leftarrow> read_mem m (buf + 512) 512; Some [] }
           else Some [])
        else do {
          let t = \<lparr>ta_begin = buf, ta_block = block\<rparr>;
          size1 \<leftarrow> oct2bin (ta_size t) 11;
          let jump = (if crem size1 512 \<noteq> 0 then size1 + (512 - crem size1 512) else size1);
          if jump < 2 ^ 31 then do {
            ts \<leftarrow> init_loop n m lim (buf + to_size (512 + jump));
            Some (t # ts)
          } else None
        }
      })"

section \<open>File operations\<close>

definition cfield :: "bytes \<Rightarrow> bytes" where
  \<comment> \<open>the string in a fixed field, which need not be terminated\<close>
  "cfield bs = takeWhile (\<lambda>b. b \<noteq> 0) bs"

definition entry_name :: "tar_t \<Rightarrow> bytes" where
  \<comment> \<open>\<^verbatim>\<open>strncat(filename, prefix, 155); strncat(filename, name, 100)\<close> into 256 zero bytes\<close>
  "entry_name t = cfield (ta_prefix t) @ cfield (ta_name t)"

definition strip_slash :: "bytes \<Rightarrow> bytes option" where
  \<comment> \<open>\<^verbatim>\<open>if(filename[strlen(filename)-1] == '/') filename[strlen(filename)-1] = '\0'\<close>\<close>
  "strip_slash fn = (if fn = [] then None else if last fn = 47 then Some (butlast fn) else Some fn)"

definition context_of :: "ptr \<Rightarrow> tvfs \<Rightarrow> (tar_context \<times> tar_filesystem) option" where
  "context_of node s = do {
     f \<leftarrow> at (v_nodes s) node;
     c \<leftarrow> at (tf_contexts (v_priv s)) (fn_fs f);
     fs \<leftarrow> at (tf_systems (v_priv s)) (tc_fs c);
     Some (c, fs)
   }"

definition entry_at :: "tar_filesystem \<Rightarrow> nat \<Rightarrow> tar_t option" where
  "entry_at fs i = (if i < length (tfs_root fs) then Some (tfs_root fs ! i) else None)"

definition tarfs_read :: "ptr \<Rightarrow> u64 \<Rightarrow> u64 \<Rightarrow> tvfs \<Rightarrow> (int \<times> u8 option list \<times> tvfs) option" where
  "tarfs_read node offset len0 s = do {
     (c, fs) \<leftarrow> context_of node s;
     case tc_entry c of None \<Rightarrow> Some (0, [], s)
     | Some i \<Rightarrow> do {
         entry \<leftarrow> entry_at fs i;
         size1 \<leftarrow> oct2bin (ta_size entry) 11;
         if offset > to_size size1 then Some (0, [], s)
         else do {
           let len = (if offset + len0 > to_size size1 then to_size size1 - offset else len0);
           bs \<leftarrow> load (tf_mem (v_priv s)) (512 + ta_begin entry + offset) (unat len);
           Some (to_int len, map Some bs, s)
         }
       }
   }"

definition tarfs_ops :: file_operations where
  "tarfs_ops = no_ops\<lparr>op_read := Some ''tarfs_read'', op_find_dir := Some ''tarfs_find_dir'', op_read_dir := Some ''tarfs_read_dir''\<rparr>"

definition new_tar_node :: "ptr \<Rightarrow> nat \<Rightarrow> tar_t \<Rightarrow> bytes \<Rightarrow> bytes \<Rightarrow> nat \<Rightarrow> tvfs \<Rightarrow> (ptr \<times> tvfs) option" where
  \<comment> \<open>the block that both branches of \<^verbatim>\<open>tarfs_find_dir\<close> share\<close>
  "new_tar_node fs i current name filename ident s = do {
     (ctx, s1) \<leftarrow> calloc_addr s;
     (node, s2) \<leftarrow> calloc_addr (s1\<lparr>v_priv := (v_priv s1)\<lparr>tf_contexts := (tf_contexts (v_priv s1))(ctx \<mapsto> \<lparr>tc_fs = fs, tc_entry = Some i\<rparr>)\<rparr>\<rparr>);
     size1 \<leftarrow> oct2bin (ta_size current) 11;
     f \<leftarrow> set_name name (empty_node\<lparr>fn_full_path := filename, fn_id := of_nat ident,
            fn_type := (if ta_type current = 48 then FILE_TYPE_FILE else FILE_TYPE_DIR), fn_size := to_size size1, fn_ref_count := 0,
            fn_file_ops := tarfs_ops, fn_fs := ctx\<rparr>);
     Some (node, put_node node f s2)
   }"

fun find_root :: "bytes \<Rightarrow> tar_t list \<Rightarrow> nat \<Rightarrow> (nat \<times> bytes) option option" where
  \<comment> \<open>the loop from the root: the position of the entry and its name\<close>
  "find_root name [] k = Some None"
| "find_root name (t # ts) k = do {
     filename \<leftarrow> strip_slash (entry_name t);
     if length (filter (\<lambda>b. b = 47) (entry_name t)) \<le> 1 \<and> filename = name then Some (Some (k, filename))
     else find_root name ts (k + 1)
   }"

fun find_sub :: "bytes \<Rightarrow> tar_t list \<Rightarrow> nat \<Rightarrow> (nat \<times> bytes) option option" where
  \<comment> \<open>the loop below a directory, from its own entry on\<close>
  "find_sub filename [] k = Some None"
| "find_sub filename (t # ts) k = do {
     filename1 \<leftarrow> strip_slash filename;
     other \<leftarrow> strip_slash (entry_name t);
     if filename1 = other then Some (Some (k, filename1)) else find_sub filename1 ts (k + 1)
   }"

definition tarfs_find_dir :: "ptr \<Rightarrow> bytes \<Rightarrow> tvfs \<Rightarrow> (ptr \<times> tvfs) option" where
  "tarfs_find_dir node name s = do {
     f \<leftarrow> at (v_nodes s) node;
     (c, fs) \<leftarrow> context_of node s;
     if fn_type f = FILE_TYPE_MOUNT_POINT then do {
       r \<leftarrow> find_root name (tfs_root fs) 0;
       case r of None \<Rightarrow> Some (NULL, s)
       | Some (i, filename) \<Rightarrow> new_tar_node (tc_fs c) i (tfs_root fs ! i) name filename i s
     } else do {
       e \<leftarrow> tc_entry c;
       current \<leftarrow> entry_at fs e;
       if length (entry_name current @ name) \<ge> 256 then None
       else do {
         r \<leftarrow> find_sub (entry_name current @ name) (drop e (tfs_root fs)) 0;
         case r of None \<Rightarrow> Some (NULL, s)
         | Some (k, filename) \<Rightarrow> new_tar_node (tc_fs c) (e + k) (tfs_root fs ! (e + k)) name filename k s
       }
     }
   }"

definition count_char_occurrences :: "bytes \<Rightarrow> u8 \<Rightarrow> int" where
  "count_char_occurrences str c = int (length (filter (\<lambda>b. b = c) str))"

definition put_entry :: "list_dir_t option list \<Rightarrow> int \<Rightarrow> bytes \<Rightarrow> u64 \<Rightarrow> u64 \<Rightarrow> list_dir_t option list option" where
  \<comment> \<open>\<^verbatim>\<open>entries[readCount]\<close>; the name field has 256 bytes\<close>
  "put_entry es rc nm ty sz =
     (if 0 \<le> rc \<and> nat rc < length es \<and> length nm < 256 then Some (es[nat rc := Some \<lparr>ld_name = nm, ld_type = ty, ld_size = sz\<rparr>]) else None)"

fun list_children :: "tvfs \<Rightarrow> int \<Rightarrow> ptr list \<Rightarrow> int \<Rightarrow> list_dir_t option list \<Rightarrow> (bool \<times> int \<times> list_dir_t option list) option" where
  \<comment> \<open>the loop over the children in the file tree; true when it returned because the array is full\<close>
  "list_children s cnt [] rc es = Some (False, rc, es)"
| "list_children s cnt (c # cs) rc es =
     (if rc \<ge> cnt then Some (True, rc, es)
      else do {
        e \<leftarrow> nrd (v_tree_heap s) c;
        f \<leftarrow> at (v_nodes s) (tn_value e);
        if fn_cached f then list_children s cnt cs rc es
        else do { es1 \<leftarrow> put_entry es rc (fn_name f) (fn_type f) (fn_size f); list_children s cnt cs (rc + 1) es1 }
      })"

fun list_root :: "int \<Rightarrow> tar_t list \<Rightarrow> int \<Rightarrow> list_dir_t option list \<Rightarrow> (int \<times> list_dir_t option list) option" where
  \<comment> \<open>the loop over the entries at the root of the archive\<close>
  "list_root cnt [] rc es = Some (rc, es)"
| "list_root cnt (t # ts) rc es =
     (if rc \<ge> cnt then Some (rc, es)
      else let nm = entry_name t; c = count_char_occurrences nm 47 in
        if c \<ge> 2 \<or> (c \<ge> 1 \<and> last nm \<noteq> 47) then list_root cnt ts rc es
        else do {
          size1 \<leftarrow> oct2bin (ta_size t) 11;
          short \<leftarrow> strip_slash nm;
          es1 \<leftarrow> put_entry es rc short (if ta_type t = 0 then FILE_TYPE_FILE else FILE_TYPE_DIR) (to_size size1);
          list_root cnt ts (rc + 1) es1
        })"

definition list_sub :: "bytes \<Rightarrow> int \<Rightarrow> tar_t list \<Rightarrow> int \<Rightarrow> list_dir_t option list \<Rightarrow> (int \<times> list_dir_t option list) option" where
  \<comment> \<open>the loop over the entries behind a directory: the name of the next entry is appended to \<^verbatim>\<open>name\<close> while \<^verbatim>\<open>entry_name\<close> stays
     empty, so with a directory name that is not empty the comparison fails in the first round\<close>
  "list_sub name cnt ts rc es =
     (case ts of [] \<Rightarrow> Some (rc, es)
      | t # _ \<Rightarrow> if rc \<ge> cnt then Some (rc, es)
          else if length (name @ entry_name t) \<ge> 256 then None
          else if name \<noteq> [] then Some (rc, es)
          else None)"

definition tarfs_read_dir :: "int \<Rightarrow> nat \<Rightarrow> ptr \<Rightarrow> int \<Rightarrow> tvfs \<Rightarrow> (int \<times> list_dir_t option list \<times> tvfs) option" where
  \<comment> \<open>\<open>junk\<close> is the value of the uninitialised \<^verbatim>\<open>readCount\<close>; other file types run into the end of the function\<close>
  "tarfs_read_dir junk n node cnt s = do {
     f \<leftarrow> at (v_nodes s) node;
     (c, fs) \<leftarrow> context_of node s;
     if fn_type f = FILE_TYPE_DIR \<or> fn_type f = FILE_TYPE_MOUNT_POINT then do {
       treeNode \<leftarrow> find_node n node s;
       if treeNode = NULL then Some (0, replicate (nat cnt) None, s)
       else do {
         e \<leftarrow> nrd (v_tree_heap s) treeNode;
         (full, rc, es) \<leftarrow> list_children s cnt (tn_children e) junk (replicate (nat cnt) None);
         if full then Some (rc, es, s)
         else case tc_entry c of
           None \<Rightarrow> do { (rc1, es1) \<leftarrow> list_root cnt (tfs_root fs) rc es; Some (rc1, es1, s) }
         | Some i \<Rightarrow> do {
             entry \<leftarrow> entry_at fs i;
             (rc1, es1) \<leftarrow> list_sub (entry_name entry) cnt (drop (i + 1) (tfs_root fs)) rc es;
             Some (rc1, es1, s)
           }
       }
     } else None
   }"

definition tarfs_get_size :: "ptr \<Rightarrow> tvfs \<Rightarrow> int option" where
  \<comment> \<open>\<^verbatim>\<open>strstr("/", entry_name)\<close> finds only the empty name and \<^verbatim>\<open>/\<close>\<close>
  "tarfs_get_size node s = do {
     f \<leftarrow> at (v_nodes s) node;
     (c, fs) \<leftarrow> context_of node s;
     if fn_type f = FILE_TYPE_DIR \<or> fn_type f = FILE_TYPE_MOUNT_POINT then
       (case tc_entry c of
          None \<Rightarrow> Some (to_int (of_nat (length (takeWhile (\<lambda>t. entry_name t \<noteq> [] \<and> entry_name t \<noteq> [47]) (tfs_root fs))) + fn_size f))
        | Some i \<Rightarrow> do {
            entry \<leftarrow> entry_at fs i;
            let name = entry_name entry;
            Some (to_int (of_nat (length (takeWhile (\<lambda>t. take (length name) (entry_name t) = name) (drop (i + 1) (tfs_root fs)))) + fn_size f))
          })
     else if fn_type f = FILE_TYPE_FILE then do { i \<leftarrow> tc_entry c; entry \<leftarrow> entry_at fs i; oct2bin (ta_size entry) 11 }
     else Some 0
   }"

definition tarfs_mount :: "int \<Rightarrow> bytes \<Rightarrow> tvfs \<Rightarrow> (ptr \<times> tvfs) option" where
  \<comment> \<open>\<open>junk\<close> is the value of the uninitialised \<^verbatim>\<open>len\<close>\<close>
  "tarfs_mount junk name s = do {
     (root, s1) \<leftarrow> calloc_addr s;
     (fs, s2) \<leftarrow> calloc_addr s1;
     (ctx, s3) \<leftarrow> calloc_addr s2;
     f \<leftarrow> set_name (cstr ''[root_tarfs]'') (empty_node\<lparr>fn_id := 0, fn_size := 0, fn_type := FILE_TYPE_MOUNT_POINT, fn_full_path := name,
            fn_ref_count := 0, fn_file_ops := tarfs_ops\<lparr>op_get_size := Some ''tarfs_get_size''\<rparr>, fn_fs := ctx\<rparr>);
     if length name \<ge> 4096 then None
     else Some (root, put_node root f (s3\<lparr>v_priv := (v_priv s3)\<lparr>
       tf_systems := (tf_systems (v_priv s3))(fs \<mapsto> \<lparr>tfs_root = tf_archive (v_priv s3), tfs_root_node = root,
         tfs_len = wrap_int (junk + int (length (tf_archive (v_priv s3))))\<rparr>),
       tf_contexts := (tf_contexts (v_priv s3))(ctx \<mapsto> \<lparr>tc_fs = fs, tc_entry = None\<rparr>)\<rparr>\<rparr>))
   }"

definition tarfs_driver :: "int \<Rightarrow> nat \<Rightarrow> tarfs driver" where
  "tarfs_driver junk n = \<lparr>
     call_read = (\<lambda>f. if f = ''tarfs_read'' then tarfs_read else (\<lambda>_ _ _ _. None)),
     call_write = (\<lambda>_ _ _ _ _. None), call_open = (\<lambda>_ _ _ _. None),
     call_read_dir = (\<lambda>f node cnt s. if f = ''tarfs_read_dir''
       then do { (r, es, s1) \<leftarrow> tarfs_read_dir junk n node cnt s; Some (r, List.map_filter id es, s1) } else None),
     call_mkdir = (\<lambda>_ _ _ _. None),
     call_find_dir = (\<lambda>f. if f = ''tarfs_find_dir'' then tarfs_find_dir else (\<lambda>_ _ _. None)),
     call_get_size = (\<lambda>f. if f = ''tarfs_get_size'' then tarfs_get_size else (\<lambda>_ _. None)),
     call_create = (\<lambda>_ _ _ _ _. None), call_poll = (\<lambda>_ _ _ _. None), call_rename = (\<lambda>_ _ _ _. None), call_delete = (\<lambda>_ _ _. None)\<rparr>"

definition tarfs_init :: "nat \<Rightarrow> int \<Rightarrow> nat \<Rightarrow> nat \<Rightarrow> bytes \<Rightarrow> ptr \<Rightarrow> u64 \<Rightarrow> tvfs \<Rightarrow> tvfs option" where
  \<comment> \<open>\<open>k\<close> bounds the number of headers\<close>
  "tarfs_init k junk r n path p bufsize s = do {
     tar \<leftarrow> init_loop k (tf_mem (v_priv s)) (p + bufsize) p;
     (_, s1) \<leftarrow> register_mount r (tarfs_driver junk n) n path (tarfs_mount junk) (s\<lparr>v_priv := (v_priv s)\<lparr>tf_archive := tar\<rparr>\<rparr>);
     Some s1
   }"

section \<open>Archives in memory\<close>

definition tar_ok :: "bytes \<times> bytes \<Rightarrow> bool" where
  \<comment> \<open>a header that is not all zero and whose size field is the length of the data\<close>
  "tar_ok bd \<longleftrightarrow> length (fst bd) = 512 \<and> \<not> list_all (\<lambda>b. b = 0) (fst bd) \<and>
     oct2bin (take 12 (drop 124 (fst bd))) 11 = Some (int (length (snd bd))) \<and> length (snd bd) < 2 ^ 30"

definition padded :: "bytes \<Rightarrow> bytes" where
  "padded d = d @ replicate ((512 - length d mod 512) mod 512) 0"

definition tar_image :: "(bytes \<times> bytes) list \<Rightarrow> bytes" where
  \<comment> \<open>headers and data in blocks of 512 bytes, and two zero blocks at the end\<close>
  "tar_image fs = concat (map (\<lambda>(b, d). b @ padded d) fs) @ replicate 1024 0"

fun entries_from :: "ptr \<Rightarrow> (bytes \<times> bytes) list \<Rightarrow> tar_t list" where
  "entries_from p [] = []"
| "entries_from p ((b, d) # fs) = \<lparr>ta_begin = p, ta_block = b\<rparr> # entries_from (p + of_nat (512 + length (padded d))) fs"

lemma unat_add_of_nat: "unat p + n < 2 ^ 64 \<Longrightarrow> unat (p + of_nat n :: u64) = unat p + n"
  by (simp add: unat_word_ariths unat_of_nat take_bit_nat_eq_self)

lemma length_padded: "length (padded d) = (if length d mod 512 = 0 then length d else length d + (512 - length d mod 512))"
  by (simp add: padded_def)

lemma length_tar_image: "length (tar_image ((b, d) # fs)) = length b + length (padded d) + length (tar_image fs)" "1024 \<le> length (tar_image fs)"
  by (simp_all add: tar_image_def)

lemma init_loop_image:
  assumes "list_all tar_ok fs" "load m buf (length (tar_image fs)) = Some (tar_image fs)" "unat buf + length (tar_image fs) < 2 ^ 64" "length fs < k"
    "lim = buf + of_nat (length (tar_image fs))"
  shows "init_loop k m lim buf = Some (entries_from buf fs)"
  using assms
proof (induction fs arbitrary: buf k)
  case Nil
  have i: "tar_image [] = replicate 512 0 @ replicate 512 0" by (simp add: tar_image_def flip: replicate_add)
  obtain k' where k: "k = Suc k'" using Nil.prems(4) by (cases k) auto
  have l: "load m buf 512 = Some (replicate 512 0)" "load m (buf + 512) 512 = Some (replicate 512 0)"
    using load_split [of m buf "replicate 512 0" "replicate 512 0"] Nil.prems(2) i by simp_all
  have lim: "unat lim = unat buf + 1024" "unat (buf + 512) = unat buf + 512"
    using Nil.prems(3,5) by (simp_all add: i unat_word_ariths)
  have "buf < lim" "\<not> buf + 512 > lim" using lim by (simp_all add: word_less_nat_alt)
  moreover have "isBufferZero (replicate 512 0) 512" by (simp add: isBufferZero_def list_all_iff)
  ultimately show ?case using l by (simp add: k read_mem_def)
next
  case (Cons bd fs)
  obtain b d where bd: "bd = (b, d)" by (cases bd)
  have ok: "length b = 512" "\<not> list_all (\<lambda>b. b = 0) b" "oct2bin (take 12 (drop 124 b)) 11 = Some (int (length d))" "length d < 2 ^ 30"
    using Cons.prems(1) bd by (simp_all add: tar_ok_def)
  obtain k' where k: "k = Suc k'" using Cons.prems(4) by (cases k) auto
  let ?n = "512 + length (padded d)" and ?L = "length (tar_image fs)"
  have img: "tar_image (bd # fs) = (b @ padded d) @ tar_image fs" by (simp add: tar_image_def bd)
  have len: "length (b @ padded d) = ?n" using ok(1) by simp
  have l1: "load m buf ?n = Some (b @ padded d)" "load m (buf + of_nat ?n) ?L = Some (tar_image fs)"
    using load_split [of m buf "b @ padded d" "tar_image fs"] Cons.prems(2) unfolding img len by blast+
  have l2: "load m buf 512 = Some b" using load_split(1) [of m buf b "padded d"] l1(1) ok(1) len by simp
  have ll: "length (tar_image (bd # fs)) = ?n + ?L" using ok(1) by (simp add: img)
  then have sm: "unat buf + (?n + ?L) < 2 ^ 64" using Cons.prems(3) by simp
  have u: "unat (buf + of_nat ?n) = unat buf + ?n" using sm by (intro unat_add_of_nat) simp
  have "unat lim = unat buf + (?n + ?L)" using unat_add_of_nat [OF sm] Cons.prems(5) ll by simp
  then have lt: "buf < lim" using length_tar_image(2) [of fs] by (simp add: word_less_nat_alt)
  have r: "read_mem m buf 512 = Some (512, b)" using l2 ok(1,2) by (simp add: read_mem_def isBufferZero_def)
  have cr: "crem (int (length d)) 512 = int (length d mod 512)" by (simp add: crem_def zmod_int)
  have lm: "length d mod 512 \<le> 512" by simp
  have j: "(if crem (int (length d)) 512 \<noteq> 0 then int (length d) + (512 - crem (int (length d)) 512) else int (length d)) = int (length (padded d))"
    unfolding cr length_padded using lm by (auto simp: of_nat_diff simp flip: of_nat_mod)
  have jb: "int (length (padded d)) < 2 ^ 31" using ok(4) by (auto simp: length_padded)
  have nx: "to_size (512 + int (length (padded d))) = of_nat ?n" by (simp add: to_size_def)
  have lim: "lim = (buf + of_nat ?n) + of_nat ?L" using Cons.prems(5) ll by (simp only: of_nat_add add.assoc)
  have "init_loop k' m lim (buf + of_nat ?n) = Some (entries_from (buf + of_nat ?n) fs)"
    by (rule Cons.IH [OF _ l1(2) _ _ lim]) (use Cons.prems(1,4) u sm k in simp_all)
  then show ?case using lt r ok(3) j jb unfolding k bd by (simp only: init_loop.simps ta_size_def) (simp add: Let_def nx del: of_nat_add of_nat_Suc)
qed

section \<open>Finding and reading entries\<close>

lemma length_entries [simp]: "length (entries_from p fs) = length fs"
  by (induction p fs rule: entries_from.induct) auto

lemma entry_data:
  assumes "list_all tar_ok fs" "load m p (length (tar_image fs)) = Some (tar_image fs)" "i < length fs"
  shows "ta_block (entries_from p fs ! i) = fst (fs ! i)"
    "load m (ta_begin (entries_from p fs ! i) + 512) (length (snd (fs ! i))) = Some (snd (fs ! i))"
proof -
  have "ta_block (entries_from p fs ! i) = fst (fs ! i) \<and>
    load m (ta_begin (entries_from p fs ! i) + 512) (length (snd (fs ! i))) = Some (snd (fs ! i))"
    using assms
  proof (induction fs arbitrary: p i)
    case (Cons bd fs)
    obtain b d where bd: "bd = (b, d)" by (cases bd)
    let ?n = "512 + length (padded d)"
    have b: "length b = 512" using Cons.prems(1) bd by (simp add: tar_ok_def)
    have img: "tar_image (bd # fs) = (b @ padded d) @ tar_image fs" by (simp add: tar_image_def bd)
    have len: "length (b @ padded d) = ?n" using b by simp
    have l: "load m p ?n = Some (b @ padded d)" "load m (p + of_nat ?n) (length (tar_image fs)) = Some (tar_image fs)"
      using load_split [of m p "b @ padded d" "tar_image fs"] Cons.prems(2) unfolding img len by blast+
    show ?case
    proof (cases i)
      case 0
      have "load m (p + of_nat 512) (length d) = Some (take (length d) (drop 512 (b @ padded d)))"
        by (rule load_slice) (use l(1) len in \<open>simp_all add: padded_def\<close>)
      then show ?thesis using 0 b bd by (simp add: padded_def)
    next
      case (Suc j)
      have "list_all tar_ok fs" "j < length fs" using Cons.prems(1,3) Suc by simp_all
      from Cons.IH [OF this(1) l(2) this(2)] show ?thesis using Suc bd by simp
    qed
  qed simp
  then show "ta_block (entries_from p fs ! i) = fst (fs ! i)"
    "load m (ta_begin (entries_from p fs ! i) + 512) (length (snd (fs ! i))) = Some (snd (fs ! i))" by blast+
qed

definition tar_node :: "ptr \<Rightarrow> ptr \<Rightarrow> (bytes \<times> bytes) list \<Rightarrow> ptr \<Rightarrow> nat option \<Rightarrow> tvfs \<Rightarrow> bool" where
  \<comment> \<open>the node is entry \<open>e\<close> of the file system \<open>fsp\<close>, which holds the files that lie in memory at \<open>p\<close>\<close>
  "tar_node p fsp files node e s \<longleftrightarrow> (\<exists>f fs. at (v_nodes s) node = Some f \<and> fn_type f = (if e = None then FILE_TYPE_MOUNT_POINT else fn_type f) \<and>
     (e \<noteq> None \<longrightarrow> fn_type f \<noteq> FILE_TYPE_MOUNT_POINT) \<and>
     context_of node s = Some (\<lparr>tc_fs = fsp, tc_entry = e\<rparr>, fs) \<and> tfs_root fs = entries_from p files)"

lemma read_entry:
  assumes "list_all tar_ok files" "load (tf_mem (v_priv s)) p (length (tar_image files)) = Some (tar_image files)" "i < length files"
    "tar_node p fsp files node (Some i) s" "unat offset \<le> length (snd (files ! i))" "unat offset + unat len < 2 ^ 64"
  shows "tarfs_read node offset len s =
    Some (int (min (unat len) (length (snd (files ! i)) - unat offset)), map Some (take (unat len) (drop (unat offset) (snd (files ! i)))), s)"
proof -
  let ?d = "snd (files ! i)" and ?e = "entries_from p files ! i"
  obtain fs where fs: "context_of node s = Some (\<lparr>tc_fs = fsp, tc_entry = Some i\<rparr>, fs)" "tfs_root fs = entries_from p files"
    using assms(4) by (auto simp: tar_node_def)
  have e: "entry_at fs i = Some ?e" using fs(2) assms(3) by (simp add: entry_at_def)
  note dt = entry_data [OF assms(1-3)]
  have "tar_ok (files ! i)" using assms(1,3) by (simp add: list_all_length)
  then have sz: "oct2bin (ta_size ?e) 11 = Some (int (length ?d))" "length ?d < 2 ^ 30" using dt(1) by (simp_all add: tar_ok_def ta_size_def)
  have ud: "unat (of_nat (length ?d) :: u64) = length ?d" using sz(2) by (intro unat_of_nat_u64) simp
  have o: "\<not> offset > of_nat (length ?d)" using assms(5) ud by (simp add: word_less_nat_alt)
  define n where "n = (if offset + len > of_nat (length ?d) then of_nat (length ?d) - offset else len)"
  have ul: "unat (offset + len) = unat offset + unat len" using assms(6) by (simp add: unat_word_ariths)
  have n: "unat n = min (unat len) (length ?d - unat offset)"
    using ud ul assms(5) by (auto simp: n_def word_less_nat_alt unat_sub word_le_nat_alt)
  have "load (tf_mem (v_priv s)) (ta_begin ?e + 512 + of_nat (unat offset)) (unat n) = Some (take (unat n) (drop (unat offset) ?d))"
    by (rule load_slice [OF dt(2)]) (use n assms(5) in simp)
  moreover have "take (unat n) (drop (unat offset) ?d) = take (unat len) (drop (unat offset) ?d)" using n by (simp add: min_def)
  moreover have "to_int n = int (unat n)" using n sz(2) by (intro to_int_small) simp
  moreover have "tarfs_read node offset len s = do { bs \<leftarrow> load (tf_mem (v_priv s)) (512 + ta_begin ?e + offset) (unat n); Some (to_int n, map Some bs, s) }"
    using fs(1) e sz(1) o by (simp add: tarfs_read_def n_def Let_def)
  moreover have "512 + ta_begin ?e + offset = ta_begin ?e + 512 + of_nat (unat offset)" by simp
  ultimately show ?thesis using n by (simp only: bind.bind_lunit)
qed

abbreviation short_name :: "tar_t \<Rightarrow> bytes" where
  "short_name t \<equiv> the (strip_slash (entry_name t))"

lemma strip_some: "fn \<noteq> [] \<Longrightarrow> \<exists>x. strip_slash fn = Some x"
  by (simp add: strip_slash_def)

lemma find_root_at:
  assumes "\<forall>t \<in> set ts. entry_name t \<noteq> []" "distinct (map short_name ts)" "i < length ts" "short_name (ts ! i) = name"
    "length (filter (\<lambda>b. b = 47) (entry_name (ts ! i))) \<le> 1"
  shows "find_root name ts k = Some (Some (k + i, name))"
  using assms
proof (induction ts arbitrary: i k)
  case (Cons t ts)
  obtain x where s: "strip_slash (entry_name t) = Some x" using Cons.prems(1) strip_some by auto
  show ?case
  proof (cases i)
    case 0
    then show ?thesis using s Cons.prems(4,5) by simp
  next
    case (Suc j)
    then have "name \<in> set (map short_name ts)" using Cons.prems(3,4) by (auto intro!: imageI nth_mem)
    then have "short_name t \<noteq> name" using Cons.prems(2) by auto
    then show ?thesis using s Suc Cons.IH [of j "k + 1"] Cons.prems by simp
  qed
qed simp

lemma find_sub_at:
  assumes "\<forall>t \<in> set ts. entry_name t \<noteq> []" "distinct (map short_name ts)" "i < length ts" "short_name (ts ! i) = name" "name \<noteq> []" "last name \<noteq> 47"
  shows "find_sub name ts k = Some (Some (k + i, name))"
  using assms
proof (induction ts arbitrary: i k)
  case (Cons t ts)
  obtain x where s: "strip_slash (entry_name t) = Some x" "strip_slash name = Some name"
    using Cons.prems(1,5,6) strip_some by (auto simp: strip_slash_def)
  show ?case
  proof (cases i)
    case 0
    then show ?thesis using s Cons.prems(4) by simp
  next
    case (Suc j)
    then have "name \<in> set (map short_name ts)" using Cons.prems(3,4) by (auto intro!: imageI nth_mem)
    then have "short_name t \<noteq> name" using Cons.prems(2) by auto
    then show ?thesis using s Suc Cons.IH [of j "k + 1"] Cons.prems by simp
  qed
qed simp

lemma entry_name_length: "length (entry_name t) \<le> 255"
proof -
  have "length (cfield (ta_prefix t)) \<le> 155" unfolding cfield_def ta_prefix_def by (rule order_trans [OF length_takeWhile_le]) simp
  moreover have "length (cfield (ta_name t)) \<le> 100" unfolding cfield_def ta_name_def by (rule order_trans [OF length_takeWhile_le]) simp
  ultimately show ?thesis by (simp add: entry_name_def)
qed

lemma new_node_entry:
  assumes "list_all tar_ok files" "load (tf_mem (v_priv s)) p (length (tar_image files)) = Some (tar_image files)" "i < length files"
    "at (tf_systems (v_priv s)) fsp = Some fs" "tfs_root fs = entries_from p files" "v_supply s = a # b # rest" "a \<noteq> NULL" "b \<noteq> NULL"
    "length name < 256"
  shows "\<exists>s1. new_tar_node fsp i (entries_from p files ! i) name filename k s = Some (b, s1) \<and> tar_node p fsp files b (Some i) s1 \<and>
    v_supply s1 = rest \<and> tf_mem (v_priv s1) = tf_mem (v_priv s) \<and> tf_systems (v_priv s1) = tf_systems (v_priv s)"
proof -
  have "tar_ok (files ! i)" using assms(1,3) by (simp add: list_all_length)
  then have sz: "oct2bin (ta_size (entries_from p files ! i)) 11 = Some (int (length (snd (files ! i))))"
    using entry_data(1) [OF assms(1-3)] by (simp add: tar_ok_def ta_size_def)
  have t: "FILE_TYPE_FILE \<noteq> FILE_TYPE_MOUNT_POINT" "FILE_TYPE_DIR \<noteq> FILE_TYPE_MOUNT_POINT"
    by (simp_all add: FILE_TYPE_FILE_def FILE_TYPE_DIR_def FILE_TYPE_MOUNT_POINT_def)
  show ?thesis using assms(4-9) sz t
    by (simp add: new_tar_node_def calloc_addr_def set_name_def tar_node_def context_of_def put_node_def at_def split: if_splits)
qed

section \<open>Properties\<close>

definition mem_of :: "ptr \<Rightarrow> bytes \<Rightarrow> mem" where
  "mem_of p img a = (if unat p \<le> unat a \<and> unat a < unat p + length img then Some (img ! (unat a - unat p)) else None)"

lemma load_mem_of:
  assumes "p \<noteq> NULL" "unat p + length img < 2 ^ 64"
  shows "load (mem_of p img) p (length img) = Some img"
proof -
  have "load (mem_of p img) (p + of_nat i) k = Some (take k (drop i img))" if "i + k \<le> length img" for i k
    using that
  proof (induction k arbitrary: i)
    case (Suc k)
    have u: "unat (p + of_nat i) = unat p + i" using assms(2) Suc.prems by (intro unat_add_of_nat) simp
    have "unat (p + of_nat i) \<noteq> 0" using assms(1) u by (auto simp: unat_eq_zero)
    then have nz: "p + of_nat i \<noteq> 0" by (metis unat_0)
    then have "rdb (mem_of p img) (p + of_nat i) = Some (img ! i)" using u Suc.prems by (simp add: rdb_def mem_of_def)
    moreover have "load (mem_of p img) (p + of_nat i + 1) k = Some (take k (drop (Suc i) img))"
      using Suc.IH [of "Suc i"] Suc.prems by (simp add: ac_simps)
    moreover have "take (Suc k) (drop i img) = img ! i # take k (drop (Suc i) img)" using Suc.prems by (simp add: Cons_nth_drop_Suc [symmetric])
    ultimately show ?case by simp
  qed simp
  from this [of 0 "length img"] show ?thesis by simp
qed

definition demo_header :: "bytes \<Rightarrow> u8 \<Rightarrow> bytes \<Rightarrow> bytes" where
  "demo_header nm ty sz = nm @ replicate (124 - length nm) 0 @ sz @ replicate 20 0 @ [ty] @ replicate 355 0"

definition demo_files :: "(bytes \<times> bytes) list" where
  "demo_files = [(demo_header [100, 47] 53 [48, 48, 48, 48, 48, 48, 48, 48, 48, 48, 48, 0], []),
     (demo_header [100, 47, 102] 48 [48, 48, 48, 48, 48, 48, 48, 48, 48, 48, 51, 0], [1, 2, 3])]"

lemma demo_header_fields:
  assumes "length nm \<le> 99" "length sz = 12" "0 \<notin> set nm"
  shows "length (demo_header nm ty sz) = 512" "take 12 (drop 124 (demo_header nm ty sz)) = sz"
    "entry_name \<lparr>ta_begin = p, ta_block = demo_header nm ty sz\<rparr> = nm"
proof -
  show "length (demo_header nm ty sz) = 512" "take 12 (drop 124 (demo_header nm ty sz)) = sz" using assms by (simp_all add: demo_header_def)
  have "takeWhile (\<lambda>b. b \<noteq> 0) (nm @ replicate k 0) = nm" for k
    using assms(3) by (subst takeWhile_append2) (auto simp: takeWhile_eq_Nil_iff hd_replicate)
  moreover have "take 100 (demo_header nm ty sz) = nm @ replicate (100 - length nm) 0" using assms(1) by (simp add: demo_header_def min_def)
  moreover have "takeWhile (\<lambda>b. b \<noteq> 0) (take 155 (drop 345 (demo_header nm ty sz))) = []" using assms(1,2) by (simp add: demo_header_def)
  ultimately show "entry_name \<lparr>ta_begin = p, ta_block = demo_header nm ty sz\<rparr> = nm"
    by (simp add: entry_name_def cfield_def ta_name_def ta_prefix_def)
qed

lemma demo_files_ok: "list_all tar_ok demo_files"
  by (simp add: demo_files_def tar_ok_def demo_header_fields) (simp add: demo_header_def oct2bin_def schar_def)

text \<open>C23. Loading an archive: \<^verbatim>\<open>tarfs_init\<close>'s loop over a well-formed image of any number of files ends, reads nothing outside the image, and yields one
  entry per file, in order, with its header and the address where it begins.
\<close>
theorem tarfs_init_entries:
  assumes "list_all tar_ok files" "load m p (length (tar_image files)) = Some (tar_image files)" "unat p + length (tar_image files) < 2 ^ 64"
    "length files < k"
  shows "init_loop k m (p + of_nat (length (tar_image files))) p = Some (entries_from p files)"
  by (rule init_loop_image [OF assms refl])

lemma demo_image_bound: "unat (4096 :: ptr) + length (tar_image demo_files) < 2 ^ 64"
  by (simp add: tar_image_def demo_files_def demo_header_fields padded_def)

lemma demo_load: "load (mem_of 4096 (tar_image demo_files)) 4096 (length (tar_image demo_files)) = Some (tar_image demo_files)"
  by (rule load_mem_of [OF _ demo_image_bound]) simp

theorem tarfs_init_entries_witness:
  "init_loop 3 (mem_of 4096 (tar_image demo_files)) (4096 + of_nat (length (tar_image demo_files))) 4096 = Some (entries_from 4096 demo_files)"
  by (rule tarfs_init_entries [OF demo_files_ok demo_load demo_image_bound]) (simp add: demo_files_def)

text \<open>C22. A file in a directory of the archive is found and read: from the root \<^verbatim>\<open>tarfs_find_dir\<close> finds the directory, from there the file, and \<^verbatim>\<open>tarfs_read\<close> returns exactly the
  bytes of the file from the offset on, cut at its end.
\<close>
theorem tarfs_lookup_read:
  assumes "list_all tar_ok files" "load (tf_mem (v_priv s)) p (length (tar_image files)) = Some (tar_image files)"
    "tar_node p fsp files root None s" "v_supply s = a # b # c # d # rest" "NULL \<notin> {a, b, c, d}"
    "\<forall>t \<in> set (entries_from p files). entry_name t \<noteq> []" "distinct (map short_name (entries_from p files))"
    "i \<le> j" "j < length files" "entry_name (entries_from p files ! i) = dir @ [47]" "47 \<notin> set dir"
    "entry_name (entries_from p files ! j) = dir @ [47] @ fname" "47 \<notin> set fname" "fname \<noteq> []"
    "unat offset \<le> length (snd (files ! j))" "unat offset + unat len < 2 ^ 64"
  shows "\<exists>s1 s2. tarfs_find_dir root dir s = Some (b, s1) \<and> tarfs_find_dir b fname s1 = Some (d, s2) \<and>
    tarfs_read d offset len s2 = Some (int (min (unat len) (length (snd (files ! j)) - unat offset)),
      map Some (take (unat len) (drop (unat offset) (snd (files ! j)))), s2)"
proof -
  let ?ts = "entries_from p files"
  have i: "i < length files" using assms(8,9) by simp
  obtain f fs where r: "at (v_nodes s) root = Some f" "fn_type f = FILE_TYPE_MOUNT_POINT" "context_of root s = Some (\<lparr>tc_fs = fsp, tc_entry = None\<rparr>, fs)"
    "tfs_root fs = ?ts" using assms(3) by (auto simp: tar_node_def)
  then have sys: "at (tf_systems (v_priv s)) fsp = Some fs" by (auto simp: context_of_def split: bind_splits)
  have ln: "last fname \<noteq> 47" using assms(13) last_in_set [OF assms(14)] by metis
  have sn: "short_name (?ts ! i) = dir" "short_name (?ts ! j) = dir @ [47] @ fname" "last (dir @ [47] @ fname) \<noteq> 47"
    using assms(10,12,14) ln by (auto simp: strip_slash_def)
  have dl: "length dir < 256" "length (dir @ [47] @ fname) < 256"
    using entry_name_length [of "?ts ! i"] entry_name_length [of "?ts ! j"] assms(10,12) by simp_all
  have "filter (\<lambda>b. b = 47) dir = []" using assms(11) by (auto simp: filter_empty_conv)
  then have "find_root dir ?ts 0 = Some (Some (i, dir))" using find_root_at [OF assms(6,7) _ sn(1), of 0] i assms(10) by simp
  moreover from new_node_entry [OF assms(1,2) i sys r(4) assms(4) _ _ dl(1), of dir i] assms(5) obtain s1 where
    s1: "new_tar_node fsp i (?ts ! i) dir dir i s = Some (b, s1)" "tar_node p fsp files b (Some i) s1" "v_supply s1 = c # d # rest"
    "tf_mem (v_priv s1) = tf_mem (v_priv s)" "tf_systems (v_priv s1) = tf_systems (v_priv s)" by auto
  ultimately have f1: "tarfs_find_dir root dir s = Some (b, s1)" using r by (simp add: tarfs_find_dir_def)
  obtain f1 fs1 where n1: "at (v_nodes s1) b = Some f1" "fn_type f1 \<noteq> FILE_TYPE_MOUNT_POINT"
    "context_of b s1 = Some (\<lparr>tc_fs = fsp, tc_entry = Some i\<rparr>, fs1)" "tfs_root fs1 = ?ts" using s1(2) by (auto simp: tar_node_def)
  have ne: "\<forall>t \<in> set (drop i ?ts). entry_name t \<noteq> []" using assms(6) in_set_dropD by fast
  have "distinct (map short_name (drop i ?ts))" "j - i < length (drop i ?ts)" "short_name (drop i ?ts ! (j - i)) = dir @ [47] @ fname"
    using assms(7-9) sn(2) by (simp_all add: drop_map [symmetric])
  from find_sub_at [OF ne this _ sn(3), of 0] have sub: "find_sub (dir @ [47] @ fname) (drop i ?ts) 0 = Some (Some (j - i, dir @ [47] @ fname))"
    by simp
  have "length fname < 256" using dl(2) by simp
  from new_node_entry [OF assms(1) _ assms(9) _ r(4) s1(3) _ _ this, of fsp "dir @ [47] @ fname" "j - i"] s1(4,5) sys assms(2,5) obtain s2 where
    s2: "new_tar_node fsp j (?ts ! j) fname (dir @ [47] @ fname) (j - i) s1 = Some (d, s2)" "tar_node p fsp files d (Some j) s2"
    "tf_mem (v_priv s2) = tf_mem (v_priv s)" by auto
  have "tarfs_find_dir b fname s1 = Some (d, s2)"
    using n1 sub s2(1) i dl(2) assms(8,10) by (simp add: tarfs_find_dir_def entry_at_def)
  moreover have "tarfs_read d offset len s2 = Some (int (min (unat len) (length (snd (files ! j)) - unat offset)),
      map Some (take (unat len) (drop (unat offset) (snd (files ! j)))), s2)"
    by (rule read_entry [OF assms(1) _ assms(9) s2(2) assms(15,16)]) (simp add: s2(3) assms(2))
  ultimately show ?thesis using f1 by blast
qed

definition demo_tar :: tvfs where
  \<comment> \<open>the archive mounted at the node 16\<close>
  "demo_tar = \<lparr>v_nodes = [16 \<mapsto> empty_node\<lparr>fn_type := FILE_TYPE_MOUNT_POINT, fn_fs := 24\<rparr>], v_tree_heap = Map.empty, v_file_tree = tree_create,
     v_root_node = 16, v_id_generator = 0, v_supply = [40, 48, 56, 64], v_has_process = False, v_cwd = None, v_cwd_file = NULL, v_fs_owner = Map.empty,
     v_priv = \<lparr>tf_mem = mem_of 4096 (tar_image demo_files), tf_archive = entries_from 4096 demo_files,
       tf_systems = [32 \<mapsto> \<lparr>tfs_root = entries_from 4096 demo_files, tfs_root_node = 16, tfs_len = 2\<rparr>],
       tf_contexts = [24 \<mapsto> \<lparr>tc_fs = 32, tc_entry = None\<rparr>]\<rparr>\<rparr>"

theorem tarfs_lookup_read_witness:
  "\<exists>s1 s2. tarfs_find_dir 16 [100] demo_tar = Some (48, s1) \<and> tarfs_find_dir 48 [102] s1 = Some (64, s2) \<and>
    tarfs_read 64 1 10 s2 = Some (2, [Some 2, Some 3], s2)"
proof -
  have n: "entry_name (entries_from 4096 demo_files ! 0) = [100] @ [47]" "entry_name (entries_from 4096 demo_files ! 1) = [100] @ [47] @ [102]"
    by (simp_all add: demo_files_def demo_header_fields)
  then have e: "map entry_name (entries_from 4096 demo_files) = [[100, 47], [100, 47, 102]]" by (simp add: demo_files_def)
  have ne: "\<forall>t \<in> set (entries_from 4096 demo_files). entry_name t \<noteq> []" 
  proof
    fix t assume "t \<in> set (entries_from 4096 demo_files)"
    then have "entry_name t \<in> set (map entry_name (entries_from 4096 demo_files))" by simp
    then show "entry_name t \<noteq> []" unfolding e by auto
  qed
  have "map short_name (entries_from 4096 demo_files) = map (\<lambda>x. the (strip_slash x)) (map entry_name (entries_from 4096 demo_files))" by simp
  then have di: "distinct (map short_name (entries_from 4096 demo_files))" unfolding e by (simp add: strip_slash_def)
  have t: "tar_node 4096 32 demo_files 16 None demo_tar" by (simp add: tar_node_def demo_tar_def context_of_def at_def)
  have l: "load (tf_mem (v_priv demo_tar)) 4096 (length (tar_image demo_files)) = Some (tar_image demo_files)" using demo_load by (simp add: demo_tar_def)
  have s: "v_supply demo_tar = 40 # 48 # 56 # 64 # []" "(NULL :: ptr) \<notin> {40, 48, 56, 64}" by (simp_all add: demo_tar_def)
  have x: "(0 :: nat) \<le> 1" "1 < length demo_files" "47 \<notin> set [100 :: u8]" "47 \<notin> set [102 :: u8]" "[102 :: u8] \<noteq> []"
    "unat (1 :: u64) \<le> length (snd (demo_files ! 1))" "unat (1 :: u64) + unat (10 :: u64) < 2 ^ 64" "snd (demo_files ! 1) = [1, 2, 3]"
    by (simp_all add: demo_files_def)
  from tarfs_lookup_read [OF demo_files_ok l t s ne di x(1,2) n(1) x(3) n(2) x(4-7)] show ?thesis
    unfolding x(8) by simp
qed

text \<open>Listing a directory of the archive never shows what the archive holds: whatever entries follow, \<^verbatim>\<open>tarfs_read_dir\<close> stores nothing and returns the
  value that its uninitialised counter had, since it appends the next entry's name to the wrong buffer.
\<close>
theorem tarfs_read_dir_subdirectory:
  assumes "at (v_nodes s) node = Some f" "fn_type f = FILE_TYPE_DIR" "context_of node s = Some (c, fs)" "tc_entry c = Some i" "i < length (tfs_root fs)"
    "entry_name (tfs_root fs ! i) \<noteq> []" "find_node n node s = Some treeNode" "nrd (v_tree_heap s) treeNode = Some e" "tn_children e = []"
    "Suc i < length (tfs_root fs) \<longrightarrow> length (entry_name (tfs_root fs ! i) @ entry_name (tfs_root fs ! Suc i)) < 256"
  shows "tarfs_read_dir junk n node cnt s = Some (junk, replicate (nat cnt) None, s)"
proof -
  have "treeNode \<noteq> NULL" using assms(8) by (auto simp: nrd_def)
  moreover have "list_sub (entry_name (tfs_root fs ! i)) cnt (drop (Suc i) (tfs_root fs)) junk es = Some (junk, es)" for es
  proof (cases "drop (Suc i) (tfs_root fs)")
    case (Cons t ts)
    then have "Suc i < length (tfs_root fs)" by (metis drop_eq_Nil list.distinct(1) not_less)
    moreover from this have "t = tfs_root fs ! Suc i" using Cons by (simp add: Cons_nth_drop_Suc [symmetric])
    ultimately show ?thesis using Cons assms(6,10) by (simp add: list_sub_def)
  qed (simp add: list_sub_def)
  ultimately show ?thesis using assms by (simp add: tarfs_read_dir_def entry_at_def)
qed

definition demo_tar_dir :: tvfs where
  \<comment> \<open>the directory of the archive as the only node of the file tree\<close>
  "demo_tar_dir = demo_tar\<lparr>v_nodes := [16 \<mapsto> empty_node\<lparr>fn_type := FILE_TYPE_DIR, fn_fs := 24\<rparr>],
     v_tree_heap := [8 \<mapsto> \<lparr>tn_value = 16, tn_children = [], tn_parent = 0\<rparr>], v_file_tree := \<lparr>t_head = 8, t_height = 1\<rparr>,
     v_priv := (v_priv demo_tar)\<lparr>tf_contexts := [24 \<mapsto> \<lparr>tc_fs = 32, tc_entry = Some 0\<rparr>]\<rparr>\<rparr>"

theorem tarfs_read_dir_subdirectory_witness: "tarfs_read_dir 7 (Suc 8) 16 3 demo_tar_dir = Some (7, [None, None, None], demo_tar_dir)"
proof -
  let ?fs = "\<lparr>tfs_root = entries_from 4096 demo_files, tfs_root_node = 16, tfs_len = 2\<rparr>" and ?e = "\<lparr>tn_value = 16, tn_children = [], tn_parent = 0\<rparr>"
  have n: "find_node (Suc k) 16 demo_tar_dir = Some 8" for k
    by (simp add: find_node_def tree_find_child_root_def demo_tar_dir_def nrd_def)
  have "tarfs_read_dir 7 (Suc 8) 16 3 demo_tar_dir = Some (7, replicate (nat 3) None, demo_tar_dir)"
    by (rule tarfs_read_dir_subdirectory [where f = "empty_node\<lparr>fn_type := FILE_TYPE_DIR, fn_fs := 24\<rparr>" and c = "\<lparr>tc_fs = 32, tc_entry = Some 0\<rparr>" and fs = ?fs and i = 0 and e = ?e, OF _ _ _ _ _ _ n [of 8]])
      (simp_all add: demo_tar_dir_def demo_tar_def at_def context_of_def nrd_def demo_files_def demo_header_fields)
  then show ?thesis by (simp add: numeral_3_eq_3)
qed

end
