(* ===== verification/Format.thy ===== *)
theory Format
  imports Prelude
begin

text \<open>
  Number and string formatting: \<^verbatim>\<open>long_to_str\<close> and \<^verbatim>\<open>snprintf\<close> of \<^verbatim>\<open>libc/string/string.c\<close>, \<^verbatim>\<open>itoa\<close> of \<^verbatim>\<open>libc/stdlib/itoa.c\<close>, \<^verbatim>\<open>itoa_k\<close> and
  \<^verbatim>\<open>printf\<close> of \<^verbatim>\<open>kernel/kernel.c\<close>, and \<^verbatim>\<open>long_to_string\<close> of \<^verbatim>\<open>kernel/sys/syscall.c\<close>, which makes the keys of the futex
  queue. A format string is its bytes without the terminator; reading at its end is reading the terminator, and moving past it is
  a fault. The arguments after the format are a list of tagged values; taking one of the wrong kind is a fault. A \<^verbatim>\<open>long\<close> is
  an \<^typ>\<open>int\<close> in its 64-bit range.
\<close>

section \<open>Numbers\<close>

function digits :: "u64 \<Rightarrow> u64 \<Rightarrow> bytes" where
  \<comment> \<open>\<^verbatim>\<open>do { remainder = ud % divisor; *p++ = ...; } while(ud /= divisor)\<close>, for the divisors 10 and 16\<close>
  "digits ud divisor =
     (let remainder = ud mod divisor;
          c = ucast (if remainder < 10 then remainder + 48 else remainder + 97 - 10)
      in if ud div divisor = 0 \<or> divisor < 2 then [c] else c # digits (ud div divisor) divisor)"
  by auto

termination
proof (relation "measure (\<lambda>(ud, divisor). unat ud)", simp)
  fix ud divisor :: u64
  assume a: "\<not> (ud div divisor = 0 \<or> divisor < 2)"
  then have "2 \<le> unat divisor" by (simp add: word_less_nat_alt)
  moreover have "0 < unat ud" using a by (metis div_0 unat_eq_zero gr0I)
  ultimately show "((ud div divisor, divisor), ud, divisor) \<in> measure (\<lambda>(ud, divisor). unat ud)"
    by (simp add: unat_div)
qed

declare digits.simps [simp del]

function swap_loop :: "bytes \<Rightarrow> nat \<Rightarrow> nat \<Rightarrow> bytes" where
  \<comment> \<open>\<^verbatim>\<open>while(p1 < p2) { swap *p1 and *p2; p1++; p2--; }\<close>\<close>
  "swap_loop buf p1 p2 =
     (if p1 < p2 then swap_loop (buf[p1 := buf ! p2, p2 := buf ! p1]) (p1 + 1) (p2 - 1) else buf)"
  by auto

termination
  by (relation "measure (\<lambda>(buf, p1, p2). p2 - p1)") auto

declare swap_loop.simps [simp del]

definition number_text :: "nat \<Rightarrow> int \<Rightarrow> int \<Rightarrow> int \<Rightarrow> bytes option" where
  \<comment> \<open>the common body; \<open>lowest\<close> is the value whose negation overflows, \<open>capacity\<close> the size of the buffer, which also takes the terminator\<close>
  "number_text capacity lowest base d =
     (if base = 100 \<and> d = lowest then None
      else let neg = (base = 100 \<and> d < 0);
               ud = to_size (if neg then - d else d);
               divisor = (if \<not> neg \<and> base = 120 then 16 else 10);
               ds = digits ud divisor;
               buf = (if neg then [45] else []) @ ds
           in if length buf + 1 \<le> capacity
              then Some (swap_loop buf (if neg then 1 else 0) (length buf - 1)) else None)"

definition long_to_str :: "nat \<Rightarrow> int \<Rightarrow> int \<Rightarrow> bytes option" where
  "long_to_str capacity d base = number_text capacity (- (2 ^ 63)) base d"

definition itoa :: "nat \<Rightarrow> int \<Rightarrow> int \<Rightarrow> bytes option" where
  "itoa capacity d base = number_text capacity (- (2 ^ 31)) base d"

definition itoa_k :: "nat \<Rightarrow> int \<Rightarrow> int \<Rightarrow> bytes option" where
  "itoa_k capacity base d = number_text capacity (- (2 ^ 63)) base d"

section \<open>Formatted output\<close>

datatype va_arg = Va_Long int | Va_Int int | Va_Str bytes

fun put_str :: "bytes \<Rightarrow> bytes \<Rightarrow> int \<Rightarrow> u64 \<Rightarrow> bytes \<times> int \<times> u64" where
  \<comment> \<open>\<^verbatim>\<open>while(*s != '\0' && remaining > 1)\<close>\<close>
  "put_str [] out cnt remaining = (out, cnt, remaining)"
| "put_str (c # s) out cnt remaining =
     (if remaining > 1 then put_str s (out @ [c]) (cnt + 1) (remaining - 1) else (out, cnt, remaining))"

definition skip_l :: "u8 \<Rightarrow> bytes \<Rightarrow> bytes option" where
  \<comment> \<open>\<^verbatim>\<open>if(*ptr == 'l') ptr++;\<close> with the \<^verbatim>\<open>ptr++\<close> after the \<^verbatim>\<open>switch\<close>; \<open>gs\<close> is what follows the conversion character\<close>
  "skip_l f gs = (if f = 108 then (case gs of [] \<Rightarrow> None | _ # hs \<Rightarrow> Some hs) else Some gs)"

lemma skip_l_length: "skip_l f gs = Some hs \<Longrightarrow> length hs \<le> length gs"
  by (auto simp: skip_l_def split: if_splits list.splits)

function snprintf_loop :: "bytes \<Rightarrow> va_arg list \<Rightarrow> bytes \<Rightarrow> int \<Rightarrow> u64 \<Rightarrow> (bytes \<times> va_arg list \<times> bytes \<times> int) option" where
  \<comment> \<open>the writing loop of \<^verbatim>\<open>snprintf\<close>: the rest of the format and of the arguments, the output so far and the count when it ends\<close>
  "snprintf_loop [] args out cnt remaining = Some ([], args, out, cnt)"
| "snprintf_loop (c # fs) args out cnt remaining =
     (if remaining \<le> 1 then Some (c # fs, args, out, cnt)
      else if c \<noteq> 37 then snprintf_loop fs args (out @ [c]) (cnt + 1) (remaining - 1)
      else case fs of [] \<Rightarrow> None
      | f # gs \<Rightarrow>
          if f = 100 \<or> f = 108 then
            (case args of Va_Long val # as \<Rightarrow>
               (case (long_to_str 21 val 10, skip_l f gs) of
                  (Some buf, Some hs) \<Rightarrow>
                    if of_nat (length buf) < remaining
                    then snprintf_loop hs as (out @ buf) (cnt + int (length buf)) (remaining - of_nat (length buf))
                    else snprintf_loop hs as out (cnt + int (length buf)) remaining
                | _ \<Rightarrow> None)
             | _ \<Rightarrow> None)
          else if f = 115 then
            (case args of Va_Str s # as \<Rightarrow>
               (case put_str s out cnt remaining of (out1, cnt1, remaining1) \<Rightarrow> snprintf_loop gs as out1 cnt1 remaining1)
             | _ \<Rightarrow> None)
          else snprintf_loop gs args (out @ [f]) (cnt + 1) (remaining - 1))"
  by pat_completeness auto

termination
  by (relation "measure (\<lambda>(fs, _). length fs)") (auto dest: skip_l_length skip_l_length [OF sym])

function count_loop :: "bytes \<Rightarrow> va_arg list \<Rightarrow> int \<Rightarrow> int option" where
  \<comment> \<open>the second loop of \<^verbatim>\<open>snprintf\<close>, which only counts\<close>
  "count_loop [] args cnt = Some cnt"
| "count_loop (c # fs) args cnt =
     (if c \<noteq> 37 then count_loop fs args (cnt + 1)
      else case fs of [] \<Rightarrow> None
      | f # gs \<Rightarrow>
          if f = 100 \<or> f = 108 then
            (case args of Va_Long val # as \<Rightarrow> (case skip_l f gs of Some hs \<Rightarrow> count_loop hs as (cnt + 21) | None \<Rightarrow> None)
             | _ \<Rightarrow> None)
          else if f = 115 then
            (case args of Va_Str s # as \<Rightarrow> count_loop gs as (cnt + int (length s)) | _ \<Rightarrow> None)
          else count_loop gs args cnt)"
  by pat_completeness auto

termination
  by (relation "measure (\<lambda>(fs, _). length fs)") (auto dest: skip_l_length skip_l_length [OF sym])

definition snprintf :: "u64 \<Rightarrow> bytes \<Rightarrow> va_arg list \<Rightarrow> (bytes option \<times> int) option" where
  \<comment> \<open>the string left in the buffer (\<open>None\<close>: the buffer is not touched) and the result\<close>
  "snprintf sz format args = do {
     (fs, as, out, cnt) \<leftarrow> snprintf_loop format args [] 0 sz;
     cnt1 \<leftarrow> count_loop fs as cnt;
     Some (if sz > 0 then Some out else None, wrap_int cnt1)
   }"

definition long_to_string :: "int \<Rightarrow> bytes option" where
  "long_to_string i = do {
     (_, cnt) \<leftarrow> snprintf 0 (cstr ''%ld'') [Va_Long i];
     let max_digits = wrap_int (cnt + 1);
     (str, _) \<leftarrow> snprintf (to_size max_digits) (cstr ''%ld'') [Va_Long i];
     str
   }"

definition INT_MAX :: int where
  "INT_MAX = 2147483647"

function printf :: "bytes \<Rightarrow> va_arg list \<Rightarrow> int \<Rightarrow> bytes \<Rightarrow> (int \<times> bytes) option" where
  \<comment> \<open>the loop of the kernel's \<^verbatim>\<open>printf\<close>: the result and the bytes that were put on the terminal and the serial line\<close>
  "printf [] args written out = Some (written, out)"
| "printf (c # fs) args written out =
     (let maxrem = to_size (INT_MAX - written) in
      if c \<noteq> 37 \<or> take 1 fs = [37] then
        (let fmt = (if c = 37 then fs else c # fs);
             chunk = take 1 fmt @ takeWhile (\<lambda>b. b \<noteq> 37) (drop 1 fmt);
             amount = length chunk
         in if maxrem < of_nat amount then Some (-1, out)
            else printf (drop amount fmt) args (written + int amount) (out @ chunk))
      else case fs of
        [] \<Rightarrow> if maxrem < 1 then Some (-1, out) else printf [] args (written + 1) (out @ [37])
      | f # gs \<Rightarrow>
          if f = 99 then
            (case args of Va_Int i # as \<Rightarrow>
               if maxrem = 0 then Some (-1, out) else printf gs as (written + 1) (out @ [word_of_int i]) | _ \<Rightarrow> None)
          else if f = 115 then
            (case args of Va_Str s # as \<Rightarrow>
               if maxrem < of_nat (length s) then Some (-1, out)
               else printf gs as (written + int (length s)) (out @ s) | _ \<Rightarrow> None)
          else if f = 100 \<or> f = 120 \<or> f = 117 then
            (case args of Va_Long i # as \<Rightarrow>
               if maxrem = 0 then Some (-1, out)
               else (case itoa_k 255 (uint f) i of None \<Rightarrow> None
                     | Some buf \<Rightarrow> printf gs as (written + int (length buf)) (out @ buf))
             | _ \<Rightarrow> None)
          else if maxrem < of_nat (length (c # fs)) then Some (-1, out)
          else Some (written + int (length (c # fs)), out @ c # fs))"
  by pat_completeness auto

termination
  by (relation "measure (\<lambda>(fs, _). length fs)") auto

section \<open>What the digits mean\<close>

definition digit_value :: "u8 \<Rightarrow> nat" where
  "digit_value c = (if unat c < 58 then unat c - 48 else unat c - 87)"

definition is_digit :: "nat \<Rightarrow> u8 \<Rightarrow> bool" where
  \<comment> \<open>one of the characters \<^verbatim>\<open>0-9\<close> and \<^verbatim>\<open>a-f\<close> that has a value below the base\<close>
  "is_digit b c \<longleftrightarrow> (48 \<le> unat c \<and> unat c < 58 \<or> 97 \<le> unat c \<and> unat c < 103) \<and> digit_value c < b"

definition number_of :: "nat \<Rightarrow> bytes \<Rightarrow> nat" where
  \<comment> \<open>the number that a string of digits denotes, most significant first\<close>
  "number_of b cs = foldl (\<lambda>v c. v * b + digit_value c) 0 cs"

lemma number_of_snoc: "number_of b (cs @ [c]) = number_of b cs * b + digit_value c"
  by (simp add: number_of_def)

lemma digit_char:
  assumes "r < b" "b \<le> (16 :: u64)"
  defines "c \<equiv> ucast (if r < 10 then r + 48 else r + 97 - 10) :: u8"
  shows "digit_value c = unat r" "is_digit (unat b) c"
proof -
  have r: "unat r < unat b" "unat b \<le> 16" using assms(1,2) by (simp_all add: word_less_nat_alt word_le_nat_alt)
  have u: "unat c = (if unat r < 10 then unat r + 48 else unat r + 87)"
  proof (cases "unat r < 10")
    case True
    then have "unat (r + 48) = unat r + 48" by (simp add: unat_word_ariths)
    then show ?thesis using True by (simp add: c_def word_less_nat_alt unsigned_ucast_eq take_bit_nat_eq_self)
  next
    case False
    have e: "r + 97 - 10 = r + 87" by simp
    have "unat (r + 87) = unat r + 87" using r by (simp add: unat_word_ariths)
    then show ?thesis using False r by (simp add: c_def e word_less_nat_alt unsigned_ucast_eq take_bit_nat_eq_self)
  qed
  then show "digit_value c = unat r" "is_digit (unat b) c" using r by (auto simp: digit_value_def is_digit_def)
qed

lemma digits_number:
  assumes "2 \<le> b" "b \<le> (16 :: u64)"
  shows "number_of (unat b) (rev (digits n b)) = unat n \<and> list_all (is_digit (unat b)) (digits n b) \<and>
    digits n b \<noteq> [] \<and> (n \<noteq> 0 \<longrightarrow> digit_value (last (digits n b)) \<noteq> 0) \<and>
    (\<forall>k. unat n < unat b ^ Suc k \<longrightarrow> length (digits n b) \<le> Suc k)"
  using assms
proof (induction n b rule: digits.induct)
  case (1 n b)
  have b0: "unat b \<ge> 2" "b \<noteq> 0" "\<not> b < 2" using 1(2) by (auto simp: word_le_nat_alt not_less)
  let ?c = "ucast (if n mod b < 10 then n mod b + 48 else n mod b + 97 - 10) :: u8"
  have m: "n mod b < b" using b0 by (simp add: word_less_nat_alt unat_mod)
  note c = digit_char [OF m 1(3)]
  have d: "unat n = unat (n div b) * unat b + digit_value ?c" using c(1) by (simp add: unat_div unat_mod)
  show ?case
  proof (cases "n div b = 0")
    case True
    then have ds: "digits n b = [?c]" by (simp add: digits.simps)
    have "unat n = digit_value ?c" using d True by simp
    moreover have "n \<noteq> 0 \<Longrightarrow> 0 < unat n" by (simp add: unat_gt_0 word_neq_0_conv)
    ultimately show ?thesis using c(2) by (simp add: ds number_of_def)
  next
    case False
    then have ds: "digits n b = ?c # digits (n div b) b" using b0 by (subst digits.simps) (simp add: Let_def)
    note ih = 1(1) [OF refl refl _ 1(2,3)]
    have len: "length (digits n b) \<le> Suc k" if "unat n < unat b ^ Suc k" for k
    proof (cases k)
      case 0
      then have "n div b = 0" using that b0 by (simp add: unat_div word_unat_eq_iff)
      then show ?thesis using False by simp
    next
      case (Suc j)
      then have "unat (n div b) < unat b ^ Suc j" using that b0 by (simp add: unat_div less_mult_imp_div_less mult.commute)
      then show ?thesis using ih False b0 Suc by (simp add: ds)
    qed
    show ?thesis using ih False b0 c d len by (simp add: ds number_of_snoc)
  qed
qed

lemma swap_loop_rev:
  "length buf = length xs + length ys + length zs \<Longrightarrow> buf = xs @ ys @ zs \<Longrightarrow> ys \<noteq> [] \<Longrightarrow>
   swap_loop buf (length xs) (length xs + length ys - 1) = xs @ rev ys @ zs"
proof (induction "length ys" arbitrary: buf xs ys zs rule: less_induct)
  case less
  show ?case
  proof (cases "length ys = 1")
    case True
    then obtain y where "ys = [y]" by (auto simp: length_Suc_conv)
    then show ?thesis using less.prems(2) by (simp add: swap_loop.simps)
  next
    case False
    then obtain a ms z where ys: "ys = a # ms @ [z]"
      using less.prems(3) by (metis append_butlast_last_id length_0_conv length_Suc_conv list.exhaust One_nat_def append_Nil)
    let ?p1 = "length xs" and ?p2 = "length xs + length ys - 1"
    have p2: "?p2 = Suc (length xs + length ms)" by (simp add: ys)
    have "buf ! ?p1 = a" "buf ! ?p2 = z" using less.prems(2) by (simp_all add: ys p2 nth_append)
    then have st: "buf[?p1 := buf ! ?p2, ?p2 := buf ! ?p1] = (xs @ [z]) @ ms @ a # zs"
      using less.prems(2) by (simp add: ys p2 list_update_append)
    have step: "swap_loop buf ?p1 ?p2 = swap_loop ((xs @ [z]) @ ms @ a # zs) (length xs + 1) (?p2 - 1)"
      unfolding p2 by (subst swap_loop.simps) (simp add: st [unfolded p2])
    show ?thesis
    proof (cases "ms = []")
      case True
      then show ?thesis using step by (simp add: ys p2 swap_loop.simps)
    next
      case False
      have "swap_loop ((xs @ [z]) @ ms @ a # zs) (length (xs @ [z])) (length (xs @ [z]) + length ms - 1) = (xs @ [z]) @ rev ms @ a # zs"
        using less.hyps [of ms "(xs @ [z]) @ ms @ a # zs" "xs @ [z]" "a # zs"] False by (simp add: ys)
      then show ?thesis using step by (simp add: ys p2)
    qed
  qed
qed

lemma swap_loop_tail: "ds \<noteq> [] \<Longrightarrow> swap_loop (pre @ ds) (length pre) (length (pre @ ds) - 1) = pre @ rev ds"
proof -
  assume "ds \<noteq> []"
  then have "swap_loop (pre @ ds @ []) (length pre) (length pre + length ds - 1) = pre @ rev ds @ []"
    by (intro swap_loop_rev) auto
  then show ?thesis by (simp only: append_Nil2 length_append)
qed

lemma digits_length: "length (digits n 10) \<le> 20" "length (digits n 16) \<le> 16"
proof -
  have n: "unat n < 2 ^ 64" using unsigned_less [of n] by simp
  have "unat n < unat (10 :: u64) ^ Suc 19" "unat n < unat (16 :: u64) ^ Suc 15" by (rule less_le_trans [OF n], simp)+
  then show "length (digits n 10) \<le> 20" "length (digits n 16) \<le> 16"
    using digits_number [of 10 n] digits_number [of 16 n] by fastforce+
qed

lemma number_text_unsigned:
  "base \<noteq> 100 \<Longrightarrow> base \<noteq> 120 \<Longrightarrow> 21 \<le> cap \<Longrightarrow> number_text cap lowest base d = Some (rev (digits (to_size d) 10))"
  using digits_length(1) [of "to_size d"] digits_number [of 10 "to_size d"] swap_loop_tail [of "digits (to_size d) 10" "[]"]
  by (simp add: number_text_def Let_def)

lemma number_text_hex:
  "21 \<le> cap \<Longrightarrow> number_text cap lowest 120 d = Some (rev (digits (to_size d) 16))"
  using digits_length(2) [of "to_size d"] digits_number [of 16 "to_size d"] swap_loop_tail [of "digits (to_size d) 16" "[]"]
  by (simp add: number_text_def Let_def)

lemma unat_to_size: "0 \<le> i \<Longrightarrow> i < 2 ^ 64 \<Longrightarrow> unat (to_size i) = nat i"
proof -
  assume i: "0 \<le> i" "i < 2 ^ 64"
  then have "to_size i = of_nat (nat i)" by (simp add: to_size_def)
  moreover have "nat i < 2 ^ 64" using i by (simp add: nat_less_iff)
  ultimately show ?thesis by (simp add: unat_of_nat_u64)
qed

lemma number_text_signed:
  assumes "\<bar>d\<bar> < 2 ^ 63" "lowest < - \<bar>d\<bar>" "21 \<le> cap"
  shows "number_text cap lowest 100 d = Some ((if d < 0 then [45] else []) @ rev (digits (to_size \<bar>d\<bar>) 10))"
proof -
  let ?ds = "digits (to_size \<bar>d\<bar>) 10"
  have "unat (to_size \<bar>d\<bar>) = nat \<bar>d\<bar>" using assms(1) by (intro unat_to_size) auto
  then have "unat (to_size \<bar>d\<bar>) < unat (10 :: u64) ^ Suc 18" using assms(1) by simp
  then have l: "length ?ds \<le> 19" using digits_number [of 10 "to_size \<bar>d\<bar>"] by fastforce
  have ne: "?ds \<noteq> []" using digits_number [of 10 "to_size \<bar>d\<bar>"] by simp
  show ?thesis
  proof (cases "d < 0")
    case True
    then show ?thesis using l assms(2,3) swap_loop_tail [OF ne, of "[45]"] by (simp add: number_text_def Let_def)
  next
    case False
    then show ?thesis using l assms(2,3) swap_loop_tail [OF ne, of "[]"] by (simp add: number_text_def Let_def)
  qed
qed

lemma rem_sub:
  assumes "of_nat k < (rem :: u64)" "k < 2 ^ 64"
  shows "unat (rem - of_nat k) = unat rem - k" "1 \<le> rem - of_nat k" "k < unat rem"
proof -
  have k: "unat (of_nat k :: u64) = k" using unat_of_nat_u64 [OF assms(2)] .
  show lt: "k < unat rem" using assms(1) k by (simp add: word_less_nat_alt)
  show "unat (rem - of_nat k) = unat rem - k" using unat_sub [of "of_nat k" rem] assms(1) k by simp
  then show "1 \<le> rem - of_nat k" using lt by (simp add: word_le_nat_alt)
qed

lemma put_str_bound:
  "put_str s out cnt rem = (out1, cnt1, rem1) \<Longrightarrow> 1 \<le> rem \<Longrightarrow> 1 \<le> rem1 \<and> length out1 + unat rem1 = length out + unat rem"
proof (induction s out cnt rem rule: put_str.induct)
  case (2 c s out cnt rem)
  show ?case
  proof (cases "rem > 1")
    case True
    have "unat (rem - 1) = unat rem - 1" "1 < unat rem" using rem_sub [of 1 rem] True by simp_all
    then show ?thesis using 2 True by (auto simp: word_le_nat_alt)
  next
    case False
    then show ?thesis using 2 by auto
  qed
qed auto

lemma long_to_str_10: "long_to_str 21 v 10 = Some (rev (digits (to_size v) 10))"
  by (simp add: long_to_str_def number_text_unsigned)

lemma snprintf_loop_bound:
  "snprintf_loop fs args out cnt rem = Some (fs1, as1, out1, cnt1) \<Longrightarrow> 1 \<le> rem \<Longrightarrow> length out1 < length out + unat rem"
proof (induction "length fs" arbitrary: fs args out cnt rem rule: less_induct)
  case less
  have one: "1 \<le> unat rem" using less.prems(2) by (simp add: word_le_nat_alt)
  show ?case
  proof (cases fs)
    case Nil
    then show ?thesis using less.prems one by simp
  next
    case (Cons c gs0)
    show ?thesis
    proof (cases "rem \<le> 1")
      case True
      then show ?thesis using less.prems Cons one by simp
    next
      case False
      note r1 = rem_sub [of 1 rem]
      have run: "length out1 < length out2 + unat rem2"
        if "snprintf_loop fs2 as2 out2 cnt2 rem2 = Some (fs1, as1, out1, cnt1)" "1 \<le> rem2" "length fs2 < length fs" for fs2 as2 out2 cnt2 rem2
        using less.hyps [OF that(3,1,2)] .
      show ?thesis
      proof (cases "c = 37")
        case c: False
        then show ?thesis using run [of gs0] less.prems(1) Cons False r1 by fastforce
      next
        case c: True
        then obtain f gs where fs: "gs0 = f # gs" using less.prems(1) Cons False by (cases gs0) auto
        consider (num) "f = 100 \<or> f = 108" | (str) "f = 115" | (other) "f \<noteq> 100" "f \<noteq> 108" "f \<noteq> 115" by blast
        then show ?thesis
        proof cases
          case num
          then obtain v as hs where v: "args = Va_Long v # as" "skip_l f gs = Some hs"
            using less.prems(1) Cons False c fs by (auto split: list.splits va_arg.splits option.splits)
          define b where "b = rev (digits (to_size v) 10)"
          have lb: "length b < 2 ^ 64" "length hs < length fs"
            using digits_length(1) [of "to_size v"] skip_l_length [OF v(2)] Cons fs by (simp_all add: b_def)
          show ?thesis
          proof (cases "of_nat (length b) < rem")
            case True
            have "snprintf_loop hs as (out @ b) (cnt + int (length b)) (rem - of_nat (length b)) = Some (fs1, as1, out1, cnt1)"
              using less.prems(1) Cons False c fs num v True by (auto simp: long_to_str_10 b_def)
            then show ?thesis using run [OF _ rem_sub(2) [OF True lb(1)] lb(2)] rem_sub [OF True lb(1)] by fastforce
          next
            case nf: False
            have "snprintf_loop hs as out (cnt + int (length b)) rem = Some (fs1, as1, out1, cnt1)"
              using less.prems(1) Cons False c fs num v nf by (auto simp: long_to_str_10 b_def)
            then show ?thesis using run [OF _ less.prems(2) lb(2)] by blast
          qed
        next
          case str
          then obtain s as where v: "args = Va_Str s # as"
            using less.prems(1) Cons False c fs by (auto split: list.splits va_arg.splits)
          obtain o2 c2 r2 where p: "put_str s out cnt rem = (o2, c2, r2)" by (cases "put_str s out cnt rem")
          then have "snprintf_loop gs as o2 c2 r2 = Some (fs1, as1, out1, cnt1)"
            using less.prems(1) Cons False c fs str v by simp
          then show ?thesis using run [of gs as o2 c2 r2] put_str_bound [OF p less.prems(2)] Cons fs by simp
        next
          case other
          then show ?thesis using run [of gs] less.prems(1) Cons False c fs r1 by fastforce
        qed
      qed
    qed
  qed
qed

section \<open>Properties\<close>

definition radix :: "int \<Rightarrow> nat" where
  \<comment> \<open>hexadecimal for base \<^verbatim>\<open>x\<close>, decimal for every other base\<close>
  "radix base = (if base = 120 then 16 else 10)"

definition printed_value :: "int \<Rightarrow> int \<Rightarrow> nat" where
  \<comment> \<open>the absolute value for base \<^verbatim>\<open>d\<close>, and the value as an \<^verbatim>\<open>unsigned long\<close> for every other base\<close>
  "printed_value base d = (if base = 100 then nat \<bar>d\<bar> else nat (d mod 2 ^ 64))"

lemma unat_to_size_mod: "unat (to_size d) = nat (d mod 2 ^ 64)"
  by (simp add: to_size_def take_bit_eq_mod unsigned_of_int)

lemma printed_digits:
  "number_of (radix base) (rev (digits w (of_nat (radix base)))) = unat w \<and>
   list_all (is_digit (radix base)) (rev (digits w (of_nat (radix base)))) \<and> digits w (of_nat (radix base)) \<noteq> [] \<and>
   (unat w \<noteq> 0 \<longrightarrow> digit_value (hd (rev (digits w (of_nat (radix base))))) \<noteq> 0)"
  using digits_number [of 10 w] digits_number [of 16 w] by (auto simp: radix_def hd_rev unat_eq_zero)

text \<open>C39. Numbers are printed correctly: for every \<^verbatim>\<open>long\<close> and every base, \<^verbatim>\<open>long_to_str\<close> fits into the 21 bytes its caller
  provides and yields a minus sign exactly for negative values of base \<^verbatim>\<open>d\<close>, followed by digits without leading zeros, hexadecimal for base
  \<^verbatim>\<open>x\<close> and decimal for every other one, that denote the absolute value for base \<^verbatim>\<open>d\<close> and the value modulo 2 to the 64 otherwise,
  also for negative numbers in base 10, which \<^verbatim>\<open>snprintf\<close> uses. The one fault is the negation of the smallest \<^verbatim>\<open>long\<close> in base \<^verbatim>\<open>d\<close>.\<close>

theorem long_to_str_correct:
  assumes "- (2 ^ 63) \<le> d" "d < 2 ^ 63"
  shows "if base = 100 \<and> d = - (2 ^ 63) then long_to_str 21 d base = None
    else \<exists>cs. long_to_str 21 d base = Some ((if base = 100 \<and> d < 0 then [45] else []) @ cs) \<and>
      number_of (radix base) cs = printed_value base d \<and> list_all (is_digit (radix base)) cs \<and> cs \<noteq> [] \<and>
      (printed_value base d \<noteq> 0 \<longrightarrow> digit_value (hd cs) \<noteq> 0)"
proof (cases "base = 100")
  case True
  show ?thesis
  proof (cases "d = - (2 ^ 63)")
    case False
    then have d: "\<bar>d\<bar> < 2 ^ 63" "- (2 ^ 63) < - \<bar>d\<bar>" using assms by auto
    have "unat (to_size \<bar>d\<bar>) = printed_value base d" using d True by (simp add: printed_value_def unat_to_size)
    with printed_digits [of base "to_size \<bar>d\<bar>"] number_text_signed [OF d, of 21] True False show ?thesis
      by (simp add: long_to_str_def radix_def)
  qed (use True in \<open>simp add: long_to_str_def number_text_def\<close>)
next
  case False
  have u: "unat (to_size d) = printed_value base d" using False by (simp add: printed_value_def unat_to_size_mod)
  have "long_to_str 21 d base = Some (rev (digits (to_size d) (of_nat (radix base))))"
    using False by (simp add: long_to_str_def radix_def number_text_hex number_text_unsigned)
  with printed_digits [of base "to_size d"] u False show ?thesis by simp
qed

theorem long_to_str_correct_witness:
  "(\<exists>cs. long_to_str 21 (- 42) 100 = Some (45 # cs) \<and> number_of 10 cs = 42) \<and>
   (\<exists>cs. long_to_str 21 (- 1) 120 = Some cs \<and> number_of 16 cs = 0xFFFFFFFFFFFFFFFF) \<and>
   (\<exists>cs. long_to_str 21 (- 1) 10 = Some cs \<and> number_of 10 cs = 0xFFFFFFFFFFFFFFFF)"
  using long_to_str_correct [of "- 42" 100] long_to_str_correct [of "- 1" 120] long_to_str_correct [of "- 1" 10]
  by (auto simp: radix_def printed_value_def)

text \<open>\<^verbatim>\<open>snprintf\<close> stays inside its buffer: whenever it returns, the string it leaves, with the terminator, fits into the given size,
  and with size 0 it writes nothing.\<close>

theorem snprintf_bounds:
  assumes "snprintf sz format args = Some (str, r)"
  shows "(sz = 0 \<longrightarrow> str = None) \<and> (sz \<noteq> 0 \<longrightarrow> (\<exists>out. str = Some out \<and> length out + 1 \<le> unat sz))"
proof (cases "sz = 0")
  case True
  then show ?thesis using assms by (auto simp: snprintf_def split: bind_splits)
next
  case False
  then have "1 \<le> sz" by (simp add: word_le_nat_alt unat_gt_0 word_neq_0_conv Suc_le_eq)
  then show ?thesis using assms False snprintf_loop_bound [of format args "[]" 0 sz]
    by (auto simp: snprintf_def word_neq_0_conv split: bind_splits)
qed

lemma demo_snprintf: "snprintf 4 (cstr ''hd%d!'') [Va_Long 7] = Some (Some (cstr ''hd7''), 4)"
  by (simp add: snprintf_def cstr_def long_to_str_10 skip_l_def to_size_def digits.simps wrap_int_def word_le_nat_alt)

theorem snprintf_bounds_witness:
  "snprintf 4 (cstr ''hd%d!'') [Va_Long 7] = Some (Some (cstr ''hd7''), 4) \<and> length (cstr ''hd7'') + 1 \<le> 4"
  using snprintf_bounds [OF demo_snprintf] demo_snprintf by auto

text \<open>The keys of the futex queue are faithful: \<^verbatim>\<open>long_to_string\<close> returns for every address, and two addresses have the same key only when
  they are equal.\<close>

theorem long_to_string_injective:
  "\<exists>s. long_to_string (sint a) = Some s \<and> (long_to_string (sint b) = Some s \<longrightarrow> a = (b :: u64))"
proof -
  have t: "long_to_string (sint p) = Some (rev (digits p 10))" for p :: u64
  proof -
    have d: "length (digits p 10) \<le> 20" by (rule digits_length)
    then have "(of_nat (length (digits p 10)) :: u64) < 22"
      using unat_of_nat_u64 [of "length (digits p 10)"] by (simp add: word_less_nat_alt)
    moreover have "to_size (sint p) = p" by (simp add: to_size_def)
    ultimately show ?thesis
      by (simp add: long_to_string_def snprintf_def cstr_def skip_l_def long_to_str_10 wrap_int_def to_size_def word_le_nat_alt)
  qed
  have "a = b" if "rev (digits a 10) = rev (digits b 10)"
    using digits_number [of 10 a] digits_number [of 10 b] that by (simp add: word_unat_eq_iff)
  then show ?thesis by (auto simp: t)
qed

theorem long_to_string_injective_witness:
  "long_to_string (sint (4096 :: u64)) \<noteq> long_to_string (sint (4104 :: u64))"
  using long_to_string_injective [of 4096 4104] by auto

text \<open>\<^verbatim>\<open>snprintf\<close> prints negative numbers as large unsigned ones: it passes the number 10 where \<^verbatim>\<open>long_to_str\<close> expects the
  conversion character \<^verbatim>\<open>d\<close>, so the text of a negative value denotes the value plus \<open>2 ^ 64\<close>.\<close>

theorem snprintf_negative_unsigned:
  assumes "- (2 ^ 63) \<le> v" "v < 0" "22 \<le> sz"
  shows "\<exists>cs r. snprintf sz (cstr ''%d'') [Va_Long v] = Some (Some cs, r) \<and> int (number_of 10 cs) = v + 2 ^ 64"
proof -
  let ?cs = "rev (digits (to_size v) 10)"
  have d: "length (digits (to_size v) 10) \<le> 20" by (rule digits_length)
  then have "unat (of_nat (length (digits (to_size v) 10)) :: u64) < unat sz"
    using unat_of_nat_u64 [of "length (digits (to_size v) 10)"] assms(3) by (simp add: word_le_nat_alt)
  then have lt: "(of_nat (length (digits (to_size v) 10)) :: u64) < sz" by (simp add: word_less_nat_alt)
  have "unat sz > 1" "sz > 0" using assms(3) by (simp_all add: word_le_nat_alt word_less_nat_alt)
  then have "snprintf sz (cstr ''%d'') [Va_Long v] = Some (Some ?cs, wrap_int (int (length ?cs)))"
    using lt by (simp add: snprintf_def cstr_def skip_l_def long_to_str_10 word_le_nat_alt)
  moreover have "to_size v = to_size (v + 2 ^ 64)" by (simp add: to_size_def)
  then have "unat (to_size v) = nat (v + 2 ^ 64)" using unat_to_size [of "v + 2 ^ 64"] assms by simp
  then have "int (number_of 10 ?cs) = v + 2 ^ 64" using digits_number [of 10 "to_size v"] assms by simp
  ultimately show ?thesis by blast
qed

theorem snprintf_negative_unsigned_witness:
  "\<exists>cs r. snprintf 32 (cstr ''%d'') [Va_Long (- 1)] = Some (Some cs, r) \<and> number_of 10 cs = 18446744073709551615"
  using snprintf_negative_unsigned [of "- 1" 32] by auto

end
