(* ===== verification/Fat.thy ===== *)
theory Fat
  imports Vfs Format
begin

text \<open>
  The FAT32 driver of \<^verbatim>\<open>kernel/fs/fat.c\<close>. The block device that it reads and writes through \<^verbatim>\<open>physicalDevice\<close> is a disk of bytes, and an access outside
  of it is a fault. Sector and cluster numbers keep the width of the code. The buffer that \<^verbatim>\<open>fat_find_free_cluster\<close> gets from \<^verbatim>\<open>malloc\<close> is read before it is filled;
  its contents are the argument \<open>junk\<close>. A pointer to a \<^verbatim>\<open>fat_entry_t\<close> that really is one to a \<^verbatim>\<open>fat_fs_t\<close>, or the other way round, faults when it is used. Loops that follow
  cluster chains have the number of rounds as fuel.
\<close>

section \<open>Data\<close>

record fat_fs_t =
  ff_root_cluster :: u32
  ff_sectorSize :: u32
  ff_clusterSize :: u32
  ff_capacity :: u32
  ff_fatPointer :: u64
  ff_dataPointer :: u64
  ff_physicalDevice :: ptr
  ff_rootPointer :: ptr

record fat_entry_t =
  fe_fatFs :: ptr
  fe_cluster :: u32

record fat =
  fa_disk :: bytes
  fa_systems :: "ptr \<rightharpoonup> fat_fs_t"
  fa_entries :: "ptr \<rightharpoonup> fat_entry_t"

type_synonym fvfs = "fat vfs"

definition MBR_SIGNATURE :: u16 where "MBR_SIGNATURE = 0xAA55"

fun le :: "bytes \<Rightarrow> nat" where
  \<comment> \<open>little-endian numbers\<close>
  "le [] = 0"
| "le (b # bs) = unat b + 256 * le bs"

fun to_le :: "nat \<Rightarrow> nat \<Rightarrow> bytes" where
  "to_le 0 v = []"
| "to_le (Suc n) v = of_nat (v mod 256) # to_le n (v div 256)"

definition rd32 :: "bytes \<Rightarrow> nat \<Rightarrow> u32 option" where
  "rd32 bs i = (if i + 4 \<le> length bs then Some (of_nat (le (take 4 (drop i bs)))) else None)"

definition put_at :: "bytes \<Rightarrow> nat \<Rightarrow> bytes \<Rightarrow> bytes option" where
  "put_at bs i xs = (if i + length xs \<le> length bs then Some (take i bs @ xs @ drop (i + length xs) bs) else None)"

definition disk_read :: "bytes \<Rightarrow> u64 \<Rightarrow> u64 \<Rightarrow> bytes option" where
  \<comment> \<open>\<^verbatim>\<open>physicalDevice->file_ops.read(physicalDevice, buf, offset, len)\<close>\<close>
  "disk_read d offset len = (if unat offset + unat len \<le> length d then Some (take (unat len) (drop (unat offset) d)) else None)"

definition disk_write :: "bytes \<Rightarrow> u64 \<Rightarrow> bytes \<Rightarrow> bytes option" where
  "disk_write d offset data = put_at d (unat offset) data"

section \<open>File names\<close>

definition fat_part :: "bytes \<Rightarrow> bytes" where
  \<comment> \<open>the loops that copy the name and the extension\<close>
  "fat_part bs = takeWhile (\<lambda>b. b \<noteq> 0 \<and> b \<noteq> 32) bs"

definition lower :: "u8 \<Rightarrow> u8" where
  "lower b = (if 65 \<le> b \<and> b \<le> 90 then b + 32 else b)"

definition clean_fat_filename :: "bytes \<Rightarrow> bytes option" where
  \<comment> \<open>the string that is left in the output; the input are the eleven bytes of a directory entry\<close>
  "clean_fat_filename input = do {
     let name = fat_part (take 8 input);
     let ext = fat_part (take 3 (drop 8 input));
     out \<leftarrow> (if ext \<noteq> [] then do { (o1, _) \<leftarrow> snprintf 12 (cstr ''%s.%s'') [Va_Str name, Va_Str ext]; o1 } else Some name);
     Some (map lower out)
   }"

section \<open>The file allocation table\<close>

definition cluster_size :: "fat_fs_t \<Rightarrow> u32" where
  "cluster_size fs = ff_clusterSize fs * ff_sectorSize fs"

definition cluster_offset :: "fat_fs_t \<Rightarrow> u32 \<Rightarrow> u64" where
  \<comment> \<open>\<^verbatim>\<open>fs->dataPointer * fs->sectorSize + (cluster - 2) * cluster_size\<close>\<close>
  "cluster_offset fs c = ff_dataPointer fs * ucast (ff_sectorSize fs) + ucast ((c - 2) * cluster_size fs)"

fun free_loop :: "fat_fs_t \<Rightarrow> bytes \<Rightarrow> u32 \<Rightarrow> u32 list \<Rightarrow> bytes \<Rightarrow> u32 option" where
  \<comment> \<open>the loop over the cluster numbers, with the sector in the buffer\<close>
  "free_loop fs d eps [] buf = Some 0"
| "free_loop fs d eps (i # is) buf = do {
     buf1 \<leftarrow> (if i mod eps = 0
       then disk_read d (ucast ((ucast (ff_fatPointer fs) + i div eps) * ff_sectorSize fs)) (ucast (ff_sectorSize fs)) else Some buf);
     v \<leftarrow> rd32 buf1 (4 * unat (i mod eps));
     if v = 0 then Some i else free_loop fs d eps is buf1
   }"

definition fat_find_free_cluster :: "bytes \<Rightarrow> fat_fs_t \<Rightarrow> bytes \<Rightarrow> u32 option" where
  "fat_find_free_cluster junk fs d =
     (let eps = ff_sectorSize fs div 4 in
      if ff_clusterSize fs = 0 \<or> eps = 0 then None
      else free_loop fs d eps (map of_nat [2..<unat (ff_capacity fs div ff_clusterSize fs)]) (take (unat (ff_sectorSize fs)) junk))"

definition fat_position :: "fat_fs_t \<Rightarrow> u32 \<Rightarrow> (u64 \<times> nat) option" where
  \<comment> \<open>the byte offset of the sector that holds the entry of a cluster, and the position of the entry in it\<close>
  "fat_position fs cluster =
     (if ff_sectorSize fs = 0 then None
      else let fat_offset = cluster * 4; fat_sector = ucast (ff_fatPointer fs + ucast (fat_offset div ff_sectorSize fs)) :: u32;
               entry_offset = fat_offset mod ff_sectorSize fs
           in Some (ucast (fat_sector * ff_sectorSize fs), 4 * (unat entry_offset div 4)))"

definition fat_update_fat :: "fat_fs_t \<Rightarrow> u32 \<Rightarrow> u32 \<Rightarrow> bytes \<Rightarrow> bytes option" where
  "fat_update_fat fs cluster value d = do {
     (off, i) \<leftarrow> fat_position fs cluster;
     sector \<leftarrow> disk_read d off (ucast (ff_sectorSize fs));
     sector1 \<leftarrow> put_at sector i (to_le 4 (unat value));
     disk_write d off sector1
   }"

definition fat_get_next_cluster :: "fat_fs_t \<Rightarrow> u32 \<Rightarrow> bytes \<Rightarrow> u32 option" where
  "fat_get_next_cluster fs cluster d = do {
     (off, i) \<leftarrow> fat_position fs cluster;
     sector \<leftarrow> disk_read d off (ucast (ff_sectorSize fs));
     v \<leftarrow> rd32 sector i;
     Some (v AND 0x0FFFFFFF)
   }"

section \<open>Files\<close>

fun write_loop :: "nat \<Rightarrow> bytes \<Rightarrow> fat_fs_t \<Rightarrow> u32 \<Rightarrow> u32 \<Rightarrow> bytes \<Rightarrow> bytes \<Rightarrow> (int \<times> bytes) option" where
  \<comment> \<open>\<^verbatim>\<open>while (bytes_written < size)\<close> on the data that are left; the next cluster is looked up from the first one\<close>
  "write_loop 0 junk fs start current data d = None"
| "write_loop (Suc n) junk fs start current data d =
     (if data = [] then do { d1 \<leftarrow> fat_update_fat fs current 0x0FFFFFFF d; Some (0, d1) }
      else do {
        let chunk = (if length data < unat (cluster_size fs) then length data else unat (cluster_size fs));
        d1 \<leftarrow> disk_write d (cluster_offset fs current) (take chunk data);
        if drop chunk data = [] then write_loop n junk fs start current [] d1
        else do {
          next \<leftarrow> fat_get_next_cluster fs start d1;
          if next \<ge> 0x0FFFFFFF then do {
            free \<leftarrow> fat_find_free_cluster junk fs d1;
            if free = 0 then Some (-1, d1)
            else do { d2 \<leftarrow> fat_update_fat fs current free d1; write_loop n junk fs start free (drop chunk data) d2 }
          } else write_loop n junk fs start next (drop chunk data) d1
        }
      })"

definition fat_write_file_data :: "nat \<Rightarrow> bytes \<Rightarrow> fat_fs_t \<Rightarrow> u32 \<Rightarrow> bytes \<Rightarrow> bytes \<Rightarrow> (int \<times> bytes) option" where
  "fat_write_file_data n junk fs start_cluster data d = write_loop n junk fs start_cluster start_cluster data d"

fun read_loop :: "nat \<Rightarrow> fat_fs_t \<Rightarrow> u32 \<Rightarrow> nat \<Rightarrow> bytes \<Rightarrow> bytes option" where
  \<comment> \<open>\<^verbatim>\<open>while (bytes_read < size)\<close> with \<open>sz\<close> bytes left; the bytes that arrive in the caller's buffer\<close>
  "read_loop 0 fs current sz d = None"
| "read_loop (Suc n) fs current sz d =
     (if sz = 0 then Some []
      else do {
        let chunk = (if sz < unat (cluster_size fs) then sz else unat (cluster_size fs));
        bs \<leftarrow> disk_read d (cluster_offset fs current) (of_nat chunk);
        if sz - chunk = 0 then Some bs
        else do {
          next \<leftarrow> fat_get_next_cluster fs current d;
          if next \<ge> 0x0FFFFFF8 then Some bs
          else do { rest \<leftarrow> read_loop n fs next (sz - chunk) d; Some (bs @ rest) }
        }
      })"

definition fat_read_file_data :: "nat \<Rightarrow> fat_fs_t \<Rightarrow> u32 \<Rightarrow> u64 \<Rightarrow> bytes \<Rightarrow> (int \<times> bytes) option" where
  "fat_read_file_data n fs start_cluster sz d = do { bs \<leftarrow> read_loop n fs start_cluster (unat sz) d; Some (wrap_int (int (length bs)), bs) }"

fun skip_loop :: "nat \<Rightarrow> fat_fs_t \<Rightarrow> u32 \<Rightarrow> u64 \<Rightarrow> bytes \<Rightarrow> u32 option option" where
  \<comment> \<open>\<^verbatim>\<open>while (offset >= cluster_size)\<close> of \<^verbatim>\<open>fat_read\<close>; \<open>Some None\<close>: the chain ended\<close>
  "skip_loop 0 fs current offset d = None"
| "skip_loop (Suc n) fs current offset d =
     (if offset \<ge> ucast (cluster_size fs) then do {
        next \<leftarrow> fat_get_next_cluster fs current d;
        if next \<ge> 0x0FFFFFF8 then Some None else skip_loop n fs next (offset - ucast (cluster_size fs)) d
      } else Some (Some current))"

definition fat_node :: "ptr \<Rightarrow> fvfs \<Rightarrow> (fat_entry_t \<times> fat_fs_t) option" where
  \<comment> \<open>\<^verbatim>\<open>(fat_entry_t*)file->fs\<close> and its \<^verbatim>\<open>fatFs\<close>\<close>
  "fat_node node s = do {
     f \<leftarrow> at (v_nodes s) node;
     e \<leftarrow> at (fa_entries (v_priv s)) (fn_fs f);
     fs \<leftarrow> at (fa_systems (v_priv s)) (fe_fatFs e);
     Some (e, fs)
   }"

definition set_disk :: "bytes \<Rightarrow> fvfs \<Rightarrow> fvfs" where
  "set_disk d s = s\<lparr>v_priv := (v_priv s)\<lparr>fa_disk := d\<rparr>\<rparr>"

abbreviation disk :: "fvfs \<Rightarrow> bytes" where
  "disk s \<equiv> fa_disk (v_priv s)"

definition fat_read :: "nat \<Rightarrow> ptr \<Rightarrow> u64 \<Rightarrow> u64 \<Rightarrow> fvfs \<Rightarrow> (int \<times> u8 option list \<times> fvfs) option" where
  \<comment> \<open>the parameters are \<^verbatim>\<open>size\<close> and \<^verbatim>\<open>offset\<close>, in this order\<close>
  "fat_read n node sz offset s = do {
     (e, fs) \<leftarrow> fat_node node s;
     r \<leftarrow> skip_loop n fs (fe_cluster e) offset (disk s);
     case r of None \<Rightarrow> Some (-1, [], s)
     | Some start \<Rightarrow> do { (k, bs) \<leftarrow> fat_read_file_data n fs start sz (disk s); Some (k, map Some bs, s) }
   }"

section \<open>Directory entries\<close>

definition dir_entry :: "bytes \<Rightarrow> nat \<Rightarrow> bytes option" where
  \<comment> \<open>the 32 bytes of entry \<open>i\<close>\<close>
  "dir_entry dir i = (if 32 * i + 32 \<le> length dir then Some (take 32 (drop (32 * i) dir)) else None)"

definition de_filename :: "bytes \<Rightarrow> bytes" where "de_filename e = take 11 e"
definition de_attributes :: "bytes \<Rightarrow> u8" where "de_attributes e = e ! 11"
definition de_size :: "bytes \<Rightarrow> u32" where "de_size e = of_nat (le (take 4 (drop 28 e)))"

definition de_cluster :: "bytes \<Rightarrow> u32" where
  \<comment> \<open>\<^verbatim>\<open>clusterHigh << 16 | clusterLow\<close>\<close>
  "de_cluster e = push_bit 16 (of_nat (le (take 2 (drop 20 e)))) OR of_nat (le (take 2 (drop 26 e)))"

definition strncpy11 :: "bytes \<Rightarrow> bytes" where
  \<comment> \<open>\<^verbatim>\<open>strncpy(filename, name, 11)\<close> into zero bytes\<close>
  "strncpy11 name = take 11 (name @ replicate 11 0)"

definition new_dir_entry :: "bytes \<Rightarrow> u32 \<Rightarrow> u32 \<Rightarrow> u8 \<Rightarrow> bytes" where
  "new_dir_entry name cluster sz attributes =
     strncpy11 name @ [attributes] @ replicate 8 0 @ to_le 2 (unat (drop_bit 16 cluster AND 0xFFFF)) @ replicate 4 0 @
     to_le 2 (unat (cluster AND 0xFFFF)) @ to_le 4 (unat sz)"

fun free_entry :: "bytes \<Rightarrow> nat list \<Rightarrow> nat option option" where
  "free_entry dir [] = Some None"
| "free_entry dir (i # is) = do { e \<leftarrow> dir_entry dir i; if e ! 0 = 0 \<or> e ! 0 = 0xE5 then Some (Some i) else free_entry dir is }"

definition entries_per_cluster :: "fat_fs_t \<Rightarrow> nat" where
  "entries_per_cluster fs = unat (cluster_size fs) div 32"

definition fat_create_dir_entry :: "fat_fs_t \<Rightarrow> ptr \<Rightarrow> bytes \<Rightarrow> u32 \<Rightarrow> u32 \<Rightarrow> u8 \<Rightarrow> fvfs \<Rightarrow> (int \<times> fvfs) option" where
  "fat_create_dir_entry fs dir name cluster sz attributes s = do {
     f \<leftarrow> at (v_nodes s) dir;
     de \<leftarrow> at (fa_entries (v_priv s)) (fn_fs f);
     data \<leftarrow> disk_read (disk s) (cluster_offset fs (fe_cluster de)) (ucast (cluster_size fs));
     r \<leftarrow> free_entry data [0..<entries_per_cluster fs];
     case r of None \<Rightarrow> Some (-1, s)
     | Some i \<Rightarrow> do {
         data1 \<leftarrow> put_at data (32 * i) (new_dir_entry name cluster sz attributes);
         d \<leftarrow> disk_write (disk s) (cluster_offset fs (fe_cluster de)) data1;
         Some (0, set_disk d s)
       }
   }"

definition parent_directory :: "nat \<Rightarrow> ptr \<Rightarrow> fvfs \<Rightarrow> u32 option option" where
  \<comment> \<open>the first cluster of the directory above the file in the file tree; \<open>Some None\<close> when there is none\<close>
  "parent_directory n file_node s = do {
     treeNode \<leftarrow> find_node n file_node s;
     if treeNode = NULL then Some None
     else do {
       e \<leftarrow> nrd (v_tree_heap s) treeNode;
       if tn_parent e = NULL then Some None
       else do {
         p \<leftarrow> nrd (v_tree_heap s) (tn_parent e);
         f \<leftarrow> at (v_nodes s) (tn_value p);
         pe \<leftarrow> at (fa_entries (v_priv s)) (fn_fs f);
         Some (Some (fe_cluster pe))
       }
     }
   }"

definition same_name :: "bytes \<Rightarrow> bytes \<Rightarrow> bool" where
  \<comment> \<open>\<^verbatim>\<open>strncmp(filename, file->name, 11) == 0\<close>\<close>
  "same_name raw name = (takeWhile (\<lambda>b. b \<noteq> 0) (take 11 raw) = takeWhile (\<lambda>b. b \<noteq> 0) (take 11 name))"

fun find_entry :: "bytes \<Rightarrow> bytes \<Rightarrow> nat list \<Rightarrow> nat option option" where
  "find_entry dir name [] = Some None"
| "find_entry dir name (i # is) = do { e \<leftarrow> dir_entry dir i; if same_name (de_filename e) name then Some (Some i) else find_entry dir name is }"

definition change_entry :: "nat \<Rightarrow> (nat \<Rightarrow> nat \<times> bytes) \<Rightarrow> fat_fs_t \<Rightarrow> ptr \<Rightarrow> fvfs \<Rightarrow> (int \<times> fvfs) option" where
  \<comment> \<open>the common part of the next two functions: \<open>g i\<close> is what is stored where when entry \<open>i\<close> is the file's\<close>
  "change_entry n g fs file_node s = do {
     f \<leftarrow> at (v_nodes s) file_node;
     p \<leftarrow> parent_directory n file_node s;
     case p of None \<Rightarrow> Some (-1, s)
     | Some cluster \<Rightarrow> do {
         data \<leftarrow> disk_read (disk s) (cluster_offset fs cluster) (ucast (cluster_size fs));
         r \<leftarrow> find_entry data (fn_name f) [0..<entries_per_cluster fs];
         case r of None \<Rightarrow> Some (-1, s)
         | Some i \<Rightarrow> do {
             data1 \<leftarrow> put_at data (fst (g i)) (snd (g i));
             d \<leftarrow> disk_write (disk s) (cluster_offset fs cluster) data1;
             Some (0, set_disk d s)
           }
       }
   }"

definition fat_update_dir_entry_size :: "nat \<Rightarrow> fat_fs_t \<Rightarrow> ptr \<Rightarrow> fvfs \<Rightarrow> (int \<times> fvfs) option" where
  "fat_update_dir_entry_size n fs file_node s = do {
     f \<leftarrow> at (v_nodes s) file_node;
     change_entry n (\<lambda>i. (32 * i + 28, to_le 4 (unat (ucast (fn_size f) :: u32)))) fs file_node s
   }"

definition fat_remove_dir_entry :: "nat \<Rightarrow> fat_fs_t \<Rightarrow> ptr \<Rightarrow> fvfs \<Rightarrow> (int \<times> fvfs) option" where
  \<comment> \<open>\<^verbatim>\<open>memset(dir_data, 0, sizeof(struct fatDirEntry))\<close> clears the first entry, whichever was found\<close>
  "fat_remove_dir_entry n fs file_node s = change_entry n (\<lambda>i. (0, replicate 32 0)) fs file_node s"

section \<open>Creating files and directories\<close>

definition new_fat_node :: "file_node_t \<Rightarrow> ptr \<Rightarrow> u32 \<Rightarrow> fvfs \<Rightarrow> (ptr \<times> fvfs) option" where
  \<comment> \<open>a file node and the \<^verbatim>\<open>fat_entry_t\<close> that its \<^verbatim>\<open>fs\<close> points to, both from \<^verbatim>\<open>calloc\<close>\<close>
  "new_fat_node f fs cluster s = do {
     (node, s1) \<leftarrow> calloc_addr s;
     (entry, s2) \<leftarrow> calloc_addr s1;
     Some (node, put_node node (f\<lparr>fn_fs := entry\<rparr>)
       (s2\<lparr>v_priv := (v_priv s2)\<lparr>fa_entries := (fa_entries (v_priv s2))(entry \<mapsto> \<lparr>fe_fatFs = fs, fe_cluster = cluster\<rparr>)\<rparr>\<rparr>))
   }"

definition fat_create_node :: "bytes \<Rightarrow> u8 \<Rightarrow> u64 \<Rightarrow> file_operations \<Rightarrow> ptr \<Rightarrow> bytes \<Rightarrow> fvfs \<Rightarrow> (bool \<times> fvfs) option" where
  \<comment> \<open>what \<^verbatim>\<open>fat_create_file\<close> and \<^verbatim>\<open>fat_mkdir\<close> have in common; the new node is not linked anywhere\<close>
  "fat_create_node junk attributes ty ops dir name s = do {
     f \<leftarrow> at (v_nodes s) dir;
     de \<leftarrow> at (fa_entries (v_priv s)) (fn_fs f);
     fs \<leftarrow> at (fa_systems (v_priv s)) (fe_fatFs de);
     cluster \<leftarrow> fat_find_free_cluster junk fs (disk s);
     if cluster = 0 then Some (False, s)
     else do {
       (r, s1) \<leftarrow> fat_create_dir_entry fs dir name cluster 0 attributes s;
       if r \<noteq> 0 then Some (False, s1)
       else do {
         d \<leftarrow> fat_update_fat fs cluster 0x0FFFFFFF (disk s1);
         new \<leftarrow> set_name name (empty_node\<lparr>fn_type := ty, fn_size := 0, fn_file_ops := ops\<rparr>);
         (_, s2) \<leftarrow> new_fat_node new (fe_fatFs de) cluster (set_disk d s1);
         Some (True, s2)
       }
     }
   }"

definition fat_create_file :: "bytes \<Rightarrow> ptr \<Rightarrow> bytes \<Rightarrow> int \<Rightarrow> fvfs \<Rightarrow> (bool \<times> fvfs) option" where
  "fat_create_file junk dir name mode s = fat_create_node junk 0 FILE_TYPE_FILE
     (no_ops\<lparr>op_read := Some ''fat_read'', op_write := Some ''fat_write'', op_get_size := Some ''fat_get_size'', op_delete := Some ''fat_delete''\<rparr>)
     dir name s"

definition fat_mkdir :: "bytes \<Rightarrow> ptr \<Rightarrow> bytes \<Rightarrow> fvfs \<Rightarrow> (bool \<times> fvfs) option" where
  "fat_mkdir junk dir name s = do {
     f \<leftarrow> at (v_nodes s) dir;
     if fn_type f \<noteq> FILE_TYPE_DIR \<and> fn_type f \<noteq> FILE_TYPE_MOUNT_POINT then Some (False, s)
     else fat_create_node junk 0x10 FILE_TYPE_DIR
       (no_ops\<lparr>op_read := Some ''fat_read'', op_write := Some ''fat_write'', op_get_size := Some ''fat_get_size'', op_mkdir := Some ''fat_mkdir''\<rparr>)
       dir name s
   }"

section \<open>Writing\<close>

fun seek_loop :: "nat \<Rightarrow> bytes \<Rightarrow> fat_fs_t \<Rightarrow> u64 \<Rightarrow> u32 \<Rightarrow> u64 \<Rightarrow> bytes \<Rightarrow> ((u32 \<times> u64) option \<times> bytes) option" where
  \<comment> \<open>\<^verbatim>\<open>while (offset >= cluster_size)\<close> of \<^verbatim>\<open>fat_write\<close>, with the size of the file; the first component is empty when it returns \<^verbatim>\<open>-1\<close>\<close>
  "seek_loop 0 junk fs sz start offset d = None"
| "seek_loop (Suc n) junk fs sz start offset d =
     (if offset \<ge> ucast (cluster_size fs) then do {
        next \<leftarrow> fat_get_next_cluster fs start d;
        if next \<ge> 0x0FFFFFF8 then
          (if offset > sz then do {
             free \<leftarrow> fat_find_free_cluster junk fs d;
             if free = 0 then Some (None, d)
             else do {
               (_, d1) \<leftarrow> fat_write_file_data (Suc n) junk fs start (replicate (unat (cluster_size fs)) 0) d;
               d2 \<leftarrow> fat_update_fat fs start free d1;
               d3 \<leftarrow> fat_update_fat fs free 0x0FFFFFFF d2;
               seek_loop n junk fs sz free (offset - ucast (cluster_size fs)) d3
             }
           } else Some (None, d))
        else seek_loop n junk fs sz next (offset - ucast (cluster_size fs)) d
      } else Some (Some (start, offset), d))"

definition fat_write :: "nat \<Rightarrow> bytes \<Rightarrow> nat \<Rightarrow> ptr \<Rightarrow> bytes \<Rightarrow> u64 \<Rightarrow> u64 \<Rightarrow> fvfs \<Rightarrow> (int \<times> fvfs) option" where
  \<comment> \<open>the parameters are \<^verbatim>\<open>size\<close> and \<^verbatim>\<open>offset\<close>, in this order; \<open>k\<close> bounds the rounds, \<open>n\<close> the depth of the file tree\<close>
  "fat_write k junk n node data sz offset s = do {
     (e, fs) \<leftarrow> fat_node node s;
     f \<leftarrow> at (v_nodes s) node;
     (r, d) \<leftarrow> seek_loop k junk fs (fn_size f) (fe_cluster e) offset (disk s);
     case r of None \<Rightarrow> Some (-1, set_disk d s)
     | Some (start, off) \<Rightarrow>
         if unat sz > length data then None
         else do {
           (result, d1) \<leftarrow> fat_write_file_data k junk fs start (take (unat sz) data) d;
           if result = 0 then do {
             s1 \<leftarrow> upd_node node (\<lambda>g. g\<lparr>fn_size := (if off > sz then off + sz else fn_size g - off + sz)\<rparr>) (set_disk d1 s);
             (_, s2) \<leftarrow> fat_update_dir_entry_size n fs node s1;
             Some (result, s2)
           } else Some (result, set_disk d1 s)
         }
   }"

section \<open>Directories\<close>

datatype scan = Entry nat bytes | End_Of_Files | Outside

fun next_entry :: "bytes \<Rightarrow> nat \<Rightarrow> nat \<Rightarrow> scan" where
  \<comment> \<open>the checks at the head of each loop over \<^verbatim>\<open>fatDirPointer\<close>, until an entry passes them; the buffer has \<open>k\<close> entries from \<open>i\<close> on\<close>
  "next_entry dir i 0 = Outside"
| "next_entry dir i (Suc k) =
     (case dir_entry dir i of None \<Rightarrow> Outside
      | Some e \<Rightarrow> if e ! 0 = 0 then End_Of_Files
                 else if e ! 0 = 0xE5 \<or> de_attributes e = 0x0F then next_entry dir (i + 1) k
                 else Entry i e)"

definition directory_data :: "ptr \<Rightarrow> fvfs \<Rightarrow> bytes option" where
  \<comment> \<open>the first cluster of a directory, as \<^verbatim>\<open>fat_read_dir\<close> and \<^verbatim>\<open>fat_get_size\<close> read it\<close>
  "directory_data node s = do {
     f \<leftarrow> at (v_nodes s) node;
     (fs, cluster) \<leftarrow> (if fn_type f = FILE_TYPE_MOUNT_POINT then do { fs \<leftarrow> at (fa_systems (v_priv s)) (fn_fs f); Some (fs, ff_root_cluster fs) }
       else do { (e, fs) \<leftarrow> fat_node node s; Some (fs, fe_cluster e) });
     disk_read (disk s) (cluster_offset fs cluster) (ucast (cluster_size fs))
   }"

definition entry_type :: "bytes \<Rightarrow> u64" where
  "entry_type e = (if de_attributes e AND 0x10 \<noteq> 0 then FILE_TYPE_DIR else FILE_TYPE_FILE)"

fun list_entries :: "bytes \<Rightarrow> nat \<Rightarrow> nat \<Rightarrow> list_dir_t list option" where
  \<comment> \<open>\<^verbatim>\<open>while(i < count)\<close>, with the number of entries that may follow\<close>
  "list_entries dir i 0 = Some []"
| "list_entries dir i (Suc c) =
     (case next_entry dir i (length dir) of Outside \<Rightarrow> None | End_Of_Files \<Rightarrow> Some []
      | Entry j e \<Rightarrow> do {
          nm \<leftarrow> clean_fat_filename (de_filename e);
          rest \<leftarrow> list_entries dir (j + 1) c;
          Some (\<lparr>ld_name = nm, ld_type = entry_type e, ld_size = ucast (de_size e)\<rparr> # rest)
        })"

definition fat_read_dir :: "ptr \<Rightarrow> int \<Rightarrow> fvfs \<Rightarrow> (int \<times> list_dir_t list \<times> fvfs) option" where
  "fat_read_dir node cnt s = do {
     f \<leftarrow> at (v_nodes s) node;
     if fn_type f \<noteq> FILE_TYPE_DIR \<and> fn_type f \<noteq> FILE_TYPE_MOUNT_POINT then Some (0, [], s)
     else do {
       dir \<leftarrow> directory_data node s;
       es \<leftarrow> list_entries dir 0 (nat cnt);
       Some (int (length es), es, s)
     }
   }"

fun count_entries :: "bytes \<Rightarrow> nat \<Rightarrow> nat \<Rightarrow> nat option" where
  \<comment> \<open>the loop of \<^verbatim>\<open>fat_get_size\<close>, which ends only at a zero byte\<close>
  "count_entries dir i 0 = None"
| "count_entries dir i (Suc k) =
     (case next_entry dir i (length dir) of Outside \<Rightarrow> None | End_Of_Files \<Rightarrow> Some 0
      | Entry j e \<Rightarrow> do { c \<leftarrow> count_entries dir (j + 1) k; Some (c + 1) })"

definition fat_get_size :: "ptr \<Rightarrow> fvfs \<Rightarrow> int option" where
  "fat_get_size node s = do {
     f \<leftarrow> at (v_nodes s) node;
     if fn_type f \<noteq> FILE_TYPE_DIR \<and> fn_type f \<noteq> FILE_TYPE_MOUNT_POINT then Some (to_int (fn_size f))
     else do {
       dir \<leftarrow> directory_data node s;
       c \<leftarrow> count_entries dir 0 (length dir);
       Some (int c)
     }
   }"

fun free_chain :: "nat \<Rightarrow> fat_fs_t \<Rightarrow> u32 \<Rightarrow> bytes \<Rightarrow> bytes option" where
  \<comment> \<open>\<^verbatim>\<open>while (current_cluster < 0x0FFFFFF7)\<close>\<close>
  "free_chain 0 fs current d = None"
| "free_chain (Suc n) fs current d =
     (if current < 0x0FFFFFF7 then do {
        next \<leftarrow> fat_get_next_cluster fs current d;
        d1 \<leftarrow> fat_update_fat fs current 0 d;
        free_chain n fs next d1
      } else Some d)"

definition fat_delete :: "nat \<Rightarrow> nat \<Rightarrow> ptr \<Rightarrow> fvfs \<Rightarrow> (int \<times> fvfs) option" where
  "fat_delete k n node s = do {
     (e, fs) \<leftarrow> fat_node node s;
     f \<leftarrow> at (v_nodes s) node;
     r \<leftarrow> (if fn_type f = FILE_TYPE_FILE then do {
              d \<leftarrow> free_chain k fs (fe_cluster e) (disk s);
              (_, s1) \<leftarrow> fat_update_dir_entry_size n fs node (set_disk d s);
              Some (Some s1)
            } else if fn_type f = FILE_TYPE_DIR then do {
              c \<leftarrow> fat_get_size node s;
              if c > 0 then Some None
              else do { d \<leftarrow> free_chain k fs (fe_cluster e) (disk s); Some (Some (set_disk d s)) }
            } else Some (Some s));
     case r of None \<Rightarrow> Some (-2, s)
     | Some s1 \<Rightarrow> do { (_, s2) \<leftarrow> fat_remove_dir_entry n fs node s1; Some (0, s2) }
   }"

definition fat_open :: "nat \<Rightarrow> bytes \<Rightarrow> nat \<Rightarrow> ptr \<Rightarrow> int \<Rightarrow> fvfs \<Rightarrow> fvfs option" where
  "fat_open k junk n node mode s = do {
     f \<leftarrow> at (v_nodes s) node;
     if fn_type f = FILE_TYPE_FILE \<and> mode AND O_TRUNC \<noteq> 0 then do {
       (e, fs) \<leftarrow> fat_node node s;
       current \<leftarrow> fat_get_next_cluster fs (fe_cluster e) (disk s);
       d1 \<leftarrow> free_chain k fs current (disk s);
       (_, d2) \<leftarrow> fat_write_file_data k junk fs (fe_cluster e) (replicate (unat (cluster_size fs)) 0) d1;
       s1 \<leftarrow> upd_node node (\<lambda>g. g\<lparr>fn_size := 0\<rparr>) (set_disk d2 s);
       (_, s2) \<leftarrow> fat_update_dir_entry_size n fs node s1;
       Some s2
     } else Some s
   }"

fun find_loop :: "nat \<Rightarrow> bytes \<Rightarrow> bytes \<Rightarrow> nat \<Rightarrow> (nat \<times> bytes) option option" where
  \<comment> \<open>the loop of \<^verbatim>\<open>fat_find_dir\<close>: after an entry with another name the pointer is not advanced; \<open>Some None\<close> is the end of the files\<close>
  "find_loop 0 dir name i = None"
| "find_loop (Suc k) dir name i =
     (case next_entry dir i (length dir) of Outside \<Rightarrow> None | End_Of_Files \<Rightarrow> Some None
      | Entry j e \<Rightarrow> do {
          filename \<leftarrow> clean_fat_filename (de_filename e);
          if filename = name then Some (Some (j, e)) else find_loop k dir name j
        })"

definition unterminated_name :: "bytes \<Rightarrow> nat \<Rightarrow> bytes option" where
  \<comment> \<open>\<^verbatim>\<open>strcpy(newNode->name, fatDirPointer->filename)\<close>: the eleven bytes have no terminator, so the bytes up to the next zero follow\<close>
  "unterminated_name dir i = (let rest = drop (32 * i) dir; nm = takeWhile (\<lambda>b. b \<noteq> 0) rest in if nm = rest then None else Some nm)"

definition fat_file_ops :: file_operations where
  "fat_file_ops = no_ops\<lparr>op_find_dir := Some ''fat_find_dir'', op_read := Some ''fat_read'', op_write := Some ''fat_write'',
     op_get_size := Some ''fat_get_size'', op_mkdir := Some ''fat_mkdir'', op_delete := Some ''fat_delete'', op_create := Some ''fat_create_file''\<rparr>"

definition fat_find_dir :: "nat \<Rightarrow> ptr \<Rightarrow> bytes \<Rightarrow> fvfs \<Rightarrow> (ptr \<times> fvfs) option" where
  \<comment> \<open>at a mount point \<^verbatim>\<open>clean_fat_filename(newNode->name, filename)\<close> has its arguments swapped and leaves the name empty; in a directory
     the position on the disk is in sectors, and \<^verbatim>\<open>fatFs\<close> of the new entry is the \<^verbatim>\<open>fat_entry_t\<close> of the directory\<close>
  "fat_find_dir k node name s = do {
     f \<leftarrow> at (v_nodes s) node;
     if fn_type f \<noteq> FILE_TYPE_DIR \<and> fn_type f \<noteq> FILE_TYPE_MOUNT_POINT then Some (NULL, s)
     else do {
       dir \<leftarrow> (if fn_type f = FILE_TYPE_MOUNT_POINT then directory_data node s
               else do {
                 (e, fs) \<leftarrow> fat_node node s;
                 disk_read (disk s) (ff_dataPointer fs + ucast ((fe_cluster e - 2) * cluster_size fs)) (ucast (cluster_size fs))
               });
       r \<leftarrow> find_loop k dir name 0;
       case r of None \<Rightarrow> Some (NULL, s)
       | Some (j, e) \<Rightarrow> do {
           nm \<leftarrow> (if fn_type f = FILE_TYPE_MOUNT_POINT then Some [] else unterminated_name dir j);
           new \<leftarrow> set_name nm (empty_node\<lparr>fn_type := entry_type e, fn_size := ucast (de_size e), fn_file_ops := fat_file_ops\<rparr>);
           new_fat_node new (fn_fs f) (de_cluster e) s
         }
     }
   }"

section \<open>Mounting\<close>

definition num :: "bytes \<Rightarrow> nat \<Rightarrow> nat \<Rightarrow> nat" where
  \<comment> \<open>a field of \<open>k\<close> bytes in the boot sector\<close>
  "num bs i k = le (take k (drop i bs))"

fun partition_loop :: "bytes \<Rightarrow> bytes \<Rightarrow> nat list \<Rightarrow> u32 \<times> bytes \<Rightarrow> (u32 \<times> bytes) option" where
  \<comment> \<open>the loop over the partition table of \<open>mbr\<close>, with \<^verbatim>\<open>baseOffset\<close> and the boot sector that is in \<^verbatim>\<open>fatBpb\<close> and \<^verbatim>\<open>fatEbr32\<close>\<close>
  "partition_loop d mbr [] st = Some st"
| "partition_loop d mbr (i # is) st =
     (if mbr ! (446 + 16 * i + 4) = 0x0C then do {
        let base = (of_nat (num mbr (446 + 16 * i + 8) 4) :: u32);
        boot \<leftarrow> disk_read d (ucast (base * 512)) 512;
        partition_loop d mbr is (base, boot)
      } else partition_loop d mbr is st)"

fun scan_root :: "nat \<Rightarrow> bytes \<Rightarrow> nat \<Rightarrow> unit option" where
  \<comment> \<open>the loop of \<^verbatim>\<open>fat_mount\<close> that prints the root directory; the end of the cluster is checked behind ordinary entries only\<close>
  "scan_root 0 dir i = None"
| "scan_root (Suc k) dir i =
     (case next_entry dir i (length dir) of Outside \<Rightarrow> None | End_Of_Files \<Rightarrow> Some ()
      | Entry j e \<Rightarrow> do {
          _ \<leftarrow> clean_fat_filename (de_filename e);
          if length dir \<le> 32 * (j + 1) then Some () else scan_root k dir (j + 1)
        })"

definition boot_fs :: "ptr \<Rightarrow> u32 \<Rightarrow> bytes \<Rightarrow> fat_fs_t" where
  \<comment> \<open>the fields that \<^verbatim>\<open>fat_mount\<close> takes from the boot sector; a table size times the number of tables wraps at 32 bits\<close>
  "boot_fs dev base boot =
     (let fatPointer = ucast (of_nat (num boot 14 2) + base :: u32) :: u64 in
      \<lparr>ff_root_cluster = of_nat (num boot 44 4), ff_sectorSize = of_nat (num boot 11 2), ff_clusterSize = of_nat (num boot 13 1),
       ff_capacity = of_nat (num boot 32 4), ff_fatPointer = fatPointer,
       ff_dataPointer = fatPointer + ucast (of_nat (num boot 16 1) * of_nat (num boot 36 4) :: u32),
       ff_physicalDevice = dev, ff_rootPointer = NULL\<rparr>)"

definition fat_root_node :: "ptr \<Rightarrow> file_node_t" where
  "fat_root_node fs = empty_node\<lparr>fn_type := FILE_TYPE_MOUNT_POINT, fn_fs := fs, fn_size := 0, fn_file_ops := no_ops\<lparr>
     op_read_dir := Some ''fat_read_dir'', op_find_dir := Some ''fat_find_dir'', op_get_size := Some ''fat_get_size''\<rparr>\<rparr>"

definition fat_mount :: "nat \<Rightarrow> fat driver \<Rightarrow> nat \<Rightarrow> bytes \<Rightarrow> bytes \<Rightarrow> fvfs \<Rightarrow> (ptr \<times> fvfs) option" where
  \<comment> \<open>without a slash in the name \<^verbatim>\<open>strrchr\<close> gives \<^verbatim>\<open>NULL\<close>\<close>
  "fat_mount k dr n device name s = do {
     (dev, s1) \<leftarrow> open_path k dr n device 0 s;
     if dev = NULL then Some (NULL, s1)
     else do {
       f \<leftarrow> at (v_nodes s1) dev;
       if fn_type f \<noteq> FILE_TYPE_BLOCK_DEVICE then Some (NULL, s1)
       else do {
         (fsp, s2) \<leftarrow> calloc_addr s1;
         mbr \<leftarrow> disk_read (disk s2) 0 512;
         (base, boot) \<leftarrow> (if of_nat (num mbr 510 2) = MBR_SIGNATURE then partition_loop (disk s2) mbr [0..<4] (0, mbr) else Some (0, mbr));
         if boot ! 66 \<noteq> 0x28 \<and> boot ! 66 \<noteq> 0x29 then Some (NULL, s2)
         else do {
           let fs = boot_fs dev base boot;
           dir \<leftarrow> disk_read (disk s2) (cluster_offset fs (ff_root_cluster fs)) (ucast (cluster_size fs));
           _ \<leftarrow> scan_root (length dir + 1) dir 0;
           (node, s3) \<leftarrow> calloc_addr s2;
           if 47 \<notin> set name then None
           else do {
             g \<leftarrow> set_name (rev (takeWhile (\<lambda>b. b \<noteq> 47) (rev name))) (fat_root_node fsp);
             Some (node, put_node node g (s3\<lparr>v_priv := (v_priv s3)\<lparr>fa_systems := (fa_systems (v_priv s3))(fsp \<mapsto> fs\<lparr>ff_rootPointer := node\<rparr>)\<rparr>\<rparr>))
           }
         }
       }
     }
   }"

section \<open>The driver\<close>

definition fat_driver :: "nat \<Rightarrow> bytes \<Rightarrow> nat \<Rightarrow> fat driver" where
  \<comment> \<open>the VFS calls \<^verbatim>\<open>read(node, buf, offset, length)\<close>; more bytes than the caller's buffer holds, or less data than are written, are a fault\<close>
  "fat_driver k junk n = \<lparr>
     call_read = (\<lambda>f node offset len s. if f = ''fat_read'' then do {
         (r, bs, s1) \<leftarrow> fat_read k node offset len s;
         if length bs \<le> unat len then Some (r, bs, s1) else None
       } else None),
     call_write = (\<lambda>f node data offset s. if f = ''fat_write'' then fat_write k junk n node data offset (of_nat (length data)) s else None),
     call_open = (\<lambda>_ _ _ _. None),
     call_read_dir = (\<lambda>f. if f = ''fat_read_dir'' then fat_read_dir else (\<lambda>_ _ _. None)),
     call_mkdir = (\<lambda>f. if f = ''fat_mkdir'' then fat_mkdir junk else (\<lambda>_ _ _. None)),
     call_find_dir = (\<lambda>f. if f = ''fat_find_dir'' then fat_find_dir k else (\<lambda>_ _ _. None)),
     call_get_size = (\<lambda>f. if f = ''fat_get_size'' then fat_get_size else (\<lambda>_ _. None)),
     call_create = (\<lambda>f. if f = ''fat_create_file'' then fat_create_file junk else (\<lambda>_ _ _ _. None)),
     call_poll = (\<lambda>_ _ _ _. None), call_rename = (\<lambda>_ _ _ _. None),
     call_delete = (\<lambda>f. if f = ''fat_delete'' then fat_delete k n else (\<lambda>_ _. None))\<rparr>"

section \<open>The disk as a table and clusters\<close>

abbreviation sector_bytes :: "fat_fs_t \<Rightarrow> nat" where
  "sector_bytes fs \<equiv> unat (ff_sectorSize fs)"

definition cluster_bytes :: "fat_fs_t \<Rightarrow> nat" where
  "cluster_bytes fs = unat (ff_clusterSize fs) * sector_bytes fs"

definition table_at :: "fat_fs_t \<Rightarrow> nat" where
  "table_at fs = unat (ff_fatPointer fs) * sector_bytes fs"

definition data_at :: "fat_fs_t \<Rightarrow> nat" where
  "data_at fs = unat (ff_dataPointer fs) * sector_bytes fs"

definition fat_ok :: "fat_fs_t \<Rightarrow> nat \<Rightarrow> bytes \<Rightarrow> bool" where
  \<comment> \<open>a volume with the clusters 2 up to \<open>N\<close>: the table in front of the data, all on a disk below 4 GiB\<close>
  "fat_ok fs N d \<longleftrightarrow> 0 < sector_bytes fs \<and> sector_bytes fs mod 4 = 0 \<and> 0 < cluster_bytes fs \<and> 2 \<le> N \<and> N \<le> 0x0FFFFFF7 \<and>
     table_at fs + 4 * N \<le> data_at fs \<and> data_at fs + (N - 2) * cluster_bytes fs \<le> length d \<and> length d < 2 ^ 32"

definition fat_entry :: "fat_fs_t \<Rightarrow> bytes \<Rightarrow> nat \<Rightarrow> u32" where
  "fat_entry fs d c = of_nat (le (take 4 (drop (table_at fs + 4 * c) d)))"

definition cluster_data :: "fat_fs_t \<Rightarrow> bytes \<Rightarrow> nat \<Rightarrow> bytes" where
  "cluster_data fs d c = take (cluster_bytes fs) (drop (data_at fs + (c - 2) * cluster_bytes fs) d)"

definition patch :: "bytes \<Rightarrow> nat \<Rightarrow> bytes \<Rightarrow> bytes" where
  "patch d i xs = take i d @ xs @ drop (i + length xs) d"

definition set_entry :: "fat_fs_t \<Rightarrow> nat \<Rightarrow> u32 \<Rightarrow> bytes \<Rightarrow> bytes" where
  "set_entry fs c v d = patch d (table_at fs + 4 * c) (to_le 4 (unat v))"

definition set_data :: "fat_fs_t \<Rightarrow> nat \<Rightarrow> bytes \<Rightarrow> bytes \<Rightarrow> bytes" where
  \<comment> \<open>the first bytes of a cluster are overwritten\<close>
  "set_data fs c xs d = patch d (data_at fs + (c - 2) * cluster_bytes fs) xs"

subsection \<open>Bytes\<close>

lemma length_to_le [simp]: "length (to_le n v) = n"
  by (induction n arbitrary: v) simp_all

lemma le_to_le: "v < 256 ^ n \<Longrightarrow> le (to_le n v) = v"
proof (induction n arbitrary: v)
  case (Suc n)
  have "v div 256 < 256 ^ n" using Suc.prems by (simp add: less_mult_imp_div_less mult.commute)
  then have "le (to_le n (v div 256)) = v div 256" by (rule Suc.IH)
  then show ?case by (simp add: unat_of_nat take_bit_nat_def)
qed simp

lemma le_to_le_u32 [simp]: "of_nat (le (to_le 4 (unat v))) = (v :: u32)"
proof -
  have "unat v < 2 ^ 32" using unsigned_less [of v, where ?'a = nat] by simp
  then have "unat v < 256 ^ 4" by simp
  then show ?thesis by (simp add: le_to_le)
qed

lemma length_patch [simp]: "i + length xs \<le> length d \<Longrightarrow> length (patch d i xs) = length d"
  by (simp add: patch_def)

lemma put_at_patch: "i + length xs \<le> length d \<Longrightarrow> put_at d i xs = Some (patch d i xs)"
  by (simp add: put_at_def patch_def)

lemma patch_same: "i + length xs \<le> length d \<Longrightarrow> take (length xs) (drop i (patch d i xs)) = xs"
  by (simp add: patch_def)

lemma patch_before: "j + k \<le> i \<Longrightarrow> i \<le> length d \<Longrightarrow> take k (drop j (patch d i xs)) = take k (drop j d)"
  by (simp add: patch_def take_drop min_def)

lemma patch_after: "i + length xs \<le> j \<Longrightarrow> i + length xs \<le> length d \<Longrightarrow> drop j (patch d i xs) = drop j d"
  by (cases "i + length xs = j") (simp_all add: patch_def min_absorb1)

lemma patch_within: "i + length xs \<le> k \<Longrightarrow> o0 + k \<le> length d \<Longrightarrow>
  patch d o0 (patch (take k (drop o0 d)) i xs) = patch d (o0 + i) xs"
proof -
  assume a: "i + length xs \<le> k" "o0 + k \<le> length d"
  let ?t = "take k (drop o0 d)"
  have A: "drop (i + length xs) (take k (drop o0 d)) @ drop (o0 + k) d = drop (o0 + i + length xs) d"
  proof -
    have "drop (i + length xs) (take k e @ drop k e) = drop (i + length xs) (take k e) @ drop k e" if "k \<le> length e" for e
      using a(1) that by (simp only: drop_append length_take min_def) simp
    from this [of "drop o0 d"] have "drop (i + length xs) (drop o0 d) = drop (i + length xs) (take k (drop o0 d)) @ drop k (drop o0 d)"
      using a(2) by (simp del: drop_drop)
    then show ?thesis by (simp add: add.commute add.left_commute)
  qed
  have B: "take o0 d @ take i (drop o0 d) = take (o0 + i) d" by (simp add: take_add)
  have "take i ?t = take i (drop o0 d)" and len: "length (patch ?t i xs) = k" using a by (simp_all add: min_absorb1)
  then have p: "patch ?t i xs = take i (drop o0 d) @ xs @ drop (i + length xs) ?t" by (simp add: patch_def)
  have "patch d o0 (patch ?t i xs) = take o0 d @ patch ?t i xs @ drop (o0 + k) d" by (simp only: patch_def [of d] len)
  also have "\<dots> = (take o0 d @ take i (drop o0 d)) @ xs @ (drop (i + length xs) ?t @ drop (o0 + k) d)" by (simp only: p append_assoc)
  also have "\<dots> = patch d (o0 + i) xs" by (simp only: A B patch_def)
  finally show ?thesis .
qed

subsection \<open>Geometry\<close>

lemma ucast_mult_small: "unat (a :: u32) * unat (b :: u32) < 2 ^ 32 \<Longrightarrow> unat (a * b) = unat a * unat b"
  by (simp add: unat_word_ariths(2) unsigned_of_nat)

lemma ucast_u32_of_nat: "ucast (x :: u32) = (of_nat (unat x) :: u64)"
  by (rule word_unat_eq_iff [THEN iffD2]) (simp add: unsigned_ucast_eq)

lemma unat_ucast_u32: "unat (ucast (x :: u32) :: u64) = unat x"
proof -
  have "unat x < 2 ^ 32" using unsigned_less [of x, where ?'a = nat] by simp
  then show ?thesis by (simp add: unsigned_ucast_eq take_bit_nat_eq_self)
qed

lemma wrap_int_nat: "n < 2 ^ 31 \<Longrightarrow> wrap_int (int n) = int n"
  by (rule wrap_int_small) simp_all

lemma mod4_gap: "x < y \<Longrightarrow> y mod 4 = 0 \<Longrightarrow> x mod 4 = 0 \<Longrightarrow> x + 4 \<le> y" for x y :: nat
  by presburger

lemma fat_ok_length: "fat_ok fs N d \<Longrightarrow> length d < 2 ^ 32"
  by (simp add: fat_ok_def)

lemma fat_position_ok:
  assumes ok: "fat_ok fs N d" and c: "c < N"
  obtains k i where "fat_position fs (of_nat c) = Some (of_nat (k * sector_bytes fs), i)"
    and "k * sector_bytes fs + i = table_at fs + 4 * c" and "i + 4 \<le> sector_bytes fs" and "k * sector_bytes fs + sector_bytes fs \<le> length d"
proof -
  let ?ss = "sector_bytes fs" and ?k = "unat (ff_fatPointer fs) + 4 * c div sector_bytes fs"
  note ok' = ok [unfolded fat_ok_def]
  have lt: "table_at fs + 4 * c < data_at fs" "data_at fs \<le> length d" "length d < 2 ^ 32" "4 * c < 2 ^ 32" "0 < ?ss"
    using ok' c by auto
  have u: "unat (of_nat c * 4 :: u32) = 4 * c"
    using lt(4) by (simp add: unat_word_ariths unsigned_of_nat take_bit_nat_eq_self mult.commute)
  have q: "unat (of_nat c * 4 div ff_sectorSize fs) = 4 * c div ?ss" "unat (of_nat c * 4 mod ff_sectorSize fs) = 4 * c mod ?ss"
    using u by (simp_all add: unat_div unat_mod)
  have kss: "?k * ?ss + 4 * c mod ?ss = table_at fs + 4 * c"
    by (simp add: table_at_def add_mult_distrib)
  then have ksm: "?k * ?ss < 2 ^ 32" using lt by linarith
  then have k32: "?k < 2 ^ 32" using lt(5) by (metis less_le_trans le_neq_implies_less mult_le_mono2 nat_mult_1_right Suc_leI One_nat_def le_less_trans)
  have s32: "unat (ucast (ff_fatPointer fs + ucast (of_nat c * 4 div ff_sectorSize fs)) :: u32) = ?k"
  proof -
    have e: "unat (ff_fatPointer fs + ucast (of_nat c * 4 div ff_sectorSize fs)) = ?k"
      using k32 q(1) by (simp add: unat_word_ariths unsigned_ucast_eq take_bit_nat_eq_self)
    show ?thesis using k32 by (simp add: unsigned_ucast_eq e take_bit_nat_eq_self)
  qed
  have off: "ucast (ucast (ff_fatPointer fs + ucast (of_nat c * 4 div ff_sectorSize fs)) * ff_sectorSize fs :: u32) = (of_nat (?k * ?ss) :: u64)"
  proof -
    have "unat (ucast (ff_fatPointer fs + ucast (of_nat c * 4 div ff_sectorSize fs)) * ff_sectorSize fs :: u32) = ?k * ?ss"
      using ksm s32 by (subst ucast_mult_small) (simp_all only:)
    then show ?thesis by (metis ucast_u32_of_nat)
  qed
  have m4: "4 * c mod ?ss mod 4 = 0"
    using ok' by (simp add: mod_mod_cancel mod_eq_0_iff_dvd dvd_mod)
  then have i: "4 * (4 * c mod ?ss div 4) = 4 * c mod ?ss" by (metis add_0_right mult_div_mod_eq)
  have "4 * c mod ?ss < ?ss" "?ss mod 4 = 0" using ok' by simp_all
  then have i4: "4 * c mod ?ss + 4 \<le> ?ss" using m4 by (rule mod4_gap)
  have "?k < unat (ff_dataPointer fs)"
  proof -
    have "?k * ?ss < unat (ff_dataPointer fs) * ?ss" using kss lt(1) unfolding data_at_def by linarith
    then show ?thesis by simp
  qed
  then have "(?k + 1) * ?ss \<le> data_at fs" unfolding data_at_def by (intro mult_le_mono1) simp
  then have e: "?k * ?ss + ?ss \<le> length d" using lt(2) by (simp add: add_mult_distrib)
  have "fat_position fs (of_nat c) = Some (of_nat (?k * ?ss), 4 * c mod ?ss)"
    using lt(5) off i q(2) by (auto simp: fat_position_def Let_def unat_eq_0 simp del: of_nat_mult)
  then show ?thesis using kss i4 e by (rule that)
qed

lemma disk_read_ok: "i + k \<le> length d \<Longrightarrow> length d < 2 ^ 32 \<Longrightarrow> disk_read d (of_nat i) (of_nat k) = Some (take k (drop i d))"
  by (simp add: disk_read_def unsigned_of_nat take_bit_nat_eq_self)

lemma disk_write_ok: "i + length xs \<le> length d \<Longrightarrow> length d < 2 ^ 32 \<Longrightarrow> disk_write d (of_nat i) xs = Some (patch d i xs)"
  by (simp add: disk_write_def put_at_patch unsigned_of_nat take_bit_nat_eq_self)

lemma fat_get_next_cluster_ok:
  assumes ok: "fat_ok fs N d" and c: "c < N"
  shows "fat_get_next_cluster fs (of_nat c) d = Some (fat_entry fs d c AND 0x0FFFFFFF)"
proof -
  let ?ss = "sector_bytes fs"
  obtain k i where p: "fat_position fs (of_nat c) = Some (of_nat (k * ?ss), i)" "k * ?ss + i = table_at fs + 4 * c" "i + 4 \<le> ?ss" "k * ?ss + ?ss \<le> length d"
    using fat_position_ok [OF ok c] .
  have r: "disk_read d (of_nat (k * ?ss)) (ucast (ff_sectorSize fs)) = Some (take ?ss (drop (k * ?ss) d))"
    using disk_read_ok [OF p(4) fat_ok_length [OF ok]] by (simp only: ucast_u32_of_nat)
  have "rd32 (take ?ss (drop (k * ?ss) d)) i = Some (fat_entry fs d c)"
    using p(3,4) by (simp add: rd32_def fat_entry_def drop_take min_absorb1 p(2) [symmetric] add.commute)
  then show ?thesis using p(1) r by (simp add: fat_get_next_cluster_def del: of_nat_mult)
qed

lemma fat_update_fat_ok:
  assumes ok: "fat_ok fs N d" and c: "c < N"
  shows "fat_update_fat fs (of_nat c) v d = Some (set_entry fs c v d)"
proof -
  let ?ss = "sector_bytes fs"
  obtain k i where p: "fat_position fs (of_nat c) = Some (of_nat (k * ?ss), i)" "k * ?ss + i = table_at fs + 4 * c" "i + 4 \<le> ?ss" "k * ?ss + ?ss \<le> length d"
    using fat_position_ok [OF ok c] .
  let ?t = "take ?ss (drop (k * ?ss) d)"
  have r: "disk_read d (of_nat (k * ?ss)) (ucast (ff_sectorSize fs)) = Some ?t"
    using disk_read_ok [OF p(4) fat_ok_length [OF ok]] by (simp only: ucast_u32_of_nat)
  have w: "put_at ?t i (to_le 4 (unat v)) = Some (patch ?t i (to_le 4 (unat v)))"
    using p(3,4) by (simp add: put_at_patch)
  have l: "length (patch ?t i (to_le 4 (unat v))) = ?ss" using p(3,4) by simp
  have "disk_write d (of_nat (k * ?ss)) (patch ?t i (to_le 4 (unat v))) = Some (patch d (k * ?ss) (patch ?t i (to_le 4 (unat v))))"
    using p(4) l ok by (intro disk_write_ok) (simp_all add: fat_ok_def)
  also have "patch d (k * ?ss) (patch ?t i (to_le 4 (unat v))) = set_entry fs c v d"
    using p(3,4) by (simp add: patch_within set_entry_def p(2))
  finally show ?thesis using p(1) r w by (simp add: fat_update_fat_def del: of_nat_mult)
qed

lemma set_entry_bounds: "fat_ok fs N d \<Longrightarrow> c < N \<Longrightarrow> table_at fs + 4 * c + 4 \<le> data_at fs \<and> data_at fs \<le> length d"
  by (auto simp: fat_ok_def)

lemma length_set_entry [simp]: "fat_ok fs N d \<Longrightarrow> c < N \<Longrightarrow> length (set_entry fs c v d) = length d"
  using set_entry_bounds [of fs N d c] by (simp add: set_entry_def)

lemma fat_ok_set_entry: "fat_ok fs N d \<Longrightarrow> c < N \<Longrightarrow> fat_ok fs N (set_entry fs c v d)"
  by (simp add: fat_ok_def [of fs N "set_entry fs c v d"]) (simp add: fat_ok_def)

lemma fat_entry_set_entry:
  assumes ok: "fat_ok fs N d" and c: "c < N"
  shows "fat_entry fs (set_entry fs c v d) c' = (if c' = c then v else fat_entry fs d c')"
proof -
  have b: "table_at fs + 4 * c + 4 \<le> length d" using set_entry_bounds [OF ok c] by simp
  consider "c' = c" | "c' < c" | "c < c'" by linarith
  then show ?thesis
  proof cases
    case 1
    then show ?thesis using patch_same [of "table_at fs + 4 * c" "to_le 4 (unat v)" d] b by (simp add: fat_entry_def set_entry_def)
  next
    case 2
    then show ?thesis using b by (simp add: fat_entry_def set_entry_def patch_before)
  next
    case 3
    then show ?thesis using b by (simp add: fat_entry_def set_entry_def patch_after)
  qed
qed

lemma cluster_data_set_entry: "fat_ok fs N d \<Longrightarrow> c < N \<Longrightarrow> cluster_data fs (set_entry fs c v d) c' = cluster_data fs d c'"
  using set_entry_bounds [of fs N d c] by (simp add: cluster_data_def set_entry_def patch_after)

subsection \<open>Clusters\<close>

lemma cluster_size_ok:
  assumes "fat_ok fs N d" "2 < N"
  shows "unat (cluster_size fs) = cluster_bytes fs" and "cluster_bytes fs < 2 ^ 32"
proof -
  have "1 * cluster_bytes fs \<le> (N - 2) * cluster_bytes fs" using assms(2) by (intro mult_le_mono1) simp
  moreover have "data_at fs + (N - 2) * cluster_bytes fs \<le> length d" "length d < 2 ^ 32" using assms(1) by (simp_all add: fat_ok_def)
  ultimately show b: "cluster_bytes fs < 2 ^ 32" by linarith
  then show "unat (cluster_size fs) = cluster_bytes fs" by (simp add: cluster_size_def cluster_bytes_def ucast_mult_small)
qed

lemma cluster_end: "fat_ok fs N d \<Longrightarrow> 2 \<le> c \<Longrightarrow> c < N \<Longrightarrow> data_at fs + (c - 2) * cluster_bytes fs + cluster_bytes fs \<le> length d"
proof -
  assume a: "fat_ok fs N d" "2 \<le> c" "c < N"
  have "(c - 2 + 1) * cluster_bytes fs \<le> (N - 2) * cluster_bytes fs" using a by (intro mult_le_mono1) linarith
  then show ?thesis using a(1) by (simp add: fat_ok_def add_mult_distrib)
qed

lemma cluster_offset_ok:
  assumes "fat_ok fs N d" "2 \<le> c" "c < N"
  shows "cluster_offset fs (of_nat c) = of_nat (data_at fs + (c - 2) * cluster_bytes fs)"
proof -
  have e: "data_at fs + (c - 2) * cluster_bytes fs + cluster_bytes fs \<le> length d" by (rule cluster_end [OF assms])
  have n: "2 < N" using assms by linarith
  have l: "length d < 2 ^ 32" "0 < cluster_bytes fs" using assms(1) by (simp_all add: fat_ok_def)
  have c32: "c < 2 ^ 32" using set_entry_bounds [OF assms(1,3)] l by linarith
  have "unat (of_nat c - 2 :: u32) = c - 2"
    using assms(2) c32 by (simp add: unat_sub word_le_nat_alt unsigned_of_nat take_bit_nat_eq_self)
  then have "unat ((of_nat c - 2) * cluster_size fs) = (c - 2) * cluster_bytes fs"
    using cluster_size_ok [OF assms(1) n] e l by (subst ucast_mult_small) simp_all
  then have "ucast ((of_nat c - 2) * cluster_size fs) = (of_nat ((c - 2) * cluster_bytes fs) :: u64)" by (simp only: ucast_u32_of_nat)
  moreover have "ff_dataPointer fs * ucast (ff_sectorSize fs) = of_nat (data_at fs)"
    by (simp add: data_at_def)
  ultimately show ?thesis by (simp only: cluster_offset_def of_nat_add)
qed

lemma read_cluster:
  assumes "fat_ok fs N d" "2 \<le> c" "c < N" "k \<le> cluster_bytes fs"
  shows "disk_read d (cluster_offset fs (of_nat c)) (of_nat k) = Some (take k (cluster_data fs d c))"
proof -
  have "disk_read d (of_nat (data_at fs + (c - 2) * cluster_bytes fs)) (of_nat k) = Some (take k (drop (data_at fs + (c - 2) * cluster_bytes fs) d))"
    using cluster_end [OF assms(1-3)] assms(4) by (intro disk_read_ok fat_ok_length [OF assms(1)]) linarith
  then show ?thesis using assms by (simp only: cluster_offset_ok cluster_data_def take_take min_absorb1)
qed

lemma write_cluster:
  assumes "fat_ok fs N d" "2 \<le> c" "c < N" "length xs \<le> cluster_bytes fs"
  shows "disk_write d (cluster_offset fs (of_nat c)) xs = Some (set_data fs c xs d)"
proof -
  have "disk_write d (of_nat (data_at fs + (c - 2) * cluster_bytes fs)) xs = Some (patch d (data_at fs + (c - 2) * cluster_bytes fs) xs)"
    using cluster_end [OF assms(1-3)] assms(4) by (intro disk_write_ok fat_ok_length [OF assms(1)]) linarith
  then show ?thesis using assms by (simp only: cluster_offset_ok set_data_def)
qed

lemma length_cluster_data [simp]: "fat_ok fs N d \<Longrightarrow> 2 \<le> c \<Longrightarrow> c < N \<Longrightarrow> length (cluster_data fs d c) = cluster_bytes fs"
  using cluster_end [of fs N d c] by (simp add: cluster_data_def)

lemma set_data_frame:
  assumes ok: "fat_ok fs N d" and c: "2 \<le> c" "c < N" and xs: "length xs \<le> cluster_bytes fs"
  shows "fat_ok fs N (set_data fs c xs d)" and "c' < N \<Longrightarrow> fat_entry fs (set_data fs c xs d) c' = fat_entry fs d c'"
proof -
  have e: "data_at fs + (c - 2) * cluster_bytes fs + length xs \<le> length d" using cluster_end [OF ok c] xs by linarith
  then show "fat_ok fs N (set_data fs c xs d)" using ok by (simp add: fat_ok_def set_data_def)
  show "c' < N \<Longrightarrow> fat_entry fs (set_data fs c xs d) c' = fat_entry fs d c'"
    using set_entry_bounds [OF ok, of c'] e by (simp add: fat_entry_def set_data_def patch_before)
qed

lemma cluster_data_set_data:
  assumes ok: "fat_ok fs N d" and c: "2 \<le> c" "c < N" and xs: "length xs \<le> cluster_bytes fs" and c': "2 \<le> c'"
  shows "cluster_data fs (set_data fs c xs d) c' = (if c' = c then xs @ drop (length xs) (cluster_data fs d c) else cluster_data fs d c')"
proof -
  let ?o = "\<lambda>c. data_at fs + (c - 2) * cluster_bytes fs"
  have e: "?o c + cluster_bytes fs \<le> length d" by (rule cluster_end [OF ok c])
  consider "c' = c" | "c' < c" | "c < c'" by linarith
  then show ?thesis
  proof cases
    case 1
    have "take (length xs) (drop (?o c) d) @ drop (length xs) (drop (?o c) d) = drop (?o c) d" by (rule append_take_drop_id)
    show ?thesis using 1 e xs by (simp add: cluster_data_def set_data_def patch_def take_drop add.commute)
  next
    case 2
    have "(c' - 2 + 1) * cluster_bytes fs \<le> (c - 2) * cluster_bytes fs" using 2 c' by (intro mult_le_mono1) linarith
    then show ?thesis using 2 e by (simp add: cluster_data_def set_data_def patch_before)
  next
    case 3
    have "(c - 2 + 1) * cluster_bytes fs \<le> (c' - 2) * cluster_bytes fs" using 3 c by (intro mult_le_mono1) linarith
    then show ?thesis using 3 e xs by (simp add: cluster_data_def set_data_def patch_after)
  qed
qed

subsection \<open>Chains\<close>

definition next_cluster :: "fat_fs_t \<Rightarrow> bytes \<Rightarrow> nat \<Rightarrow> u32" where
  "next_cluster fs d c = fat_entry fs d c AND 0x0FFFFFFF"

fun is_chain :: "fat_fs_t \<Rightarrow> nat \<Rightarrow> bytes \<Rightarrow> nat list \<Rightarrow> bool" where
  \<comment> \<open>the clusters of a file, the last of which is marked as the end\<close>
  "is_chain fs N d [] \<longleftrightarrow> False"
| "is_chain fs N d [c] \<longleftrightarrow> 2 \<le> c \<and> c < N \<and> 0x0FFFFFF8 \<le> next_cluster fs d c"
| "is_chain fs N d (c # c' # cs) \<longleftrightarrow> 2 \<le> c \<and> c < N \<and> next_cluster fs d c = of_nat c' \<and> is_chain fs N d (c' # cs)"

definition chain_data :: "fat_fs_t \<Rightarrow> bytes \<Rightarrow> nat list \<Rightarrow> bytes" where
  "chain_data fs d cs = concat (map (cluster_data fs d) cs)"

lemma is_chain_range: "is_chain fs N d cs \<Longrightarrow> c \<in> set cs \<Longrightarrow> 2 \<le> c \<and> c < N"
  by (induction fs N d cs rule: is_chain.induct) auto

lemma is_chain_nonempty: "is_chain fs N d cs \<Longrightarrow> cs \<noteq> []"
  by (cases cs) simp_all

lemma cluster_number_small:
  assumes "fat_ok fs N d" "c < N"
  shows "(of_nat c :: u32) < 0x0FFFFFF7" and "\<not> (0x0FFFFFF8 :: u32) \<le> of_nat c"
  using assms by (simp_all add: fat_ok_def word_less_nat_alt word_le_nat_alt unsigned_of_nat take_bit_nat_eq_self)

lemma fat_get_next: "fat_ok fs N d \<Longrightarrow> c < N \<Longrightarrow> fat_get_next_cluster fs (of_nat c) d = Some (next_cluster fs d c)"
  by (simp add: fat_get_next_cluster_ok next_cluster_def)

lemma chain_data_length: "fat_ok fs N d \<Longrightarrow> is_chain fs N d cs \<Longrightarrow> length (chain_data fs d cs) = length cs * cluster_bytes fs"
  by (induction fs N d cs rule: is_chain.induct) (simp_all add: chain_data_def)

lemma read_loop_chain:
  "is_chain fs N d cs \<Longrightarrow> fat_ok fs N d \<Longrightarrow> length cs < n \<Longrightarrow> read_loop n fs (of_nat (hd cs)) sz d = Some (take sz (chain_data fs d cs))"
proof (induction fs N d cs arbitrary: n sz rule: is_chain.induct)
  case (2 fs N d c)
  obtain n' where n: "n = Suc n'" using "2.prems"(3) by (cases n) simp_all
  have c: "2 \<le> c" "c < N" "0x0FFFFFF8 \<le> next_cluster fs d c" using "2.prems"(1) by simp_all
  have cb: "unat (cluster_size fs) = cluster_bytes fs" using c by (intro cluster_size_ok(1) [OF "2.prems"(2)]) linarith
  show ?case using c n cb "2.prems"(2)
    by (auto simp: chain_data_def read_cluster fat_get_next Let_def)
next
  case (3 fs N d c c' cs)
  obtain n' where n: "n = Suc n'" "length (c' # cs) < n'" using "3.prems"(3) by (cases n) simp_all
  have c: "2 \<le> c" "c < N" "next_cluster fs d c = of_nat c'" "is_chain fs N d (c' # cs)" using "3.prems"(1) by simp_all
  have cb: "unat (cluster_size fs) = cluster_bytes fs" using c by (intro cluster_size_ok(1) [OF "3.prems"(2)]) linarith
  have s: "\<not> (0x0FFFFFF8 :: u32) \<le> of_nat c'" using is_chain_range [OF c(4), of c'] by (intro cluster_number_small(2) [OF "3.prems"(2)]) simp
  have IH: "read_loop n' fs (of_nat c') k d = Some (take k (chain_data fs d (c' # cs)))" for k
    using "3.IH" [OF c(4) "3.prems"(2) n(2)] by simp
  show ?case
  proof (cases "sz \<le> cluster_bytes fs")
    case True
    then show ?thesis using c n cb "3.prems"(2) by (auto simp: chain_data_def read_cluster Let_def)
  next
    case False
    then have "take sz (chain_data fs d (c # c' # cs)) = cluster_data fs d c @ take (sz - cluster_bytes fs) (chain_data fs d (c' # cs))"
      using c(1,2) "3.prems"(2) by (simp add: chain_data_def)
    then show ?thesis using False c n cb s IH "3.prems"(2) by (simp add: read_cluster fat_get_next Let_def)
  qed
qed simp

lemma is_chain_drop: "is_chain fs N d cs \<Longrightarrow> k < length cs \<Longrightarrow> is_chain fs N d (drop k cs)"
proof (induction fs N d cs arbitrary: k rule: is_chain.induct)
  case (3 fs N d c c' cs)
  then show ?case by (cases k) simp_all
qed simp_all

lemma skip_loop_chain:
  "is_chain fs N d cs \<Longrightarrow> fat_ok fs N d \<Longrightarrow> length cs < n \<Longrightarrow>
   skip_loop n fs (of_nat (hd cs)) off d =
     Some (if unat off div cluster_bytes fs < length cs then Some (of_nat (cs ! (unat off div cluster_bytes fs))) else None)"
proof (induction fs N d cs arbitrary: n off rule: is_chain.induct)
  case (2 fs N d c)
  obtain n' where n: "n = Suc n'" using "2.prems"(3) by (cases n) simp_all
  have c: "2 \<le> c" "c < N" "0x0FFFFFF8 \<le> next_cluster fs d c" using "2.prems"(1) by simp_all
  have cb: "unat (cluster_size fs) = cluster_bytes fs" using c by (intro cluster_size_ok(1) [OF "2.prems"(2)]) linarith
  have le: "ucast (cluster_size fs) \<le> off \<longleftrightarrow> cluster_bytes fs \<le> unat off"
    by (simp add: word_le_nat_alt unat_ucast_u32 cb)
  have "0 < cluster_bytes fs" using "2.prems"(2) by (simp add: fat_ok_def)
  then show ?case using c n le fat_get_next [OF "2.prems"(2) c(2)] by (auto simp: div_eq_0_iff not_le)
next
  case (3 fs N d c c' cs)
  obtain n' where n: "n = Suc n'" "length (c' # cs) < n'" using "3.prems"(3) by (cases n) simp_all
  have c: "2 \<le> c" "c < N" "next_cluster fs d c = of_nat c'" "is_chain fs N d (c' # cs)" using "3.prems"(1) by simp_all
  have cb: "unat (cluster_size fs) = cluster_bytes fs" using c by (intro cluster_size_ok(1) [OF "3.prems"(2)]) linarith
  have s: "\<not> (0x0FFFFFF8 :: u32) \<le> of_nat c'" using is_chain_range [OF c(4), of c'] by (intro cluster_number_small(2) [OF "3.prems"(2)]) simp
  have le: "ucast (cluster_size fs) \<le> off \<longleftrightarrow> cluster_bytes fs \<le> unat off"
    by (simp add: word_le_nat_alt unat_ucast_u32 cb)
  have pos: "0 < cluster_bytes fs" using "3.prems"(2) by (simp add: fat_ok_def)
  show ?case
  proof (cases "cluster_bytes fs \<le> unat off")
    case True
    have u: "unat (off - ucast (cluster_size fs)) = unat off - cluster_bytes fs"
      using True by (simp add: unat_sub le unat_ucast_u32 cb)
    have d: "unat off div cluster_bytes fs = Suc ((unat off - cluster_bytes fs) div cluster_bytes fs)"
      using True pos by (simp add: le_div_geq)
    have "skip_loop n fs (of_nat c) off d = skip_loop n' fs (of_nat (hd (c' # cs))) (off - ucast (cluster_size fs)) d"
      using True le n(1) s fat_get_next [OF "3.prems"(2) c(2)] c(3) by simp
    also have "\<dots> = Some (if unat (off - ucast (cluster_size fs)) div cluster_bytes fs < length (c' # cs)
        then Some (of_nat ((c' # cs) ! (unat (off - ucast (cluster_size fs)) div cluster_bytes fs))) else None)"
      by (rule "3.IH" [OF c(4) "3.prems"(2) n(2)])
    finally show ?thesis by (simp add: u d)
  next
    case False
    then show ?thesis using le n(1) pos by simp
  qed
qed simp

text \<open>C18. \<^verbatim>\<open>fat_read\<close> on a file whose clusters are \<open>cs\<close>: the number of whole clusters in the offset is skipped along the chain, and the bytes are
  those of the remaining clusters from the beginning of a cluster on, at most as many as were asked for; the rest of the offset has no effect. An
  offset behind the last cluster gives \<^verbatim>\<open>-1\<close>.
\<close>

theorem fat_read_follows_chain:
  assumes "fat_node node s = Some (e, fs)" and "fat_ok fs N (disk s)" and "is_chain fs N (disk s) cs" and "fe_cluster e = of_nat (hd cs)"
    and "length cs < n" and "length cs * cluster_bytes fs < 2 ^ 31"
  shows "fat_read n node sz off s =
    (let k = unat off div cluster_bytes fs in
     if k < length cs
     then Some (int (min (unat sz) ((length cs - k) * cluster_bytes fs)), map Some (take (unat sz) (chain_data fs (disk s) (drop k cs))), s)
     else Some (-1, [], s))"
proof (cases "unat off div cluster_bytes fs < length cs")
  case False
  then show ?thesis using skip_loop_chain [OF assms(3,2,5), of off] assms(1,4) by (simp add: fat_read_def)
next
  case True
  let ?k = "unat off div cluster_bytes fs"
  have ch: "is_chain fs N (disk s) (drop ?k cs)" by (rule is_chain_drop [OF assms(3) True])
  have h: "hd (drop ?k cs) = cs ! ?k" using True by (rule hd_drop_conv_nth)
  have r: "read_loop n fs (of_nat (cs ! ?k)) (unat sz) (disk s) = Some (take (unat sz) (chain_data fs (disk s) (drop ?k cs)))"
    using read_loop_chain [OF ch assms(2), of n "unat sz"] assms(5) h by simp
  have l: "length (take (unat sz) (chain_data fs (disk s) (drop ?k cs))) = min (unat sz) ((length cs - ?k) * cluster_bytes fs)"
    using chain_data_length [OF assms(2) ch] by (simp add: min.commute)
  have "(length cs - ?k) * cluster_bytes fs \<le> length cs * cluster_bytes fs" by (intro mult_le_mono1) simp
  then have "min (unat sz) ((length cs - ?k) * cluster_bytes fs) < 2 ^ 31" using assms(6) by (simp only: min_less_iff_disj) linarith
  then have "wrap_int (int (min (unat sz) ((length cs - ?k) * cluster_bytes fs))) = int (min (unat sz) ((length cs - ?k) * cluster_bytes fs))"
    by (rule wrap_int_nat)
  then show ?thesis using True skip_loop_chain [OF assms(3,2,5), of off] assms(1,4) r l by (simp add: fat_read_def fat_read_file_data_def Let_def)
qed

subsection \<open>Writing\<close>



lemma write_one_cluster:
  assumes ok: "fat_ok fs N d" and c: "2 \<le> c" "c < N" and data: "length data \<le> cluster_bytes fs"
  shows "write_loop (Suc (Suc n)) junk fs start (of_nat c) data d =
    Some (0, set_entry fs c 0x0FFFFFFF (if data = [] then d else set_data fs c data d))"
proof -
  have cb: "unat (cluster_size fs) = cluster_bytes fs" using c by (intro cluster_size_ok(1) [OF ok]) linarith
  show ?thesis
  proof (cases "data = []")
    case True
    then show ?thesis using fat_update_fat_ok [OF ok c(2)] by simp
  next
    case False
    have ok1: "fat_ok fs N (set_data fs c data d)" by (rule set_data_frame(1) [OF ok c data])
    have "length data < cluster_bytes fs \<or> length data = cluster_bytes fs" using data by linarith
    then show ?thesis using False cb write_cluster [OF ok c data] fat_update_fat_ok [OF ok1 c(2)] by (auto simp: Let_def)
  qed
qed

text \<open>C17. Data of at most one cluster: \<^verbatim>\<open>fat_write_file_data\<close> stores them in the given cluster, whatever the buffer of the free-cluster search holds, and
  marks the cluster as the end of the file; \<^verbatim>\<open>fat_read_file_data\<close> then returns exactly these bytes. The volume stays well formed, and no other
  cluster and no other entry of the table changes.
\<close>

theorem fat_write_read_cluster:
  assumes "fat_ok fs N d" and "2 \<le> c" "c < N" and "length data \<le> cluster_bytes fs" "cluster_bytes fs < 2 ^ 31"
  shows "\<exists>d1. fat_write_file_data (n + 2) junk fs (of_nat c) data d = Some (0, d1) \<and>
    fat_read_file_data (m + 2) fs (of_nat c) (of_nat (length data)) d1 = Some (int (length data), data) \<and>
    fat_ok fs N d1 \<and> is_chain fs N d1 [c] \<and>
    (\<forall>c'. c' \<noteq> c \<longrightarrow> c' < N \<longrightarrow> fat_entry fs d1 c' = fat_entry fs d c' \<and> (2 \<le> c' \<longrightarrow> cluster_data fs d1 c' = cluster_data fs d c'))"
proof -
  let ?d = "if data = [] then d else set_data fs c data d" and ?d1 = "set_entry fs c 0x0FFFFFFF (if data = [] then d else set_data fs c data d)"
  have ok: "fat_ok fs N ?d" using set_data_frame(1) [OF assms(1-4)] assms(1) by simp
  have t: "c' < N \<Longrightarrow> fat_entry fs ?d c' = fat_entry fs d c'" for c' using set_data_frame(2) [OF assms(1-4)] by simp
  have cl: "2 \<le> c' \<Longrightarrow> cluster_data fs ?d c' = (if c' = c then data @ drop (length data) (cluster_data fs d c) else cluster_data fs d c')" for c'
    using cluster_data_set_data [OF assms(1-4)] by simp
  have ok1: "fat_ok fs N ?d1" by (rule fat_ok_set_entry [OF ok assms(3)])
  have ch: "is_chain fs N ?d1 [c]" using assms(2,3) fat_entry_set_entry [OF ok assms(3)] by (simp add: next_cluster_def)
  have cd: "chain_data fs ?d1 [c] = data @ drop (length data) (cluster_data fs d c)"
    using cl [OF assms(2)] cluster_data_set_entry [OF ok assms(3)] by (simp add: chain_data_def)
  have len: "unat (of_nat (length data) :: u64) = length data"
    using assms(4,5) by (simp add: unsigned_of_nat take_bit_nat_eq_self)
  have w: "fat_write_file_data (n + 2) junk fs (of_nat c) data d = Some (0, ?d1)"
    using write_one_cluster [OF assms(1-4)] by (simp add: fat_write_file_data_def)
  have "read_loop (m + 2) fs (of_nat (hd [c])) (length data) ?d1 = Some (take (length data) (chain_data fs ?d1 [c]))"
    by (rule read_loop_chain [OF ch ok1]) simp
  then have r: "fat_read_file_data (m + 2) fs (of_nat c) (of_nat (length data)) ?d1 = Some (int (length data), data)"
    using cd len wrap_int_nat [of "length data"] assms(4,5) by (simp add: fat_read_file_data_def)
  have f: "\<forall>c'. c' \<noteq> c \<longrightarrow> c' < N \<longrightarrow> fat_entry fs ?d1 c' = fat_entry fs d c' \<and> (2 \<le> c' \<longrightarrow> cluster_data fs ?d1 c' = cluster_data fs d c')"
  proof (intro allI impI conjI)
    fix c' assume "c' \<noteq> c" "c' < N"
    then show "fat_entry fs ?d1 c' = fat_entry fs d c'" using fat_entry_set_entry [OF ok assms(3)] t by simp
    assume "2 \<le> c'"
    then show "cluster_data fs ?d1 c' = cluster_data fs d c'" using \<open>c' \<noteq> c\<close> cl cluster_data_set_entry [OF ok assms(3)] by simp
  qed
  show ?thesis by (intro exI [of _ ?d1] conjI w r ok1 ch f)
qed

lemma write_step:
  assumes ok: "fat_ok fs N d" and st: "st < N" and c: "2 \<le> c" "c < N" and c2: "c2 < N" "next_cluster fs d st = of_nat c2"
    and xs: "length xs = cluster_bytes fs" "rest \<noteq> []"
  shows "write_loop (Suc n) junk fs (of_nat st) (of_nat c) (xs @ rest) d = write_loop n junk fs (of_nat st) (of_nat c2) rest (set_data fs c xs d)"
proof -
  have cb: "unat (cluster_size fs) = cluster_bytes fs" using c by (intro cluster_size_ok(1) [OF ok]) linarith
  have le: "length xs \<le> cluster_bytes fs" using xs by simp
  have ok1: "fat_ok fs N (set_data fs c xs d)" by (rule set_data_frame(1) [OF ok c le])
  have nx: "fat_get_next_cluster fs (of_nat st) (set_data fs c xs d) = Some (of_nat c2)"
    using fat_get_next [OF ok1 st] set_data_frame(2) [OF ok c le st] c2(2) by (simp add: next_cluster_def)
  have s: "\<not> (0x0FFFFFFF :: u32) \<le> of_nat c2"
    using cluster_number_small(1) [OF ok c2(1)] by (simp add: word_less_nat_alt word_le_nat_alt)
  show ?thesis using cb xs nx s write_cluster [OF ok c le] by (simp add: Let_def)
qed

text \<open>C21. A write of more than two clusters to a file that has them loses data although it reports success: the next cluster is looked up from the first
  cluster of the file in every round, so the third cluster's data overwrite the second's, and the file ends there.
\<close>

theorem fat_write_third_cluster_overwrites:
  assumes "fat_ok fs N d" and "2 \<le> c1" "c1 < N" "2 \<le> c2" "c2 < N" "c1 \<noteq> c2" and "next_cluster fs d c1 = of_nat c2"
    and "length xs = cluster_bytes fs" "length ys = cluster_bytes fs" "zs \<noteq> []" "length zs \<le> cluster_bytes fs" and "2 * cluster_bytes fs < 2 ^ 31"
  shows "\<exists>d1. fat_write_file_data (n + 4) junk fs (of_nat c1) (xs @ ys @ zs) d = Some (0, d1) \<and>
    fat_read_file_data (m + 3) fs (of_nat c1) (of_nat (3 * cluster_bytes fs)) d1 = Some (int (2 * cluster_bytes fs), xs @ zs @ drop (length zs) ys)"
proof -
  let ?e1 = "set_data fs c1 xs d"
  let ?e2 = "set_data fs c2 ys ?e1"
  let ?e3 = "set_data fs c2 zs ?e2"
  let ?d1 = "set_entry fs c2 0x0FFFFFFF ?e3"
  have le: "length xs \<le> cluster_bytes fs" "length ys \<le> cluster_bytes fs" using assms(8,9) by simp_all
  have ok1: "fat_ok fs N ?e1" by (rule set_data_frame(1) [OF assms(1-3) le(1)])
  have ok2: "fat_ok fs N ?e2" by (rule set_data_frame(1) [OF ok1 assms(4,5) le(2)])
  have ok3: "fat_ok fs N ?e3" by (rule set_data_frame(1) [OF ok2 assms(4,5,11)])
  have ok4: "fat_ok fs N ?d1" by (rule fat_ok_set_entry [OF ok3 assms(5)])
  have n1: "next_cluster fs ?e1 c1 = of_nat c2" using assms(3,7) set_data_frame(2) [OF assms(1-3) le(1)] by (simp add: next_cluster_def)
  then have n2: "next_cluster fs ?e2 c1 = of_nat c2" using assms(3) set_data_frame(2) [OF ok1 assms(4,5) le(2)] by (simp add: next_cluster_def)
  then have n3: "next_cluster fs ?e3 c1 = of_nat c2" using assms(3) set_data_frame(2) [OF ok2 assms(4,5,11)] by (simp add: next_cluster_def)
  have "write_loop (n + 4) junk fs (of_nat c1) (of_nat c1) (xs @ ys @ zs) d = write_loop (Suc (Suc n)) junk fs (of_nat c1) (of_nat c2) zs ?e2"
    using write_step [OF assms(1,3) assms(2,3,5,7,8), of "ys @ zs" "Suc (Suc (Suc n))"]
      write_step [OF ok1 assms(3) assms(4,5) assms(5) n1 assms(9,10), of "Suc (Suc n)"] assms(10) by (simp add: eval_nat_numeral)
  also have "\<dots> = Some (0, ?d1)" using write_one_cluster [OF ok2 assms(4,5,11)] assms(10) by simp
  finally have w: "fat_write_file_data (n + 4) junk fs (of_nat c1) (xs @ ys @ zs) d = Some (0, ?d1)" by (simp add: fat_write_file_data_def)
  have ch: "is_chain fs N ?d1 [c1, c2]"
    using assms(2-6) n3 fat_entry_set_entry [OF ok3 assms(5)] by (simp add: next_cluster_def)
  have "cluster_data fs ?d1 c1 = xs" "cluster_data fs ?d1 c2 = zs @ drop (length zs) ys"
    using assms(2-6,8,9,11) length_cluster_data [OF assms(1-3)] length_cluster_data [OF assms(1,4,5)]
      cluster_data_set_entry [OF ok3 assms(5)] cluster_data_set_data [OF ok2 assms(4,5,11)]
      cluster_data_set_data [OF ok1 assms(4,5) le(2)] cluster_data_set_data [OF assms(1-3) le(1)] by simp_all
  then have cd: "chain_data fs ?d1 [c1, c2] = xs @ zs @ drop (length zs) ys" by (simp add: chain_data_def)
  have len: "unat (of_nat (3 * cluster_bytes fs) :: u64) = 3 * cluster_bytes fs"
    using assms(12) by (simp add: unsigned_of_nat take_bit_nat_eq_self del: of_nat_mult)
  have "read_loop (m + 3) fs (of_nat (hd [c1, c2])) (3 * cluster_bytes fs) ?d1 = Some (take (3 * cluster_bytes fs) (chain_data fs ?d1 [c1, c2]))"
    by (rule read_loop_chain [OF ch ok4]) simp
  then have rl: "read_loop (m + 3) fs (of_nat c1) (3 * cluster_bytes fs) ?d1 = Some (xs @ zs @ drop (length zs) ys)"
    using assms(8,9,11) by (simp add: cd)
  have "int (length (xs @ zs @ drop (length zs) ys)) = int (2 * cluster_bytes fs)" using assms(8,9,11) by simp
  then have r: "fat_read_file_data (m + 3) fs (of_nat c1) (of_nat (3 * cluster_bytes fs)) ?d1 = Some (int (2 * cluster_bytes fs), xs @ zs @ drop (length zs) ys)"
    unfolding fat_read_file_data_def len rl using wrap_int_nat [OF assms(12)] by (simp del: of_nat_mult)
  show ?thesis using w r by blast
qed

subsection \<open>Freeing\<close>

text \<open>Freeing a chain walks it once: every cluster of it becomes free, and nothing else changes.\<close>

lemma is_chain_set_entry: "fat_ok fs N d \<Longrightarrow> c < N \<Longrightarrow> c \<notin> set cs \<Longrightarrow> is_chain fs N (set_entry fs c v d) cs = is_chain fs N d cs"
  by (induction fs N d cs rule: is_chain.induct) (auto simp: next_cluster_def fat_entry_set_entry)

lemma free_chain_frees:
  "is_chain fs N d cs \<Longrightarrow> fat_ok fs N d \<Longrightarrow> distinct cs \<Longrightarrow> length cs < n \<Longrightarrow>
   \<exists>d1. free_chain n fs (of_nat (hd cs)) d = Some d1 \<and> fat_ok fs N d1 \<and> length d1 = length d \<and>
     (\<forall>c < N. fat_entry fs d1 c = (if c \<in> set cs then 0 else fat_entry fs d c)) \<and> (\<forall>c. cluster_data fs d1 c = cluster_data fs d c)"
proof (induction cs arbitrary: d n)
  case (Cons c cs)
  obtain n' where n: "n = Suc n'" "length cs < n'" using Cons.prems(4) by (cases n) simp_all
  have c: "2 \<le> c" "c < N" using is_chain_range [OF Cons.prems(1), of c] by simp_all
  let ?d = "set_entry fs c 0 d"
  have ok: "fat_ok fs N ?d" by (rule fat_ok_set_entry [OF Cons.prems(2) c(2)])
  have st: "free_chain n fs (of_nat c) d = free_chain n' fs (next_cluster fs d c) ?d"
    using n(1) cluster_number_small(1) [OF Cons.prems(2) c(2)] fat_get_next [OF Cons.prems(2) c(2)] fat_update_fat_ok [OF Cons.prems(2) c(2)] by simp
  have te: "fat_entry fs ?d c' = (if c' = c then 0 else fat_entry fs d c')" for c'
    using fat_entry_set_entry [OF Cons.prems(2) c(2), of 0 c'] by simp
  have cd: "cluster_data fs ?d c' = cluster_data fs d c'" for c' by (rule cluster_data_set_entry [OF Cons.prems(2) c(2)])
  show ?case
  proof (cases cs)
    case Nil
    have "\<not> next_cluster fs d c < 0x0FFFFFF7" using Cons.prems(1) Nil by (simp add: word_less_nat_alt word_le_nat_alt)
    moreover obtain n2 where "n' = Suc n2" using n(2) by (cases n') simp_all
    ultimately have "free_chain n fs (of_nat (hd (c # cs))) d = Some ?d" using st by simp
    then show ?thesis using ok te cd Nil Cons.prems(2) c(2) by auto
  next
    case (Cons c' cs')
    then have nx: "next_cluster fs d c = of_nat (hd cs)" "is_chain fs N d cs" using Cons.prems(1) by simp_all
    then have ch: "is_chain fs N ?d cs" using is_chain_set_entry [OF Cons.prems(2) c(2), of cs 0] Cons.prems(3) by simp
    have "distinct cs" using Cons.prems(3) by simp
    from Cons.IH [OF ch ok this n(2)] obtain d1 where
      "free_chain n' fs (of_nat (hd cs)) ?d = Some d1" "fat_ok fs N d1" "length d1 = length ?d"
      "\<forall>k < N. fat_entry fs d1 k = (if k \<in> set cs then 0 else fat_entry fs ?d k)" "\<forall>k. cluster_data fs d1 k = cluster_data fs ?d k"
      by blast
    then show ?thesis using st nx(1) te cd Cons.prems(2,3) c(2) by (intro exI [of _ d1]) auto
  qed
qed simp

subsection \<open>Directory entries\<close>

lemma change_entry_ok:
  assumes "at (v_nodes s) node = Some f" "parent_directory n node s = Some (Some (of_nat p))" "fat_ok fs N (disk s)" "2 \<le> p" "p < N"
    "find_entry (cluster_data fs (disk s) p) (fn_name f) [0..<cluster_bytes fs div 32] = Some (Some i)"
    "fst (g i) + length (snd (g i)) \<le> cluster_bytes fs"
  shows "change_entry n g fs node s =
    Some (0, set_disk (set_data fs p (patch (cluster_data fs (disk s) p) (fst (g i)) (snd (g i))) (disk s)) s)"
proof -
  let ?D = "cluster_data fs (disk s) p"
  have cb: "unat (cluster_size fs) = cluster_bytes fs" using assms(4,5) by (intro cluster_size_ok(1) [OF assms(3)]) linarith
  have l: "length ?D = cluster_bytes fs" by (rule length_cluster_data [OF assms(3-5)])
  have r: "disk_read (disk s) (cluster_offset fs (of_nat p)) (ucast (cluster_size fs)) = Some ?D"
    using read_cluster [OF assms(3-5) order_refl] by (simp only: ucast_u32_of_nat cb) (simp add: l)
  have "disk_write (disk s) (cluster_offset fs (of_nat p)) (patch ?D (fst (g i)) (snd (g i))) = Some (set_data fs p (patch ?D (fst (g i)) (snd (g i))) (disk s))"
    using assms(7) l by (intro write_cluster [OF assms(3-5)]) simp
  then show ?thesis using assms(1,2,6,7) r l by (simp add: change_entry_def entries_per_cluster_def cb put_at_patch)
qed

lemma same_directory [simp]:
  "v_nodes (set_disk d s) = v_nodes s" "disk (set_disk d s) = d" "parent_directory n node (set_disk d s) = parent_directory n node s"
  "fat_node node (set_disk d s) = fat_node node s" "set_disk d (set_disk d' s) = set_disk d s"
  by (simp_all add: set_disk_def parent_directory_def find_node_def fat_node_def cong: if_cong)

lemma find_entry_found: "find_entry D name is = Some (Some i) \<Longrightarrow> i \<in> set is \<and> (\<exists>e. dir_entry D i = Some e \<and> same_name (de_filename e) name)"
  by (induction "is") (auto split: bind_splits if_splits)

lemma find_entry_cong:
  "(\<And>j. j \<in> set is \<Longrightarrow> map_option de_filename (dir_entry D' j) = map_option de_filename (dir_entry D j)) \<Longrightarrow> find_entry D' name is = find_entry D name is"
proof (induction "is")
  case (Cons j js)
  have "map_option de_filename (dir_entry D' j) = map_option de_filename (dir_entry D j)" using Cons.prems by simp
  then show ?case using Cons by (cases "dir_entry D' j"; cases "dir_entry D j") simp_all
qed simp

lemma filename_patch_size:
  assumes "32 * i + 32 \<le> length D" "length xs = 4"
  shows "map_option de_filename (dir_entry (patch D (32 * i + 28) xs) j) = map_option de_filename (dir_entry D j)"
proof -
  have l: "length (patch D (32 * i + 28) xs) = length D" using assms by simp
  have t: "take 11 (drop (32 * j) (patch D (32 * i + 28) xs)) = take 11 (drop (32 * j) D)"
  proof (cases "j \<le> i")
    case True
    then show ?thesis using assms by (simp add: patch_before)
  next
    case False
    then show ?thesis using assms by (simp add: patch_after)
  qed
  show ?thesis using l t by (simp add: dir_entry_def de_filename_def min_absorb1)
qed

text \<open>C19. Deleting a file with the clusters \<open>cs\<close> whose name is entry \<open>i\<close> of the directory in cluster \<open>p\<close>: all its clusters and only these become free in
  the table, and no cluster other than the directory changes. In the directory the size of entry \<open>i\<close> is stored and then the first entry is cleared,
  whichever entry is the file's, so a file that is not the first keeps its entry and the first file loses its own.
\<close>

theorem fat_delete_effect:
  assumes "fat_node node s = Some (e, fs)" "at (v_nodes s) node = Some f" "fn_type f = FILE_TYPE_FILE"
    and "fat_ok fs N (disk s)" "is_chain fs N (disk s) cs" "distinct cs" "fe_cluster e = of_nat (hd cs)" "length cs < k"
    and "parent_directory n node s = Some (Some (of_nat p))" "2 \<le> p" "p < N"
    and "find_entry (cluster_data fs (disk s) p) (fn_name f) [0..<cluster_bytes fs div 32] = Some (Some i)"
  shows "\<exists>s1. fat_delete k n node s = Some (0, s1) \<and> fat_ok fs N (disk s1) \<and>
    (\<forall>c < N. fat_entry fs (disk s1) c = (if c \<in> set cs then 0 else fat_entry fs (disk s) c)) \<and>
    (\<forall>c. 2 \<le> c \<longrightarrow> c \<noteq> p \<longrightarrow> cluster_data fs (disk s1) c = cluster_data fs (disk s) c) \<and>
    cluster_data fs (disk s1) p =
      patch (patch (cluster_data fs (disk s) p) (32 * i + 28) (to_le 4 (unat (ucast (fn_size f) :: u32)))) 0 (replicate 32 0)"
proof -
  let ?D = "cluster_data fs (disk s) p" and ?sz = "to_le 4 (unat (ucast (fn_size f) :: u32))"
  let ?D1 = "patch ?D (32 * i + 28) ?sz"
  let ?D2 = "patch ?D1 0 (replicate 32 0)"
  obtain d1 where d1: "free_chain k fs (of_nat (hd cs)) (disk s) = Some d1" "fat_ok fs N d1"
    "\<forall>c < N. fat_entry fs d1 c = (if c \<in> set cs then 0 else fat_entry fs (disk s) c)" "\<forall>c. cluster_data fs d1 c = cluster_data fs (disk s) c"
    using free_chain_frees [OF assms(5,4,6,8)] by blast
  have len: "length ?D = cluster_bytes fs" by (rule length_cluster_data [OF assms(4,10,11)])
  have i: "32 * i + 32 \<le> cluster_bytes fs" using find_entry_found [OF assms(12)] by auto
  let ?d2 = "set_data fs p ?D1 d1"
  have l1: "length ?D1 = cluster_bytes fs" using i len by simp
  have l2: "length ?D2 = cluster_bytes fs" using i l1 by simp
  have ok2: "fat_ok fs N ?d2" by (rule set_data_frame(1) [OF d1(2) assms(10,11)]) (simp add: l1)
  have cd2: "cluster_data fs ?d2 p = ?D1" using cluster_data_set_data [OF d1(2) assms(10,11), of ?D1 p] assms(10) l1 d1(4) len by simp
  let ?d3 = "set_data fs p ?D2 ?d2"
  have u: "fat_update_dir_entry_size n fs node (set_disk d1 s) = Some (0, set_disk ?d2 s)"
    using change_entry_ok [of "set_disk d1 s" node f n p fs N i "\<lambda>i. (32 * i + 28, ?sz)"] assms(2,9,10,11,12) d1(2,4) i
    by (simp add: fat_update_dir_entry_size_def)
  have fe: "find_entry ?D1 (fn_name f) [0..<cluster_bytes fs div 32] = Some (Some i)"
    using find_entry_cong [of "[0..<cluster_bytes fs div 32]" ?D1 ?D "fn_name f"] filename_patch_size [of i ?D ?sz] i len assms(12) by simp
  have r: "fat_remove_dir_entry n fs node (set_disk ?d2 s) = Some (0, set_disk ?d3 s)"
    using change_entry_ok [of "set_disk ?d2 s" node f n p fs N i "\<lambda>i. (0, replicate 32 0)"] assms(2,9,10,11) ok2 cd2 fe i
    by (simp add: fat_remove_dir_entry_def)
  have del: "fat_delete k n node s = Some (0, set_disk ?d3 s)"
    using assms(1,2,3,7) d1(1) u r by (simp add: fat_delete_def)
  have ok3: "fat_ok fs N ?d3" by (rule set_data_frame(1) [OF ok2 assms(10,11)]) (simp add: l2)
  have t3: "\<forall>c < N. fat_entry fs ?d3 c = (if c \<in> set cs then 0 else fat_entry fs (disk s) c)"
    using set_data_frame(2) [OF ok2 assms(10,11), of ?D2] set_data_frame(2) [OF d1(2) assms(10,11), of ?D1] l1 l2 d1(3) by simp
  have c3: "2 \<le> c \<Longrightarrow> cluster_data fs ?d3 c = (if c = p then ?D2 else cluster_data fs (disk s) c)" for c
    using cluster_data_set_data [OF ok2 assms(10,11), of ?D2 c] cluster_data_set_data [OF d1(2) assms(10,11), of ?D1 c] l1 l2 cd2 d1(4) by simp
  show ?thesis
    by (intro exI [of _ "set_disk ?d3 s"] conjI) (use del ok3 t3 c3 assms(10) in simp_all)
qed

subsection \<open>Names\<close>

lemma put_str_take:
  "1 \<le> rem \<Longrightarrow> put_str s out cnt rem = (out @ take (unat rem - 1) s, cnt + int (min (length s) (unat rem - 1)), rem - of_nat (min (length s) (unat rem - 1)))"
proof (induction s arbitrary: out cnt rem)
  case (Cons c s)
  show ?case
  proof (cases "1 < rem")
    case True
    have u: "unat (rem - 1) = unat rem - 1" using True by (simp add: unat_sub order_less_imp_le)
    have "1 < unat rem" using True by (simp add: word_less_nat_alt)
    then obtain r where r: "unat rem = Suc (Suc r)" by (metis One_nat_def Suc_lessE Suc_less_eq less_imp_Suc_add add_Suc)
    have "1 \<le> rem - 1" using u r by (simp add: word_le_nat_alt)
    from Cons.IH [OF this, of "out @ [c]" "cnt + 1"] show ?thesis using True u r by (simp add: min_def)
  next
    case False
    then have "rem = 1" using Cons.prems by simp
    then show ?thesis by simp
  qed
qed simp

lemma length_fat_part: "length (fat_part (take n bs)) \<le> n"
  using length_takeWhile_le [of _ "take n bs"] order_trans by (fastforce simp: fat_part_def)

text \<open>The name that a directory entry is found and listed under.\<close>

definition fat_short_name :: "bytes \<Rightarrow> bytes" where
  "fat_short_name raw = (let name = fat_part (take 8 raw); ext = fat_part (take 3 (drop 8 raw)) in
     map lower (take 11 (if ext = [] then name else name @ 46 # ext)))"

lemma snprintf_name:
  assumes "length name \<le> 8"
  shows "snprintf 12 (cstr ''%s.%s'') [Va_Str name, Va_Str ext] = Some (Some (take 11 (name @ 46 # ext)), wrap_int (int (length name) + 1 + int (min (length ext) (10 - length name))))"
proof -
  let ?n = "of_nat (length name) :: u64"
  have n: "unat ?n = length name" using assms by (simp add: unsigned_of_nat take_bit_nat_eq_self)
  have p1: "put_str name [] 0 12 = (name, int (length name), 12 - ?n)" using put_str_take [of 12 name "[]" 0] assms by (simp add: min_def)
  have le: "?n \<le> 12" using n assms by (simp add: word_le_nat_alt)
  have u: "unat (12 - ?n) = 12 - length name" using le n by (simp add: unat_sub)
  then have g1: "\<not> 12 - ?n \<le> 1" using assms by (simp add: word_le_nat_alt)
  have "?n \<le> 11" using n assms by (simp add: word_le_nat_alt)
  then have u2: "unat (11 - ?n) = 11 - length name" using n by (simp add: unat_sub)
  then have g2: "\<not> 11 - ?n \<le> 1" using assms by (simp add: word_le_nat_alt)
  have p2: "put_str ext (name @ [46]) (int (length name) + 1) (11 - ?n) =
    ((name @ [46]) @ take (10 - length name) ext, int (length name) + 1 + int (min (length ext) (10 - length name)),
     11 - ?n - of_nat (min (length ext) (10 - length name)))"
    using put_str_take [of "11 - ?n" ext "name @ [46]" "int (length name) + 1"] g2 u2 by (simp add: not_le order_less_imp_le)
  have "take 11 (name @ 46 # ext) = (name @ [46]) @ take (10 - length name) ext"
    using assms by (simp add: take_Cons' diff_le_self)
  moreover have "\<not> (12 :: u64) \<le> 1" by (simp add: word_le_nat_alt)
  ultimately show ?thesis using g1 g2 p1 p2 by (simp add: snprintf_def cstr_def)
qed

lemma clean_fat_filename_is: "clean_fat_filename raw = Some (fat_short_name raw)"
  using snprintf_name [OF length_fat_part] length_fat_part [of 8 raw] by (auto simp: clean_fat_filename_def fat_short_name_def Let_def)

subsection \<open>Listings\<close>

definition entries_of :: "bytes \<Rightarrow> nat \<Rightarrow> bytes list" where
  \<comment> \<open>the directory entries of a cluster, from the one with number \<open>i\<close> on\<close>
  "entries_of D i = map (\<lambda>j. take 32 (drop (32 * j) D)) [i..<length D div 32]"

fun live_files :: "bytes list \<Rightarrow> bytes list option" where
  \<comment> \<open>the files of a directory: the entries in front of the terminator that are neither deleted nor part of a long name; \<open>None\<close> without a terminator\<close>
  "live_files [] = None"
| "live_files (e # es) =
     (if e ! 0 = 0 then Some [] else if e ! 0 = 0xE5 \<or> de_attributes e = 0x0F then live_files es else map_option (Cons e) (live_files es))"

definition listing :: "bytes \<Rightarrow> list_dir_t" where
  "listing e = \<lparr>ld_name = fat_short_name (de_filename e), ld_type = entry_type e, ld_size = ucast (de_size e)\<rparr>"

lemma entries_of_step: "entries_of D i = (case dir_entry D i of None \<Rightarrow> [] | Some e \<Rightarrow> e # entries_of D (i + 1))"
proof (cases "32 * i + 32 \<le> length D")
  case True
  then have "i < length D div 32" by linarith
  then show ?thesis using True by (simp add: entries_of_def dir_entry_def upt_conv_Cons)
next
  case False
  then have "\<not> i < length D div 32" by linarith
  then show ?thesis using False by (simp add: entries_of_def dir_entry_def)
qed

lemma length_entries_of: "length (entries_of D i) = length D div 32 - i"
  by (simp add: entries_of_def)

lemma next_entry_live:
  "length (entries_of D i) \<le> k \<Longrightarrow>
   (case next_entry D i k of Outside \<Rightarrow> live_files (entries_of D i) = None | End_Of_Files \<Rightarrow> live_files (entries_of D i) = Some []
    | Entry j e \<Rightarrow> i \<le> j \<and> j < length D div 32 \<and> live_files (entries_of D i) = map_option (Cons e) (live_files (entries_of D (j + 1))))"
proof (induction k arbitrary: i)
  case (Suc k)
  show ?case
  proof (cases "dir_entry D i")
    case None
    then show ?thesis by (subst entries_of_step) simp
  next
    case (Some e)
    have es: "entries_of D i = e # entries_of D (i + 1)" using Some by (subst entries_of_step) simp
    then have "length (entries_of D (i + 1)) \<le> k" "i < length D div 32"
      using Suc.prems length_entries_of [of D i] length_entries_of [of D "i + 1"] by simp_all
    then show ?thesis using Suc.IH [of "i + 1"] Some es by (auto split: scan.splits)
  qed
qed simp

lemma entries_fit: "length (entries_of D i) \<le> length D"
  by (simp add: length_entries_of)

lemma list_entries_live: "live_files (entries_of D i) = Some es \<Longrightarrow> list_entries D i c = Some (map listing (take c es))"
proof (induction c arbitrary: i es)
  case (Suc c)
  note n = next_entry_live [OF entries_fit [of D i]]
  show ?case
  proof (cases "next_entry D i (length D)")
    case (Entry j e)
    then have "map_option (Cons e) (live_files (entries_of D (j + 1))) = Some es" using n Suc.prems by simp
    then obtain es' where es: "live_files (entries_of D (j + 1)) = Some es'" "es = e # es'" by (auto simp: map_option_eq_Some)
    then show ?thesis using Entry Suc.IH [OF es(1)] by (simp add: clean_fat_filename_is listing_def)
  qed (use n Suc.prems in simp_all)
qed simp

lemma count_entries_live: "length (entries_of D i) < k \<Longrightarrow> count_entries D i k = map_option length (live_files (entries_of D i))"
proof (induction k arbitrary: i)
  case (Suc k)
  note n = next_entry_live [OF entries_fit [of D i]]
  show ?case
  proof (cases "next_entry D i (length D)")
    case (Entry j e)
    then have "length (entries_of D (j + 1)) < k" using n Suc.prems by (auto simp: length_entries_of)
    from Suc.IH [OF this] show ?thesis using Entry n by (cases "live_files (entries_of D (j + 1))") auto
  qed (use n in simp_all)
qed simp

text \<open>C20. Listing a FAT directory: for every number of wanted entries, \<^verbatim>\<open>fat_read_dir\<close> returns the first ones of the files in the directory's cluster up to
  the terminating entry, without deleted and long-name entries, each with its short name, its type and its size; and \<^verbatim>\<open>fat_get_size\<close> is the number of
  all of them.
\<close>

theorem fat_listing:
  assumes "at (v_nodes s) node = Some f" and "fn_type f = FILE_TYPE_DIR \<or> fn_type f = FILE_TYPE_MOUNT_POINT"
    and "directory_data node s = Some D" and "live_files (entries_of D 0) = Some es"
  shows "fat_read_dir node cnt s = Some (int (min (length es) (nat cnt)), map listing (take (nat cnt) es), s) \<and>
    fat_get_size node s = Some (int (length es))"
proof -
  have "length (entries_of D 0) \<noteq> 0" using assms(4) by (cases "entries_of D 0") simp_all
  then have "length (entries_of D 0) < length D" by (simp add: length_entries_of)
  from count_entries_live [OF this] have "count_entries D 0 (length D) = Some (length es)" using assms(4) by simp
  then show ?thesis using assms(1-3) list_entries_live [OF assms(4), of "nat cnt"] by (auto simp: fat_read_dir_def fat_get_size_def)
qed

subsection \<open>Looking up names\<close>

lemma next_entry_valid:
  "next_entry D i k = Entry j e \<Longrightarrow> dir_entry D j = Some e \<and> e ! 0 \<noteq> 0 \<and> e ! 0 \<noteq> 0xE5 \<and> de_attributes e \<noteq> 0x0F"
proof (induction k arbitrary: i)
  case (Suc k)
  then show ?case by (cases "dir_entry D i") (auto split: if_splits)
qed simp

lemma next_entry_again_length:
  assumes "next_entry D i (length D) = Entry j e" shows "next_entry D j (length D) = Entry j e"
proof -
  have "length D \<noteq> 0" using assms by (cases "length D") simp_all
  then show ?thesis using next_entry_valid [OF assms] by (cases "length D") simp_all
qed

lemma find_loop_stuck:
  "next_entry D i (length D) = Entry j e \<Longrightarrow> name \<noteq> fat_short_name (de_filename e) \<Longrightarrow> find_loop k D name i = None"
proof (induction k arbitrary: i)
  case (Suc k)
  then show ?case using Suc.IH [OF next_entry_again_length [OF Suc.prems(1)]] by (simp add: clean_fat_filename_is)
qed simp

text \<open>\<^verbatim>\<open>fat_find_dir\<close> at the root of a volume finds only the first file of the directory: for the name of that file it returns a new node, whose own name
  is empty, with the file's type, size, first cluster and file system; for every other name, also of a file that is there or of none, the loop never moves on
  and the call does not return, however many rounds it is given.
\<close>

theorem fat_find_dir_first_entry_only:
  assumes "at (v_nodes s) node = Some f" and "fn_type f = FILE_TYPE_MOUNT_POINT" and "directory_data node s = Some D"
    and "next_entry D 0 (length D) = Entry j e"
  shows "fat_find_dir (Suc k) node (fat_short_name (de_filename e)) s =
      new_fat_node (empty_node\<lparr>fn_type := entry_type e, fn_size := ucast (de_size e), fn_file_ops := fat_file_ops\<rparr>) (fn_fs f) (de_cluster e) s \<and>
    (name \<noteq> fat_short_name (de_filename e) \<longrightarrow> fat_find_dir k node name s = None)"
proof
  have "find_loop (Suc k) D (fat_short_name (de_filename e)) 0 = Some (Some (j, e))"
    using assms(4) by (simp add: clean_fat_filename_is)
  then show "fat_find_dir (Suc k) node (fat_short_name (de_filename e)) s =
      new_fat_node (empty_node\<lparr>fn_type := entry_type e, fn_size := ucast (de_size e), fn_file_ops := fat_file_ops\<rparr>) (fn_fs f) (de_cluster e) s"
    using assms(1-3) by (simp add: fat_find_dir_def set_name_def empty_node_def del: find_loop.simps)
  show "name \<noteq> fat_short_name (de_filename e) \<longrightarrow> fat_find_dir k node name s = None"
    using assms find_loop_stuck [OF assms(4), of name k] by (auto simp: fat_find_dir_def)
qed

subsection \<open>Free clusters\<close>

text \<open>The search for a free cluster reads its buffer before the first sector of the table is in it: when the fresh block happens to hold a zero at the
  third word, cluster 2, the root directory of most volumes, is returned as free, whatever the table on the disk says.
\<close>

theorem fat_find_free_cluster_reads_garbage:
  assumes "12 \<le> ff_sectorSize fs" and "ff_clusterSize fs \<noteq> 0" and "2 < ff_capacity fs div ff_clusterSize fs"
    and "rd32 (take (sector_bytes fs) junk) 8 = Some 0"
  shows "fat_find_free_cluster junk fs d = Some 2"
proof -
  let ?eps = "ff_sectorSize fs div 4"
  have e: "3 \<le> unat ?eps" using assms(1) by (simp add: word_le_nat_alt unat_div)
  then have m: "(2 :: u32) mod ?eps = 2" "?eps \<noteq> 0"
    by (auto simp: word_unat_eq_iff unat_mod)
  have c: "[2..<unat (ff_capacity fs div ff_clusterSize fs)] = 2 # [3..<unat (ff_capacity fs div ff_clusterSize fs)]"
    using assms(3) by (simp add: word_less_nat_alt upt_conv_Cons)
  show ?thesis using assms(2,4) m by (simp add: fat_find_free_cluster_def Let_def c)
qed

section \<open>A volume\<close>

definition demo_fs :: fat_fs_t where
  \<comment> \<open>sectors of 32 bytes, clusters of three sectors, the table in the first sector\<close>
  "demo_fs = \<lparr>ff_root_cluster = 2, ff_sectorSize = 32, ff_clusterSize = 3, ff_capacity = 13, ff_fatPointer = 0, ff_dataPointer = 1,
     ff_physicalDevice = 9, ff_rootPointer = 102\<rparr>"

definition demo_dir :: bytes where
  "demo_dir = new_dir_entry [65] 5 10 0 @ new_dir_entry [66] 3 150 0 @ replicate 32 0"

definition demo_volume :: bytes where
  \<comment> \<open>the root directory in cluster 2, a file in the clusters 3 and 4, another one in cluster 5\<close>
  "demo_volume = concat (map (to_le 4) [0x0FFFFFF8, 0x0FFFFFFF, 0x0FFFFFFF, 4, 0x0FFFFFFF, 0x0FFFFFFF, 0, 0]) @ demo_dir @
     replicate 96 1 @ replicate 96 2 @ replicate 96 3"

definition demo_fat :: fvfs where
  "demo_fat = \<lparr>v_nodes = [100 \<mapsto> empty_node\<lparr>fn_type := FILE_TYPE_DIR, fn_fs := 300\<rparr>,
       101 \<mapsto> empty_node\<lparr>fn_name := [66], fn_type := FILE_TYPE_FILE, fn_size := 150, fn_fs := 301\<rparr>,
       102 \<mapsto> empty_node\<lparr>fn_type := FILE_TYPE_MOUNT_POINT, fn_fs := 500\<rparr>],
     v_tree_heap = [16 \<mapsto> \<lparr>tn_value = 100, tn_children = [32], tn_parent = 0\<rparr>, 32 \<mapsto> \<lparr>tn_value = 101, tn_children = [], tn_parent = 16\<rparr>],
     v_file_tree = \<lparr>t_head = 16, t_height = 1\<rparr>, v_root_node = 100, v_id_generator = 3, v_supply = [200, 208], v_has_process = False, v_cwd = None,
     v_cwd_file = 0, v_fs_owner = Map.empty,
     v_priv = \<lparr>fa_disk = demo_volume, fa_systems = [500 \<mapsto> demo_fs],
       fa_entries = [300 \<mapsto> \<lparr>fe_fatFs = 500, fe_cluster = 2\<rparr>, 301 \<mapsto> \<lparr>fe_fatFs = 500, fe_cluster = 3\<rparr>]\<rparr>\<rparr>"

lemma demo_geometry: "sector_bytes demo_fs = 32" "cluster_bytes demo_fs = 96" "table_at demo_fs = 0" "data_at demo_fs = 32"
  by (simp_all add: demo_fs_def cluster_bytes_def table_at_def data_at_def)

lemma demo_volume_parts: "length demo_dir = 96" "length demo_volume = 416"
  by (simp_all add: demo_volume_def demo_dir_def new_dir_entry_def strncpy11_def)

lemma demo_volume_ok: "fat_ok demo_fs 6 demo_volume"
  by (simp add: fat_ok_def demo_geometry demo_volume_parts)

lemma demo_entries:
  "fat_entry demo_fs demo_volume 2 = 0x0FFFFFFF" "fat_entry demo_fs demo_volume 3 = 4" "fat_entry demo_fs demo_volume 4 = 0x0FFFFFFF"
  "fat_entry demo_fs demo_volume 5 = 0x0FFFFFFF"
  by (simp_all add: fat_entry_def demo_geometry demo_volume_def le_to_le)

lemma demo_chain: "is_chain demo_fs 6 demo_volume [3, 4]" "next_cluster demo_fs demo_volume 3 = of_nat 4"
  by (simp_all add: next_cluster_def demo_entries)

lemma demo_clusters: "cluster_data demo_fs demo_volume 2 = demo_dir" "cluster_data demo_fs demo_volume 3 = replicate 96 1"
  "cluster_data demo_fs demo_volume 4 = replicate 96 2"
  by (simp_all add: cluster_data_def demo_geometry demo_volume_def demo_volume_parts)

lemma demo_fat_nodes:
  "disk demo_fat = demo_volume" "fat_node 101 demo_fat = Some (\<lparr>fe_fatFs = 500, fe_cluster = 3\<rparr>, demo_fs)"
  "at (v_nodes demo_fat) 101 = Some (empty_node\<lparr>fn_name := [66], fn_type := FILE_TYPE_FILE, fn_size := 150, fn_fs := 301\<rparr>)"
  "at (v_nodes demo_fat) 102 = Some (empty_node\<lparr>fn_type := FILE_TYPE_MOUNT_POINT, fn_fs := 500\<rparr>)"
  "parent_directory (Suc (Suc (Suc k))) 101 demo_fat = Some (Some (of_nat 2))"
  by (simp_all add: demo_fat_def fat_node_def at_def parent_directory_def find_node_def tree_find_child_root_def nrd_def)

theorem fat_read_follows_chain_witness:
  "fat_read 3 101 120 100 demo_fat = Some (96, map Some (replicate 96 2), demo_fat)"
proof -
  have "length [3 :: nat, 4] < 3" "length [3 :: nat, 4] * cluster_bytes demo_fs < 2 ^ 31" by (simp_all add: demo_geometry)
  from fat_read_follows_chain [OF demo_fat_nodes(2) demo_volume_ok [folded demo_fat_nodes(1)] demo_chain(1) [folded demo_fat_nodes(1)] _ this, of 120 100]
  show ?thesis by (simp add: demo_geometry demo_fat_nodes(1) chain_data_def demo_clusters)
qed

theorem fat_write_read_cluster_witness:
  "\<exists>d1. fat_write_file_data (0 + 2) [] demo_fs (of_nat 5) [7, 8, 9] demo_volume = Some (0, d1) \<and>
    fat_read_file_data (0 + 2) demo_fs (of_nat 5) (of_nat (length [7 :: u8, 8, 9])) d1 = Some (int (length [7 :: u8, 8, 9]), [7, 8, 9])"
proof -
  have "2 \<le> (5 :: nat)" "(5 :: nat) < 6" "length [7 :: u8, 8, 9] \<le> cluster_bytes demo_fs" "cluster_bytes demo_fs < 2 ^ 31"
    by (simp_all add: demo_geometry)
  from fat_write_read_cluster [OF demo_volume_ok this, of 0 "[]" 0] show ?thesis by blast
qed

theorem fat_write_third_cluster_overwrites_witness:
  "\<exists>d1. fat_write_file_data (0 + 4) [] demo_fs (of_nat 3) (replicate 96 4 @ replicate 96 5 @ replicate 96 6) demo_volume = Some (0, d1) \<and>
    fat_read_file_data (0 + 3) demo_fs (of_nat 3) (of_nat (3 * cluster_bytes demo_fs)) d1 =
      Some (int (2 * cluster_bytes demo_fs), replicate 96 4 @ replicate 96 6)"
proof -
  have "2 \<le> (3 :: nat)" "(3 :: nat) < 6" "2 \<le> (4 :: nat)" "(4 :: nat) < 6" "(3 :: nat) \<noteq> 4" by simp_all
  moreover have "length (replicate 96 4 :: bytes) = cluster_bytes demo_fs" "length (replicate 96 5 :: bytes) = cluster_bytes demo_fs"
    "replicate 96 6 \<noteq> ([] :: bytes)" "length (replicate 96 6 :: bytes) \<le> cluster_bytes demo_fs" "2 * cluster_bytes demo_fs < 2 ^ 31"
    by (simp_all add: demo_geometry)
  ultimately show ?thesis
    using fat_write_third_cluster_overwrites [OF demo_volume_ok _ _ _ _ _ demo_chain(2), of "replicate 96 4" "replicate 96 5" "replicate 96 6" 0 "[]" 0] by simp
qed

lemma demo_find: "find_entry demo_dir [66] [0..<cluster_bytes demo_fs div 32] = Some (Some 1)"
  by (simp add: demo_geometry demo_dir_def upt_rec dir_entry_def new_dir_entry_def strncpy11_def same_name_def de_filename_def)

theorem fat_delete_effect_witness:
  "\<exists>s1. fat_delete 3 (Suc (Suc (Suc 0))) 101 demo_fat = Some (0, s1) \<and>
    fat_entry demo_fs (disk s1) 3 = 0 \<and> fat_entry demo_fs (disk s1) 4 = 0 \<and> fat_entry demo_fs (disk s1) 5 = 0x0FFFFFFF"
proof -
  let ?f = "empty_node\<lparr>fn_name := [66], fn_type := FILE_TYPE_FILE, fn_size := 150, fn_fs := 301\<rparr>"
  have x: "distinct [3 :: nat, 4]" "length [3 :: nat, 4] < 3" "2 \<le> (2 :: nat)" "(2 :: nat) < 6" by simp_all
  have y: "fn_type ?f = FILE_TYPE_FILE" "fe_cluster \<lparr>fe_fatFs = 500, fe_cluster = 3\<rparr> = of_nat (hd [3, 4])" by simp_all
  have z: "find_entry (cluster_data demo_fs (disk demo_fat) 2) (fn_name ?f) [0..<cluster_bytes demo_fs div 32] = Some (Some 1)"
    using demo_find by (simp only: demo_fat_nodes(1) demo_clusters) simp
  from fat_delete_effect [OF demo_fat_nodes(2,3) y(1) demo_volume_ok [folded demo_fat_nodes(1)] demo_chain(1) [folded demo_fat_nodes(1)]
      x(1) y(2) x(2) demo_fat_nodes(5) [of 0] x(3,4) z]
  obtain s1 where s1: "fat_delete 3 (Suc (Suc (Suc 0))) 101 demo_fat = Some (0, s1)"
    "\<forall>c < 6. fat_entry demo_fs (disk s1) c = (if c \<in> set [3, 4] then 0 else fat_entry demo_fs (disk demo_fat) c)" by blast
  have "fat_entry demo_fs (disk s1) 3 = 0" "fat_entry demo_fs (disk s1) 4 = 0" "fat_entry demo_fs (disk s1) 5 = 0x0FFFFFFF"
    using s1(2) by (simp_all add: demo_fat_nodes(1) demo_entries)
  then show ?thesis using s1(1) by blast
qed

lemma demo_directory: "directory_data 102 demo_fat = Some demo_dir"
proof -
  have "disk_read demo_volume (cluster_offset demo_fs (of_nat 2)) (of_nat 96) = Some (take 96 (cluster_data demo_fs demo_volume 2))"
    by (rule read_cluster [OF demo_volume_ok]) (simp_all add: demo_geometry)
  then have "disk_read demo_volume (cluster_offset demo_fs 2) 96 = Some demo_dir" by (simp add: demo_clusters demo_volume_parts)
  then show ?thesis using demo_fat_nodes(1,4) by (simp add: directory_data_def empty_node_def demo_fat_def at_def demo_fs_def cluster_size_def)
qed

lemma demo_dir_entries:
  "length (new_dir_entry nm c sz attr) = 32" "new_dir_entry (x # nm) c sz attr ! 0 = x" "de_attributes (new_dir_entry nm c sz attr) = attr"
  "entries_of demo_dir 0 = [new_dir_entry [65] 5 10 0, new_dir_entry [66] 3 150 0, replicate 32 0]"
proof -
  show l: "length (new_dir_entry nm c sz attr) = 32" for nm c sz attr by (simp add: new_dir_entry_def strncpy11_def)
  show "new_dir_entry (x # nm) c sz attr ! 0 = x" by (simp add: new_dir_entry_def strncpy11_def)
  have "length (strncpy11 nm) = 11" by (simp add: strncpy11_def)
  then show "de_attributes (new_dir_entry nm c sz attr) = attr" by (simp add: new_dir_entry_def de_attributes_def nth_append)
  show "entries_of demo_dir 0 = [new_dir_entry [65] 5 10 0, new_dir_entry [66] 3 150 0, replicate 32 0]"
    by (simp add: entries_of_def demo_volume_parts upt_rec) (simp add: demo_dir_def l)
qed

lemma demo_live: "live_files (entries_of demo_dir 0) = Some [new_dir_entry [65] 5 10 0, new_dir_entry [66] 3 150 0]"
  by (simp add: demo_dir_entries)

theorem fat_listing_witness:
  "fat_read_dir 102 1 demo_fat = Some (1, [listing (new_dir_entry [65] 5 10 0)], demo_fat) \<and> fat_get_size 102 demo_fat = Some 2"
  using fat_listing [OF demo_fat_nodes(4) _ demo_directory demo_live, of 1] by (simp add: empty_node_def)

theorem fat_find_dir_first_entry_only_witness:
  "(\<forall>k. fat_find_dir k 102 [98] demo_fat = None) \<and> fat_find_dir (Suc 0) 102 [97] demo_fat \<noteq> None"
proof -
  have n: "next_entry demo_dir 0 (length demo_dir) = Entry 0 (new_dir_entry [65] 5 10 0)"
  proof -
    have "dir_entry demo_dir 0 = Some (new_dir_entry [65] 5 10 0)" by (simp add: dir_entry_def demo_volume_parts) (simp add: demo_dir_def demo_dir_entries)
    then have "next_entry demo_dir 0 (Suc m) = Entry 0 (new_dir_entry [65] 5 10 0)" for m by (simp add: demo_dir_entries)
    from this [of 95] show ?thesis by (simp add: demo_volume_parts del: next_entry.simps)
  qed
  have nm: "fat_short_name (de_filename (new_dir_entry [65] 5 10 0)) = [97]"
    by (simp add: fat_short_name_def de_filename_def new_dir_entry_def strncpy11_def fat_part_def lower_def Let_def)
  have "fn_type (empty_node\<lparr>fn_type := FILE_TYPE_MOUNT_POINT, fn_fs := 500\<rparr>) = FILE_TYPE_MOUNT_POINT" by simp
  note w = fat_find_dir_first_entry_only [OF demo_fat_nodes(4) this demo_directory n]
  have "fat_find_dir k 102 [98] demo_fat = None" for k using w [of k "[98]"] by (simp add: nm)
  moreover have "fat_find_dir (Suc 0) 102 [97] demo_fat \<noteq> None"
    using w [of 0 "[98]"] by (simp add: nm new_fat_node_def calloc_addr_def) (simp add: demo_fat_def)
  ultimately show ?thesis by blast
qed

theorem fat_find_free_cluster_reads_garbage_witness:
  "fat_find_free_cluster (replicate 32 0) demo_fs demo_volume = Some 2"
proof -
  have "rd32 (take (sector_bytes demo_fs) (replicate 32 0)) 8 = Some 0" by (simp add: rd32_def demo_geometry eval_nat_numeral)
  then show ?thesis by (intro fat_find_free_cluster_reads_garbage) (simp_all add: demo_fs_def)
qed

end
