(* ===== verification/Terminal.thy ===== *)
theory Terminal
  imports Prelude
begin

text \<open>
  The kernel's text terminal (\<^verbatim>\<open>kernel/kernel.c\<close>) in VGA text mode, the branch of each function that is taken while
  \<^verbatim>\<open>use_framebuffer\<close> is false; the other branch draws with the third-party font renderer. The screen is the 80 by 25 cells at \<^verbatim>\<open>0xB8000\<close>,
  and a store outside of them is a fault of the model. The abstract view is the list of the rows; printing a character and
  scrolling are proved against it.
\<close>

section \<open>Operations\<close>

record terminal =
  terminal_row :: u64
  terminal_column :: u64
  terminal_color :: u8
  terminal_buffer :: "u16 list"

definition VGA_WIDTH :: nat where "VGA_WIDTH = 80"
definition VGA_HEIGHT :: nat where "VGA_HEIGHT = 25"

definition vga_entry_color :: "u8 \<Rightarrow> u8 \<Rightarrow> u8" where
  "vga_entry_color fg bg = fg OR push_bit 4 bg"

definition vga_entry :: "u8 \<Rightarrow> u8 \<Rightarrow> u16" where
  "vga_entry uc color = ucast uc OR push_bit 8 (ucast color)"

definition set_cell :: "u16 \<Rightarrow> nat \<Rightarrow> u16 list \<Rightarrow> u16 list option" where
  \<comment> \<open>\<^verbatim>\<open>terminal_buffer[index] = v\<close>\<close>
  "set_cell v i b = (if i < length b then Some (b[i := v]) else None)"

definition row_cells :: "nat \<Rightarrow> nat list" where
  \<comment> \<open>the values of \<^verbatim>\<open>y * VGA_WIDTH + x\<close> in the inner loops\<close>
  "row_cells y = map (\<lambda>x. y * VGA_WIDTH + x) [0..<VGA_WIDTH]"

definition terminal_initialize :: "u16 list \<Rightarrow> terminal option" where
  \<comment> \<open>VGA text mode, with the cells that are on the screen\<close>
  "terminal_initialize screen = do {
     let color = vga_entry_color 7 0;
     b \<leftarrow> foldM (\<lambda>y. foldM (set_cell (vga_entry 32 color)) (row_cells y)) [0..<VGA_HEIGHT] screen;
     Some \<lparr>terminal_row = 0, terminal_column = 0, terminal_color = color, terminal_buffer = b\<rparr>
   }"

definition terminal_setcolor :: "u8 \<Rightarrow> terminal \<Rightarrow> terminal" where
  "terminal_setcolor color t = t\<lparr>terminal_color := color\<rparr>"

definition terminal_putentryat :: "u8 \<Rightarrow> u8 \<Rightarrow> u64 \<Rightarrow> u64 \<Rightarrow> terminal \<Rightarrow> terminal option" where
  "terminal_putentryat c color x y t =
     (if c = 10 then Some t
      else do {
        b \<leftarrow> set_cell (vga_entry c color) (unat (y * of_nat VGA_WIDTH + x)) (terminal_buffer t);
        Some (t\<lparr>terminal_buffer := b\<rparr>)
      })"

definition copy_up :: "nat \<Rightarrow> nat \<Rightarrow> u16 list \<Rightarrow> u16 list option" where
  \<comment> \<open>\<^verbatim>\<open>terminal_buffer[(y-1) * VGA_WIDTH + x] = terminal_buffer[y * VGA_WIDTH + x]\<close>\<close>
  "copy_up y x b = (if y * VGA_WIDTH + x < length b then set_cell (b ! (y * VGA_WIDTH + x)) ((y - 1) * VGA_WIDTH + x) b else None)"

definition terminal_rollover :: "terminal \<Rightarrow> terminal option" where
  "terminal_rollover t = do {
     b \<leftarrow> foldM (\<lambda>y. foldM (copy_up y) [0..<VGA_WIDTH]) [1..<VGA_HEIGHT] (terminal_buffer t);
     b1 \<leftarrow> foldM (set_cell (vga_entry 32 (terminal_color t))) (row_cells 24) b;
     Some (t\<lparr>terminal_buffer := b1\<rparr>)
   }"

definition terminal_putchar :: "u8 \<Rightarrow> terminal \<Rightarrow> terminal option" where
  "terminal_putchar c t = do {
     t1 \<leftarrow> terminal_putentryat c (terminal_color t) (terminal_column t) (terminal_row t) t;
     let t2 = t1\<lparr>terminal_column := terminal_column t1 + 1\<rparr>;
     if terminal_column t2 = of_nat VGA_WIDTH \<or> c = 10 then
       (let t3 = t2\<lparr>terminal_column := 0, terminal_row := terminal_row t2 + 1\<rparr> in
        if terminal_row t3 = of_nat VGA_HEIGHT
        then do { t4 \<leftarrow> terminal_rollover t3; Some (t4\<lparr>terminal_row := of_nat VGA_HEIGHT - 1\<rparr>) }
        else Some t3)
     else Some t2
   }"

definition terminal_write :: "bytes \<Rightarrow> terminal \<Rightarrow> terminal option" where
  "terminal_write data t = foldM terminal_putchar data t"

definition terminal_clear :: "terminal \<Rightarrow> terminal option" where
  "terminal_clear t = do {
     b \<leftarrow> foldM (\<lambda>y. foldM (set_cell (vga_entry 32 (terminal_color t))) (row_cells y)) [0..<VGA_HEIGHT] (terminal_buffer t);
     Some (t\<lparr>terminal_buffer := b\<rparr>)
   }"

definition terminal_setcursor :: "int \<Rightarrow> int \<Rightarrow> terminal \<Rightarrow> terminal" where
  "terminal_setcursor x y t = t\<lparr>terminal_column := to_size x, terminal_row := to_size y\<rparr>"

definition terminal_resetline :: "terminal \<Rightarrow> terminal option" where
  "terminal_resetline t = do {
     b \<leftarrow> foldM (\<lambda>x. set_cell (vga_entry 32 (terminal_color t)) (unat (terminal_row t * of_nat VGA_WIDTH + of_nat x)))
            [0..<VGA_WIDTH] (terminal_buffer t);
     Some (t\<lparr>terminal_column := 0, terminal_buffer := b\<rparr>)
   }"

section \<open>The screen as rows\<close>

definition rows_of :: "u16 list \<Rightarrow> u16 list list" where
  "rows_of b = map (\<lambda>y. map (\<lambda>x. b ! (y * VGA_WIDTH + x)) [0..<VGA_WIDTH]) [0..<VGA_HEIGHT]"

definition terminal_ok :: "terminal \<Rightarrow> bool" where
  "terminal_ok t \<longleftrightarrow> length (terminal_buffer t) = VGA_WIDTH * VGA_HEIGHT \<and>
     terminal_row t < of_nat VGA_HEIGHT \<and> terminal_column t < of_nat VGA_WIDTH"

record screen =
  sc_rows :: "u16 list list"
  sc_row :: nat
  sc_column :: nat
  sc_color :: u8

definition screen_of :: "terminal \<Rightarrow> screen" where
  "screen_of t = \<lparr>sc_rows = rows_of (terminal_buffer t), sc_row = unat (terminal_row t), sc_column = unat (terminal_column t),
     sc_color = terminal_color t\<rparr>"

definition newline :: "screen \<Rightarrow> screen" where
  \<comment> \<open>the cursor goes to the start of the next row; on the last row the rows move up and a blank one appears\<close>
  "newline s = (if sc_row s + 1 < VGA_HEIGHT then s\<lparr>sc_row := sc_row s + 1, sc_column := 0\<rparr>
     else s\<lparr>sc_rows := tl (sc_rows s) @ [replicate VGA_WIDTH (vga_entry 32 (sc_color s))], sc_column := 0\<rparr>)"

definition type_char :: "u8 \<Rightarrow> screen \<Rightarrow> screen" where
  "type_char c s =
     (if c = 10 then newline s
      else let s1 = s\<lparr>sc_rows := (sc_rows s)[sc_row s := (sc_rows s ! sc_row s)[sc_column s := vga_entry c (sc_color s)]]\<rparr> in
           if sc_column s + 1 = VGA_WIDTH then newline s1 else s1\<lparr>sc_column := sc_column s + 1\<rparr>)"

lemma set_cells:
  assumes "\<forall>i \<in> set is. i < length b"
  shows "foldM (set_cell v) is b = Some (map (\<lambda>i. if i \<in> set is then v else b ! i) [0..<length b])"
  using assms
proof (induction "is" arbitrary: b)
  case Nil
  then show ?case by (simp add: map_nth)
next
  case (Cons i "is")
  then have "foldM (set_cell v) is (b[i := v]) = Some (map (\<lambda>k. if k \<in> set is then v else b[i := v] ! k) [0..<length b])" by simp
  moreover have "set_cell v i b = Some (b[i := v])" using Cons.prems by (simp add: set_cell_def)
  ultimately show ?case by (auto simp: nth_list_update)
qed

lemma cells_nested: "foldM (\<lambda>y. foldM f (g y)) ys b = foldM f (concat (map g ys)) b"
proof (induction ys arbitrary: b)
  case (Cons y ys)
  then show ?case by (cases "foldM f (g y) b") (simp_all add: foldM_append)
qed simp

lemma row_cells_all: "concat (map row_cells [m..<m + n]) = [m * VGA_WIDTH..<(m + n) * VGA_WIDTH]"
proof (induction n)
  case (Suc n)
  have "row_cells y = [y * VGA_WIDTH..<y * VGA_WIDTH + VGA_WIDTH]" for y
    using map_add_upt [of "y * VGA_WIDTH" VGA_WIDTH] by (simp add: row_cells_def add.commute)
  then show ?case using Suc upt_add_eq_append [of "m * VGA_WIDTH" "(m + n) * VGA_WIDTH" VGA_WIDTH] by (simp add: algebra_simps)
qed simp

lemma copy_up_loop:
  assumes "n + VGA_WIDTH \<le> length b"
  shows "foldM (\<lambda>i b. if i < length b then set_cell (b ! i) (i - VGA_WIDTH) b else None) [VGA_WIDTH..<VGA_WIDTH + n] b =
    Some (take n (drop VGA_WIDTH b) @ drop n b)"
  using assms
proof (induction n)
  case (Suc n)
  let ?b = "take n (drop VGA_WIDTH b) @ drop n b"
  have len: "length (take n (drop VGA_WIDTH b)) = n" using Suc.prems by simp
  have "?b ! (VGA_WIDTH + n) = b ! (VGA_WIDTH + n)" using Suc.prems len by (simp add: nth_append add.commute)
  moreover have "?b[n := v] = take n (drop VGA_WIDTH b) @ [v] @ drop (Suc n) b" for v
    using Suc.prems len by (simp add: list_update_append Cons_nth_drop_Suc [symmetric])
  moreover have "take (Suc n) (drop VGA_WIDTH b) = take n (drop VGA_WIDTH b) @ [b ! (VGA_WIDTH + n)]"
    using Suc.prems by (simp add: take_Suc_conv_app_nth add.commute)
  ultimately show ?case using Suc by (simp add: foldM_append set_cell_def len)
qed simp
lemma foldM_cong: "(\<And>x. x \<in> set xs \<Longrightarrow> f x = g x) \<Longrightarrow> foldM f xs s = foldM g xs s"
proof (induction xs arbitrary: s)
  case (Cons x xs)
  then show ?case by (cases "g x s") auto
qed simp

lemma foldM_map: "foldM f (map h xs) s = foldM (\<lambda>x. f (h x)) xs s"
proof (induction xs arbitrary: s)
  case (Cons x xs)
  then show ?case by (cases "f (h x) s") auto
qed simp

lemma length_rows [simp]: "length (rows_of b) = VGA_HEIGHT"
  by (simp add: rows_of_def)

lemma rows_eqI:
  assumes "length rs = VGA_HEIGHT" "\<And>y. y < VGA_HEIGHT \<Longrightarrow> length (rs ! y) = VGA_WIDTH"
    "\<And>y x. y < VGA_HEIGHT \<Longrightarrow> x < VGA_WIDTH \<Longrightarrow> b ! (y * VGA_WIDTH + x) = rs ! y ! x"
  shows "rows_of b = rs"
  by (rule nth_equalityI) (auto simp: rows_of_def assms intro!: nth_equalityI)

lemma cell_in_row: "x < VGA_WIDTH \<Longrightarrow> y * VGA_WIDTH + x = y' * VGA_WIDTH + x' \<Longrightarrow> x' < VGA_WIDTH \<Longrightarrow> y = y' \<and> x = x'"
  by (metis add.commute div_mult_self3 div_less mod_less mod_mult_self3 add_0 less_nat_zero_code)

lemma cell_bound: "y < h \<Longrightarrow> x < VGA_WIDTH \<Longrightarrow> y * VGA_WIDTH + x < VGA_WIDTH * h"
proof -
  assume a: "y < h" "x < VGA_WIDTH"
  then have "(y + 1) * VGA_WIDTH \<le> h * VGA_WIDTH" by (intro mult_le_mono1) simp
  then show ?thesis using a(2) by (simp add: algebra_simps)
qed

lemma rollover_rows:
  assumes "length (terminal_buffer t) = VGA_WIDTH * VGA_HEIGHT"
  shows "\<exists>b. terminal_rollover t = Some (t\<lparr>terminal_buffer := b\<rparr>) \<and> length b = VGA_WIDTH * VGA_HEIGHT \<and>
    rows_of b = tl (rows_of (terminal_buffer t)) @ [replicate VGA_WIDTH (vga_entry 32 (terminal_color t))]"
proof -
  let ?b = "terminal_buffer t" and ?n = "24 * VGA_WIDTH" and ?v = "vga_entry 32 (terminal_color t)"
  let ?f = "\<lambda>i b. if i < length b then set_cell (b ! i) (i - VGA_WIDTH) b else None :: u16 list option"
  have "foldM (copy_up y) [0..<VGA_WIDTH] b = foldM ?f (row_cells y) b" if "1 \<le> y" for y b
  proof -
    have "(y - 1) * VGA_WIDTH + x = y * VGA_WIDTH + x - VGA_WIDTH" for x using that by (cases y) simp_all
    then show ?thesis unfolding row_cells_def foldM_map by (intro foldM_cong) (simp add: copy_up_def fun_eq_iff)
  qed
  moreover have cc: "concat (map row_cells [1..<1 + 24]) = [VGA_WIDTH..<VGA_WIDTH + ?n]"
    unfolding row_cells_all by (simp add: algebra_simps)
  ultimately have "foldM (\<lambda>y. foldM (copy_up y) [0..<VGA_WIDTH]) [1..<VGA_HEIGHT] ?b = foldM (\<lambda>y. foldM ?f (row_cells y)) [1..<VGA_HEIGHT] ?b"
    by (intro foldM_cong) (simp add: fun_eq_iff)
  also have "\<dots> = foldM ?f (concat (map row_cells [1..<1 + 24])) ?b" by (simp add: cells_nested VGA_HEIGHT_def)
  also have "\<dots> = Some (take ?n (drop VGA_WIDTH ?b) @ drop ?n ?b)"
    unfolding cc using copy_up_loop [of ?n ?b] assms by (simp add: VGA_HEIGHT_def)
  finally have c: "foldM (\<lambda>y. foldM (copy_up y) [0..<VGA_WIDTH]) [1..<VGA_HEIGHT] ?b = Some (take ?n (drop VGA_WIDTH ?b) @ drop ?n ?b)" .
  define b1 where "b1 = take ?n (drop VGA_WIDTH ?b) @ drop ?n ?b"
  have len: "length b1 = VGA_WIDTH * VGA_HEIGHT" "length (take ?n (drop VGA_WIDTH ?b)) = ?n" using assms by (simp_all add: VGA_HEIGHT_def b1_def)
  have last: "set (row_cells 24) = {?n..<VGA_WIDTH * VGA_HEIGHT}"
    using row_cells_all [of 24 1] by (simp add: VGA_HEIGHT_def algebra_simps)
  let ?b2 = "map (\<lambda>i. if i \<in> set (row_cells 24) then ?v else b1 ! i) [0..<length b1]"
  have r: "terminal_rollover t = Some (t\<lparr>terminal_buffer := ?b2\<rparr>)"
    using c [folded b1_def] set_cells [of "row_cells 24" b1 ?v] len last by (simp add: terminal_rollover_def)
  have "rows_of ?b2 = tl (rows_of ?b) @ [replicate VGA_WIDTH ?v]"
  proof (rule rows_eqI)
    fix y x assume yx: "y < VGA_HEIGHT" "x < VGA_WIDTH"
    let ?i = "y * VGA_WIDTH + x"
    have i: "?i < VGA_WIDTH * VGA_HEIGHT" by (rule cell_bound [OF yx])
    show "?b2 ! ?i = (tl (rows_of ?b) @ [replicate VGA_WIDTH ?v]) ! y ! x"
    proof (cases "y < 24")
      case True
      then have "?i < ?n" using cell_bound [OF True yx(2)] by (simp add: mult.commute)
      then have "b1 ! ?i = ?b ! (VGA_WIDTH + ?i)" using len assms by (simp add: b1_def nth_append VGA_HEIGHT_def)
      then have "?b2 ! ?i = ?b ! (Suc y * VGA_WIDTH + x)" using i len last \<open>?i < ?n\<close> by (simp add: add.assoc)
      then show ?thesis using True yx by (simp add: nth_append nth_tl rows_of_def VGA_HEIGHT_def)
    next
      case False
      then have y: "y = 24" using yx(1) by (simp add: VGA_HEIGHT_def)
      then have "?i \<in> set (row_cells 24)" using i last by simp
      then show ?thesis using i len y yx(2) by (simp add: nth_append VGA_HEIGHT_def)
    qed
  qed (auto simp: nth_append nth_tl rows_of_def VGA_HEIGHT_def)
  then show ?thesis using r len by (intro exI [of _ ?b2]) simp
qed

lemma terminal_okD:
  assumes "terminal_ok t"
  shows "unat (terminal_row t) < VGA_HEIGHT" "unat (terminal_column t) < VGA_WIDTH"
    "unat (terminal_row t * of_nat VGA_WIDTH + terminal_column t) = unat (terminal_row t) * VGA_WIDTH + unat (terminal_column t)"
proof -
  show r: "unat (terminal_row t) < VGA_HEIGHT" "unat (terminal_column t) < VGA_WIDTH"
    using assms by (simp_all add: terminal_ok_def word_less_nat_alt VGA_HEIGHT_def VGA_WIDTH_def)
  have "unat (terminal_row t) * 80 < 2 ^ 63" "unat (terminal_column t) < 80" using r by (simp_all add: VGA_HEIGHT_def VGA_WIDTH_def)
  then show "unat (terminal_row t * of_nat VGA_WIDTH + terminal_column t) = unat (terminal_row t) * VGA_WIDTH + unat (terminal_column t)"
    by (simp add: unat_word_ariths VGA_WIDTH_def)
qed

lemma rows_update:
  assumes "length b = VGA_WIDTH * VGA_HEIGHT" "y < VGA_HEIGHT" "x < VGA_WIDTH"
  shows "rows_of (b[y * VGA_WIDTH + x := v]) = (rows_of b)[y := (rows_of b ! y)[x := v]]"
proof (rule rows_eqI)
  fix y' x' assume a: "y' < VGA_HEIGHT" "x' < VGA_WIDTH"
  have "y' * VGA_WIDTH + x' < length b" "y * VGA_WIDTH + x < length b" using cell_bound [OF a] cell_bound [OF assms(2,3)] assms(1) by simp_all
  then show "b[y * VGA_WIDTH + x := v] ! (y' * VGA_WIDTH + x') = (rows_of b)[y := (rows_of b ! y)[x := v]] ! y' ! x'"
    using a assms cell_in_row [OF assms(3), of y y' x'] by (auto simp: nth_list_update rows_of_def)
qed (use assms in \<open>auto simp: nth_list_update rows_of_def\<close>)

lemma unat_succ_small: "unat a < 100 \<Longrightarrow> unat (a + 1 :: u64) = Suc (unat a)"
  by (simp add: unat_word_ariths)

lemma type_put:
  assumes "terminal_ok t"
  shows "\<exists>t1. terminal_putchar c t = Some t1 \<and> terminal_ok t1 \<and> screen_of t1 = type_char c (screen_of t)"
proof -
  note d = terminal_okD [OF assms]
  have len: "length (terminal_buffer t) = VGA_WIDTH * VGA_HEIGHT" using assms by (simp add: terminal_ok_def)
  let ?i = "unat (terminal_row t) * VGA_WIDTH + unat (terminal_column t)"
  define b where "b = (if c = 10 then terminal_buffer t else (terminal_buffer t)[?i := vga_entry c (terminal_color t)])"
  have lb: "length b = VGA_WIDTH * VGA_HEIGHT" using len by (simp add: b_def)
  have p: "terminal_putentryat c (terminal_color t) (terminal_column t) (terminal_row t) t = Some (t\<lparr>terminal_buffer := b\<rparr>)"
    using d len cell_bound [OF d(1,2)] by (simp add: terminal_putentryat_def set_cell_def b_def)
  have rb: "rows_of b = (if c = 10 then rows_of (terminal_buffer t)
      else (rows_of (terminal_buffer t))[unat (terminal_row t) := (rows_of (terminal_buffer t) ! unat (terminal_row t))[unat (terminal_column t) := vga_entry c (terminal_color t)]])"
    using rows_update [OF len d(1,2)] by (simp add: b_def)
  have su: "unat (terminal_column t + 1) = Suc (unat (terminal_column t))" "unat (terminal_row t + 1) = Suc (unat (terminal_row t))"
    using d(1,2) by (auto simp: VGA_HEIGHT_def VGA_WIDTH_def intro: unat_succ_small)
  have col: "terminal_column t + 1 = of_nat VGA_WIDTH \<longleftrightarrow> unat (terminal_column t) + 1 = VGA_WIDTH"
    "terminal_row t + 1 = of_nat VGA_HEIGHT \<longleftrightarrow> unat (terminal_row t) + 1 = VGA_HEIGHT"
    unfolding word_unat_eq_iff su by (simp_all add: VGA_HEIGHT_def VGA_WIDTH_def)
  show ?thesis
  proof (cases "unat (terminal_column t) + 1 = VGA_WIDTH \<or> c = 10")
    case False
    then show ?thesis using p col su rb lb d
      by (simp add: terminal_putchar_def terminal_ok_def screen_of_def type_char_def Let_def word_less_nat_alt VGA_HEIGHT_def VGA_WIDTH_def)
  next
    case True
    let ?t3 = "t\<lparr>terminal_buffer := b, terminal_column := 0, terminal_row := terminal_row t + 1\<rparr>"
    show ?thesis
    proof (cases "unat (terminal_row t) + 1 = VGA_HEIGHT")
      case last: False
      then have "terminal_putchar c t = Some ?t3" using True p col by (auto simp: terminal_putchar_def Let_def)
      moreover have "terminal_ok ?t3" using last lb d su by (simp add: terminal_ok_def word_less_nat_alt VGA_HEIGHT_def VGA_WIDTH_def)
      moreover have "screen_of ?t3 = type_char c (screen_of t)" using last True rb d su
        by (auto simp: screen_of_def type_char_def newline_def Let_def)
      ultimately show ?thesis by blast
    next
      case last: True
      from rollover_rows [of ?t3] lb obtain b2 where r: "terminal_rollover ?t3 = Some (?t3\<lparr>terminal_buffer := b2\<rparr>)"
        "length b2 = VGA_WIDTH * VGA_HEIGHT" "rows_of b2 = tl (rows_of b) @ [replicate VGA_WIDTH (vga_entry 32 (terminal_color t))]" by auto
      let ?t4 = "t\<lparr>terminal_buffer := b2, terminal_column := 0, terminal_row := of_nat VGA_HEIGHT - 1\<rparr>"
      have "terminal_putchar c t = Some ?t4" using True last p col r(1) by (auto simp: terminal_putchar_def Let_def)
      moreover have "terminal_ok ?t4" using r(2) by (simp add: terminal_ok_def VGA_HEIGHT_def VGA_WIDTH_def)
      moreover have "unat (terminal_row t) = 24" using last by (simp add: VGA_HEIGHT_def)
      then have "screen_of ?t4 = type_char c (screen_of t)" using last True rb r(3)
        by (auto simp: screen_of_def type_char_def newline_def Let_def VGA_HEIGHT_def)
      ultimately show ?thesis by blast
    qed
  qed
qed

lemma clear_rows:
  assumes "length b = VGA_WIDTH * VGA_HEIGHT"
  shows "foldM (\<lambda>y. foldM (set_cell v) (row_cells y)) [0..<VGA_HEIGHT] b = Some (replicate (VGA_WIDTH * VGA_HEIGHT) v)"
proof -
  have "concat (map row_cells [0..<VGA_HEIGHT]) = [0..<length b]" using row_cells_all [of 0 VGA_HEIGHT] assms by (simp add: mult.commute)
  moreover have "map (\<lambda>i. if i \<in> set [0..<length b] then v else b ! i) [0..<length b] = replicate (length b) v"
    by (rule nth_equalityI) simp_all
  ultimately show ?thesis using set_cells [of "[0..<length b]" b v] assms by (simp add: cells_nested)
qed

lemma rows_blank: "rows_of (replicate (VGA_WIDTH * VGA_HEIGHT) v) = replicate VGA_HEIGHT (replicate VGA_WIDTH v)"
  by (rule rows_eqI) (use cell_bound in auto)

lemma terminal_initialize_ok:
  assumes "length b = VGA_WIDTH * VGA_HEIGHT"
  shows "\<exists>t. terminal_initialize b = Some t \<and> terminal_ok t \<and>
    screen_of t = \<lparr>sc_rows = replicate VGA_HEIGHT (replicate VGA_WIDTH (vga_entry 32 7)), sc_row = 0, sc_column = 0, sc_color = 7\<rparr>"
  using clear_rows [OF assms, of "vga_entry 32 7"]
  by (simp add: terminal_initialize_def vga_entry_color_def terminal_ok_def screen_of_def rows_blank) (simp add: VGA_HEIGHT_def VGA_WIDTH_def)

section \<open>Properties\<close>

text \<open>Printing refines typing on a screen of rows: with the cursor on the screen \<^verbatim>\<open>terminal_write\<close> never stores outside the 80 by 25 cells, each
  character appears at the cursor, a newline or a full row moves to the next row, and past the last row all rows move up by
  one, the first is lost and a blank one appears.
\<close>
theorem terminal_write_refines:
  assumes "terminal_ok t"
  shows "\<exists>t1. terminal_write data t = Some t1 \<and> terminal_ok t1 \<and> screen_of t1 = fold type_char data (screen_of t)"
  unfolding terminal_write_def using assms
proof (induction data arbitrary: t)
  case (Cons c data)
  from type_put [OF Cons.prems, of c] obtain t1 where "terminal_putchar c t = Some t1" "terminal_ok t1" "screen_of t1 = type_char c (screen_of t)"
    by blast
  with Cons.IH [of t1] show ?case by auto
qed simp

theorem terminal_write_refines_witness:
  "\<exists>t t1. terminal_initialize (replicate (VGA_WIDTH * VGA_HEIGHT) 0) = Some t \<and> terminal_write (cstr ''ok'') t = Some t1 \<and>
    sc_rows (screen_of t1) ! 0 ! 1 = vga_entry 107 7 \<and> sc_column (screen_of t1) = 2"
proof -
  obtain t where t: "terminal_initialize (replicate (VGA_WIDTH * VGA_HEIGHT) 0) = Some t" "terminal_ok t"
    "screen_of t = \<lparr>sc_rows = replicate VGA_HEIGHT (replicate VGA_WIDTH (vga_entry 32 7)), sc_row = 0, sc_column = 0, sc_color = 7\<rparr>"
    using terminal_initialize_ok [of "replicate (VGA_WIDTH * VGA_HEIGHT) 0"] by auto
  from terminal_write_refines [OF t(2), of "cstr ''ok''"] t(1,3) show ?thesis
    by (auto simp: cstr_def type_char_def Let_def VGA_WIDTH_def VGA_HEIGHT_def)
qed

end
