(* ===== verification/Pty.thy ===== *)
theory Pty
  imports Ring_Buffer Terminal
begin

text \<open>
  The pseudo terminals of \<^verbatim>\<open>kernel/fs/pty.c\<close>: a line discipline over two ring buffers and a wait queue. The termios structure and the
  constants of \<^verbatim>\<open>termios.h\<close>, \<^verbatim>\<open>poll.h\<close> and \<^verbatim>\<open>errno.h\<close> belong to the C library, which is not part of the repository: the constants
  are the argument \<open>a\<close>, and the members of the structure that the kernel does not read are carried along in one field. The blocking read is cut at \<^verbatim>\<open>mutex_wait\<close>, as in \<open>Ring_Buffer\<close>.
\<close>

section \<open>Data\<close>

record tty_abi =
  ab_ECHO :: u32
  ab_ICANON :: u32
  ab_VERASE :: nat
  ab_VEOF :: nat
  ab_NCCS :: nat
  ab_POLLIN :: u32
  ab_POLLOUT :: u32
  ab_EINVAL :: int
  ab_ENOSYS :: int

record termios =
  c_lflag :: u32
  c_cc :: bytes
  c_ibaud :: u32
  c_obaud :: u32
  c_rest :: "u32 list"

record pty_data =
  pd_input_buffer :: circular_buffer
  pd_output_buffer :: circular_buffer
  pd_term_settings :: termios
  pd_session_leader :: int
  pd_index :: int
  pd_raw :: bool
  pd_console :: "bool option"   \<comment> \<open>\<open>None\<close>: the member has not been assigned\<close>

datatype pty_ops = No_ops | Pty_master_ops | Pty_slave_ops

record pty_node =
  nd_name :: bytes
  nd_type :: u64
  nd_fs :: "int option"   \<comment> \<open>the pair whose data the node's \<^verbatim>\<open>fs\<close> pointer is\<close>
  nd_ops :: pty_ops

record pty_pair =
  pp_master :: pty_node
  pp_slave :: pty_node
  pp_wait_queue_write :: ptr   \<comment> \<open>the addresses of the embedded mutexes\<close>
  pp_wait_queue_read :: ptr
  pp_data :: "pty_data option"

record tty =
  tt_pairs :: "pty_pair list"
  tt_term :: terminal
  tt_kst :: kstate

definition PTY_BUFFER_SIZE :: int where "PTY_BUFFER_SIZE = 1024"
definition MAX_PTY_PAIRS :: int where "MAX_PTY_PAIRS = 16"


definition TCGETS :: u64 where "TCGETS = 0x5401"
definition TCSETS :: u64 where "TCSETS = 0x5402"
definition TCSETSW :: u64 where "TCSETSW = 0x5403"
definition TCSETSF :: u64 where "TCSETSF = 0x5404"
definition TIOCGPGRP :: u64 where "TIOCGPGRP = 0x540F"
definition TIOCSPGRP :: u64 where "TIOCSPGRP = 0x5410"

section \<open>Operations\<close>

definition pty_init :: "tty \<Rightarrow> tty" where
  \<comment> \<open>\<^verbatim>\<open>memset(pty_pairs, 0, sizeof(pty_pairs))\<close>, which also clears the embedded mutexes\<close>
  "pty_init y = y\<lparr>tt_pairs := map (\<lambda>p. \<lparr>pp_master = \<lparr>nd_name = [], nd_type = 0, nd_fs = None, nd_ops = No_ops\<rparr>,
     pp_slave = \<lparr>nd_name = [], nd_type = 0, nd_fs = None, nd_ops = No_ops\<rparr>, pp_wait_queue_write = pp_wait_queue_write p,
     pp_wait_queue_read = pp_wait_queue_read p, pp_data = None\<rparr>) (tt_pairs y),
     tt_kst := (tt_kst y)\<lparr>mutexes := (mutexes (tt_kst y)) |`
       (- (pp_wait_queue_write ` set (tt_pairs y) \<union> pp_wait_queue_read ` set (tt_pairs y)))\<rparr>\<rparr>"

definition pair_at :: "int \<Rightarrow> tty \<Rightarrow> pty_pair option" where
  \<comment> \<open>\<^verbatim>\<open>pty_pairs[i]\<close>\<close>
  "pair_at i y = (if 0 \<le> i \<and> nat i < length (tt_pairs y) then Some (tt_pairs y ! nat i) else None)"

definition set_pair :: "int \<Rightarrow> pty_pair \<Rightarrow> tty \<Rightarrow> tty" where
  "set_pair i p y = y\<lparr>tt_pairs := (tt_pairs y)[nat i := p]\<rparr>"

definition pty_at :: "int \<Rightarrow> tty \<Rightarrow> pty_data option" where
  \<comment> \<open>\<^verbatim>\<open>*pty_pairs[i].data\<close>\<close>
  "pty_at i y = do { p \<leftarrow> pair_at i y; pp_data p }"

definition set_pty :: "int \<Rightarrow> pty_data \<Rightarrow> tty \<Rightarrow> tty" where
  "set_pty i d y = y\<lparr>tt_pairs := (tt_pairs y)[nat i := (tt_pairs y ! nat i)\<lparr>pp_data := Some d\<rparr>]\<rparr>"

definition pty_create_pair :: "tty_abi \<Rightarrow> int \<Rightarrow> ptr \<times> ptr \<times> ptr \<times> ptr \<Rightarrow> tty \<Rightarrow> (int \<times> tty) option" where
  \<comment> \<open>the addresses are those of the mutexes in the two ring buffers; \<^verbatim>\<open>console\<close> is assigned for the first pair only\<close>
  "pty_create_pair a pty_index qs y =
     (if pty_index \<ge> MAX_PTY_PAIRS then Some (- ab_EINVAL a, y)
      else do {
        pair \<leftarrow> pair_at pty_index y;
        let (iw, ir, ow, rd) = qs;
        (inb, s1) \<leftarrow> ring_buffer_create PTY_BUFFER_SIZE False iw ir (tt_kst y);
        (outb, s2) \<leftarrow> ring_buffer_create PTY_BUFFER_SIZE False ow rd s1;
        s3 \<leftarrow> mutex_init (pp_wait_queue_read pair) s2;
        s4 \<leftarrow> mutex_init (pp_wait_queue_write pair) s3;
        let zero = \<lparr>c_lflag = 0, c_cc = replicate (ab_NCCS a) 0, c_ibaud = 0, c_obaud = 0, c_rest = []\<rparr>;
        settings \<leftarrow> (if pty_index = 0 then
            (if ab_VERASE a < ab_NCCS a \<and> ab_VEOF a < ab_NCCS a
             then Some (zero\<lparr>c_lflag := ab_ECHO a OR ab_ICANON a, c_cc := (c_cc zero)[ab_VERASE a := 8, ab_VEOF a := 4],
                             c_obaud := 38400, c_ibaud := 38400\<rparr>)
             else None)
          else Some zero);
        let d = \<lparr>pd_input_buffer = inb, pd_output_buffer = outb, pd_term_settings = settings, pd_session_leader = -1,
                 pd_index = pty_index, pd_raw = False, pd_console = (if pty_index = 0 then Some True else None)\<rparr>;
        Some (0, set_pair pty_index (pair\<lparr>
          pp_master := \<lparr>nd_name = cstr ''pty_master'', nd_type = FILE_TYPE_VIRTUAL_DEVICE, nd_fs = Some pty_index, nd_ops = Pty_master_ops\<rparr>,
          pp_slave := \<lparr>nd_name = cstr ''pty_slave'', nd_type = FILE_TYPE_VIRTUAL_DEVICE, nd_fs = Some pty_index, nd_ops = Pty_slave_ops\<rparr>,
          pp_data := Some d\<rparr>) (y\<lparr>tt_kst := s4\<rparr>))
      })"

definition pty_get_master :: "int \<Rightarrow> tty \<Rightarrow> pty_node option option" where
  \<comment> \<open>\<open>Some None\<close> is \<^verbatim>\<open>NULL\<close>\<close>
  "pty_get_master pty_index y =
     (if pty_index \<ge> MAX_PTY_PAIRS then Some None else do { p \<leftarrow> pair_at pty_index y; Some (Some (pp_master p)) })"

definition pty_get_slave :: "int \<Rightarrow> tty \<Rightarrow> (pty_node option \<times> tty) option" where
  "pty_get_slave pty_index y =
     (if pty_index \<ge> MAX_PTY_PAIRS then Some (None, y)
      else do {
        pair \<leftarrow> pair_at pty_index y;
        d \<leftarrow> pp_data pair;
        if pd_session_leader d = -1 then do {
          x \<leftarrow> at (procs (tt_kst y)) (current_process (tt_kst y));
          Some (Some (pp_slave pair), set_pty pty_index (d\<lparr>pd_session_leader := p_id x\<rparr>) y)
        } else Some (Some (pp_slave pair), y)
      })"

fun newline_loop :: "circular_buffer \<Rightarrow> int list \<Rightarrow> int option" where
  "newline_loop cb [] = Some (-1)"
| "newline_loop cb (i # is) = do {
     (r, c) \<leftarrow> ring_buffer_peek cb i;
     if r \<noteq> 0 \<and> c = Some 10 then Some (i + 1) else newline_loop cb is
   }"

definition find_newline :: "circular_buffer \<Rightarrow> int option" where
  "find_newline cb = newline_loop cb (map int [0..<nat (ring_buffer_available cb)])"

definition pty_slave_read :: "tty_abi \<Rightarrow> pty_node \<Rightarrow> u64 \<Rightarrow> u64 \<Rightarrow> tty \<Rightarrow> (rb_outcome \<times> bytes \<times> tty) option" where
  \<comment> \<open>until it returns or waits; \<^verbatim>\<open>MIN\<close> compares as \<^verbatim>\<open>size_t\<close>\<close>
  "pty_slave_read a node sz offset y = do {
     i \<leftarrow> nd_fs node;
     d \<leftarrow> pty_at i y;
     if c_lflag (pd_term_settings d) AND ab_ICANON a \<noteq> 0 then do {
       newline_pos \<leftarrow> find_newline (pd_input_buffer d);
       if newline_pos = -1 then do {
         pair \<leftarrow> pair_at (pd_index d) y;
         (p, s1) \<leftarrow> wait_on (pp_wait_queue_read pair) (tt_kst y);
         Some (Rb_retry p, [], y\<lparr>tt_kst := s1\<rparr>)
       } else do {
         let n = (if to_size newline_pos < sz then to_size newline_pos else sz);
         (r, bs, cb, s1) \<leftarrow> ring_buffer_read (pd_input_buffer d) (to_int n) (tt_kst y);
         Some (r, bs, set_pty i (d\<lparr>pd_input_buffer := cb\<rparr>) (y\<lparr>tt_kst := s1\<rparr>))
       }
     } else do {
       (r, bs, cb, s1) \<leftarrow> ring_buffer_read (pd_input_buffer d) (to_int sz) (tt_kst y);
       Some (r, bs, set_pty i (d\<lparr>pd_input_buffer := cb\<rparr>) (y\<lparr>tt_kst := s1\<rparr>))
     }
   }"

definition write_now :: "circular_buffer \<Rightarrow> int \<Rightarrow> bytes \<Rightarrow> kstate \<Rightarrow> (int \<times> circular_buffer \<times> kstate) option" where
  \<comment> \<open>\<^verbatim>\<open>ring_buffer_write\<close> on a buffer created with \<^verbatim>\<open>blockingWrite\<close> false, which never waits\<close>
  "write_now cb sz data s = (case ring_buffer_write cb sz data s of
     Some (Rb_return r, cb1, s1) \<Rightarrow> Some (r, cb1, s1) | _ \<Rightarrow> None)"

definition pty_write :: "pty_node \<Rightarrow> bytes \<Rightarrow> u64 \<Rightarrow> u64 \<Rightarrow> tty \<Rightarrow> (int \<times> tty) option" where
  "pty_write node buffer sz offset y = do {
     i \<leftarrow> nd_fs node;
     d \<leftarrow> pty_at i y;
     (r, cb, s1) \<leftarrow> write_now (pd_output_buffer d) (to_int sz) buffer (tt_kst y);
     Some (r, set_pty i (d\<lparr>pd_output_buffer := cb\<rparr>) (y\<lparr>tt_kst := s1\<rparr>))
   }"

definition pty_master_read :: "pty_node \<Rightarrow> u64 \<Rightarrow> u64 \<Rightarrow> tty \<Rightarrow> int \<times> tty" where
  "pty_master_read node sz offset y = (0, y)"

definition echo_char :: "int \<Rightarrow> int \<Rightarrow> u8 \<Rightarrow> tty \<Rightarrow> tty option" where
  \<comment> \<open>the data of pair \<open>i\<close>; \<^verbatim>\<open>terminal_swap\<close> does nothing in text mode\<close>
  "echo_char i pty_index c y = do {
     d \<leftarrow> pty_at i y;
     cons \<leftarrow> pd_console d;
     if cons then do { t \<leftarrow> terminal_putchar c (tt_term y); Some (y\<lparr>tt_term := t\<rparr>) }
     else do {
       (node, y1) \<leftarrow> pty_get_slave pty_index y;
       n \<leftarrow> node;
       (_, y2) \<leftarrow> pty_write n [c] 1 0 y1;
       Some y2
     }
   }"

definition signal_input_ready :: "int \<Rightarrow> tty \<Rightarrow> tty option" where
  "signal_input_ready i y = do {
     d \<leftarrow> pty_at i y;
     pair \<leftarrow> pair_at (pd_index d) y;
     (free, s1) \<leftarrow> mutex_acquire_if_free (pp_wait_queue_read pair) (tt_kst y);
     if \<not> free then do { s2 \<leftarrow> mutex_release (pp_wait_queue_read pair) s1; Some (y\<lparr>tt_kst := s2\<rparr>) }
     else Some (y\<lparr>tt_kst := s1\<rparr>)
   }"

definition canonical :: "tty_abi \<Rightarrow> pty_data \<Rightarrow> bool" where
  \<comment> \<open>the negation of \<^verbatim>\<open>!(c_lflag & ICANON) || pty->raw\<close>\<close>
  "canonical a d \<longleftrightarrow> \<not> (c_lflag (pd_term_settings d) AND ab_ICANON a = 0 \<or> pd_raw d)"

definition echoing :: "tty_abi \<Rightarrow> pty_data \<Rightarrow> bool" where
  "echoing a d \<longleftrightarrow> c_lflag (pd_term_settings d) AND ab_ECHO a \<noteq> 0"

definition put_input :: "int \<Rightarrow> u8 \<Rightarrow> tty \<Rightarrow> (bool \<times> tty) option" where
  \<comment> \<open>\<^verbatim>\<open>ring_buffer_write(pty->input_buffer, 1, &c) > 0\<close>\<close>
  "put_input i c y = do {
     d \<leftarrow> pty_at i y;
     (r, cb, s1) \<leftarrow> write_now (pd_input_buffer d) 1 [c] (tt_kst y);
     Some (r > 0, set_pty i (d\<lparr>pd_input_buffer := cb\<rparr>) (y\<lparr>tt_kst := s1\<rparr>))
   }"

fun echo_all :: "int \<Rightarrow> bytes \<Rightarrow> tty \<Rightarrow> tty option" where
  "echo_all i [] y = Some y"
| "echo_all i (c # cs) y = do { y1 \<leftarrow> echo_char i i c y; echo_all i cs y1 }"

definition erase_input :: "tty_abi \<Rightarrow> int \<Rightarrow> tty \<Rightarrow> tty option" where
  \<comment> \<open>the backspace case\<close>
  "erase_input a i y = do {
     d \<leftarrow> pty_at i y;
     if ring_buffer_available (pd_input_buffer d) > 0 then do {
       (_, cb, s1) \<leftarrow> ring_buffer_pop (pd_input_buffer d) (tt_kst y);
       let y1 = set_pty i (d\<lparr>pd_input_buffer := cb\<rparr>) (y\<lparr>tt_kst := s1\<rparr>);
       if echoing a d then echo_all i [8, 32, 8] y1 else Some y1
     } else Some y
   }"

datatype step_result = Next bool | Break   \<comment> \<open>go on (with \<^verbatim>\<open>line_complete\<close>), or leave the loop\<close>

definition input_char :: "tty_abi \<Rightarrow> int \<Rightarrow> u8 \<Rightarrow> tty \<Rightarrow> (step_result \<times> bool \<times> tty) option" where
  \<comment> \<open>the body of the loop; the second component says whether \<^verbatim>\<open>written++\<close> is executed\<close>
  "input_char a i c y = do {
     d \<leftarrow> pty_at i y;
     if \<not> canonical a d then do {
       (ok, y1) \<leftarrow> put_input i c y;
       if ok then do {
         y2 \<leftarrow> (if echoing a d \<and> c \<noteq> 8 then echo_char i i c y1 else Some y1);
         Some (Next False, True, y2)
       } else Some (Break, False, y1)
     }
     else if c = 8 then do { y1 \<leftarrow> erase_input a i y; Some (Next False, True, y1) }
     else do {
       (ok, y1) \<leftarrow> put_input i c y;
       if ok then do {
         y2 \<leftarrow> (if echoing a d then echo_char i i c y1 else Some y1);
         Some (Next (c = 10 \<or> c = 13), True, y2)
       } else Some (Next True, False, y1)
     }
   }"

fun input_loop :: "tty_abi \<Rightarrow> int \<Rightarrow> bytes \<Rightarrow> u64 \<Rightarrow> tty \<Rightarrow> (u64 \<times> bool \<times> tty) option" where
  \<comment> \<open>\<^verbatim>\<open>for (size_t i = 0; i < size && !line_complete; i++)\<close> on the bytes that are left\<close>
  "input_loop a i [] written y = Some (written, False, y)"
| "input_loop a i (c # cs) written y = do {
     (r, w, y1) \<leftarrow> input_char a i c y;
     let written1 = (if w then written + 1 else written);
     case r of Break \<Rightarrow> Some (written1, False, y1)
     | Next complete \<Rightarrow> if complete then Some (written1, True, y1) else input_loop a i cs written1 y1
   }"

definition pty_write_to_input :: "tty_abi \<Rightarrow> int \<Rightarrow> bytes \<Rightarrow> u64 \<Rightarrow> tty \<Rightarrow> (int \<times> tty) option" where
  "pty_write_to_input a pty_index buffer sz y =
     (if pty_index \<ge> MAX_PTY_PAIRS then Some (- ab_EINVAL a, y)
      else do {
        _ \<leftarrow> pty_at pty_index y;
        if unat sz > length buffer then None else do {
          (written, line_complete, y1) \<leftarrow> input_loop a pty_index (take (unat sz) buffer) 0 y;
          d \<leftarrow> pty_at pty_index y1;
          y2 \<leftarrow> (if \<not> canonical a d \<or> line_complete then signal_input_ready pty_index y1 else Some y1);
          Some (to_int written, y2)
        }
      })"

definition pty_master_write :: "tty_abi \<Rightarrow> pty_node \<Rightarrow> bytes \<Rightarrow> u64 \<Rightarrow> u64 \<Rightarrow> tty \<Rightarrow> (int \<times> tty) option" where
  "pty_master_write a node buffer sz offset y = do {
     i \<leftarrow> nd_fs node;
     d \<leftarrow> pty_at i y;
     pty_write_to_input a (pd_index d) buffer sz y
   }"

definition pty_write_char_to_input :: "tty_abi \<Rightarrow> int \<Rightarrow> u8 \<Rightarrow> tty \<Rightarrow> (int \<times> tty) option" where
  "pty_write_char_to_input a pty_index c y = pty_write_to_input a pty_index [c] 1 y"

datatype ioctl_arg = Arg_termios termios | Arg_pid u32 | Arg_other bytes

definition pty_ioctl :: "tty_abi \<Rightarrow> pty_node \<Rightarrow> u64 \<Rightarrow> ioctl_arg \<Rightarrow> tty \<Rightarrow> (int \<times> ioctl_arg \<times> tty) option" where
  \<comment> \<open>\<open>arg\<close> is the object behind the caller's pointer; an object of another type is a fault\<close>
  "pty_ioctl a node request arg y = do {
     i \<leftarrow> nd_fs node;
     d \<leftarrow> pty_at i y;
     if request = TCGETS then
       (case arg of Arg_termios t \<Rightarrow> Some (0, Arg_termios (pd_term_settings d), y) | _ \<Rightarrow> None)
     else if request = TCSETS \<or> request = TCSETSW then
       (case arg of Arg_termios t \<Rightarrow> Some (0, arg, set_pty i (d\<lparr>pd_term_settings := t\<rparr>) y) | _ \<Rightarrow> None)
     else if request = TCSETSF then
       (case arg of Arg_termios t \<Rightarrow> do {
            cb \<leftarrow> ring_buffer_discard_readable (pd_input_buffer d);
            Some (0, arg, set_pty i (d\<lparr>pd_input_buffer := cb, pd_term_settings := t\<rparr>) y)
          }
        | _ \<Rightarrow> None)
     else if request = TIOCGPGRP then
       (case arg of Arg_pid p \<Rightarrow> Some (0, Arg_pid (word_of_int (pd_session_leader d)), y) | _ \<Rightarrow> None)
     else if request = TIOCSPGRP then
       (case arg of Arg_pid p \<Rightarrow> Some (0, arg, set_pty i (d\<lparr>pd_session_leader := sint p\<rparr>) y) | _ \<Rightarrow> None)
     else Some (- ab_ENOSYS a, arg, y)
   }"

definition pty_poll :: "tty_abi \<Rightarrow> pty_node \<Rightarrow> u32 \<Rightarrow> tty \<Rightarrow> u32 option" where
  "pty_poll a node requested y = do {
     i \<leftarrow> nd_fs node;
     d \<leftarrow> pty_at i y;
     if requested AND ab_POLLIN a \<noteq> 0 then
       (if c_lflag (pd_term_settings d) AND ab_ICANON a \<noteq> 0 then do {
          p \<leftarrow> find_newline (pd_input_buffer d);
          Some (if p \<noteq> -1 then ab_POLLIN a else 0)
        } else Some (if ring_buffer_available (pd_input_buffer d) \<noteq> 0 then ab_POLLIN a else 0))
     else Some 0
   }"

section \<open>The console's terminal\<close>

definition con_ok :: "ptr list \<Rightarrow> ptr list \<Rightarrow> pty_data \<Rightarrow> tty \<Rightarrow> bool" where
  \<comment> \<open>the first pair exists, with data \<open>d\<close>, and is the console's; its buffers, wait queues and the screen are in order\<close>
  "con_ok ms ps d y \<longleftrightarrow> length (tt_pairs y) = nat MAX_PTY_PAIRS \<and> pty_at 0 y = Some d \<and> pd_index d = 0 \<and> pd_console d = Some True \<and>
     rb_ok (pd_input_buffer d) \<and> \<not> cb_blockingWrite (pd_input_buffer d) \<and> sched_ok ms ps (tt_kst y) \<and>
     pp_wait_queue_read (tt_pairs y ! 0) \<in> set ms \<and> cb_wait_read (pd_input_buffer d) \<in> set ms \<and>
     cb_wait_write (pd_input_buffer d) \<in> set ms \<and> terminal_ok (tt_term y)"

abbreviation in_cap :: "pty_data \<Rightarrow> nat" where
  "in_cap d \<equiv> rb_capacity (pd_input_buffer d)"

abbreviation typed :: "pty_data \<Rightarrow> bytes" where
  "typed d \<equiv> contents (pd_input_buffer d)"

fun edit :: "nat \<Rightarrow> bytes \<Rightarrow> bytes \<Rightarrow> bytes \<times> bytes \<times> bool" where
  \<comment> \<open>line editing: the buffer after the given keys, what is echoed, and whether a line was completed or the buffer is full\<close>
  "edit cap xs [] = (xs, [], False)"
| "edit cap xs (c # cs) =
     (if c = 8 then (case edit cap (butlast xs) cs of (ys, es, b) \<Rightarrow> (ys, (if xs = [] then [] else [8, 32, 8]) @ es, b))
      else if length xs < cap then
        (if c = 10 \<or> c = 13 then (xs @ [c], [c], True) else (case edit cap (xs @ [c]) cs of (ys, es, b) \<Rightarrow> (ys, c # es, b)))
      else (xs, [], True))"

lemma con_okD:
  assumes "con_ok ms ps d y"
  shows "pair_at 0 y = Some (tt_pairs y ! 0)" "0 < length (tt_pairs y)" "pp_data (tt_pairs y ! 0) = Some d" "pty_at 0 y = Some d"
  using assms by (auto simp: con_ok_def pair_at_def pty_at_def MAX_PTY_PAIRS_def split: if_splits)

lemma con_ok_update:
  assumes "con_ok ms ps d y" "rb_ok cb" "cb_wait_read cb = cb_wait_read (pd_input_buffer d)"
    "cb_wait_write cb = cb_wait_write (pd_input_buffer d)" "\<not> cb_blockingWrite cb" "sched_ok ms ps s"
  shows "con_ok ms ps (d\<lparr>pd_input_buffer := cb\<rparr>) (set_pty 0 (d\<lparr>pd_input_buffer := cb\<rparr>) (y\<lparr>tt_kst := s\<rparr>))"
  using assms by (auto simp: con_ok_def set_pty_def pty_at_def pair_at_def MAX_PTY_PAIRS_def)

lemma put_input_ok:
  assumes "con_ok ms ps d y"
  shows "\<exists>cb y1. put_input 0 c y = Some (fill (pd_input_buffer d) < in_cap d, y1) \<and> con_ok ms ps (d\<lparr>pd_input_buffer := cb\<rparr>) y1 \<and>
    tt_term y1 = tt_term y \<and> rb_capacity cb = in_cap d \<and> contents cb = (if fill (pd_input_buffer d) < in_cap d then typed d @ [c] else typed d)"
proof -
  let ?b = "pd_input_buffer d"
  have ok: "rb_ok ?b" "\<not> cb_blockingWrite ?b" "cb_wait_read ?b \<in> set ms" "sched_ok ms ps (tt_kst y)" using assms by (simp_all add: con_ok_def)
  note w = writeable_fill [OF ok(1)]
  show ?thesis
  proof (cases "fill ?b < in_cap d")
    case True
    let ?cb = "?b\<lparr>cb_buffer := (cb_buffer ?b)[unat (cb_tail ?b) := c],
                       cb_tail := (if cb_tail ?b + 1 \<ge> cb_max ?b then 0 else cb_tail ?b + 1)\<rparr>"
    have p: "rb_ok ?cb" "contents ?cb = typed d @ [c]" "rb_capacity ?cb = in_cap d" using put_byte_contents [OF ok(1) True refl, of c] by blast+
    have "put_bytes ?b [c] = Some ?cb" using rb_okD [OF ok(1)] by simp
    moreover obtain s1 where s1: "signal_waiters (cb_wait_read ?b) (tt_kst y) = Some s1" "sched_ok ms ps s1"
      using wait_queue_ready [OF ok(4,3)] by blast
    moreover have "unat (to_size 1) = 1" "wrap_int 1 = 1" by (simp_all add: to_size_def wrap_int_def)
    ultimately have "write_now ?b 1 [c] (tt_kst y) = Some (1, ?cb, s1)"
      using w True by (simp add: write_now_def ring_buffer_write_def)
    then have "put_input 0 c y = Some (True, set_pty 0 (d\<lparr>pd_input_buffer := ?cb\<rparr>) (y\<lparr>tt_kst := s1\<rparr>))"
      using con_okD(4) [OF assms] by (simp add: put_input_def)
    moreover have "con_ok ms ps (d\<lparr>pd_input_buffer := ?cb\<rparr>) (set_pty 0 (d\<lparr>pd_input_buffer := ?cb\<rparr>) (y\<lparr>tt_kst := s1\<rparr>))"
      by (rule con_ok_update [OF assms p(1) _ _ _ s1(2)]) (simp_all add: ok(2))
    ultimately show ?thesis using True p by (intro exI [of _ ?cb]) (simp add: set_pty_def)
  next
    case False
    then have "write_now ?b 1 [c] (tt_kst y) = Some (0, ?b, tt_kst y)"
      using w ok(2) by (simp add: write_now_def ring_buffer_write_def)
    then have "put_input 0 c y = Some (False, set_pty 0 (d\<lparr>pd_input_buffer := ?b\<rparr>) (y\<lparr>tt_kst := tt_kst y\<rparr>))"
      using con_okD(4) [OF assms] by (simp add: put_input_def)
    moreover have "con_ok ms ps (d\<lparr>pd_input_buffer := ?b\<rparr>) (set_pty 0 (d\<lparr>pd_input_buffer := ?b\<rparr>) (y\<lparr>tt_kst := tt_kst y\<rparr>))"
      by (rule con_ok_update [OF assms ok(1) refl refl ok(2,4)])
    ultimately show ?thesis using False by (intro exI [of _ ?b]) (simp add: set_pty_def)
  qed
qed

lemma echo_all_ok:
  assumes "con_ok ms ps d y"
  shows "\<exists>t. echo_all 0 cs y = Some (y\<lparr>tt_term := t\<rparr>) \<and> con_ok ms ps d (y\<lparr>tt_term := t\<rparr>) \<and>
    screen_of t = fold type_char cs (screen_of (tt_term y))"
  using assms
proof (induction cs arbitrary: y)
  case Nil
  then show ?case by (intro exI [of _ "tt_term y"]) simp
next
  case (Cons c cs)
  have "terminal_ok (tt_term y)" using Cons.prems by (simp add: con_ok_def)
  from type_put [OF this, of c] obtain t where t: "terminal_putchar c (tt_term y) = Some t" "terminal_ok t"
    "screen_of t = type_char c (screen_of (tt_term y))" by blast
  have e: "echo_char 0 0 c y = Some (y\<lparr>tt_term := t\<rparr>)"
    using t(1) con_okD(4) [OF Cons.prems] Cons.prems by (simp add: echo_char_def con_ok_def)
  have "pty_at 0 (y\<lparr>tt_term := t\<rparr>) = pty_at 0 y" by (simp add: pty_at_def pair_at_def)
  then have "con_ok ms ps d (y\<lparr>tt_term := t\<rparr>)" using Cons.prems t(2) by (simp add: con_ok_def)
  from Cons.IH [OF this] e t(3) show ?case by auto
qed

lemma echo_char_all: "echo_char 0 0 c y = echo_all 0 [c] y"
  by (cases "echo_char 0 0 c y") simp_all

lemma erase_input_ok:
  assumes "con_ok ms ps d y" "echoing a d"
  shows "\<exists>cb y1. erase_input a 0 y = Some y1 \<and> con_ok ms ps (d\<lparr>pd_input_buffer := cb\<rparr>) y1 \<and> contents cb = butlast (typed d) \<and>
    rb_capacity cb = in_cap d \<and> screen_of (tt_term y1) = fold type_char (if typed d = [] then [] else [8, 32, 8]) (screen_of (tt_term y))"
proof (cases "typed d = []")
  case True
  have ok: "rb_ok (pd_input_buffer d)" using assms(1) by (simp add: con_ok_def)
  have "fill (pd_input_buffer d) = 0" using True length_contents [of "pd_input_buffer d"] by simp
  then have "erase_input a 0 y = Some y" using con_okD(4) [OF assms(1)] available_fill [OF ok] by (simp add: erase_input_def)
  then show ?thesis using True assms(1) by (intro exI [of _ "pd_input_buffer d"]) simp
next
  case False
  let ?b = "pd_input_buffer d"
  let ?cb = "?b\<lparr>cb_tail := (cb_tail ?b - 1 + cb_max ?b) mod cb_max ?b\<rparr>"
  have ok: "rb_ok ?b" "\<not> cb_blockingWrite ?b" "cb_wait_write ?b \<in> set ms" "sched_ok ms ps (tt_kst y)" using assms by (simp_all add: con_ok_def)
  have f: "0 < fill ?b" using False length_greater_0_conv [of "typed d"] by simp
  obtain s1 where s1: "signal_waiters (cb_wait_write ?b) (tt_kst y) = Some s1" "sched_ok ms ps s1"
    using wait_queue_ready [OF ok(4,3)] by blast
  have p: "ring_buffer_pop ?b (tt_kst y) = Some (1, ?cb, s1)"
    using s1(1) f available_fill [OF ok(1)] rb_okD(6) [OF ok(1)] by (simp add: ring_buffer_pop_def)
  let ?y = "set_pty 0 (d\<lparr>pd_input_buffer := ?cb\<rparr>) (y\<lparr>tt_kst := s1\<rparr>)"
  have c: "rb_ok ?cb" "contents ?cb = butlast (typed d)" using pop_contents [OF ok(1) f] by blast+
  have co: "con_ok ms ps (d\<lparr>pd_input_buffer := ?cb\<rparr>) ?y"
    by (rule con_ok_update [OF assms(1) c(1) _ _ _ s1(2)]) (simp_all add: ok(2))
  from echo_all_ok [OF co, of "[8, 32, 8]"] obtain t where t: "echo_all 0 [8, 32, 8] ?y = Some (?y\<lparr>tt_term := t\<rparr>)"
    "con_ok ms ps (d\<lparr>pd_input_buffer := ?cb\<rparr>) (?y\<lparr>tt_term := t\<rparr>)" "screen_of t = fold type_char [8, 32, 8] (screen_of (tt_term ?y))" by blast
  have "erase_input a 0 y = Some (?y\<lparr>tt_term := t\<rparr>)"
    using con_okD(4) [OF assms(1)] available_fill [OF ok(1)] f p t(1) assms(2) by (simp add: erase_input_def)
  then show ?thesis using t(2,3) c(2) False
    by (intro exI [of _ ?cb] exI [of _ "?y\<lparr>tt_term := t\<rparr>"]) (simp add: set_pty_def rb_capacity_def)
qed

lemma canonical_update [simp]: "canonical a (d\<lparr>pd_input_buffer := cb\<rparr>) = canonical a d" "echoing a (d\<lparr>pd_input_buffer := cb\<rparr>) = echoing a d"
  by (simp_all add: canonical_def echoing_def)

lemma input_loop_ok:
  assumes "con_ok ms ps d y" "canonical a d" "echoing a d"
  shows "\<exists>n cb y1. input_loop a 0 cs w y = Some (n, snd (snd (edit (in_cap d) (typed d) cs)), y1) \<and>
    con_ok ms ps (d\<lparr>pd_input_buffer := cb\<rparr>) y1 \<and> rb_capacity cb = in_cap d \<and> contents cb = fst (edit (in_cap d) (typed d) cs) \<and>
    screen_of (tt_term y1) = fold type_char (fst (snd (edit (in_cap d) (typed d) cs))) (screen_of (tt_term y))"
  using assms
proof (induction cs arbitrary: d y w)
  case Nil
  then show ?case by (intro exI [of _ w] exI [of _ "pd_input_buffer d"] exI [of _ y]) simp
next
  case (Cons c cs)
  note pt = con_okD(4) [OF Cons.prems(1)]
  have len: "length (typed d) = fill (pd_input_buffer d)" by simp
  consider (erase) "c = 8" | (full) "c \<noteq> 8" "\<not> fill (pd_input_buffer d) < in_cap d" | (put) "c \<noteq> 8" "fill (pd_input_buffer d) < in_cap d" by blast
  then show ?case
  proof cases
    case erase
    from erase_input_ok [OF Cons.prems(1,3)] obtain cb y1 where e: "erase_input a 0 y = Some y1" "con_ok ms ps (d\<lparr>pd_input_buffer := cb\<rparr>) y1"
      "contents cb = butlast (typed d)" "rb_capacity cb = in_cap d"
      "screen_of (tt_term y1) = fold type_char (if typed d = [] then [] else [8, 32, 8]) (screen_of (tt_term y))" by blast
    have i: "input_loop a 0 (c # cs) w y = input_loop a 0 cs (w + 1) y1" using erase e(1) pt Cons.prems(2) by (simp add: input_char_def)
    from Cons.IH [OF e(2), of "w + 1"] Cons.prems(2,3) obtain n cb2 y2 where
      r: "input_loop a 0 cs (w + 1) y1 = Some (n, snd (snd (edit (in_cap d) (butlast (typed d)) cs)), y2)"
      "con_ok ms ps (d\<lparr>pd_input_buffer := cb2\<rparr>) y2" "rb_capacity cb2 = in_cap d" "contents cb2 = fst (edit (in_cap d) (butlast (typed d)) cs)"
      "screen_of (tt_term y2) = fold type_char (fst (snd (edit (in_cap d) (butlast (typed d)) cs))) (screen_of (tt_term y1))"
      by (auto simp: e(3,4))
    show ?thesis using i r e(5) erase by (auto intro!: exI [of _ cb2] split: prod.splits)
  next
    case full
    from put_input_ok [OF Cons.prems(1), of c] full(2) obtain cb y1 where p: "put_input 0 c y = Some (False, y1)"
      "con_ok ms ps (d\<lparr>pd_input_buffer := cb\<rparr>) y1" "tt_term y1 = tt_term y" "rb_capacity cb = in_cap d" "contents cb = typed d" by auto
    have "input_loop a 0 (c # cs) w y = Some (w, True, y1)" using full p(1) pt Cons.prems(2) by (simp add: input_char_def)
    then show ?thesis using p full by (auto intro!: exI [of _ cb])
  next
    case put
    from put_input_ok [OF Cons.prems(1), of c] put(2) obtain cb y1 where p: "put_input 0 c y = Some (True, y1)"
      "con_ok ms ps (d\<lparr>pd_input_buffer := cb\<rparr>) y1" "tt_term y1 = tt_term y" "rb_capacity cb = in_cap d" "contents cb = typed d @ [c]" by auto
    from echo_all_ok [OF p(2), of "[c]"] obtain t where t: "echo_char 0 0 c y1 = Some (y1\<lparr>tt_term := t\<rparr>)"
      "con_ok ms ps (d\<lparr>pd_input_buffer := cb\<rparr>) (y1\<lparr>tt_term := t\<rparr>)" "screen_of t = type_char c (screen_of (tt_term y))"
      by (auto simp: echo_char_all p(3) simp del: echo_all.simps)
    have i: "input_char a 0 c y = Some (Next (c = 10 \<or> c = 13), True, y1\<lparr>tt_term := t\<rparr>)"
      using put p(1) pt Cons.prems(2,3) t(1) by (simp add: input_char_def)
    show ?thesis
    proof (cases "c = 10 \<or> c = 13")
      case True
      then have "input_loop a 0 (c # cs) w y = Some (w + 1, True, y1\<lparr>tt_term := t\<rparr>)" using i by simp
      then show ?thesis using t p put True by (auto intro!: exI [of _ cb])
    next
      case False
      then have "input_loop a 0 (c # cs) w y = input_loop a 0 cs (w + 1) (y1\<lparr>tt_term := t\<rparr>)" using i by simp
      moreover from Cons.IH [OF t(2), of "w + 1"] Cons.prems(2,3) obtain n cb2 y2 where
        "input_loop a 0 cs (w + 1) (y1\<lparr>tt_term := t\<rparr>) = Some (n, snd (snd (edit (in_cap d) (typed d @ [c]) cs)), y2)"
        "con_ok ms ps (d\<lparr>pd_input_buffer := cb2\<rparr>) y2" "rb_capacity cb2 = in_cap d" "contents cb2 = fst (edit (in_cap d) (typed d @ [c]) cs)"
        "screen_of (tt_term y2) = fold type_char (fst (snd (edit (in_cap d) (typed d @ [c]) cs))) (screen_of t)"
        by (auto simp: p(4,5))
      ultimately show ?thesis using t(3) put False by (auto intro!: exI [of _ cb2] split: prod.splits)
    qed
  qed
qed

lemma signal_input_ready_ok:
  assumes "con_ok ms ps d y"
  shows "\<exists>s. signal_input_ready 0 y = Some (y\<lparr>tt_kst := s\<rparr>) \<and> con_ok ms ps d (y\<lparr>tt_kst := s\<rparr>)"
proof -
  let ?q = "pp_wait_queue_read (tt_pairs y ! 0)"
  have ok: "sched_ok ms ps (tt_kst y)" "?q \<in> set ms" "pd_index d = 0" using assms by (simp_all add: con_ok_def)
  from wait_queue_ready [OF ok(1,2)] obtain s where s: "signal_waiters ?q (tt_kst y) = Some s" "sched_ok ms ps s" by blast
  have "signal_input_ready 0 y = Some (y\<lparr>tt_kst := s\<rparr>)"
    using s(1) con_okD [OF assms] ok(3) by (auto simp: signal_input_ready_def signal_waiters_def split: bind_splits if_splits)
  moreover have "pty_at 0 (y\<lparr>tt_kst := s\<rparr>) = pty_at 0 y" by (simp add: pty_at_def pair_at_def)
  then have "con_ok ms ps d (y\<lparr>tt_kst := s\<rparr>)" using assms s(2) by (simp add: con_ok_def)
  ultimately show ?thesis by blast
qed

lemma write_to_input_ok:
  assumes "con_ok ms ps d y" "canonical a d" "echoing a d" "unat sz \<le> length buffer"
    and e: "edit (in_cap d) (typed d) (take (unat sz) buffer) = (xs, es, complete)"
  shows "\<exists>n cb y1. pty_write_to_input a 0 buffer sz y = Some (n, y1) \<and> con_ok ms ps (d\<lparr>pd_input_buffer := cb\<rparr>) y1 \<and>
    rb_capacity cb = in_cap d \<and> contents cb = xs \<and> screen_of (tt_term y1) = fold type_char es (screen_of (tt_term y))"
proof -
  from input_loop_ok [OF assms(1-3), of "take (unat sz) buffer" 0] e obtain n cb y1 where
    l: "input_loop a 0 (take (unat sz) buffer) 0 y = Some (n, complete, y1)" "con_ok ms ps (d\<lparr>pd_input_buffer := cb\<rparr>) y1"
    "rb_capacity cb = in_cap d" "contents cb = xs" "screen_of (tt_term y1) = fold type_char es (screen_of (tt_term y))" by auto
  from signal_input_ready_ok [OF l(2)] obtain s where s: "signal_input_ready 0 y1 = Some (y1\<lparr>tt_kst := s\<rparr>)"
    "con_ok ms ps (d\<lparr>pd_input_buffer := cb\<rparr>) (y1\<lparr>tt_kst := s\<rparr>)" by blast
  have "pty_write_to_input a 0 buffer sz y = Some (to_int n, if complete then y1\<lparr>tt_kst := s\<rparr> else y1)"
    using l(1) s(1) con_okD(4) [OF assms(1)] con_okD(4) [OF l(2)] assms(2,4) by (simp add: pty_write_to_input_def MAX_PTY_PAIRS_def)
  then show ?thesis using l s(2) by (cases complete) (auto intro!: exI [of _ cb])
qed

lemma newline_loop_eq:
  assumes "rb_ok cb" "k + n \<le> fill cb"
  shows "newline_loop cb (map int [k..<k + n]) = Some (case List.find (\<lambda>i. contents cb ! i = 10) [k..<k + n] of None \<Rightarrow> -1 | Some i \<Rightarrow> int i + 1)"
  using assms(2)
proof (induction n arbitrary: k)
  case (Suc n)
  have u: "[k..<k + Suc n] = k # [Suc k..<Suc k + n]" by (simp add: upt_conv_Cons del: upt_Suc)
  show ?case unfolding u using peek_contents [OF assms(1), of k] Suc.IH [of "Suc k"] Suc.prems by (simp add: split_beta del: upt_Suc)
qed simp

lemma find_newline_none:
  assumes "rb_ok cb" "10 \<notin> set (contents cb)"
  shows "find_newline cb = Some (-1)"
proof -
  have "List.find (\<lambda>i. contents cb ! i = 10) [0..<fill cb] = None" 
    using assms(2) by (auto simp: find_None_iff in_set_conv_nth)
  then show ?thesis using newline_loop_eq [OF assms(1), of 0 "fill cb"] available_fill [OF assms(1)] by (simp add: find_newline_def)
qed

lemma find_newline_at:
  assumes "rb_ok cb" "contents cb = line @ 10 # rest" "10 \<notin> set line"
  shows "find_newline cb = Some (int (length line) + 1)"
proof -
  have n: "length line < fill cb" using length_contents [of cb] assms(2) by simp
  have "contents cb ! j \<noteq> 10" if "j < length line" for j using that assms(2,3) by (auto simp: nth_append in_set_conv_nth)
  then have "List.find (\<lambda>i. contents cb ! i = 10) [0..<fill cb] = Some (length line)"
    unfolding find_Some_iff using n assms(2) by (intro exI [of _ "length line"]) (auto simp: nth_append)
  then show ?thesis using newline_loop_eq [OF assms(1), of 0 "fill cb"] available_fill [OF assms(1)] by (simp add: find_newline_def)
qed

lemma slave_read_line:
  assumes "con_ok ms ps d y" "canonical a d" "nd_fs node = Some 0" "typed d = line @ 10 # rest" "10 \<notin> set line"
    "length line < unat sz"
  shows "\<exists>cb y1. pty_slave_read a node sz offset y = Some (Rb_return (int (length line) + 1), line @ [10], y1) \<and>
    con_ok ms ps (d\<lparr>pd_input_buffer := cb\<rparr>) y1 \<and> contents cb = rest"
proof -
  let ?b = "pd_input_buffer d" and ?n = "int (length line) + 1"
  have ok: "rb_ok ?b" "\<not> cb_blockingWrite ?b" "cb_wait_write ?b \<in> set ms" "sched_ok ms ps (tt_kst y)" using assms(1) by (simp_all add: con_ok_def)
  have "length line < fill ?b" using length_contents [of ?b] assms(4) by simp
  then have sm: "?n < 2 ^ 31" using fill_less [OF ok(1)] rb_okD(4) [OF ok(1)] by simp
  have u: "unat (to_size ?n) = Suc (length line)" using sm by (subst to_size_u64_small) (simp_all add: nat_add_distrib)
  define k where "k = (if to_size ?n < sz then to_size ?n else sz)"
  have "unat k = Suc (length line)" using u assms(6) by (auto simp: k_def word_less_nat_alt)
  then have k: "k = to_size ?n" using u by (simp add: word_unat_eq_iff)
  have ti: "to_int k = ?n" "unat (to_size (to_int k)) = Suc (length line)" using u sm k by (simp_all add: to_int_small add.commute)
  from get_bytes_contents [OF ok(1), of 0 "to_size (to_int k)"] ti(2) assms(4) obtain cb where
    g: "get_bytes ?b 0 (to_size (to_int k)) = Some (line @ [10], cb)" "rb_ok cb" "contents cb = rest" by auto
  obtain h where h: "cb = ?b\<lparr>cb_head := h\<rparr>" using get_bytes_frame [OF g(1)] by blast
  obtain s where s: "signal_waiters (cb_wait_write cb) (tt_kst y) = Some s" "sched_ok ms ps s"
    using wait_queue_ready [OF ok(4), of "cb_wait_write cb"] ok(3) h by auto
  have "wrap_int ?n = ?n" using sm by (intro wrap_int_small) auto
  then have r: "ring_buffer_read ?b (to_int k) (tt_kst y) = Some (Rb_return ?n, line @ [10], cb, s)"
    using g(1) s(1) rb_okD(6) [OF ok(1)] by (simp add: ring_buffer_read_def read_finish_def add.commute)
  have "pty_slave_read a node sz offset y = Some (Rb_return ?n, line @ [10], set_pty 0 (d\<lparr>pd_input_buffer := cb\<rparr>) (y\<lparr>tt_kst := s\<rparr>))"
    using assms(2,3) con_okD(4) [OF assms(1)] find_newline_at [OF ok(1) assms(4,5)] r
    by (simp add: pty_slave_read_def canonical_def k_def Let_def)
  moreover have "con_ok ms ps (d\<lparr>pd_input_buffer := cb\<rparr>) (set_pty 0 (d\<lparr>pd_input_buffer := cb\<rparr>) (y\<lparr>tt_kst := s\<rparr>))"
    by (rule con_ok_update [OF assms(1) g(2) _ _ _ s(2)]) (simp_all add: h ok(2))
  ultimately show ?thesis using g(3) by blast
qed

lemma slave_read_waits:
  assumes "con_ok ms ps d y" "canonical a d" "nd_fs node = Some 0" "10 \<notin> set (typed d)"
    "current_process (tt_kst y) \<noteq> kernel_idle_process (tt_kst y)"
  shows "\<exists>y1. pty_slave_read a node sz offset y = Some (Rb_retry Blocked, [], y1) \<and> con_ok ms ps d y1"
proof -
  let ?q = "pp_wait_queue_read (tt_pairs y ! 0)" and ?s = "tt_kst y"
  have ok: "rb_ok (pd_input_buffer d)" "sched_ok ms ps ?s" "?q \<in> set ms" "pd_index d = 0" using assms(1) by (simp_all add: con_ok_def)
  obtain mx where mx: "mutexes ?s ?q = Some mx" "\<not> m_lock mx" "?q \<noteq> NULL"
    using ok(2,3) unfolding sched_ok_def objects_ok_def by (metis domD domI)
  obtain b s1 where s1: "mutex_acquire_if_free ?q ?s = Some (b, s1)" "sched_ok ms ps s1" "owner_of s1 ?q \<noteq> NULL"
    "current_process s1 = current_process ?s" "kernel_idle_process s1 = kernel_idle_process ?s"
  proof (cases "m_owner mx = NULL")
    case False
    then have "mutex_acquire_if_free ?q ?s = Some (False, ?s)" using mx by (simp add: mutex_acquire_if_free_def at_def spin_lock_def)
    then show ?thesis using that ok(2) False mx by (auto simp: owner_of_def)
  next
    case True
    from set_owner_ok [OF ok(2) mx(1), of "current_process ?s"] obtain s' where
      s': "set_owner ?q (current_process ?s) ?s = Some s'" "sched_ok ms ps s'"
      "s' = ?s\<lparr>mutexes := (mutexes ?s)(?q \<mapsto> mx\<lparr>m_owner := current_process ?s\<rparr>)\<rparr>" by blast
    have "mutex_acquire_if_free ?q ?s = Some (True, s')" using True mx s'(1) by (simp add: mutex_acquire_if_free_def at_def spin_lock_def)
    then show ?thesis using that s' current_ok(1) [OF ok(2)] by (auto simp: owner_of_def)
  qed
  have "current_process s1 \<noteq> kernel_idle_process s1" using s1(4,5) assms(5) by simp
  from mutex_wait_ok [OF s1(2) this ok(3)] obtain r s2 where s2': "mutex_wait ?q s1 = Some (r, s2)" "sched_ok ms ps s2"
    "r = Returned \<longrightarrow> owner_of s1 ?q = NULL"
    by (metis (mono_tags, lifting) progress.simps(3))
  then have s2: "mutex_wait ?q s1 = Some (Blocked, s2)" using s1(3) by (cases r) auto
  have "pty_slave_read a node sz offset y = Some (Rb_retry Blocked, [], y\<lparr>tt_kst := s2\<rparr>)"
    using assms(2,3) con_okD [OF assms(1)] find_newline_none [OF ok(1) assms(4)] s1(1) s2 ok(4)
    by (simp add: pty_slave_read_def canonical_def wait_on_def)
  moreover have "pty_at 0 (y\<lparr>tt_kst := s2\<rparr>) = pty_at 0 y" by (simp add: pty_at_def pair_at_def)
  then have "con_ok ms ps d (y\<lparr>tt_kst := s2\<rparr>)" using assms(1) s2'(2) by (simp add: con_ok_def)
  ultimately show ?thesis by blast
qed

section \<open>Properties\<close>

definition demo_abi :: tty_abi where
  \<comment> \<open>the values of Linux\<close>
  "demo_abi = \<lparr>ab_ECHO = 8, ab_ICANON = 2, ab_VERASE = 2, ab_VEOF = 4, ab_NCCS = 32, ab_POLLIN = 1, ab_POLLOUT = 4, ab_EINVAL = 22, ab_ENOSYS = 38\<rparr>"

definition demo_pty :: "bytes \<Rightarrow> pty_data" where
  \<comment> \<open>a terminal with room for three characters, in which the given bytes have been typed\<close>
  "demo_pty bs = \<lparr>pd_input_buffer = \<lparr>cb_buffer = bs @ replicate (4 - length bs) 0, cb_head = 0, cb_tail = of_nat (length bs), cb_max = 4, cb_lock = False,
       cb_wait_write = 64, cb_wait_read = 64, cb_blockingWrite = False\<rparr>, pd_output_buffer = demo_rb,
     pd_term_settings = \<lparr>c_lflag = 10, c_cc = [], c_ibaud = 0, c_obaud = 0, c_rest = []\<rparr>, pd_session_leader = -1, pd_index = 0,
     pd_raw = False, pd_console = Some True\<rparr>"

definition demo_node :: pty_node where
  "demo_node = \<lparr>nd_name = cstr ''pty_slave'', nd_type = FILE_TYPE_VIRTUAL_DEVICE, nd_fs = Some 0, nd_ops = Pty_slave_ops\<rparr>"

definition demo_tty :: "bytes \<Rightarrow> tty" where
  "demo_tty bs = \<lparr>tt_pairs = replicate 16 \<lparr>pp_master = demo_node, pp_slave = demo_node, pp_wait_queue_write = 64, pp_wait_queue_read = 64, pp_data = Some (demo_pty bs)\<rparr>,
     tt_term = \<lparr>terminal_row = 0, terminal_column = 0, terminal_color = 7, terminal_buffer = replicate 2000 0\<rparr>, tt_kst = demo_kstate\<rparr>"

lemma demo_tty_ok:
  assumes "length bs \<le> 3"
  shows "con_ok [64] [16, 32] (demo_pty bs) (demo_tty bs)" "typed (demo_pty bs) = bs" "in_cap (demo_pty bs) = 3"
    "canonical demo_abi (demo_pty bs)" "echoing demo_abi (demo_pty bs)"
proof -
  have u: "unat (of_nat (length bs) :: u64) = length bs" using assms by (intro unat_of_nat_u64) simp
  then have "rb_ok (pd_input_buffer (demo_pty bs))" using assms by (simp add: demo_pty_def rb_ok_def word_less_nat_alt)
  then show "con_ok [64] [16, 32] (demo_pty bs) (demo_tty bs)" using demo_sched_ok(1)
    by (simp add: con_ok_def demo_tty_def pty_at_def pair_at_def MAX_PTY_PAIRS_def terminal_ok_def VGA_WIDTH_def VGA_HEIGHT_def)
      (simp add: demo_pty_def)
  have f: "fill (pd_input_buffer (demo_pty bs)) = length bs" using u by (simp add: fill_def demo_pty_def)
  show "typed (demo_pty bs) = bs"
  proof (rule nth_equalityI)
    fix i assume i: "i < length (typed (demo_pty bs))"
    then have "typed (demo_pty bs) ! i = cb_buffer (pd_input_buffer (demo_pty bs)) ! (i mod 4)"
      using f by (simp add: contents_def demo_pty_def)
    then show "typed (demo_pty bs) ! i = bs ! i" using i f assms by (simp add: demo_pty_def nth_append)
  qed (simp add: f)
qed (simp_all add: demo_pty_def rb_capacity_def canonical_def echoing_def demo_abi_def)

text \<open>C24. In canonical mode the console's line discipline refines line editing: the keys of a write go into the input
  buffer up to the first newline or carriage return, a backspace takes the last character back, the buffer never exceeds its capacity, and what is
  echoed appears on the screen in the same order. Nothing faults, and no process is lost from the queues.
\<close>
theorem pty_line_discipline:
  assumes "con_ok ms ps d y" "canonical a d" "echoing a d" "unat sz \<le> length buffer"
    "edit (in_cap d) (typed d) (take (unat sz) buffer) = (xs, es, complete)"
  shows "\<exists>n cb y1. pty_write_to_input a 0 buffer sz y = Some (n, y1) \<and> con_ok ms ps (d\<lparr>pd_input_buffer := cb\<rparr>) y1 \<and>
    contents cb = xs \<and> screen_of (tt_term y1) = fold type_char es (screen_of (tt_term y))"
  using write_to_input_ok [OF assms] by blast

theorem pty_line_discipline_witness:
  "\<exists>n cb y1. pty_write_to_input demo_abi 0 [97, 120, 8, 98] 4 (demo_tty []) = Some (n, y1) \<and> contents cb = [97, 98] \<and>
    con_ok [64] [16, 32] ((demo_pty [])\<lparr>pd_input_buffer := cb\<rparr>) y1"
  using pty_line_discipline [OF demo_tty_ok(1,4,5), of "[]" 4 "[97, 120, 8, 98]" "[97, 98]" "[97, 120, 8, 32, 8, 98]" False]
  by (auto simp: demo_tty_ok)

text \<open>A line that has been typed, with corrections, and completed by a newline is what the next read of the terminal returns, newline
  included; nothing of it stays in the buffer.
\<close>
theorem pty_line_roundtrip:
  assumes "con_ok ms ps d y" "canonical a d" "echoing a d" "nd_fs node = Some 0" "unat n \<le> length keys"
    "edit (in_cap d) (typed d) (take (unat n) keys) = (line @ [10], es, True)" "10 \<notin> set line" "length line < unat sz"
  shows "\<exists>w y1 y2 cb. pty_write_to_input a 0 keys n y = Some (w, y1) \<and>
    pty_slave_read a node sz offset y1 = Some (Rb_return (int (length line) + 1), line @ [10], y2) \<and>
    con_ok ms ps (d\<lparr>pd_input_buffer := cb\<rparr>) y2 \<and> contents cb = []"
proof -
  from write_to_input_ok [OF assms(1-3,5,6)] obtain w cb y1 where
    w: "pty_write_to_input a 0 keys n y = Some (w, y1)" "con_ok ms ps (d\<lparr>pd_input_buffer := cb\<rparr>) y1" "contents cb = line @ [10]" by blast
  from slave_read_line [OF w(2) _ assms(4) _ assms(7,8), of a "[]" offset] assms(2) w(1,3) show ?thesis by auto
qed

theorem pty_line_roundtrip_witness:
  "\<exists>w y1 y2. pty_write_to_input demo_abi 0 [120, 8, 97, 10] 4 (demo_tty []) = Some (w, y1) \<and>
    pty_slave_read demo_abi demo_node 100 0 y1 = Some (Rb_return 2, [97, 10], y2)"
proof -
  have "nd_fs demo_node = Some 0" by (simp add: demo_node_def)
  from pty_line_roundtrip [OF demo_tty_ok(1,4,5) this, of "[]" 4 "[120, 8, 97, 10]" "[97]" "[120, 8, 32, 8, 97, 10]" 100 0]
  show ?thesis by (auto simp: demo_tty_ok)
qed

text \<open>A full input buffer without a newline is stuck: a reader waits for a newline, while every key except backspace, newline
  included, is dropped without an echo, so the line can neither be completed nor read.
\<close>
theorem pty_full_line_stuck:
  assumes "con_ok ms ps d y" "canonical a d" "echoing a d" "nd_fs node = Some 0" "in_cap d \<le> length (typed d)" "10 \<notin> set (typed d)"
    "unat n \<le> length keys" "8 \<notin> set keys" "current_process (tt_kst y) \<noteq> kernel_idle_process (tt_kst y)"
  shows "(\<exists>y1. pty_slave_read a node sz offset y = Some (Rb_retry Blocked, [], y1)) \<and>
    (\<exists>w y1 cb. pty_write_to_input a 0 keys n y = Some (w, y1) \<and> con_ok ms ps (d\<lparr>pd_input_buffer := cb\<rparr>) y1 \<and> contents cb = typed d \<and>
      screen_of (tt_term y1) = screen_of (tt_term y))"
proof -
  have "8 \<notin> set (take (unat n) keys)" using assms(8) by (auto dest: in_set_takeD)
  then have "edit (in_cap d) (typed d) (take (unat n) keys) = (typed d, [], take (unat n) keys \<noteq> [])"
    using assms(5) by (cases "take (unat n) keys") auto
  from write_to_input_ok [OF assms(1-3,7) this] slave_read_waits [OF assms(1,2,4,6,9), of sz offset] show ?thesis by auto
qed

theorem pty_full_line_stuck_witness:
  "(\<exists>y1. pty_slave_read demo_abi demo_node 100 0 (demo_tty [97, 98, 99]) = Some (Rb_retry Blocked, [], y1)) \<and>
    (\<exists>w y1 cb. pty_write_to_input demo_abi 0 [10] 1 (demo_tty [97, 98, 99]) = Some (w, y1) \<and> contents cb = [97, 98, 99])"
proof -
  note t = demo_tty_ok [of "[97, 98, 99]"]
  have n: "nd_fs demo_node = Some 0" by (simp add: demo_node_def)
  have l: "length [97 :: u8, 98, 99] \<le> 3" by simp
  have b: "in_cap (demo_pty [97, 98, 99]) \<le> length (typed (demo_pty [97, 98, 99]))" "10 \<notin> set (typed (demo_pty [97, 98, 99]))"
    unfolding t(2) [OF l] t(3) [OF l] by simp_all
  have k: "unat (1 :: u64) \<le> length [10 :: u8]" "(8 :: u8) \<notin> set [10]" by simp_all
  have c: "current_process (tt_kst (demo_tty [97, 98, 99])) \<noteq> kernel_idle_process (tt_kst (demo_tty [97, 98, 99]))"
    by (simp add: demo_tty_def demo_kstate_def)
  from pty_full_line_stuck [OF t(1) [OF l] t(4) [OF l] t(5) [OF l] n b k c, of 100 0] show ?thesis unfolding t(2) [OF l] by blast
qed

end
