(* ===== verification/Console.thy ===== *)
theory Console
  imports Pty Vfs
begin

text \<open>
  The console device \<^verbatim>\<open>/dev/tty\<close> of \<^verbatim>\<open>kernel/fs/console.c\<close>: a state machine that interprets escape sequences in front of the text
  terminal, and the keyboard as the input of the first pseudo terminal. The \<^verbatim>\<open>params\<close> array has two elements; an access outside of
  it and an overflow of \<^verbatim>\<open>int\<close> are faults.
\<close>

section \<open>Data\<close>

datatype console_state = STATE_NORMAL | STATE_ESCAPE | STATE_BRACKET | STATE_PARSE_PARAMS

record console_data =
  cs_state :: console_state
  cs_params :: "int list"
  cs_param_idx :: int

record console_sys =
  cn_console :: console_data
  cn_tty :: tty
  cn_terminalWidth :: int
  cn_terminalHeight :: int

definition TIOCGWINSZ :: u64 where "TIOCGWINSZ = 0x5413"
definition TIOCSWINSZ :: u64 where "TIOCSWINSZ = 0x5414"
definition TISTTY :: u64 where "TISTTY = 0x9000"

section \<open>Operations\<close>

definition on_term :: "(terminal \<Rightarrow> terminal option) \<Rightarrow> console_sys \<Rightarrow> console_sys option" where
  "on_term f s = do { t \<leftarrow> f (tt_term (cn_tty s)); Some (s\<lparr>cn_tty := (cn_tty s)\<lparr>tt_term := t\<rparr>\<rparr>) }"

definition set_state :: "console_state \<Rightarrow> console_sys \<Rightarrow> console_sys" where
  "set_state st s = s\<lparr>cn_console := (cn_console s)\<lparr>cs_state := st\<rparr>\<rparr>"

definition set_param :: "int \<Rightarrow> console_sys \<Rightarrow> console_sys option" where
  \<comment> \<open>\<^verbatim>\<open>console.params[console.param_idx] = v\<close>\<close>
  "set_param v s =
     (let c = cn_console s in
      if 0 \<le> cs_param_idx c \<and> nat (cs_param_idx c) < length (cs_params c) \<and> v < 2 ^ 31
      then Some (s\<lparr>cn_console := c\<lparr>cs_params := (cs_params c)[nat (cs_param_idx c) := v]\<rparr>\<rparr>) else None)"

definition handle_escape_sequence :: "u8 \<Rightarrow> console_sys \<Rightarrow> console_sys option" where
  "handle_escape_sequence c s =
     (let p = cs_params (cn_console s) in
      if c = 72 then
        (if cs_param_idx (cn_console s) = 0 then on_term (terminal_putchar 13) s
         else on_term (\<lambda>t. Some (terminal_setcursor (p ! 0 - 1) (p ! 1 - 1) t)) s)
      else if c = 74 then (if p ! 0 = 2 then on_term terminal_clear s else Some s)
      else if c = 75 then on_term terminal_resetline s
      else Some s)"

definition handle_console_char :: "u8 \<Rightarrow> console_sys \<Rightarrow> (bool \<times> console_sys) option" where
  "handle_console_char c s = (case cs_state (cn_console s) of
     STATE_NORMAL \<Rightarrow>
       if c = 27 then Some (True, set_state STATE_ESCAPE s)
       else do { s1 \<leftarrow> on_term (terminal_putchar c) s; Some (True, s1) }
   | STATE_ESCAPE \<Rightarrow>
       if c = 91 then Some (True, s\<lparr>cn_console := \<lparr>cs_state = STATE_BRACKET, cs_params = [0, 0], cs_param_idx = 0\<rparr>\<rparr>)
       else Some (True, set_state STATE_NORMAL s)
   | STATE_BRACKET \<Rightarrow>
       if 48 \<le> c \<and> c \<le> 57 then do {
         s1 \<leftarrow> set_param (int (unat c) - 48) (set_state STATE_PARSE_PARAMS s);
         Some (True, s1)
       }
       else if c = 63 then Some (False, set_state STATE_NORMAL s)
       else do { s1 \<leftarrow> handle_escape_sequence c s; Some (True, set_state STATE_NORMAL s1) }
   | STATE_PARSE_PARAMS \<Rightarrow>
       if 48 \<le> c \<and> c \<le> 57 then do {
         let k = cn_console s;
         if 0 \<le> cs_param_idx k \<and> nat (cs_param_idx k) < length (cs_params k) then do {
           s1 \<leftarrow> set_param (cs_params k ! nat (cs_param_idx k) * 10 + (int (unat c) - 48)) s;
           Some (True, s1)
         } else None
       }
       else if c = 59 then Some (True, s\<lparr>cn_console := (cn_console s)\<lparr>cs_param_idx := cs_param_idx (cn_console s) + 1\<rparr>\<rparr>)
       else do { s1 \<leftarrow> handle_escape_sequence c s; Some (True, set_state STATE_NORMAL s1) })"

fun console_loop :: "bytes \<Rightarrow> console_sys \<Rightarrow> (bool \<times> console_sys) option" where
  \<comment> \<open>the loop over the buffer; false when it was left early\<close>
  "console_loop [] s = Some (True, s)"
| "console_loop (c # cs) s = do { (ok, s1) \<leftarrow> handle_console_char c s; if ok then console_loop cs s1 else Some (False, s1) }"

definition console_output_write :: "bytes \<Rightarrow> u64 \<Rightarrow> u64 \<Rightarrow> console_sys \<Rightarrow> (int \<times> console_sys) option" where
  "console_output_write buffer offset len s =
     (if len > 2048 then Some (-1, s)
      else if unat len > length buffer then None
      else do { (_, s1) \<leftarrow> console_loop (take (unat len) buffer) s; Some (to_int len, s1) })"

definition console_output_seek :: "u64 \<Rightarrow> console_sys \<Rightarrow> int \<times> console_sys" where
  "console_output_seek offset s = (0, s)"

definition console_input_read :: "tty_abi \<Rightarrow> u64 \<Rightarrow> u64 \<Rightarrow> console_sys \<Rightarrow> (rb_outcome \<times> bytes \<times> console_sys) option" where
  "console_input_read a offset len s = do {
     (node, y) \<leftarrow> pty_get_slave 0 (cn_tty s);
     n \<leftarrow> node;
     (r, bs, y1) \<leftarrow> pty_slave_read a n len offset y;
     Some (r, bs, s\<lparr>cn_tty := y1\<rparr>)
   }"

datatype console_arg = Winsize u16 u16 u16 u16 | Pty_arg ioctl_arg   \<comment> \<open>rows, columns and the two pixel sizes\<close>

definition console_ioctl :: "tty_abi \<Rightarrow> u64 \<Rightarrow> console_arg \<Rightarrow> console_sys \<Rightarrow> (int \<times> console_arg \<times> console_sys) option" where
  \<comment> \<open>every case of the switch returns, so what follows it is never reached\<close>
  "console_ioctl a operation data s =
     (if operation = TISTTY then Some (1, data, s)
      else if operation = TIOCGWINSZ then
        (case data of Winsize _ _ _ _ \<Rightarrow> Some (0, Winsize (word_of_int (cn_terminalHeight s)) (word_of_int (cn_terminalWidth s)) 0 0, s) | _ \<Rightarrow> None)
      else if operation = TIOCSWINSZ then Some (- ab_ENOSYS a, data, s)
      else do {
        (node, y) \<leftarrow> pty_get_slave 0 (cn_tty s);
        n \<leftarrow> node;
        (r, arg, y1) \<leftarrow> pty_ioctl a n operation (case data of Pty_arg p \<Rightarrow> p | _ \<Rightarrow> Arg_other []) y;
        Some (r, (case data of Pty_arg _ \<Rightarrow> Pty_arg arg | _ \<Rightarrow> data), s\<lparr>cn_tty := y1\<rparr>)
      })"

definition console_poll :: "tty_abi \<Rightarrow> u32 \<Rightarrow> console_sys \<Rightarrow> (u32 \<times> console_sys) option" where
  \<comment> \<open>\<^verbatim>\<open>pty_get_slave(0)->file_ops.poll(pty_get_slave(0), requested)\<close>\<close>
  "console_poll a requested s = do {
     (revents, s1) \<leftarrow> (if requested AND ab_POLLIN a \<noteq> 0 then do {
         (node, y) \<leftarrow> pty_get_slave 0 (cn_tty s);
         n \<leftarrow> node;
         (_, y1) \<leftarrow> pty_get_slave 0 y;
         if nd_ops n = No_ops then None
         else do { r \<leftarrow> pty_poll a n requested y1; Some (r, s\<lparr>cn_tty := y1\<rparr>) }
       } else Some (0, s));
     Some (if requested AND ab_POLLOUT a \<noteq> 0 then revents OR ab_POLLOUT a else revents, s1)
   }"

definition key_event :: "tty_abi \<Rightarrow> bool \<Rightarrow> u32 \<Rightarrow> console_sys \<Rightarrow> console_sys option" where
  \<comment> \<open>the members \<^verbatim>\<open>isDown\<close> and \<^verbatim>\<open>keyCode\<close> of the event\<close>
  "key_event a isDown keyCode s =
     (if isDown then do { (_, y) \<leftarrow> pty_write_char_to_input a 0 (ucast keyCode) (cn_tty s); Some (s\<lparr>cn_tty := y\<rparr>) } else Some s)"

definition console_init ::
  "tty_abi \<Rightarrow> nat \<Rightarrow> console_sys driver \<Rightarrow> nat \<Rightarrow> ptr \<times> ptr \<times> ptr \<times> ptr \<Rightarrow> int \<Rightarrow> int \<Rightarrow> console_sys vfs \<Rightarrow> console_sys vfs option" where
  \<comment> \<open>the registration of \<^verbatim>\<open>key_event\<close> with the keyboard driver is left out\<close>
  "console_init a k dr n qs terminalWidthIn terminalHeightIn v = do {
     let v0 = v\<lparr>v_priv := set_state STATE_NORMAL (v_priv v)\<rparr>;
     (node, v1) \<leftarrow> calloc_addr v0;
     let (i, v2) = get_next_file_id v1;
     f \<leftarrow> set_name (cstr ''tty'') (empty_node\<lparr>fn_id := to_size i, fn_ref_count := 0, fn_size := 0, fn_type := FILE_TYPE_VIRTUAL_DEVICE,
            fn_file_ops := no_ops\<lparr>op_write := Some ''console_output_write'', op_read := Some ''console_input_read'',
              op_ioctl := Some ''console_ioctl'', op_poll := Some ''console_poll''\<rparr>\<rparr>);
     (_, y) \<leftarrow> pty_create_pair a 0 qs (pty_init (cn_tty (v_priv v2)));
     let v3 = v2\<lparr>v_priv := (v_priv v2)\<lparr>cn_tty := y, cn_terminalWidth := terminalWidthIn, cn_terminalHeight := terminalHeightIn\<rparr>\<rparr>;
     (_, v4) \<leftarrow> mount_directly k dr n (cstr ''/dev/tty'') node (put_node node f v3);
     Some v4
   }"

section \<open>Escape sequences\<close>

lemma console_loop_append:
  "console_loop (xs @ ys) s = do { (ok, s1) \<leftarrow> console_loop xs s; if ok then console_loop ys s1 else Some (False, s1) }"
proof (induction xs arbitrary: s)
  case (Cons c xs)
  then show ?case by (cases "handle_console_char c s") (auto simp: split_beta)
qed simp

definition digit :: "u8 \<Rightarrow> bool" where
  "digit c \<longleftrightarrow> 48 \<le> c \<and> c \<le> 57"

definition decimal :: "bytes \<Rightarrow> int" where
  "decimal ds = fold (\<lambda>c v. v * 10 + (int (unat c) - 48)) ds 0"

lemma digit_bounds: "digit c \<Longrightarrow> 0 \<le> int (unat c) - 48 \<and> int (unat c) - 48 \<le> 9"
  by (simp add: digit_def word_le_def)

lemma fold_digits_mono: "0 \<le> v \<Longrightarrow> list_all digit ds \<Longrightarrow> v \<le> fold (\<lambda>c v. v * 10 + (int (unat c) - 48)) ds v"
proof (induction ds arbitrary: v)
  case (Cons c ds)
  then have "v \<le> v * 10 + (int (unat c) - 48)" "0 \<le> v * 10 + (int (unat c) - 48)" using digit_bounds [of c] by auto
  with Cons.IH [of "v * 10 + (int (unat c) - 48)"] Cons.prems show ?case by auto
qed simp

definition at_params :: "console_sys \<Rightarrow> int list \<Rightarrow> int \<Rightarrow> console_sys" where
  \<comment> \<open>inside the parameters of a sequence\<close>
  "at_params s ps i = s\<lparr>cn_console := \<lparr>cs_state = STATE_PARSE_PARAMS, cs_params = ps, cs_param_idx = i\<rparr>\<rparr>"

lemma parse_digits:
  assumes "list_all digit ds" "i < length ps" "0 \<le> ps ! i" "fold (\<lambda>c v. v * 10 + (int (unat c) - 48)) ds (ps ! i) < 2 ^ 31"
  shows "console_loop ds (at_params s ps (int i)) =
    Some (True, at_params s (ps[i := fold (\<lambda>c v. v * 10 + (int (unat c) - 48)) ds (ps ! i)]) (int i))"
  using assms
proof (induction ds arbitrary: ps)
  case (Cons c ds)
  let ?v = "ps ! i * 10 + (int (unat c) - 48)"
  have v: "0 \<le> ?v" using Cons.prems digit_bounds [of c] by auto
  have "?v \<le> fold (\<lambda>c v. v * 10 + (int (unat c) - 48)) ds ?v" using Cons.prems v by (intro fold_digits_mono) auto
  then have "?v < 2 ^ 31" using Cons.prems(4) by simp
  then have h: "handle_console_char c (at_params s ps (int i)) = Some (True, at_params s (ps[i := ?v]) (int i))"
    using Cons.prems(1,2) by (simp add: handle_console_char_def at_params_def digit_def set_param_def)
  show ?case using Cons.IH [of "ps[i := ?v]"] Cons.prems v h by simp
qed (simp add: list_update_id)

lemma parse_number:
  assumes "list_all digit ds" "ds \<noteq> []" "decimal ds < 2 ^ 31" "cs_state (cn_console s) = STATE_BRACKET" "cs_params (cn_console s) = [0, 0]"
    "cs_param_idx (cn_console s) = 0"
  shows "console_loop ds s = Some (True, at_params s [decimal ds, 0] 0)"
proof -
  obtain c cs where ds: "ds = c # cs" using assms(2) by (cases ds) auto
  have c: "digit c" using assms(1) ds by simp
  have "handle_console_char c s = Some (True, at_params s [int (unat c) - 48, 0] 0)"
    using c assms(4-6) digit_bounds [OF c]
    by (simp add: handle_console_char_def digit_def set_param_def set_state_def at_params_def Let_def)
  moreover have "console_loop cs (at_params s [int (unat c) - 48, 0] 0) = Some (True, at_params s [decimal ds, 0] 0)"
    using parse_digits [of cs 0 "[int (unat c) - 48, 0]" s] assms(1,3) ds digit_bounds [OF c] by (simp add: decimal_def)
  ultimately show ?thesis by (simp add: ds)
qed

lemma parse_cursor:
  assumes "cs_state (cn_console s) = STATE_NORMAL" "list_all digit xs" "list_all digit ys" "xs \<noteq> []" "decimal xs < 2 ^ 31" "decimal ys < 2 ^ 31"
  shows "\<exists>c. console_loop ([27, 91] @ xs @ [59] @ ys @ [72]) s =
    Some (True, s\<lparr>cn_console := c, cn_tty := (cn_tty s)\<lparr>tt_term := terminal_setcursor (decimal xs - 1) (decimal ys - 1) (tt_term (cn_tty s))\<rparr>\<rparr>) \<and>
    cs_state c = STATE_NORMAL"
proof -
  let ?s = "s\<lparr>cn_console := \<lparr>cs_state = STATE_BRACKET, cs_params = [0, 0], cs_param_idx = 0\<rparr>\<rparr>"
  have 1: "console_loop [27, 91] s = Some (True, ?s)" using assms(1) by (simp add: handle_console_char_def set_state_def)
  have 2: "console_loop xs ?s = Some (True, at_params s [decimal xs, 0] 0)"
    using parse_number [OF assms(2,4,5), of ?s] by (simp add: at_params_def)
  have 3: "console_loop [59] (at_params s [decimal xs, 0] 0) = Some (True, at_params s [decimal xs, 0] 1)"
    by (simp add: handle_console_char_def at_params_def)
  have 4: "console_loop ys (at_params s [decimal xs, 0] 1) = Some (True, at_params s [decimal xs, decimal ys] 1)"
    using parse_digits [of ys 1 "[decimal xs, 0]" s] assms(3,6) by (simp add: decimal_def)
  have 5: "\<exists>c. console_loop [72] (at_params s [decimal xs, decimal ys] 1) =
      Some (True, s\<lparr>cn_console := c, cn_tty := (cn_tty s)\<lparr>tt_term := terminal_setcursor (decimal xs - 1) (decimal ys - 1) (tt_term (cn_tty s))\<rparr>\<rparr>) \<and>
      cs_state c = STATE_NORMAL"
    by (intro exI [of _ "\<lparr>cs_state = STATE_NORMAL, cs_params = [decimal xs, decimal ys], cs_param_idx = 1\<rparr>"])
      (simp add: handle_console_char_def handle_escape_sequence_def at_params_def on_term_def set_state_def Let_def)
  show ?thesis using 5 by (simp only: console_loop_append 1 2 3 4 bind.bind_lunit case_prod_conv if_True)
qed

lemma plain_text:
  assumes "cs_state (cn_console s) = STATE_NORMAL" "27 \<notin> set cs" "terminal_ok (tt_term (cn_tty s))"
  shows "\<exists>t. console_loop cs s = Some (True, s\<lparr>cn_tty := (cn_tty s)\<lparr>tt_term := t\<rparr>\<rparr>) \<and> terminal_ok t \<and>
    screen_of t = fold type_char cs (screen_of (tt_term (cn_tty s)))"
  using assms
proof (induction cs arbitrary: s)
  case Nil
  then show ?case by (intro exI [of _ "tt_term (cn_tty s)"]) simp
next
  case (Cons c cs)
  from type_put [OF Cons.prems(3), of c] obtain t where t: "terminal_putchar c (tt_term (cn_tty s)) = Some t" "terminal_ok t"
    "screen_of t = type_char c (screen_of (tt_term (cn_tty s)))" by blast
  have "handle_console_char c s = Some (True, s\<lparr>cn_tty := (cn_tty s)\<lparr>tt_term := t\<rparr>\<rparr>)"
    using t(1) Cons.prems(1,2) by (auto simp: handle_console_char_def on_term_def)
  with Cons.IH [of "s\<lparr>cn_tty := (cn_tty s)\<lparr>tt_term := t\<rparr>\<rparr>"] Cons.prems t(2,3) show ?case by auto
qed

section \<open>Properties\<close>

definition demo_console :: console_sys where
  "demo_console = \<lparr>cn_console = \<lparr>cs_state = STATE_NORMAL, cs_params = [0, 0], cs_param_idx = 0\<rparr>, cn_tty = demo_tty [], cn_terminalWidth = 80, cn_terminalHeight = 25\<rparr>"

lemma demo_console_ok: "cs_state (cn_console demo_console) = STATE_NORMAL" "terminal_ok (tt_term (cn_tty demo_console))"
  by (simp_all add: demo_console_def demo_tty_def terminal_ok_def VGA_WIDTH_def VGA_HEIGHT_def)

text \<open>C25. Writing to the console: text around a cursor sequence \<^verbatim>\<open>ESC [ x ; y H\<close> with decimal numbers of any length below \<open>2 ^ 31\<close> is typed on the
  screen, the first part at the old cursor and the second at column \<open>x - 1\<close> of row \<open>y - 1\<close>; the sequence itself prints nothing.
\<close>
theorem console_write_positions:
  assumes "cs_state (cn_console s) = STATE_NORMAL" "terminal_ok (tt_term (cn_tty s))" "27 \<notin> set before" "27 \<notin> set after"
    "list_all digit xs" "list_all digit ys" "xs \<noteq> []" "1 \<le> decimal xs" "decimal xs \<le> int VGA_WIDTH" "1 \<le> decimal ys" "decimal ys \<le> int VGA_HEIGHT"
    "buffer = before @ [27, 91] @ xs @ [59] @ ys @ [72] @ after" "length buffer \<le> 2048"
  shows "\<exists>s1. console_output_write buffer offset (of_nat (length buffer)) s = Some (int (length buffer), s1) \<and>
    cs_state (cn_console s1) = STATE_NORMAL \<and> terminal_ok (tt_term (cn_tty s1)) \<and>
    screen_of (tt_term (cn_tty s1)) = fold type_char after
      ((fold type_char before (screen_of (tt_term (cn_tty s))))\<lparr>sc_row := nat (decimal ys - 1), sc_column := nat (decimal xs - 1)\<rparr>)"
proof -
  from plain_text [OF assms(1,3,2)] obtain t where t: "console_loop before s = Some (True, s\<lparr>cn_tty := (cn_tty s)\<lparr>tt_term := t\<rparr>\<rparr>)" "terminal_ok t"
    "screen_of t = fold type_char before (screen_of (tt_term (cn_tty s)))" by blast
  let ?s = "s\<lparr>cn_tty := (cn_tty s)\<lparr>tt_term := t\<rparr>\<rparr>" and ?t = "terminal_setcursor (decimal xs - 1) (decimal ys - 1) t"
  have b: "decimal xs < 2 ^ 31" "decimal ys < 2 ^ 31" using assms(9,11) by (simp_all add: VGA_WIDTH_def VGA_HEIGHT_def)
  from parse_cursor [of ?s, OF _ assms(5-7) b] assms(1) obtain c where
    c: "console_loop ([27, 91] @ xs @ [59] @ ys @ [72]) ?s = Some (True, s\<lparr>cn_console := c, cn_tty := (cn_tty s)\<lparr>tt_term := ?t\<rparr>\<rparr>)"
    "cs_state c = STATE_NORMAL" by auto
  have sm: "0 \<le> decimal xs - 1" "decimal xs - 1 < 2 ^ 31" "0 \<le> decimal ys - 1" "decimal ys - 1 < 2 ^ 31" using b assms(8,10) by simp_all
  have u: "unat (to_size (decimal xs - 1)) = nat (decimal xs - 1)" "unat (to_size (decimal ys - 1)) = nat (decimal ys - 1)"
    by (rule to_size_u64_small [OF sm(1,2)], rule to_size_u64_small [OF sm(3,4)])
  have ok: "terminal_ok ?t" using t(2) u assms(8-11) by (auto simp: terminal_ok_def terminal_setcursor_def word_less_nat_alt VGA_WIDTH_def VGA_HEIGHT_def)
  have sc: "screen_of ?t = (screen_of t)\<lparr>sc_row := nat (decimal ys - 1), sc_column := nat (decimal xs - 1)\<rparr>"
    using u by (simp add: screen_of_def terminal_setcursor_def)
  from plain_text [of "s\<lparr>cn_console := c, cn_tty := (cn_tty s)\<lparr>tt_term := ?t\<rparr>\<rparr>", OF _ assms(4)] c(2) ok obtain t2 where
    t2: "console_loop after (s\<lparr>cn_console := c, cn_tty := (cn_tty s)\<lparr>tt_term := ?t\<rparr>\<rparr>) = Some (True, s\<lparr>cn_console := c, cn_tty := (cn_tty s)\<lparr>tt_term := t2\<rparr>\<rparr>)"
    "terminal_ok t2" "screen_of t2 = fold type_char after (screen_of ?t)" by auto
  have "buffer = before @ ([27, 91] @ xs @ [59] @ ys @ [72]) @ after" using assms(12) by simp
  then have l: "console_loop buffer s = Some (True, s\<lparr>cn_console := c, cn_tty := (cn_tty s)\<lparr>tt_term := t2\<rparr>\<rparr>)"
    by (simp only: console_loop_append [of before] console_loop_append [of "[27, 91] @ xs @ [59] @ ys @ [72]"] t(1) c(1) t2(1) bind.bind_lunit case_prod_conv if_True)
  have "unat (of_nat (length buffer) :: u64) = length buffer" using assms(13) by (intro unat_of_nat_u64) simp
  then have "console_output_write buffer offset (of_nat (length buffer)) s =
      Some (int (length buffer), s\<lparr>cn_console := c, cn_tty := (cn_tty s)\<lparr>tt_term := t2\<rparr>\<rparr>)"
    using l assms(13) by (simp add: console_output_write_def word_less_nat_alt to_int_small)
  then show ?thesis using t2(2,3) sc t(3) c(2) by simp
qed

theorem console_write_positions_witness:
  "\<exists>s1. console_output_write ([27, 91] @ [49, 48] @ [59] @ [50] @ [72]) 0 7 demo_console = Some (7, s1) \<and>
    sc_row (screen_of (tt_term (cn_tty s1))) = 1 \<and> sc_column (screen_of (tt_term (cn_tty s1))) = 9"
  using console_write_positions [OF demo_console_ok, of "[]" "[]" "[49, 48]" "[50]" "[27, 91, 49, 48, 59, 50, 72]" 0]
  by (auto simp: digit_def decimal_def VGA_WIDTH_def VGA_HEIGHT_def)

text \<open>The console's interpreter keeps its place between writes: a text of at most 2048 bytes may be cut anywhere, inside an escape sequence as well, and two writes
  have the same effect as one, provided the first part is not cut short by \<^verbatim>\<open>ESC [ ?\<close>.
\<close>
theorem console_split_writes:
  assumes "length xs + length ys \<le> 2048" "console_loop xs s = Some (True, s1)"
  shows "map_option snd (console_output_write (xs @ ys) 0 (of_nat (length (xs @ ys))) s) =
    do { (_, s1) \<leftarrow> console_output_write xs 0 (of_nat (length xs)) s;
         (_, s2) \<leftarrow> console_output_write ys 0 (of_nat (length ys)) s1;
         Some s2 }"
proof -
  have w: "map_option snd (console_output_write zs 0 (of_nat (length zs)) s) = map_option snd (console_loop zs s)" if "length zs \<le> 2048" for zs s
  proof -
    have "unat (of_nat (length zs) :: u64) = length zs" using that by (intro unat_of_nat_u64) simp
    then show ?thesis using that by (cases "console_loop zs s") (auto simp: console_output_write_def word_less_nat_alt)
  qed
  have b: "do { (_, s2) \<leftarrow> q; Some s2 } = map_option snd q" for q :: "(int \<times> console_sys) option" by (cases q) auto
  obtain r where "console_output_write xs 0 (of_nat (length xs)) s = Some (r, s1)" using w [of xs s] assms by auto
  then show ?thesis using w [of "xs @ ys" s] w [of ys s1] assms by (simp add: b console_loop_append)
qed

theorem console_split_writes_witness:
  "map_option snd (console_output_write [27, 91, 75] 0 3 demo_console) =
    do { (_, s1) \<leftarrow> console_output_write [27, 91] 0 2 demo_console;
         (_, s2) \<leftarrow> console_output_write [75] 0 1 s1;
         Some s2 }"
  using console_split_writes [of "[27, 91]" "[75]" demo_console] by (simp add: handle_console_char_def set_state_def demo_console_def)

text \<open>The console does not check cursor positions: after \<^verbatim>\<open>ESC [ x ; y H\<close> with a position outside the screen the next printable character is stored
  outside the screen's memory.
\<close>
theorem console_cursor_unchecked:
  assumes "cs_state (cn_console s) = STATE_NORMAL" "list_all digit xs" "list_all digit ys" "xs \<noteq> []" "1 \<le> decimal xs" "1 \<le> decimal ys"
    "decimal xs < 2 ^ 31" "decimal ys < 2 ^ 31" "length (terminal_buffer (tt_term (cn_tty s))) = VGA_WIDTH * VGA_HEIGHT"
    "int (VGA_WIDTH * VGA_HEIGHT) \<le> (decimal ys - 1) * int VGA_WIDTH + (decimal xs - 1)" "c \<noteq> 10" "c \<noteq> 27"
  shows "console_loop ([27, 91] @ xs @ [59] @ ys @ [72] @ [c]) s = None"
proof -
  let ?t = "terminal_setcursor (decimal xs - 1) (decimal ys - 1) (tt_term (cn_tty s))"
  from parse_cursor [OF assms(1-4,7,8)] obtain k where
    k: "console_loop ([27, 91] @ xs @ [59] @ ys @ [72]) s = Some (True, s\<lparr>cn_console := k, cn_tty := (cn_tty s)\<lparr>tt_term := ?t\<rparr>\<rparr>)"
    "cs_state k = STATE_NORMAL" by blast
  have u: "unat (to_size (decimal xs - 1)) = nat (decimal xs - 1)" "unat (to_size (decimal ys - 1)) = nat (decimal ys - 1)"
    using assms(5-8) by (simp_all add: to_size_u64_small)
  have "unat (to_size (decimal ys - 1) * of_nat VGA_WIDTH) = nat (decimal ys - 1) * VGA_WIDTH"
    using u(2) assms(8) by (simp add: unat_word_ariths VGA_WIDTH_def)
  then have "unat (to_size (decimal ys - 1) * of_nat VGA_WIDTH + to_size (decimal xs - 1)) = nat (decimal ys - 1) * VGA_WIDTH + nat (decimal xs - 1)"
    using u(1) assms(7,8) by (subst unat_add_u64) (simp_all add: VGA_WIDTH_def)
  moreover have "VGA_WIDTH * VGA_HEIGHT \<le> nat (decimal ys - 1) * VGA_WIDTH + nat (decimal xs - 1)"
    using assms(5,6,10) by (simp add: VGA_WIDTH_def VGA_HEIGHT_def)
  ultimately have "terminal_putchar c ?t = None"
    using assms(9,11) by (simp add: terminal_putchar_def terminal_putentryat_def terminal_setcursor_def set_cell_def)
  then have "console_loop [c] (s\<lparr>cn_console := k, cn_tty := (cn_tty s)\<lparr>tt_term := ?t\<rparr>\<rparr>) = None"
    using k(2) assms(12) by (simp add: handle_console_char_def on_term_def)
  moreover have "[27, 91] @ xs @ [59] @ ys @ [72] @ [c] = ([27, 91] @ xs @ [59] @ ys @ [72]) @ [c]" by simp
  ultimately show ?thesis by (simp only: console_loop_append [of "[27, 91] @ xs @ [59] @ ys @ [72]"] k(1) bind.bind_lunit case_prod_conv if_True)
qed

theorem console_cursor_unchecked_witness: "console_loop ([27, 91] @ [49] @ [59] @ [50, 54] @ [72] @ [120]) demo_console = None"
  by (rule console_cursor_unchecked)
    (simp_all add: demo_console_def digit_def decimal_def VGA_WIDTH_def VGA_HEIGHT_def demo_tty_def)

end
