(* ===== verification/Slab.thy ===== *)
theory Slab
  imports Interfaces
begin

text \<open>
  The slab allocator of \<^verbatim>\<open>kernel/arch/amd64/alloc.c\<close>. A size class owns a chain of slabs, modelled as a list since nothing else points into
  it; each slab is a page with a bitmap. The pages that \<^verbatim>\<open>sbrk\<close> returns are taken from a supply. \<^verbatim>\<open>1 << bit\<close> is a
  shift of an \<^verbatim>\<open>int\<close>, which is undefined from bit 31 on, and the bitmap has only as many words as its allocation has bytes for; both are
  faults of the model, as is a search that never ends.
\<close>

section \<open>Data\<close>

record slab =
  sl_memory :: ptr
  sl_object_size :: u64
  sl_total_objects :: u8
  sl_free_objects :: u8
  sl_bitmap :: "u64 list"

record size_class =
  sc_size :: u64
  sc_slabs :: "slab list"

record heap =
  hp_registered :: "size_class list"
  hp_default :: "size_class list"
  hp_count :: nat
  hp_pages :: "ptr list"

definition MAX_SIZE_CLASSES :: nat where "MAX_SIZE_CLASSES = 512"
definition DEFAULT_SIZE_CLASSES :: nat where "DEFAULT_SIZE_CLASSES = 10"

definition initial_heap :: "ptr list \<Rightarrow> heap" where
  \<comment> \<open>the static initialisers\<close>
  "initial_heap pages =
     \<lparr>hp_registered = replicate MAX_SIZE_CLASSES \<lparr>sc_size = 0, sc_slabs = []\<rparr>,
      hp_default = map (\<lambda>n. \<lparr>sc_size = n, sc_slabs = []\<rparr>) [8, 16, 32, 64, 128, 256, 512, 1024, 2048, 4096],
      hp_count = 0, hp_pages = pages\<rparr>"

section \<open>Operations\<close>

definition new_slab :: "ptr \<Rightarrow> u64 \<Rightarrow> slab option" where
  \<comment> \<open>the first half of \<^verbatim>\<open>kmalloc_for_size\<close>: \<^verbatim>\<open>perPage\<close> and \<^verbatim>\<open>bitmapSize\<close> are \<^verbatim>\<open>uint8_t\<close>\<close>
  "new_slab page sz =
     (if sz = 0 then None
      else let perPage = ucast (4096 div sz) :: u8;
               bitmapSize0 = perPage div 8;
               bitmapSize = (if bitmapSize0 mod 8 \<noteq> 0 then (bitmapSize0 + 8) AND NOT 7 else bitmapSize0)
           in Some \<lparr>sl_memory = page, sl_object_size = sz, sl_total_objects = perPage, sl_free_objects = perPage,
                    sl_bitmap = replicate (unat bitmapSize div 8) 0\<rparr>)"

definition kmalloc_for_size :: "size_class \<Rightarrow> ptr list \<Rightarrow> (size_class \<times> ptr list) option" where
  \<comment> \<open>the new slab becomes the last of the chain\<close>
  "kmalloc_for_size c pages =
     (case pages of [] \<Rightarrow> None
      | page # ps \<Rightarrow> do { sl \<leftarrow> new_slab page (sc_size c); Some (c\<lparr>sc_slabs := sc_slabs c @ [sl]\<rparr>, ps) })"

fun scan_bits :: "slab \<Rightarrow> nat \<Rightarrow> nat \<Rightarrow> nat option option" where
  \<comment> \<open>\<^verbatim>\<open>for(int j = ...; j < slab->total_objects; j++)\<close> with \<open>n\<close> rounds left\<close>
  "scan_bits sl j 0 = Some None"
| "scan_bits sl j (Suc n) =
     (let index = j div 64; bit = j mod 64 in
      if index \<ge> length (sl_bitmap sl) \<or> bit \<ge> 31 then None
      else if sl_bitmap sl ! index AND push_bit bit 1 = 0 then Some (Some j) else scan_bits sl (j + 1) n)"

definition take_object :: "slab \<Rightarrow> nat \<Rightarrow> ptr \<times> slab" where
  \<comment> \<open>set the bit, count, and return \<^verbatim>\<open>memory + (64 * index * object_size) + (bit * object_size)\<close>\<close>
  "take_object sl j =
     (let index = j div 64; bit = j mod 64 in
      (sl_memory sl + 64 * of_nat index * sl_object_size sl + of_nat bit * sl_object_size sl,
       sl\<lparr>sl_bitmap := (sl_bitmap sl)[index := sl_bitmap sl ! index OR push_bit bit 1], sl_free_objects := sl_free_objects sl - 1\<rparr>))"

fun take_from :: "slab list \<Rightarrow> (ptr \<times> slab list) option option" where
  \<comment> \<open>\<^verbatim>\<open>while(slab)\<close>: a slab that claims free objects but has no clear bit is searched for ever\<close>
  "take_from [] = Some None"
| "take_from (sl # sls) =
     (if sl_free_objects sl > 0 then
        (case scan_bits sl 0 (unat (sl_total_objects sl)) of
           Some (Some j) \<Rightarrow> (case take_object sl j of (p, sl1) \<Rightarrow> Some (Some (p, sl1 # sls)))
         | _ \<Rightarrow> None)
      else (case take_from sls of None \<Rightarrow> None | Some None \<Rightarrow> Some None | Some (Some (p, sls1)) \<Rightarrow> Some (Some (p, sl # sls1))))"

definition alloc_in_class :: "size_class \<Rightarrow> ptr list \<Rightarrow> (ptr \<times> size_class \<times> ptr list) option" where
  \<comment> \<open>the part that both branches of \<^verbatim>\<open>kmalloc\<close> share\<close>
  "alloc_in_class c pages =
     (case take_from (sc_slabs c) of None \<Rightarrow> None
      | Some (Some (p, sls)) \<Rightarrow> Some (p, c\<lparr>sc_slabs := sls\<rparr>, pages)
      | Some None \<Rightarrow>
          if sc_slabs c = [] then None
          else do {
            (c1, ps) \<leftarrow> kmalloc_for_size c pages;
            let sl = last (sc_slabs c1);
            if sl_bitmap sl = [] then None
            else Some (sl_memory sl,
              c1\<lparr>sc_slabs := butlast (sc_slabs c1) @
                [sl\<lparr>sl_bitmap := (sl_bitmap sl)[0 := sl_bitmap sl ! 0 OR 1], sl_free_objects := sl_free_objects sl - 1\<rparr>]\<rparr>, ps)
          })"

definition kmalloc :: "u64 \<Rightarrow> heap \<Rightarrow> (ptr \<times> heap) option" where
  "kmalloc sz h =
     (case List.find (\<lambda>i. sc_size (hp_registered h ! i) = sz) [0..<hp_count h] of
        Some i \<Rightarrow> do {
          (p, c, ps) \<leftarrow> alloc_in_class (hp_registered h ! i) (hp_pages h);
          Some (p, h\<lparr>hp_registered := (hp_registered h)[i := c], hp_pages := ps\<rparr>)
        }
      | None \<Rightarrow>
          (let shift = length (takeWhile (\<lambda>c. \<not> sc_size c > sz) (hp_default h)) in
           if shift \<ge> DEFAULT_SIZE_CLASSES then None
           else if sc_size (hp_default h ! shift) > sz then Some (NULL, h)
           else do {
             (c, ps) \<leftarrow> (if sc_slabs (hp_default h ! shift) = [] then kmalloc_for_size (hp_default h ! shift) (hp_pages h)
                         else Some (hp_default h ! shift, hp_pages h));
             (p, c1, ps1) \<leftarrow> alloc_in_class c ps;
             Some (p, h\<lparr>hp_default := (hp_default h)[shift := c1], hp_pages := ps1\<rparr>)
           }))"

definition kcalloc :: "int \<Rightarrow> u64 \<Rightarrow> heap \<Rightarrow> (ptr \<times> heap) option" where
  \<comment> \<open>\<^verbatim>\<open>memset(p, 0, real_size)\<close> faults on \<^verbatim>\<open>NULL\<close>; the contents of objects are not part of this model\<close>
  "kcalloc nobj sz h = do {
     let real_size = to_size nobj * sz;
     (p, h1) \<leftarrow> kmalloc real_size h;
     if p = NULL \<and> real_size > 0 then None else Some (p, h1)
   }"

definition give_back :: "ptr \<Rightarrow> slab \<Rightarrow> slab option" where
  \<comment> \<open>\<^verbatim>\<open>offset / slab->object_size\<close> and the clearing of the bit\<close>
  "give_back p sl =
     (if sl_object_size sl = 0 then None
      else let objectIndex = unat ((p - sl_memory sl) div sl_object_size sl);
               bitmapIndex = objectIndex div 64
           in if bitmapIndex \<ge> length (sl_bitmap sl) then None
              else Some (sl\<lparr>sl_bitmap := (sl_bitmap sl)[bitmapIndex := sl_bitmap sl ! bitmapIndex AND NOT (push_bit (objectIndex mod 64) 1)],
                            sl_free_objects := sl_free_objects sl + 1\<rparr>))"

fun free_in :: "ptr \<Rightarrow> slab list \<Rightarrow> slab list option option" where
  \<comment> \<open>\<open>Some None\<close>: the object is in none of the slabs\<close>
  "free_in p [] = Some None"
| "free_in p (sl # sls) =
     (if p \<ge> sl_memory sl \<and> p < sl_memory sl + 4096
      then (case give_back p sl of None \<Rightarrow> None | Some sl1 \<Rightarrow> Some (Some (sl1 # sls)))
      else (case free_in p sls of None \<Rightarrow> None | Some None \<Rightarrow> Some None | Some (Some sls1) \<Rightarrow> Some (Some (sl # sls1))))"

fun free_classes :: "ptr \<Rightarrow> nat list \<Rightarrow> heap \<Rightarrow> heap option option" where
  \<comment> \<open>a loop of \<^verbatim>\<open>kfree\<close> over the registered classes with the given indices\<close>
  "free_classes p [] h = Some None"
| "free_classes p (i # is) h =
     (case free_in p (sc_slabs (hp_registered h ! i)) of
        None \<Rightarrow> None
      | Some (Some sls) \<Rightarrow> Some (Some (h\<lparr>hp_registered := (hp_registered h)[i := (hp_registered h ! i)\<lparr>sc_slabs := sls\<rparr>]\<rparr>))
      | Some None \<Rightarrow> free_classes p is h)"

definition kfree :: "ptr \<Rightarrow> heap \<Rightarrow> heap option" where
  \<comment> \<open>both loops read \<^verbatim>\<open>registeredSizeClasses\<close>; the first tests the sizes of the default classes\<close>
  "kfree p h =
     (if p = NULL then Some h
      else case free_classes p (filter (\<lambda>i. sc_size (hp_default h ! i) > 0) [0..<DEFAULT_SIZE_CLASSES]) h of
        None \<Rightarrow> None
      | Some (Some h1) \<Rightarrow> Some h1
      | Some None \<Rightarrow>
          (case free_classes p (filter (\<lambda>i. sc_size (hp_registered h ! i) > 0) [0..<MAX_SIZE_CLASSES]) h of
             None \<Rightarrow> None | Some (Some h1) \<Rightarrow> Some h1 | Some None \<Rightarrow> Some h))"

definition alloc_register_object_size :: "u64 \<Rightarrow> heap \<Rightarrow> heap option" where
  "alloc_register_object_size sz h =
     (if \<exists>c \<in> set (hp_registered h). sc_size c = sz then Some h
      else case List.find (\<lambda>i. sc_size (hp_registered h ! i) = 0) [0..<MAX_SIZE_CLASSES] of
        None \<Rightarrow> Some h
      | Some i \<Rightarrow> do {
          (c, ps) \<leftarrow> kmalloc_for_size \<lparr>sc_size = sz, sc_slabs = []\<rparr> (hp_pages h);
          Some (h\<lparr>hp_registered := (hp_registered h)[i := c], hp_count := hp_count h + 1, hp_pages := ps\<rparr>)
        })"

section \<open>Well-formed slabs\<close>

definition objects_per_page :: "u64 \<Rightarrow> nat" where
  \<comment> \<open>\<^verbatim>\<open>uint8_t perPage = 4096 / size\<close>\<close>
  "objects_per_page sz = unat (ucast (4096 div sz) :: u8)"

definition used :: "slab \<Rightarrow> nat set" where
  \<comment> \<open>the bits that are set, over all words of the bitmap\<close>
  "used sl = {k. k div 64 < length (sl_bitmap sl) \<and> bit (sl_bitmap sl ! (k div 64)) (k mod 64)}"

definition slab_ok :: "slab \<Rightarrow> bool" where
  \<comment> \<open>for objects of any size: the total is \<^verbatim>\<open>perPage\<close>, fewer than 8 objects leave a bitmap of no bytes, only bits below 31 can
     be set, and the free count agrees with the bitmap\<close>
  "slab_ok sl \<longleftrightarrow> sl_object_size sl \<noteq> 0 \<and> unat (sl_total_objects sl) = objects_per_page (sl_object_size sl) \<and>
     (sl_bitmap sl = [] \<longleftrightarrow> unat (sl_total_objects sl) < 8) \<and> used sl \<subseteq> {..<min (unat (sl_total_objects sl)) 31} \<and>
     unat (sl_free_objects sl) + card (used sl) = unat (sl_total_objects sl) \<and>
     unat (sl_memory sl) mod 4096 = 0 \<and> sl_memory sl \<noteq> NULL \<and> unat (sl_memory sl) + 4096 < 2 ^ 64"

definition object_at :: "slab \<Rightarrow> nat \<Rightarrow> ptr" where
  "object_at sl j = sl_memory sl + of_nat j * sl_object_size sl"

lemma slab_size_pos: "slab_ok sl \<Longrightarrow> 0 < unat (sl_object_size sl)"
  by (simp add: slab_ok_def unat_gt_0)

lemma objects_per_page_le: "objects_per_page sz \<le> 4096 div unat sz" "objects_per_page sz < 256"
proof -
  have "objects_per_page sz = (4096 div unat sz) mod 256"
    by (simp add: objects_per_page_def unsigned_ucast_eq take_bit_eq_mod unat_div)
  then show "objects_per_page sz \<le> 4096 div unat sz" "objects_per_page sz < 256" by simp_all
qed

lemma finite_used: "slab_ok sl \<Longrightarrow> finite (used sl)"
  by (auto simp: slab_ok_def intro: finite_subset)

lemma used_iff: "j < 31 \<Longrightarrow> j \<in> used sl \<longleftrightarrow> sl_bitmap sl \<noteq> [] \<and> bit (sl_bitmap sl ! 0) j"
  by (simp add: used_def)

lemma usedD:
  assumes "slab_ok sl" "j \<in> used sl"
  shows "j < unat (sl_total_objects sl)" "j < 31" "sl_bitmap sl \<noteq> []"
  using assms by (auto simp: slab_ok_def used_def)

lemma object_in_page:
  assumes "slab_ok sl" "j < unat (sl_total_objects sl)"
  shows "unat (object_at sl j) = unat (sl_memory sl) + j * unat (sl_object_size sl)"
    "j * unat (sl_object_size sl) + unat (sl_object_size sl) \<le> 4096" "unat (of_nat j * sl_object_size sl) = j * unat (sl_object_size sl)"
proof -
  let ?z = "unat (sl_object_size sl)"
  have j: "j < 4096 div ?z" "unat (sl_memory sl) + 4096 < 2 ^ 64"
    using assms objects_per_page_le(1) [of "sl_object_size sl"] by (auto simp: slab_ok_def)
  have "Suc j * ?z \<le> (4096 div ?z) * ?z" using j(1) by (intro mult_le_mono1) simp
  also have "\<dots> \<le> 4096" by (rule div_times_less_eq_dividend)
  finally show le: "j * ?z + ?z \<le> 4096" by simp
  have "j < 4096" using j(1) by (meson div_le_dividend less_le_trans)
  then have "unat (of_nat j :: u64) = j" by (intro unat_of_nat_u64) simp
  then show m: "unat (of_nat j * sl_object_size sl) = j * ?z" using le by (simp add: unat_word_ariths)
  show "unat (object_at sl j) = unat (sl_memory sl) + j * ?z"
    using m le j(2) by (simp add: object_at_def unat_word_ariths)
qed

lemma bit_test: "j < 31 \<Longrightarrow> (w AND push_bit j 1 = 0) \<longleftrightarrow> \<not> bit (w :: u64) j"
  by (simp add: push_bit_eq_mult and_exp_eq_0_iff_not_bit)

text \<open>The search finds the first clear bit below 31, and is a fault when it gets past bit 30.\<close>

lemma scan_bits_find:
  "sl_bitmap sl \<noteq> [] \<Longrightarrow> j \<le> 31 \<Longrightarrow> scan_bits sl j n =
    (case List.find (\<lambda>i. \<not> bit (sl_bitmap sl ! 0) i) [j..<min (j + n) 31] of
       Some i \<Rightarrow> Some (Some i) | None \<Rightarrow> if j + n \<le> 31 then Some None else None)"
proof (induction n arbitrary: j)
  case (Suc n)
  show ?case
  proof (cases "j = 31")
    case False
    then have "j < min (j + Suc n) 31" using Suc.prems(2) by simp
    then have "[j..<min (j + Suc n) 31] = j # [Suc j..<min (Suc j + n) 31]" by (simp only: upt_conv_Cons add_Suc add_Suc_right)
    then show ?thesis using Suc.IH [of "Suc j"] Suc.prems False bit_test [of j "sl_bitmap sl ! 0"] by (simp add: Let_def)
  qed simp
qed simp

definition has_room :: "slab \<Rightarrow> bool" where
  "has_room sl \<longleftrightarrow> sl_bitmap sl \<noteq> [] \<and> card (used sl) < min (unat (sl_total_objects sl)) 31"

lemma scan_room:
  assumes "slab_ok sl" "has_room sl"
  shows "\<exists>j. scan_bits sl 0 (unat (sl_total_objects sl)) = Some (Some j) \<and> j < min (unat (sl_total_objects sl)) 31 \<and> j \<notin> used sl"
proof -
  let ?m = "min (unat (sl_total_objects sl)) 31" and ?b = "sl_bitmap sl ! 0"
  have bm: "sl_bitmap sl \<noteq> []" and c: "card (used sl) < ?m" using assms(2) by (auto simp: has_room_def)
  have "\<not> {..<?m} \<subseteq> used sl" using c card_mono [OF finite_used [OF assms(1)], of "{..<?m}"] by auto
  then obtain j where "j < ?m" "j \<notin> used sl" by (meson lessThan_iff subsetI)
  then have "j < ?m" "\<not> bit ?b j" using used_iff [of j sl] bm by simp_all
  then have "List.find (\<lambda>i. \<not> bit ?b i) [0..<?m] \<noteq> None" by (auto simp: find_None_iff)
  then obtain i where f: "List.find (\<lambda>i. \<not> bit ?b i) [0..<?m] = Some i" by blast
  then have "i < ?m" "\<not> bit ?b i" by (auto simp: find_Some_iff)
  then show ?thesis using scan_bits_find [OF bm, of 0 "unat (sl_total_objects sl)"] f used_iff [of i sl] by simp
qed

lemma scan_no_room:
  assumes "slab_ok sl" "\<not> has_room sl" "sl_free_objects sl > 0"
  shows "scan_bits sl 0 (unat (sl_total_objects sl)) = None"
proof (cases "sl_bitmap sl = []")
  case True
  have "unat (sl_total_objects sl) \<noteq> 0" using assms(1,3) by (auto simp: slab_ok_def word_less_nat_alt)
  then obtain n where "unat (sl_total_objects sl) = Suc n" by (cases "unat (sl_total_objects sl)") auto
  then show ?thesis using True by (simp add: Let_def)
next
  case False
  let ?n = "unat (sl_total_objects sl)"
  have u: "used sl \<subseteq> {..<min ?n 31}" "card (used sl) < ?n" using assms(1,3) by (auto simp: slab_ok_def word_less_nat_alt)
  have "\<not> card (used sl) < min ?n 31" using assms(2) False by (simp add: has_room_def)
  then have n: "31 < ?n" using u(2) by simp
  then have u31: "used sl \<subseteq> {..<31}" "31 \<le> card (used sl)" using u(1) \<open>\<not> card (used sl) < min ?n 31\<close> by simp_all
  moreover have "card (used sl) \<le> card {..<31 :: nat}" using u31(1) by (intro card_mono) simp_all
  ultimately have "used sl = {..<31}" by (intro card_subset_eq) simp_all
  then have "bit (sl_bitmap sl ! 0) j" if "j < 31" for j using used_iff [OF that, of sl] that by auto
  then have "List.find (\<lambda>i. \<not> bit (sl_bitmap sl ! 0) i) [0..<31] = None" by (auto simp: find_None_iff)
  then show ?thesis using scan_bits_find [OF False, of 0 ?n] n by simp
qed

lemma used_update:
  \<comment> \<open>a change of bits below 31 of the first word\<close>
  assumes "sl_bitmap sl \<noteq> []" "\<And>i. i < 64 \<Longrightarrow> bit w i = (if i = j then v else bit (sl_bitmap sl ! 0) i)" "j < 64"
  shows "used (sl\<lparr>sl_bitmap := (sl_bitmap sl)[0 := w], sl_free_objects := f\<rparr>) = (if v then insert j (used sl) else used sl - {j})"
proof -
  have "k \<in> used (sl\<lparr>sl_bitmap := (sl_bitmap sl)[0 := w], sl_free_objects := f\<rparr>) \<longleftrightarrow> (if k = j then v else k \<in> used sl)" for k
  proof (cases "k < 64")
    case True
    then have "k div 64 = 0" "k mod 64 = k" by simp_all
    then show ?thesis using assms(1) assms(2) [OF True] by (simp add: used_def)
  next
    case False
    then have k: "0 \<noteq> k div 64" "k \<noteq> j" using assms(3) by auto
    have "(sl_bitmap sl)[0 := w] ! (k div 64) = sl_bitmap sl ! (k div 64)" by (rule nth_list_update_neq [OF k(1)])
    then show ?thesis using k(2) by (simp add: used_def)
  qed
  note u = this
  show ?thesis by (rule set_eqI) (use u in \<open>auto split: if_splits\<close>)
qed

lemma take_object_ok:
  assumes "slab_ok sl" "has_room sl" "j < min (unat (sl_total_objects sl)) 31" "j \<notin> used sl"
  shows "\<exists>sl1. take_object sl j = (object_at sl j, sl1) \<and> slab_ok sl1 \<and> used sl1 = insert j (used sl) \<and>
    sl_memory sl1 = sl_memory sl \<and> sl_object_size sl1 = sl_object_size sl \<and> sl_total_objects sl1 = sl_total_objects sl \<and>
    give_back (object_at sl j) sl1 = Some sl"
proof -
  let ?w = "sl_bitmap sl ! 0" and ?z = "sl_object_size sl" and ?n = "unat (sl_total_objects sl)"
  have j: "j < 31" "j < ?n" "sl_bitmap sl \<noteq> []" using assms(2,3) by (auto simp: has_room_def)
  have nb: "\<not> bit ?w j" using used_iff [OF j(1), of sl] j(3) assms(4) by simp
  let ?sl = "sl\<lparr>sl_bitmap := (sl_bitmap sl)[0 := ?w OR push_bit j 1], sl_free_objects := sl_free_objects sl - 1\<rparr>"
  have t: "take_object sl j = (object_at sl j, ?sl)" using j(1) by (simp add: take_object_def object_at_def Let_def)
  have u: "used ?sl = insert j (used sl)"
    using used_update [where j = j and v = True and w = "?w OR push_bit j 1", OF j(3)] j(1) by (auto simp: bit_or_iff bit_exp_iff)
  have c: "card (insert j (used sl)) = Suc (card (used sl))" using finite_used [OF assms(1)] assms(4) by simp
  have "card (used sl) < ?n" using assms(2) by (simp add: has_room_def)
  then have "0 < unat (sl_free_objects sl)" using assms(1) by (simp add: slab_ok_def)
  then have f: "unat (sl_free_objects sl - 1) = unat (sl_free_objects sl) - 1" "0 < unat (sl_free_objects sl)"
    by (simp_all add: unat_sub word_le_nat_alt)
  have ok: "slab_ok ?sl" using assms(1,3) u c f by (auto simp: slab_ok_def)
  have "(object_at sl j - sl_memory sl) div ?z = of_nat j * ?z div ?z" by (simp add: object_at_def)
  also have "unat \<dots> = j" using object_in_page(3) [OF assms(1) j(2)] assms(1) by (simp add: unat_div slab_ok_def unat_eq_zero)
  finally have q: "unat ((object_at sl j - sl_memory sl) div ?z) = j" .
  have w: "(?w OR push_bit j 1) AND NOT (push_bit j 1) = ?w"
    by (rule bit_eqI) (use nb in \<open>auto simp: bit_and_iff bit_or_iff bit_not_iff bit_exp_iff\<close>)
  have "?z \<noteq> 0" using assms(1) by (simp add: slab_ok_def)
  then have "give_back (object_at sl j) ?sl = Some sl" using q j w by (simp add: give_back_def Let_def)
  then show ?thesis using t ok u by simp
qed

definition live :: "slab list \<Rightarrow> ptr set" where
  \<comment> \<open>the objects that are in use\<close>
  "live sls = (\<Union>sl \<in> set sls. object_at sl ` used sl)"

definition chain_ok :: "slab list \<Rightarrow> bool" where
  "chain_ok sls \<longleftrightarrow> list_all slab_ok sls \<and> distinct (map sl_memory sls)"

lemma object_page:
  assumes "slab_ok sl" "j < unat (sl_total_objects sl)"
  shows "unat (object_at sl j) div 4096 * 4096 = unat (sl_memory sl)"
proof -
  obtain m where m: "unat (sl_memory sl) = 4096 * m" using assms(1) by (auto simp: slab_ok_def)
  have z: "0 < unat (sl_object_size sl)" by (rule slab_size_pos [OF assms(1)])
  have "j * unat (sl_object_size sl) < 4096" using object_in_page(2) [OF assms] z by simp
  then show ?thesis using object_in_page(1) [OF assms] m by simp
qed

lemma page_test:
  assumes "slab_ok sl" "j < unat (sl_total_objects sl)" "slab_ok sl'"
  shows "(object_at sl j \<ge> sl_memory sl' \<and> object_at sl j < sl_memory sl' + 4096) \<longleftrightarrow> sl_memory sl = sl_memory sl'"
proof -
  have a: "unat (sl_memory sl' + 4096) = unat (sl_memory sl') + 4096" using assms(3) by (simp add: slab_ok_def unat_word_ariths)
  obtain m' where m': "unat (sl_memory sl') = 4096 * m'" using assms(3) by (auto simp: slab_ok_def)
  have z: "0 < unat (sl_object_size sl)" by (rule slab_size_pos [OF assms(1)])
  have r: "unat (sl_memory sl) \<le> unat (object_at sl j)" "unat (object_at sl j) < unat (sl_memory sl) + 4096"
    using object_in_page(1,2) [OF assms(1,2)] z by auto
  have "unat (object_at sl j) div 4096 = m'" if "4096 * m' \<le> unat (object_at sl j)" "unat (object_at sl j) < 4096 * m' + 4096"
    using that by (intro div_nat_eqI) auto
  then have "unat (sl_memory sl) = unat (sl_memory sl')"
    if "4096 * m' \<le> unat (object_at sl j)" "unat (object_at sl j) < 4096 * m' + 4096"
    using object_page [OF assms(1,2)] m' that by (metis mult.commute)
  then show ?thesis using a m' r by (auto simp: word_le_nat_alt word_less_nat_alt word_unat_eq_iff)
qed

lemma object_inj:
  assumes "slab_ok sl" "j < unat (sl_total_objects sl)" "i < unat (sl_total_objects sl)" "object_at sl i = object_at sl j"
  shows "i = j"
proof -
  have "unat (object_at sl i) = unat (object_at sl j)" using assms(4) by simp
  then have "i * unat (sl_object_size sl) = j * unat (sl_object_size sl)"
    using object_in_page(1) [OF assms(1,2)] object_in_page(1) [OF assms(1,3)] by simp
  then show ?thesis using slab_size_pos [OF assms(1)] by simp
qed

lemma object_inj_used: "slab_ok sl \<Longrightarrow> inj_on (object_at sl) (used sl)"
  by (rule inj_onI) (auto intro: object_inj dest: usedD(1))

lemma take_from_ok:
  assumes "chain_ok sls" "\<exists>sl \<in> set sls. sl_free_objects sl > 0"
    "\<forall>sl \<in> set sls. sl_free_objects sl > 0 \<longrightarrow> has_room sl"
  shows "\<exists>p sls1. take_from sls = Some (Some (p, sls1)) \<and> chain_ok sls1 \<and> p \<notin> live sls \<and> live sls1 = insert p (live sls) \<and>
    map sl_memory sls1 = map sl_memory sls \<and> map sl_object_size sls1 = map sl_object_size sls \<and> free_in p sls1 = Some (Some sls) \<and>
    (\<exists>sl j. sl \<in> set sls \<and> j < unat (sl_total_objects sl) \<and> p = object_at sl j)"
  using assms
proof (induction sls)
  case (Cons sl sls)
  have ok: "slab_ok sl" "chain_ok sls" "sl_memory sl \<notin> sl_memory ` set sls" using Cons.prems(1) by (auto simp: chain_ok_def)
  have other: "slab_ok sl'" "sl_memory sl' \<noteq> sl_memory sl" if "sl' \<in> set sls" for sl'
    using that ok by (auto simp: chain_ok_def list_all_iff image_iff)
  show ?case
  proof (cases "sl_free_objects sl > 0")
    case True
    have room: "has_room sl" using True Cons.prems(3) by simp
    from scan_room [OF ok(1) room] obtain j where
      j: "scan_bits sl 0 (unat (sl_total_objects sl)) = Some (Some j)" "j < unat (sl_total_objects sl)"
        "j < min (unat (sl_total_objects sl)) 31" "j \<notin> used sl" by auto
    from take_object_ok [OF ok(1) room j(3,4)] obtain sl1 where t: "take_object sl j = (object_at sl j, sl1)" "slab_ok sl1"
      "used sl1 = insert j (used sl)" "sl_memory sl1 = sl_memory sl" "sl_object_size sl1 = sl_object_size sl"
      "sl_total_objects sl1 = sl_total_objects sl" "give_back (object_at sl j) sl1 = Some sl" by blast
    have oa: "object_at sl1 = object_at sl" using t(4,5) by (simp add: object_at_def fun_eq_iff)
    have "object_at sl j \<noteq> object_at sl' i" if "sl' \<in> set sls" "i \<in> used sl'" for sl' i
    proof
      assume e: "object_at sl j = object_at sl' i"
      have "i < unat (sl_total_objects sl')" by (rule usedD(1) [OF other(1) [OF that(1)] that(2)])
      then have "unat (sl_memory sl') = unat (sl_memory sl)"
        using object_page [OF other(1) [OF that(1)]] object_page [OF ok(1) j(2)] e by metis
      then show False using other(2) [OF that(1)] by (simp add: word_unat_eq_iff)
    qed
    moreover have "object_at sl j \<noteq> object_at sl i" if "i \<in> used sl" for i
      using object_inj [OF ok(1) j(2) usedD(1) [OF ok(1) that]] that j(4) by auto
    ultimately have fresh: "object_at sl j \<notin> live (sl # sls)" by (auto simp: live_def)
    have "free_in (object_at sl j) (sl1 # sls) = Some (Some (sl # sls))"
      using page_test [OF ok(1) j(2) t(2)] t(4,7) by simp
    moreover have "live (sl1 # sls) = insert (object_at sl j) (live (sl # sls))" by (auto simp: live_def t(3) oa)
    moreover have "chain_ok (sl1 # sls)" using Cons.prems(1) t(2,4) by (simp add: chain_ok_def)
    ultimately show ?thesis using True j(1,2) t(1,4,5) fresh
      by (intro exI [of _ "object_at sl j"] exI [of _ "sl1 # sls"]) auto
  next
    case False
    then have "\<exists>sl \<in> set sls. sl_free_objects sl > 0" using Cons.prems(2) by auto
    from Cons.IH [OF ok(2) this] Cons.prems(3) obtain p sls1 sl' j where
      i: "take_from sls = Some (Some (p, sls1))" "chain_ok sls1" "p \<notin> live sls" "live sls1 = insert p (live sls)"
      "map sl_memory sls1 = map sl_memory sls" "free_in p sls1 = Some (Some sls)" "sl' \<in> set sls" "j < unat (sl_total_objects sl')"
      "p = object_at sl' j" "map sl_object_size sls1 = map sl_object_size sls" by auto
    have np: "\<not> (p \<ge> sl_memory sl \<and> p < sl_memory sl + 4096)"
      using page_test [OF other(1) [OF i(7)] i(8) ok(1)] other(2) [OF i(7)] i(9) by simp
    have "p \<noteq> object_at sl i" if "i \<in> used sl" for i
    proof
      assume "p = object_at sl i"
      then show False using page_test [OF ok(1) usedD(1) [OF ok(1) that] ok(1)] np by simp
    qed
    then have "p \<notin> live (sl # sls)" "live (sl # sls1) = insert p (live (sl # sls))" using i(3,4) by (auto simp: live_def)
    moreover have "chain_ok (sl # sls1)" using Cons.prems(1) i(2,5) by (simp add: chain_ok_def)
    ultimately show ?thesis using False i np
      by (intro exI [of _ p] exI [of _ "sl # sls1"]) (auto simp: not_le not_less)
  qed
qed simp

lemma take_from_full: "\<forall>sl \<in> set sls. sl_free_objects sl = 0 \<Longrightarrow> take_from sls = Some None"
  by (induction sls) auto

lemma free_in_none:
  assumes "slab_ok sl" "j < unat (sl_total_objects sl)" "list_all slab_ok sls" "sl_memory sl \<notin> sl_memory ` set sls"
  shows "free_in (object_at sl j) sls = Some None"
  using assms(3,4)
proof (induction sls)
  case (Cons sl' sls)
  then have "slab_ok sl'" "sl_memory sl \<noteq> sl_memory sl'" by auto
  then show ?case using Cons page_test [OF assms(1,2), of sl'] by auto
qed simp

lemma give_back_ok:
  assumes "slab_ok sl" "j \<in> used sl"
  shows "\<exists>sl1. give_back (object_at sl j) sl = Some sl1 \<and> slab_ok sl1 \<and> used sl1 = used sl - {j} \<and> sl_memory sl1 = sl_memory sl \<and>
    sl_object_size sl1 = sl_object_size sl"
proof -
  let ?w = "sl_bitmap sl ! 0"
  note j = usedD [OF assms]
  let ?sl = "sl\<lparr>sl_bitmap := (sl_bitmap sl)[0 := ?w AND NOT (push_bit j 1)], sl_free_objects := sl_free_objects sl + 1\<rparr>"
  have "(object_at sl j - sl_memory sl) div sl_object_size sl = of_nat j * sl_object_size sl div sl_object_size sl" by (simp add: object_at_def)
  also have "unat \<dots> = j" using object_in_page(3) [OF assms(1) j(1)] slab_size_pos [OF assms(1)] by (simp add: unat_div)
  finally have g: "give_back (object_at sl j) sl = Some ?sl" using assms(1) j(2,3) by (simp add: give_back_def Let_def slab_ok_def)
  have u: "used ?sl = used sl - {j}"
    using used_update [where j = j and v = False and w = "?w AND NOT (push_bit j 1)", OF j(3)] j(2)
    by (auto simp: bit_and_iff bit_not_iff bit_exp_iff)
  have c: "card (used sl) = Suc (card (used sl - {j}))" using finite_used [OF assms(1)] assms(2) by (rule card.remove)
  have t: "unat (sl_free_objects sl) + card (used sl) = unat (sl_total_objects sl)" using assms(1) by (simp add: slab_ok_def)
  then have "unat (sl_free_objects sl + 1) = unat (sl_free_objects sl) + 1"
    using c unsigned_less [of "sl_total_objects sl", where ?'a = nat] by (simp add: unat_word_ariths)
  then have "slab_ok ?sl" using assms(1) u c t by (auto simp: slab_ok_def)
  then show ?thesis using g u by simp
qed

lemma free_in_ok:
  assumes "chain_ok sls" "p \<in> live sls"
  shows "\<exists>sls1. free_in p sls = Some (Some sls1) \<and> chain_ok sls1 \<and> live sls1 = live sls - {p} \<and> map sl_memory sls1 = map sl_memory sls \<and>
    map sl_object_size sls1 = map sl_object_size sls"
  using assms
proof (induction sls)
  case (Cons sl sls)
  have ok: "slab_ok sl" "chain_ok sls" "sl_memory sl \<notin> sl_memory ` set sls" using Cons.prems(1) by (auto simp: chain_ok_def)
  have other: "slab_ok sl'" "sl_memory sl' \<noteq> sl_memory sl" if "sl' \<in> set sls" for sl'
    using that ok by (auto simp: chain_ok_def list_all_iff image_iff)
  show ?case
  proof (cases "p \<in> object_at sl ` used sl")
    case True
    then obtain j where j: "p = object_at sl j" "j \<in> used sl" "j < unat (sl_total_objects sl)" using usedD(1) [OF ok(1)] by auto
    from give_back_ok [OF ok(1) j(2)] obtain sl1 where g: "give_back p sl = Some sl1" "slab_ok sl1" "used sl1 = used sl - {j}"
      "sl_memory sl1 = sl_memory sl" "sl_object_size sl1 = sl_object_size sl" using j(1) by blast
    have oa: "object_at sl1 = object_at sl" using g(4,5) by (simp add: object_at_def fun_eq_iff)
    have "inj_on (object_at sl) (used sl)" by (rule object_inj_used [OF ok(1)])
    then have "object_at sl ` (used sl - {j}) = object_at sl ` used sl - {p}" using j by (auto simp: inj_on_def)
    moreover have "p \<notin> live sls"
    proof
      assume "p \<in> live sls"
      then obtain sl' i where i: "sl' \<in> set sls" "i \<in> used sl'" "p = object_at sl' i" by (auto simp: live_def)
      then have "i < unat (sl_total_objects sl')" using usedD(1) [OF other(1)] by blast
      then have "unat (sl_memory sl') = unat (sl_memory sl)"
        using object_page [OF other(1) [OF i(1)]] object_page [OF ok(1) j(3)] i(3) j(1) by metis
      then show False using other(2) [OF i(1)] by (simp add: word_unat_eq_iff)
    qed
    ultimately have "live (sl1 # sls) = live (sl # sls) - {p}" by (auto simp: live_def g(3) oa)
    moreover have "free_in p (sl # sls) = Some (Some (sl1 # sls))" using page_test [OF ok(1) j(3) ok(1)] g(1) j(1) by simp
    moreover have "chain_ok (sl1 # sls)" using Cons.prems(1) g(2,4) by (simp add: chain_ok_def)
    ultimately show ?thesis using g(4,5) by (intro exI [of _ "sl1 # sls"]) simp
  next
    case False
    then obtain sl' i where i: "sl' \<in> set sls" "i \<in> used sl'" "p = object_at sl' i" using Cons.prems(2) by (auto simp: live_def)
    then have lt: "i < unat (sl_total_objects sl')" using usedD(1) [OF other(1)] by blast
    have np: "\<not> (p \<ge> sl_memory sl \<and> p < sl_memory sl + 4096)"
      using page_test [OF other(1) [OF i(1)] lt ok(1)] other(2) [OF i(1)] i(3) by simp
    have "p \<in> live sls" using i by (auto simp: live_def)
    from Cons.IH [OF ok(2) this] obtain sls1 where s: "free_in p sls = Some (Some sls1)" "chain_ok sls1" "live sls1 = live sls - {p}"
      "map sl_memory sls1 = map sl_memory sls" "map sl_object_size sls1 = map sl_object_size sls" by blast
    moreover have "live (sl # sls1) = live (sl # sls) - {p}" using s(3) False by (auto simp: live_def)
    moreover have "chain_ok (sl # sls1)" using Cons.prems(1) s(2,4) by (simp add: chain_ok_def)
    ultimately show ?thesis using np by (intro exI [of _ "sl # sls1"]) auto
  qed
qed (simp add: live_def)

lemma bitmap_size_zero:
  fixes b :: u8
  assumes "unat b < 32"
  shows "unat (if b mod 8 \<noteq> 0 then (b + 8) AND NOT 7 else b) div 8 = 0 \<longleftrightarrow> unat b = 0"
proof -
  have "\<forall>k \<in> set [0..<32]. (unat (if (word_of_nat k :: u8) mod 8 \<noteq> 0 then (word_of_nat k + 8 :: u8) AND NOT 7 else word_of_nat k) div 8 = 0) =
      (k = 0)" by code_simp
  then have "unat (if (word_of_nat (unat b) :: u8) mod 8 \<noteq> 0 then (word_of_nat (unat b) + 8 :: u8) AND NOT 7 else word_of_nat (unat b)) div 8 = 0
    \<longleftrightarrow> unat b = 0" using assms by (metis atLeast0LessThan atLeast_upt lessThan_iff)
  moreover have e: "word_of_nat (unat b) = b" by simp
  ultimately show ?thesis unfolding e by blast
qed

abbreviation page_ok :: "ptr \<Rightarrow> bool" where
  "page_ok p \<equiv> unat p mod 4096 = 0 \<and> p \<noteq> NULL \<and> unat p + 4096 < 2 ^ 64"

lemma new_slab_ok:
  assumes "sz \<noteq> 0" "page_ok page"
  shows "\<exists>sl. new_slab page sz = Some sl \<and> slab_ok sl \<and> used sl = {} \<and> sl_memory sl = page \<and> sl_object_size sl = sz \<and>
    (\<forall>i < length (sl_bitmap sl). sl_bitmap sl ! i = 0)"
proof -
  define n where "n = (ucast (4096 div sz) :: u8)"
  define w where "w = unat (if n div 8 mod 8 \<noteq> 0 then (n div 8 + 8) AND NOT 7 else n div 8) div 8"
  have s: "new_slab page sz = Some \<lparr>sl_memory = page, sl_object_size = sz, sl_total_objects = n, sl_free_objects = n,
      sl_bitmap = replicate w 0\<rparr>" (is "_ = Some ?sl")
    using assms(1) by (simp add: new_slab_def Let_def n_def w_def)
  have d: "unat (n div 8) = unat n div 8" by (simp add: unat_div)
  moreover have "unat n < 256" using unsigned_less [of n, where ?'a = nat] by simp
  ultimately have "unat (n div 8) < 32" by (simp add: less_mult_imp_div_less)
  from bitmap_size_zero [OF this] d have "w = 0 \<longleftrightarrow> unat n < 8" by (simp add: w_def div_eq_0_iff)
  moreover have "used ?sl = {}" by (auto simp: used_def)
  ultimately have "slab_ok ?sl" using assms by (simp add: slab_ok_def objects_per_page_def n_def)
  with s \<open>used ?sl = {}\<close> show ?thesis by simp
qed


definition class_ok :: "size_class \<Rightarrow> ptr list \<Rightarrow> bool" where
  \<comment> \<open>a class of objects of any size with at least one slab, and fresh pages; a class with fewer than 8 or more than 31
     objects to a page never gets a second slab\<close>
  "class_ok c pages \<longleftrightarrow> chain_ok (sc_slabs c) \<and> sc_slabs c \<noteq> [] \<and> sc_size c \<noteq> 0 \<and>
     (\<forall>sl \<in> set (sc_slabs c). sl_object_size sl = sc_size c) \<and>
     (objects_per_page (sc_size c) < 8 \<or> 31 < objects_per_page (sc_size c) \<longrightarrow> length (sc_slabs c) = 1) \<and>
     distinct (map sl_memory (sc_slabs c) @ pages) \<and> list_all page_ok pages"

definition can_serve :: "size_class \<Rightarrow> nat \<Rightarrow> bool" where
  \<comment> \<open>how many more objects a class has: with 8 to 31 objects to a page as many as there are pages for, with more the 31 that bits
     0 to 30 of its one slab stand for, with fewer none\<close>
  "can_serve c k \<longleftrightarrow> k = 0 \<or>
     8 \<le> objects_per_page (sc_size c) \<and> (objects_per_page (sc_size c) \<le> 31 \<or> card (live (sc_slabs c)) + k \<le> 31)"

lemma class_slab:
  assumes "class_ok c pages" "sl \<in> set (sc_slabs c)"
  shows "slab_ok sl" "unat (sl_total_objects sl) = objects_per_page (sc_size c)"
    "sl_bitmap sl = [] \<longleftrightarrow> objects_per_page (sc_size c) < 8"
    "unat (sl_free_objects sl) + card (used sl) = objects_per_page (sc_size c)"
proof -
  have "sl_object_size sl = sc_size c" using assms by (simp add: class_ok_def)
  moreover show "slab_ok sl" using assms by (auto simp: class_ok_def chain_ok_def list_all_iff)
  ultimately show "unat (sl_total_objects sl) = objects_per_page (sc_size c)"
    "sl_bitmap sl = [] \<longleftrightarrow> objects_per_page (sc_size c) < 8"
    "unat (sl_free_objects sl) + card (used sl) = objects_per_page (sc_size c)"
    by (auto simp: slab_ok_def)
qed

lemma single_slab:
  assumes "class_ok c pages" "objects_per_page (sc_size c) < 8 \<or> 31 < objects_per_page (sc_size c)"
  obtains sl where "sc_slabs c = [sl]" "card (live (sc_slabs c)) = card (used sl)" "card (used sl) \<le> 31"
proof -
  have "length (sc_slabs c) = 1" using assms by (simp add: class_ok_def)
  then obtain sl where sl: "sc_slabs c = [sl]" by (auto simp: length_Suc_conv)
  then have ok: "slab_ok sl" using class_slab(1) [OF assms(1)] by simp
  have "card (object_at sl ` used sl) = card (used sl)" by (rule card_image [OF object_inj_used [OF ok]])
  moreover have "card (used sl) \<le> card {..<31 :: nat}" using usedD(2) [OF ok] by (intro card_mono) auto
  ultimately show thesis using sl by (intro that [of sl]) (simp_all add: live_def)
qed

lemma room_in_class:
  assumes c: "class_ok c pages" and r: "can_serve c 1" and sl: "sl \<in> set (sc_slabs c)" "sl_free_objects sl > 0"
  shows "has_room sl"
proof (cases "objects_per_page (sc_size c) \<le> 31")
  case True
  have "0 < unat (sl_free_objects sl)" using sl(2) by (simp add: word_less_nat_alt)
  then show ?thesis using True r class_slab [OF c sl(1)] by (simp add: can_serve_def has_room_def)
next
  case False
  then obtain s where "sc_slabs c = [s]" "card (live (sc_slabs c)) = card (used s)" using single_slab [OF c] by auto
  then show ?thesis using False r sl(1) class_slab [OF c sl(1)] by (simp add: can_serve_def has_room_def)
qed

lemma no_room_in_class:
  assumes c: "class_ok c pages" and r: "\<not> can_serve c 1"
  obtains sl where "sc_slabs c = [sl]" "\<not> has_room sl" "objects_per_page (sc_size c) = 0 \<or> sl_free_objects sl > 0"
proof -
  have n: "objects_per_page (sc_size c) < 8 \<or> 31 < objects_per_page (sc_size c)" using r by (auto simp: can_serve_def)
  then obtain sl where sl: "sc_slabs c = [sl]" "card (live (sc_slabs c)) = card (used sl)" "card (used sl) \<le> 31"
    using single_slab [OF c] by blast
  have f: "unat (sl_free_objects sl) + card (used sl) = objects_per_page (sc_size c)"
    "sl_bitmap sl = [] \<longleftrightarrow> objects_per_page (sc_size c) < 8" "slab_ok sl" using class_slab [OF c] sl(1) by auto
  have "used sl = {}" if "sl_bitmap sl = []" using that by (simp add: used_def)
  then have "0 < unat (sl_free_objects sl) \<or> objects_per_page (sc_size c) = 0" using f n sl(3) by fastforce
  moreover have "\<not> has_room sl" using n f(2) r sl(2) by (auto simp: has_room_def can_serve_def)
  ultimately show thesis using that [OF sl(1)] by (auto simp: word_less_nat_alt)
qed

lemma take_from_class:
  assumes "class_ok c pages" "can_serve c 1" "\<exists>sl \<in> set (sc_slabs c). sl_free_objects sl > 0"
  shows "\<exists>p c1. alloc_in_class c pages = Some (p, c1, pages) \<and> class_ok c1 pages \<and> p \<notin> live (sc_slabs c) \<and>
    live (sc_slabs c1) = insert p (live (sc_slabs c)) \<and> sc_size c1 = sc_size c \<and>
    sl_memory ` set (sc_slabs c1) = sl_memory ` set (sc_slabs c)"
proof -
  have "chain_ok (sc_slabs c)" using assms(1) by (simp add: class_ok_def)
  moreover have "\<forall>sl \<in> set (sc_slabs c). sl_free_objects sl > 0 \<longrightarrow> has_room sl" using room_in_class [OF assms(1,2)] by blast
  ultimately obtain p sls where t: "take_from (sc_slabs c) = Some (Some (p, sls))" "chain_ok sls"
    "p \<notin> live (sc_slabs c)" "live sls = insert p (live (sc_slabs c))" "map sl_memory sls = map sl_memory (sc_slabs c)"
    "map sl_object_size sls = map sl_object_size (sc_slabs c)" using take_from_ok [OF _ assms(3)] by blast
  have "length sls = length (sc_slabs c)" using t(5) by (rule map_eq_imp_length_eq)
  moreover have "sl_object_size sl = sc_size c" if "sl \<in> set sls" for sl
  proof -
    have "sl_object_size sl \<in> set (map sl_object_size (sc_slabs c))" unfolding t(6) [symmetric] using that by simp
    then show ?thesis using assms(1) by (auto simp: class_ok_def)
  qed
  ultimately have "class_ok (c\<lparr>sc_slabs := sls\<rparr>) pages" using assms(1) t(2,5) by (auto simp: class_ok_def)
  moreover have "sl_memory ` set sls = sl_memory ` set (sc_slabs c)" using t(5) by (metis set_map)
  ultimately show ?thesis using t by (simp add: alloc_in_class_def)
qed

lemma page_not_live:
  assumes "chain_ok sls" "page_ok page" "page \<notin> sl_memory ` set sls"
  shows "page \<notin> live sls"
proof
  assume "page \<in> live sls"
  then obtain sl i where i: "sl \<in> set sls" "i \<in> used sl" "page = object_at sl i" by (auto simp: live_def)
  have ok: "slab_ok sl" using i(1) assms(1) by (auto simp: chain_ok_def list_all_iff)
  then have "unat page div 4096 * 4096 = unat (sl_memory sl)" using object_page [OF ok usedD(1) [OF ok i(2)]] i(3) by simp
  moreover have "unat page div 4096 * 4096 = unat page" using assms(2) by auto
  ultimately have "sl_memory sl = page" by (simp add: word_unat_eq_iff)
  then show False using assms(3) i(1) by auto
qed

lemma grow_class:
  assumes c: "class_ok c (page # ps)" and r: "can_serve c 1" and full: "\<forall>sl \<in> set (sc_slabs c). sl_free_objects sl = 0"
  shows "\<exists>c1. alloc_in_class c (page # ps) = Some (page, c1, ps) \<and> class_ok c1 ps \<and> page \<notin> live (sc_slabs c) \<and>
    live (sc_slabs c1) = insert page (live (sc_slabs c)) \<and> sc_size c1 = sc_size c \<and>
    sl_memory ` set (sc_slabs c1) = insert page (sl_memory ` set (sc_slabs c))"
proof -
  have f: "take_from (sc_slabs c) = Some None" by (rule take_from_full [OF full])
  have k: "sc_size c \<noteq> 0" "page_ok page" "page \<notin> sl_memory ` set (sc_slabs c)" using c by (auto simp: class_ok_def)
  have n: "8 \<le> objects_per_page (sc_size c)" "objects_per_page (sc_size c) \<le> 31"
  proof -
    show "8 \<le> objects_per_page (sc_size c)" using r by (simp add: can_serve_def)
    show "objects_per_page (sc_size c) \<le> 31"
    proof (rule ccontr)
      assume a: "\<not> objects_per_page (sc_size c) \<le> 31"
      then obtain s where s: "sc_slabs c = [s]" "card (used s) \<le> 31" using single_slab [OF c] by auto
      then show False using a full class_slab(4) [OF c, of s] by simp
    qed
  qed
  from new_slab_ok [OF k(1,2)] obtain sl where s: "new_slab page (sc_size c) = Some sl" "slab_ok sl" "used sl = {}"
    "sl_memory sl = page" "sl_object_size sl = sc_size c" by blast
  have tot: "unat (sl_total_objects sl) = objects_per_page (sc_size c)" "sl_bitmap sl \<noteq> []"
    using s(2,5) n(1) by (auto simp: slab_ok_def)
  have room: "has_room sl" "0 < min (unat (sl_total_objects sl)) 31" "0 \<notin> used sl" using tot n(1) s(3) by (simp_all add: has_room_def)
  from take_object_ok [OF s(2) room] obtain sl1 where t: "take_object sl 0 = (object_at sl 0, sl1)" "slab_ok sl1" "used sl1 = insert 0 (used sl)"
    "sl_memory sl1 = sl_memory sl" "sl_object_size sl1 = sl_object_size sl" by blast
  have sl1: "sl1 = sl\<lparr>sl_bitmap := (sl_bitmap sl)[0 := sl_bitmap sl ! 0 OR 1], sl_free_objects := sl_free_objects sl - 1\<rparr>" "object_at sl 0 = page"
    using t(1) s(4) by (auto simp: take_object_def object_at_def)
  have a: "alloc_in_class c (page # ps) = Some (page, c\<lparr>sc_slabs := sc_slabs c @ [sl1]\<rparr>, ps)"
    using f s(1,4) c tot(2) sl1(1) by (simp add: alloc_in_class_def kmalloc_for_size_def class_ok_def)
  have "page \<notin> live (sc_slabs c)" using c k(2,3) by (intro page_not_live) (simp_all add: class_ok_def)
  moreover have "live (sc_slabs c @ [sl1]) = insert page (live (sc_slabs c))"
    using s(3,4) t(3-5) sl1(2) by (auto simp: live_def object_at_def)
  moreover have "class_ok (c\<lparr>sc_slabs := sc_slabs c @ [sl1]\<rparr>) ps"
    using c t(2,4,5) s(4,5) k(3) n by (auto simp: class_ok_def chain_ok_def)
  ultimately show ?thesis using a t(4) s(4) by simp
qed

lemma alloc_in_class_none:
  assumes c: "class_ok c pages" and r: "\<not> can_serve c 1"
  shows "alloc_in_class c pages = None"
proof -
  obtain sl where sl: "sc_slabs c = [sl]" "\<not> has_room sl" "objects_per_page (sc_size c) = 0 \<or> sl_free_objects sl > 0"
    using no_room_in_class [OF c r] .
  have ok: "slab_ok sl" using class_slab(1) [OF c] sl(1) by simp
  show ?thesis
  proof (cases "sl_free_objects sl > 0")
    case True
    then show ?thesis using scan_no_room [OF ok sl(2)] sl(1) by (simp add: alloc_in_class_def)
  next
    case False
    then have n: "objects_per_page (sc_size c) = 0" using sl(3) by simp
    have t: "take_from (sc_slabs c) = Some None" using False sl(1) by simp
    show ?thesis
    proof (cases pages)
      case (Cons page ps)
      then have k: "sc_size c \<noteq> 0" "page_ok page" using c by (auto simp: class_ok_def)
      from new_slab_ok [OF this] obtain s where s: "new_slab page (sc_size c) = Some s" "slab_ok s" "sl_object_size s = sc_size c" by blast
      then have "sl_bitmap s = []" using n by (simp add: slab_ok_def)
      then show ?thesis using t s(1) sl(1) Cons by (simp add: alloc_in_class_def kmalloc_for_size_def)
    qed (use t sl(1) in \<open>simp add: alloc_in_class_def kmalloc_for_size_def\<close>)
  qed
qed

lemma alloc_in_class_ok:
  assumes "class_ok c pages" "can_serve c 1" "pages \<noteq> [] \<or> (\<exists>sl \<in> set (sc_slabs c). sl_free_objects sl > 0)"
  shows "\<exists>p c1 ps. alloc_in_class c pages = Some (p, c1, ps) \<and> class_ok c1 ps \<and> p \<notin> live (sc_slabs c) \<and>
    live (sc_slabs c1) = insert p (live (sc_slabs c)) \<and> sc_size c1 = sc_size c \<and>
    sl_memory ` set (sc_slabs c1) \<union> set ps = sl_memory ` set (sc_slabs c) \<union> set pages"
proof (cases "\<exists>sl \<in> set (sc_slabs c). sl_free_objects sl > 0")
  case True
  from take_from_class [OF assms(1,2) this] obtain p c1 where
    "alloc_in_class c pages = Some (p, c1, pages)" "class_ok c1 pages" "p \<notin> live (sc_slabs c)"
    "live (sc_slabs c1) = insert p (live (sc_slabs c))" "sc_size c1 = sc_size c"
    "sl_memory ` set (sc_slabs c1) = sl_memory ` set (sc_slabs c)" by blast
  then show ?thesis by (intro exI [of _ p] exI [of _ c1] exI [of _ pages]) simp
next
  case False
  then obtain page ps where pages: "pages = page # ps" using assms(3) by (cases pages) auto
  have "\<forall>sl \<in> set (sc_slabs c). sl_free_objects sl = 0" using False by (auto simp: word_neq_0_conv [symmetric])
  from grow_class [OF assms(1) [unfolded pages] assms(2) this] obtain c1 where
    "alloc_in_class c (page # ps) = Some (page, c1, ps)" "class_ok c1 ps" "page \<notin> live (sc_slabs c)"
    "live (sc_slabs c1) = insert page (live (sc_slabs c))" "sc_size c1 = sc_size c"
    "sl_memory ` set (sc_slabs c1) = insert page (sl_memory ` set (sc_slabs c))" by blast
  then show ?thesis unfolding pages by (intro exI [of _ page] exI [of _ c1] exI [of _ ps]) simp
qed

lemma alloc_in_class_Some:
  assumes c: "class_ok c pages" and a: "alloc_in_class c pages = Some (p, c1, ps)"
  shows "can_serve c 1 \<and> class_ok c1 ps \<and> p \<notin> live (sc_slabs c) \<and>
    live (sc_slabs c1) = insert p (live (sc_slabs c)) \<and> sc_size c1 = sc_size c \<and>
    sl_memory ` set (sc_slabs c1) \<union> set ps = sl_memory ` set (sc_slabs c) \<union> set pages"
proof -
  have r: "can_serve c 1" using alloc_in_class_none [OF c] a by auto
  have "pages \<noteq> [] \<or> (\<exists>sl \<in> set (sc_slabs c). sl_free_objects sl > 0)"
  proof (rule ccontr)
    assume n: "\<not> ?thesis"
    then have "take_from (sc_slabs c) = Some None" by (intro take_from_full) (auto simp: word_neq_0_conv [symmetric])
    then show False using n a by (simp add: alloc_in_class_def kmalloc_for_size_def split: if_splits)
  qed
  from alloc_in_class_ok [OF c r this] a r show ?thesis by auto
qed

lemma alloc_supply: "alloc_in_class c pages = Some (p, c1, ps) \<Longrightarrow> set ps \<subseteq> set pages"
  by (auto simp: alloc_in_class_def kmalloc_for_size_def Let_def split: option.splits list.splits if_splits bind_splits)


section \<open>Well-formed heaps\<close>

abbreviation chain :: "heap \<Rightarrow> nat \<Rightarrow> slab list" where
  "chain h i \<equiv> sc_slabs (hp_registered h ! i)"

abbreviation pages_of :: "heap \<Rightarrow> nat \<Rightarrow> ptr set" where
  "pages_of h i \<equiv> sl_memory ` set (chain h i)"

definition heap_ok :: "heap \<Rightarrow> bool" where
  \<comment> \<open>the classes in use are well formed and of different sizes, the others empty, and no page belongs to two classes or to a class and the supply\<close>
  "heap_ok h \<longleftrightarrow> length (hp_registered h) = MAX_SIZE_CLASSES \<and> hp_count h \<le> MAX_SIZE_CLASSES \<and>
     hp_default h = hp_default (initial_heap []) \<and>
     (\<forall>i < hp_count h. class_ok (hp_registered h ! i) (hp_pages h)) \<and>
     inj_on (\<lambda>i. sc_size (hp_registered h ! i)) {..<hp_count h} \<and>
     (\<forall>i < MAX_SIZE_CLASSES. hp_count h \<le> i \<longrightarrow> sc_size (hp_registered h ! i) = 0 \<and> chain h i = []) \<and>
     (\<forall>i < MAX_SIZE_CLASSES. \<forall>k < MAX_SIZE_CLASSES. i \<noteq> k \<longrightarrow> pages_of h i \<inter> pages_of h k = {}) \<and>
     distinct (hp_pages h) \<and> list_all page_ok (hp_pages h)"

definition heap_live :: "heap \<Rightarrow> ptr set" where
  "heap_live h = (\<Union>i < MAX_SIZE_CLASSES. live (chain h i))"

lemma heap_chain_ok: "heap_ok h \<Longrightarrow> i < MAX_SIZE_CLASSES \<Longrightarrow> chain_ok (chain h i)"
  by (cases "i < hp_count h") (auto simp: heap_ok_def class_ok_def chain_ok_def)

lemma live_obtain:
  assumes "chain_ok sls" "p \<in> live sls"
  obtains sl j where "sl \<in> set sls" "slab_ok sl" "j < unat (sl_total_objects sl)" "p = object_at sl j"
    "sl_memory sl = of_nat (unat p div 4096 * 4096)"
proof -
  obtain sl j where s: "sl \<in> set sls" "j \<in> used sl" "p = object_at sl j" using assms(2) by (auto simp: live_def)
  have ok: "slab_ok sl" using s(1) assms(1) by (auto simp: chain_ok_def list_all_iff)
  have j: "j < unat (sl_total_objects sl)" by (rule usedD(1) [OF ok s(2)])
  have "of_nat (unat p div 4096 * 4096) = (of_nat (unat (sl_memory sl)) :: ptr)" using object_page [OF ok j] s(3) by simp
  then have "sl_memory sl = of_nat (unat p div 4096 * 4096)" by simp
  with that s ok j show ?thesis by blast
qed

lemma live_apart:
  assumes "chain_ok xs" "chain_ok ys" "sl_memory ` set xs \<inter> sl_memory ` set ys = {}" "p \<in> live xs"
  shows "p \<notin> live ys" "free_in p ys = Some None"
proof -
  obtain sl j where s: "sl \<in> set xs" "slab_ok sl" "j < unat (sl_total_objects sl)" "p = object_at sl j"
    "sl_memory sl = of_nat (unat p div 4096 * 4096)" by (rule live_obtain [OF assms(1,4)])
  have n: "sl_memory sl \<notin> sl_memory ` set ys" using s(1) assms(3) by blast
  show "p \<notin> live ys"
  proof
    assume "p \<in> live ys"
    then obtain sl' where "sl' \<in> set ys" "sl_memory sl' = of_nat (unat p div 4096 * 4096)" by (rule live_obtain [OF assms(2)]) blast
    then show False using n s(5) by (metis imageI)
  qed
  show "free_in p ys = Some None" using free_in_none [OF s(2,3) _ n] assms(2) s(4) by (simp add: chain_ok_def)
qed

lemma heap_live_update:
  assumes "i < MAX_SIZE_CLASSES" "length (hp_registered h) = MAX_SIZE_CLASSES"
  shows "heap_live (h\<lparr>hp_registered := (hp_registered h)[i := c], hp_pages := ps\<rparr>) =
    live (sc_slabs c) \<union> (\<Union>k \<in> {..<MAX_SIZE_CLASSES} - {i}. live (chain h k))" (is "?l = ?r")
proof -
  have "chain (h\<lparr>hp_registered := (hp_registered h)[i := c], hp_pages := ps\<rparr>) k = (if k = i then sc_slabs c else chain h k)"
    if "k < MAX_SIZE_CLASSES" for k using that assms by (simp add: nth_list_update)
  then have "?l = (\<Union>k < MAX_SIZE_CLASSES. live (if k = i then sc_slabs c else chain h k))"
    unfolding heap_live_def by (intro SUP_cong) auto
  also have "\<dots> = ?r" using assms(1) by (auto split: if_splits)
  finally show ?thesis .
qed

lemma heap_live_split:
  assumes "i < MAX_SIZE_CLASSES"
  shows "heap_live h = live (chain h i) \<union> (\<Union>k \<in> {..<MAX_SIZE_CLASSES} - {i}. live (chain h k))"
  using assms by (auto simp: heap_live_def)


lemma heap_ok_update:
  assumes "heap_ok h" "i < hp_count h" "class_ok c ps" "distinct ps" "set ps \<subseteq> set (hp_pages h)"
    "sl_memory ` set (sc_slabs c) \<union> set ps = pages_of h i \<union> set (hp_pages h)" "sc_size c = sc_size (hp_registered h ! i)"
  shows "heap_ok (h\<lparr>hp_registered := (hp_registered h)[i := c], hp_pages := ps\<rparr>)"
proof -
  have len: "length (hp_registered h) = MAX_SIZE_CLASSES" "hp_count h \<le> MAX_SIZE_CLASSES" "i < MAX_SIZE_CLASSES"
    using assms(1,2) by (auto simp: heap_ok_def)
  let ?h = "h\<lparr>hp_registered := (hp_registered h)[i := c], hp_pages := ps\<rparr>"
  have sup: "pages_of h k \<inter> set (hp_pages h) = {}" if "k < hp_count h" for k
    using that assms(1) by (auto simp: heap_ok_def class_ok_def)
  have sup': "pages_of h k \<inter> set (hp_pages h) = {}" if "k < MAX_SIZE_CLASSES" for k
    using that sup assms(1) by (cases "k < hp_count h") (auto simp: heap_ok_def)
  have other: "class_ok (hp_registered h ! k) ps" if "k < hp_count h" for k
    using that assms(1,4,5) by (auto simp: heap_ok_def class_ok_def list_all_iff)
  have new: "sl_memory ` set (sc_slabs c) \<inter> pages_of h k = {}" if "k < MAX_SIZE_CLASSES" "k \<noteq> i" for k
  proof -
    have "pages_of h i \<inter> pages_of h k = {}" using that len(3) assms(1) by (simp add: heap_ok_def)
    then show ?thesis using assms(6) sup' [OF that(1)] by blast
  qed
  have "\<forall>k < hp_count h. class_ok (hp_registered ?h ! k) ps" using other assms(3) len by (simp add: nth_list_update)
  moreover have "\<forall>k < MAX_SIZE_CLASSES. hp_count h \<le> k \<longrightarrow> sc_size (hp_registered ?h ! k) = 0 \<and> chain ?h k = []"
    using assms(1,2) len by (simp add: heap_ok_def nth_list_update)
  moreover have "\<forall>k < MAX_SIZE_CLASSES. \<forall>m < MAX_SIZE_CLASSES. k \<noteq> m \<longrightarrow> pages_of ?h k \<inter> pages_of ?h m = {}"
  proof (intro allI impI)
    fix k m assume "k < MAX_SIZE_CLASSES" "m < MAX_SIZE_CLASSES" "k \<noteq> m"
    moreover from this have "pages_of h k \<inter> pages_of h m = {}" using assms(1) by (simp add: heap_ok_def)
    ultimately show "pages_of ?h k \<inter> pages_of ?h m = {}" using len new [of k] new [of m] by (simp add: nth_list_update Int_commute)
  qed
  moreover have "list_all page_ok ps" using assms(1,5) by (auto simp: heap_ok_def list_all_iff)
  moreover have "inj_on (\<lambda>k. sc_size (hp_registered ?h ! k)) {..<hp_count h}"
  proof -
    have "sc_size (hp_registered ?h ! k) = sc_size (hp_registered h ! k)" if "k < hp_count h" for k
      using that assms(7) len by (simp add: nth_list_update)
    then show ?thesis using assms(1) by (auto simp: heap_ok_def inj_on_def)
  qed
  moreover have "hp_default ?h = hp_default (initial_heap [])" using assms(1) by (simp add: heap_ok_def)
  ultimately show ?thesis using len(1,2) assms(4) by (simp add: heap_ok_def)
qed

lemma alloc_pages: "alloc_in_class c pages = Some (p, c1, ps) \<Longrightarrow> length pages \<le> Suc (length ps)"
  by (auto simp: alloc_in_class_def kmalloc_for_size_def Let_def split: option.splits list.splits if_splits bind_splits)

lemma kmalloc_class:
  assumes "heap_ok h" "i < hp_count h" "sc_size (hp_registered h ! i) = sz"
  shows "kmalloc sz h = (case alloc_in_class (hp_registered h ! i) (hp_pages h) of None \<Rightarrow> None
    | Some (p, c, ps) \<Rightarrow> Some (p, h\<lparr>hp_registered := (hp_registered h)[i := c], hp_pages := ps\<rparr>))"
    "class_ok (hp_registered h ! i) (hp_pages h)"
proof -
  have "inj_on (\<lambda>k. sc_size (hp_registered h ! k)) {..<hp_count h}" using assms(1) by (simp add: heap_ok_def)
  then have "sc_size (hp_registered h ! k) \<noteq> sz" if "k < i" for k using that assms(2,3) by (auto simp: inj_on_def)
  then have "List.find (\<lambda>k. sc_size (hp_registered h ! k) = sz) [0..<hp_count h] = Some i"
    unfolding find_Some_iff using assms(2,3) by (intro exI [of _ i]) simp
  then show "kmalloc sz h = (case alloc_in_class (hp_registered h ! i) (hp_pages h) of None \<Rightarrow> None
    | Some (p, c, ps) \<Rightarrow> Some (p, h\<lparr>hp_registered := (hp_registered h)[i := c], hp_pages := ps\<rparr>))"
    by (simp add: kmalloc_def split: option.splits)
  show "class_ok (hp_registered h ! i) (hp_pages h)" using assms(1,2) by (simp add: heap_ok_def)
qed

lemma kmalloc_none:
  assumes "heap_ok h" "i < hp_count h" "sc_size (hp_registered h ! i) = sz" "\<not> can_serve (hp_registered h ! i) 1"
  shows "kmalloc sz h = None"
  using kmalloc_class [OF assms(1-3)] alloc_in_class_none [OF _ assms(4)] by simp

lemma kmalloc_total:
  assumes "heap_ok h" "i < hp_count h" "sc_size (hp_registered h ! i) = sz" "can_serve (hp_registered h ! i) 1" "hp_pages h \<noteq> []"
  shows "\<exists>p h1. kmalloc sz h = Some (p, h1)"
  using kmalloc_class [OF assms(1-3)] alloc_in_class_ok [OF _ assms(4)] assms(5) by fastforce

lemma kmalloc_ok:
  assumes "heap_ok h" "i < hp_count h" "sc_size (hp_registered h ! i) = sz" "kmalloc sz h = Some (p, h1)"
  shows "can_serve (hp_registered h ! i) 1 \<and> heap_ok h1 \<and> p \<notin> heap_live h \<and> heap_live h1 = insert p (heap_live h) \<and>
    hp_count h1 = hp_count h \<and> sc_size (hp_registered h1 ! i) = sz \<and>
    p \<notin> live (chain h i) \<and> live (chain h1 i) = insert p (live (chain h i)) \<and> length (hp_pages h) \<le> Suc (length (hp_pages h1))"
proof -
  note cok = kmalloc_class(2) [OF assms(1-3)]
  have len: "length (hp_registered h) = MAX_SIZE_CLASSES" "i < MAX_SIZE_CLASSES" using assms(1,2) by (auto simp: heap_ok_def)
  obtain c ps where al: "alloc_in_class (hp_registered h ! i) (hp_pages h) = Some (p, c, ps)"
    and h1: "h1 = h\<lparr>hp_registered := (hp_registered h)[i := c], hp_pages := ps\<rparr>"
    using kmalloc_class(1) [OF assms(1-3)] assms(4) by (auto split: option.splits)
  from alloc_in_class_Some [OF cok al] have
    a: "can_serve (hp_registered h ! i) 1" "class_ok c ps" "p \<notin> live (chain h i)"
    "live (sc_slabs c) = insert p (live (chain h i))" "sc_size c = sc_size (hp_registered h ! i)"
    "sl_memory ` set (sc_slabs c) \<union> set ps = pages_of h i \<union> set (hp_pages h)" by auto
  have ps: "distinct ps" "set ps \<subseteq> set (hp_pages h)" using a(2) alloc_supply [OF al] by (auto simp: class_ok_def)
  have ok: "heap_ok h1" unfolding h1 by (rule heap_ok_update [OF assms(1,2) a(2) ps a(6,5)])
  have "p \<notin> live (chain h k)" if "k < MAX_SIZE_CLASSES" "k \<noteq> i" for k
  proof -
    have "chain_ok (sc_slabs c)" "p \<in> live (sc_slabs c)" using a(2,4) by (simp_all add: class_ok_def)
    moreover have "pages_of h1 i \<inter> pages_of h1 k = {}" using ok that len(2) unfolding heap_ok_def by blast
    ultimately show ?thesis using live_apart(1) heap_chain_ok [OF assms(1) that(1)] that len by (simp add: h1)
  qed
  then have "p \<notin> heap_live h" using a(3) by (auto simp: heap_live_def)
  moreover have "heap_live h1 = insert p (heap_live h)"
    using heap_live_update [OF len(2,1)] heap_live_split [OF len(2), of h] a(4) by (simp add: h1)
  ultimately show ?thesis using ok a(1,3-5) assms(3) len alloc_pages [OF al] by (simp add: h1)
qed

lemma free_classes_at:
  assumes "heap_ok h" "m < MAX_SIZE_CLASSES" "p \<in> live (chain h m)" "free_in p (chain h m) = Some (Some sls)" "set is \<subseteq> {..<MAX_SIZE_CLASSES}"
  shows "free_classes p is h =
    (if m \<in> set is then Some (Some (h\<lparr>hp_registered := (hp_registered h)[m := (hp_registered h ! m)\<lparr>sc_slabs := sls\<rparr>]\<rparr>)) else Some None)"
  using assms(5)
proof (induction "is")
  case (Cons k "is")
  show ?case
  proof (cases "k = m")
    case False
    then have "pages_of h m \<inter> pages_of h k = {}" using assms(1,2) Cons.prems by (simp add: heap_ok_def)
    then have "free_in p (chain h k) = Some None"
      using live_apart(2) [OF heap_chain_ok [OF assms(1,2)] heap_chain_ok [OF assms(1)] _ assms(3), of k] Cons.prems by simp
    then show ?thesis using Cons False by simp
  qed (simp add: assms(4))
qed simp

lemma kfree_ok:
  assumes "heap_ok h" "p \<in> heap_live h"
  shows "\<exists>h1. kfree p h = Some h1 \<and> heap_ok h1 \<and> heap_live h1 = heap_live h - {p} \<and> hp_count h1 = hp_count h \<and> hp_pages h1 = hp_pages h"
proof -
  obtain m where m: "m < MAX_SIZE_CLASSES" "p \<in> live (chain h m)" using assms(2) by (auto simp: heap_live_def)
  then have mc: "m < hp_count h" using assms(1) by (cases "m < hp_count h") (auto simp: heap_ok_def live_def)
  have cok: "class_ok (hp_registered h ! m) (hp_pages h)" using assms(1) mc by (simp add: heap_ok_def)
  from free_in_ok [OF heap_chain_ok [OF assms(1) m(1)] m(2)] obtain sls where
    f: "free_in p (chain h m) = Some (Some sls)" "chain_ok sls" "live sls = live (chain h m) - {p}"
    "map sl_memory sls = map sl_memory (chain h m)" "map sl_object_size sls = map sl_object_size (chain h m)" by blast
  let ?c = "(hp_registered h ! m)\<lparr>sc_slabs := sls\<rparr>"
  let ?h = "h\<lparr>hp_registered := (hp_registered h)[m := ?c]\<rparr>"
  have len: "length (hp_registered h) = MAX_SIZE_CLASSES" using assms(1) by (simp add: heap_ok_def)
  have eq: "?h = h\<lparr>hp_registered := (hp_registered h)[m := ?c], hp_pages := hp_pages h\<rparr>" by simp
  obtain sl j where s: "slab_ok sl" "j < unat (sl_total_objects sl)" "p = object_at sl j"
    by (rule live_obtain [OF heap_chain_ok [OF assms(1) m(1)] m(2)])
  have nn: "p \<noteq> NULL"
  proof
    assume "p = NULL"
    then have "unat (sl_memory sl) = 0" using object_page [OF s(1,2)] s(3) by simp
    then show False using s(1) by (simp add: slab_ok_def unat_eq_zero)
  qed
  have at: "free_classes p is h = (if m \<in> set is then Some (Some ?h) else Some None)" if "set is \<subseteq> {..<MAX_SIZE_CLASSES}" for "is"
    by (rule free_classes_at [OF assms(1) m f(1) that])
  have "0 < sc_size (hp_registered h ! m)" using cok by (simp add: class_ok_def word_gt_0)
  then have k: "kfree p h = Some ?h" using nn m(1) by (simp add: kfree_def at subset_iff MAX_SIZE_CLASSES_def DEFAULT_SIZE_CLASSES_def)
  have mem: "sl_memory ` set sls = pages_of h m" using f(4) by (metis set_map)
  have "length sls = length (chain h m)" using f(4) by (rule map_eq_imp_length_eq)
  moreover have "sl_object_size sl = sc_size (hp_registered h ! m)" if "sl \<in> set sls" for sl
  proof -
    have "sl_object_size sl \<in> set (map sl_object_size (chain h m))" unfolding f(5) [symmetric] using that by simp
    then show ?thesis using cok by (auto simp: class_ok_def)
  qed
  ultimately have "class_ok ?c (hp_pages h)" using cok f(2,4) mem by (auto simp: class_ok_def)
  then have ok: "heap_ok ?h" using heap_ok_update [OF assms(1) mc, where c = ?c and ps = "hp_pages h"] mem assms(1) by (simp add: heap_ok_def)
  have "p \<notin> live (chain h k)" if "k < MAX_SIZE_CLASSES" "k \<noteq> m" for k
  proof -
    have "pages_of h m \<inter> pages_of h k = {}" using assms(1) that m(1) by (simp add: heap_ok_def)
    then show ?thesis using live_apart(1) [OF heap_chain_ok [OF assms(1) m(1)] heap_chain_ok [OF assms(1) that(1)] _ m(2)] by simp
  qed
  then have "heap_live ?h = heap_live h - {p}"
    using heap_live_update [OF m(1) len, where c = ?c and ps = "hp_pages h"] heap_live_split [OF m(1), of h] f(3) by auto
  then show ?thesis using k ok by simp
qed

lemma register_ok:
  assumes "heap_ok h" "alloc_register_object_size sz h = Some h'"
  shows "heap_ok h' \<and> heap_live h' = heap_live h \<and>
    (sz \<noteq> 0 \<and> hp_count h < MAX_SIZE_CLASSES \<longrightarrow> (\<exists>i < hp_count h'. sc_size (hp_registered h' ! i) = sz))"
proof (cases "\<exists>c \<in> set (hp_registered h). sc_size c = sz")
  case True
  then obtain i where i: "i < MAX_SIZE_CLASSES" "sc_size (hp_registered h ! i) = sz"
    using assms(1) by (auto simp: in_set_conv_nth heap_ok_def)
  then have "i < hp_count h" if "sz \<noteq> 0" using that assms(1) by (cases "i < hp_count h") (auto simp: heap_ok_def)
  moreover have "h' = h" using assms(2) True by (simp add: alloc_register_object_size_def)
  ultimately show ?thesis using i assms(1) by auto
next
  case False
  have len: "length (hp_registered h) = MAX_SIZE_CLASSES" "hp_count h \<le> MAX_SIZE_CLASSES" using assms(1) by (simp_all add: heap_ok_def)
  have pos: "sc_size (hp_registered h ! i) = 0 \<longleftrightarrow> hp_count h \<le> i" if "i < MAX_SIZE_CLASSES" for i
    using assms(1) that by (cases "i < hp_count h") (auto simp: heap_ok_def class_ok_def)
  show ?thesis
  proof (cases "hp_count h < MAX_SIZE_CLASSES")
    case full: False
    then have "List.find (\<lambda>i. sc_size (hp_registered h ! i) = 0) [0..<MAX_SIZE_CLASSES] = None" using pos len by (auto simp: find_None_iff)
    then have "h' = h" using assms(2) False by (simp add: alloc_register_object_size_def)
    then show ?thesis using full assms(1) by simp
  next
    case True
    have fi: "List.find (\<lambda>i. sc_size (hp_registered h ! i) = 0) [0..<MAX_SIZE_CLASSES] = Some (hp_count h)"
      unfolding find_Some_iff using True pos by (intro exI [of _ "hp_count h"]) auto
    have "hp_registered h ! hp_count h \<in> set (hp_registered h)" using True len(1) by simp
    then have z: "sz \<noteq> 0" using False pos [of "hp_count h"] True by auto
    obtain page ps where pages: "hp_pages h = page # ps"
      using assms(2) False fi by (cases "hp_pages h") (auto simp: alloc_register_object_size_def kmalloc_for_size_def)
    have pg: "page_ok page" "distinct (page # ps)" "list_all page_ok ps" using assms(1) pages by (simp_all add: heap_ok_def)
    from new_slab_ok [OF z pg(1)] obtain sl where s: "new_slab page sz = Some sl" "slab_ok sl" "used sl = {}" "sl_memory sl = page"
      "sl_object_size sl = sz" by blast
    let ?c = "\<lparr>sc_size = sz, sc_slabs = [sl]\<rparr>" and ?n = "hp_count h"
    let ?h = "h\<lparr>hp_registered := (hp_registered h)[?n := ?c], hp_count := ?n + 1, hp_pages := ps\<rparr>"
    have r: "h' = ?h"
      using assms(2) False fi s(1) by (simp add: alloc_register_object_size_def kmalloc_for_size_def pages)
    have sup: "pages_of h k \<inter> set (hp_pages h) = {}" if "k < MAX_SIZE_CLASSES" for k
      using that assms(1) by (cases "k < hp_count h") (auto simp: heap_ok_def class_ok_def)
    then have np: "page \<notin> pages_of h k" if "k < MAX_SIZE_CLASSES" for k using that pages by auto
    have "class_ok ?c ps" using s pg z by (auto simp: class_ok_def chain_ok_def)
    moreover have "class_ok (hp_registered h ! k) ps" if "k < ?n" for k using that assms(1) pages by (simp add: heap_ok_def class_ok_def)
    ultimately have c: "\<forall>k < ?n + 1. class_ok ((hp_registered h)[?n := ?c] ! k) ps"
      using True len by (auto simp: nth_list_update less_Suc_eq)
    have d: "\<forall>k < MAX_SIZE_CLASSES. ?n + 1 \<le> k \<longrightarrow> sc_size ((hp_registered h)[?n := ?c] ! k) = 0 \<and> sc_slabs ((hp_registered h)[?n := ?c] ! k) = []"
      using assms(1) by (auto simp: heap_ok_def)
    have e: "pages_of ?h k \<inter> pages_of ?h m = {}" if "k < MAX_SIZE_CLASSES" "m < MAX_SIZE_CLASSES" "k \<noteq> m" for k m
    proof -
      have "pages_of h k \<inter> pages_of h m = {}" using that assms(1) unfolding heap_ok_def by blast
      then show ?thesis using np [OF that(1)] np [OF that(2)] that len True s(4) by (simp add: nth_list_update)
    qed
    have "inj_on (\<lambda>k. sc_size ((hp_registered h)[?n := ?c] ! k)) {..<?n + 1}"
    proof -
      have "sc_size (hp_registered h ! k) \<noteq> sz" if "k < ?n" for k using that False len True by auto
      moreover have "inj_on (\<lambda>k. sc_size (hp_registered h ! k)) {..<?n}" using assms(1) by (simp add: heap_ok_def)
      ultimately have i: "sc_size (hp_registered h ! k) \<noteq> sz" "sc_size (hp_registered h ! k) = sc_size (hp_registered h ! m) \<Longrightarrow> k = m"
        if "k < ?n" "m < ?n" for k m using that by (auto simp: inj_on_def)
      show ?thesis
      proof (rule inj_onI)
        fix k m assume "k \<in> {..<?n + 1}" "m \<in> {..<?n + 1}"
          "sc_size ((hp_registered h)[?n := ?c] ! k) = sc_size ((hp_registered h)[?n := ?c] ! m)"
        then show "k = m" using i [of k k] i [of m m] i(2) [of k m] len True
          by (cases "k = ?n"; cases "m = ?n") auto
      qed
    qed
    moreover have "hp_default ?h = hp_default (initial_heap [])" using assms(1) by (simp add: heap_ok_def)
    ultimately have ok: "heap_ok ?h" using c d e pg(2,3) len True unfolding heap_ok_def by auto
    have "chain h ?n = []" using True assms(1) by (auto simp: heap_ok_def)
    then have "live (chain ?h k) = live (chain h k)" if "k < MAX_SIZE_CLASSES" for k
      using that len True s(3) by (auto simp: nth_list_update live_def)
    then have "heap_live ?h = heap_live h" by (auto simp: heap_live_def)
    then show ?thesis using r ok True len by (auto intro!: exI [of _ ?n])
  qed
qed

lemma initial_heap_ok:
  assumes "distinct pages" "list_all page_ok pages"
  shows "heap_ok (initial_heap pages)" "heap_live (initial_heap pages) = {}"
  using assms by (auto simp: heap_ok_def initial_heap_def heap_live_def live_def)



section \<open>The allocator contract\<close>

definition heap_alloc :: "u64 \<Rightarrow> heap \<Rightarrow> (ptr \<times> heap) option" where
  \<comment> \<open>allocation of a registered size from a well-formed heap\<close>
  "heap_alloc sz h = (if heap_ok h \<and> (\<exists>i < hp_count h. sc_size (hp_registered h ! i) = sz) then kmalloc sz h else None)"

definition heap_release :: "heap \<Rightarrow> ptr \<Rightarrow> heap option" where
  "heap_release h p = (if heap_ok h \<and> p \<in> heap_live h then kfree p h else None)"

interpretation kheap: frame_allocator heap_live "heap_alloc sz" heap_release for sz
proof unfold_locales
  fix s f s'
  assume a: "heap_alloc sz s = Some (f, s')"
  then obtain i where i: "heap_ok s" "i < hp_count s" "sc_size (hp_registered s ! i) = sz" "kmalloc sz s = Some (f, s')"
    by (auto simp: heap_alloc_def split: if_splits)
  then show "f \<notin> heap_live s \<and> heap_live s' = insert f (heap_live s)" using kmalloc_ok [OF i] by auto
next
  fix s f s'
  assume r: "heap_release s f = Some s'"
  then have "heap_ok s" "f \<in> heap_live s" "kfree f s = Some s'" by (auto simp: heap_release_def split: if_splits)
  then show "heap_live s' = heap_live s - {f}" using kfree_ok by fastforce
qed

fun kmalloc_many :: "u64 \<Rightarrow> nat \<Rightarrow> heap \<Rightarrow> (ptr list \<times> heap) option" where
  \<comment> \<open>a caller's loop of \<^verbatim>\<open>kmalloc\<close>\<close>
  "kmalloc_many sz 0 h = Some ([], h)"
| "kmalloc_many sz (Suc n) h = do { (p, h1) \<leftarrow> kmalloc sz h; (ps, h2) \<leftarrow> kmalloc_many sz n h1; Some (p # ps, h2) }"

lemma finite_live: "chain_ok sls \<Longrightarrow> finite (live sls)"
  using finite_used by (auto simp: live_def chain_ok_def list_all_iff)

lemma can_serve_mono: "can_serve c k \<Longrightarrow> n \<le> k \<Longrightarrow> can_serve c n"
  by (auto simp: can_serve_def)

lemma can_serve_step:
  assumes "heap_ok h" "i < hp_count h" "sc_size (hp_registered h ! i) = sz" "kmalloc sz h = Some (p, h1)"
  shows "can_serve (hp_registered h1 ! i) k \<longleftrightarrow> can_serve (hp_registered h ! i) (Suc k)"
proof -
  note k = kmalloc_ok [OF assms]
  have "finite (live (chain h i))" using assms(1,2) by (intro finite_live) (auto simp: heap_ok_def class_ok_def)
  then have "card (live (chain h1 i)) = Suc (card (live (chain h i)))" using k by simp
  moreover have "can_serve (hp_registered h ! i) 1" using k by simp
  ultimately show ?thesis using k assms(3) by (auto simp: can_serve_def)
qed

lemma kmalloc_many_eq:
  assumes "heap_ok h" "i < hp_count h" "sc_size (hp_registered h ! i) = sz" "n \<le> length (hp_pages h)" "can_serve (hp_registered h ! i) n"
  shows "\<exists>ps h1. kmalloc_many sz n h = Some (ps, h1) \<and> kheap.alloc_many sz n h = Some (ps, h1) \<and> heap_ok h1"
  using assms
proof (induction n arbitrary: h)
  case (Suc n)
  have "hp_pages h \<noteq> []" using Suc.prems(4) by auto
  from kmalloc_total [OF Suc.prems(1-3) can_serve_mono [OF Suc.prems(5)] this] obtain p h1 where k: "kmalloc sz h = Some (p, h1)" by auto
  note ok = kmalloc_ok [OF Suc.prems(1-3) k]
  have "heap_alloc sz h = Some (p, h1)" using k Suc.prems by (auto simp: heap_alloc_def)
  moreover have "n \<le> length (hp_pages h1)" "i < hp_count h1" "sc_size (hp_registered h1 ! i) = sz" "heap_ok h1"
    using ok Suc.prems(2,4) by simp_all
  moreover have "can_serve (hp_registered h1 ! i) n" using can_serve_step [OF Suc.prems(1-3) k] Suc.prems(5) by simp
  ultimately show ?case using Suc.IH [of h1] k by fastforce
qed simp

lemma kmalloc_many_none:
  assumes "heap_ok h" "i < hp_count h" "sc_size (hp_registered h ! i) = sz" "\<not> can_serve (hp_registered h ! i) n"
  shows "kmalloc_many sz n h = None"
  using assms
proof (induction n arbitrary: h)
  case 0
  then show ?case by (simp add: can_serve_def)
next
  case (Suc n)
  show ?case
  proof (cases "kmalloc sz h")
    case (Some r)
    obtain p h1 where r: "r = (p, h1)" by (cases r)
    have k: "kmalloc sz h = Some (p, h1)" using Some r by simp
    note ok = kmalloc_ok [OF Suc.prems(1-3) k]
    have "\<not> can_serve (hp_registered h1 ! i) n" using can_serve_step [OF Suc.prems(1-3) k] Suc.prems(4) by simp
    then have "kmalloc_many sz n h1 = None" using Suc.IH [of h1] ok Suc.prems(2) by simp
    then show ?thesis using k by simp
  qed simp
qed

text \<open>
  \<^verbatim>\<open>kmalloc\<close> of a size that is not registered never allocates: below 4096 bytes it returns \<^verbatim>\<open>NULL\<close>, since the loop stops at
  the first larger default class and the next test refuses exactly that; from 4096 on it reads one past the default classes.
\<close>

theorem kmalloc_unregistered:
  assumes "hp_default h = hp_default (initial_heap [])" "\<forall>i < hp_count h. sc_size (hp_registered h ! i) \<noteq> sz"
  shows "kmalloc sz h = (if sz < 4096 then Some (NULL, h) else None)"
proof -
  have f: "List.find (\<lambda>i. sc_size (hp_registered h ! i) = sz) [0..<hp_count h] = None" using assms(2) by (auto simp: find_None_iff)
  let ?d = "hp_default h" and ?n = "length (takeWhile (\<lambda>c. \<not> sc_size c > sz) (hp_default h))"
  have len: "length ?d = DEFAULT_SIZE_CLASSES" by (simp add: assms(1) initial_heap_def DEFAULT_SIZE_CLASSES_def)
  show ?thesis
  proof (cases "sz < 4096")
    case True
    then have "\<exists>c \<in> set ?d. sc_size c > sz" by (simp add: assms(1) initial_heap_def)
    then have n: "?n < DEFAULT_SIZE_CLASSES" using len
      by (metis (no_types, lifting) le_neq_implies_less length_takeWhile_le takeWhile_eq_all_conv takeWhile_eq_take take_all_iff)
    then have "sc_size (?d ! ?n) > sz" using nth_length_takeWhile [of "\<lambda>c. \<not> sc_size c > sz" ?d] len by simp
    then show ?thesis using True n f by (simp add: kmalloc_def Let_def not_le)
  next
    case False
    then have "4096 \<le> unat sz" by (simp add: word_less_nat_alt)
    then have "\<forall>c \<in> set ?d. \<not> sc_size c > sz" by (auto simp: assms(1) initial_heap_def word_less_nat_alt)
    then have "takeWhile (\<lambda>c. \<not> sc_size c > sz) ?d = ?d" by (simp add: takeWhile_eq_all_conv)
    then have "?n = DEFAULT_SIZE_CLASSES" using len by metis
    then show ?thesis using False f by (simp add: kmalloc_def)
  qed
qed

theorem kmalloc_unregistered_witness: "kmalloc 100 (initial_heap [4096]) = Some (NULL, initial_heap [4096])"
  using kmalloc_unregistered [of "initial_heap [4096]" 100] by (simp add: initial_heap_def)

inductive heap_reach :: "ptr list \<Rightarrow> heap \<Rightarrow> bool" for pages where
  \<comment> \<open>registration and allocation of any size; \<open>pages\<close> are the pages that \<^verbatim>\<open>sbrk\<close> will return\<close>
  reach_initial: "heap_reach pages (initial_heap pages)"
| reach_register: "heap_reach pages h \<Longrightarrow> alloc_register_object_size sz h = Some h1 \<Longrightarrow> heap_reach pages h1"
| reach_kmalloc: "heap_reach pages h \<Longrightarrow> kmalloc sz h = Some (p, h1) \<Longrightarrow> heap_reach pages h1"
| reach_kfree: "heap_reach pages h \<Longrightarrow> p = NULL \<or> p \<in> heap_live h \<Longrightarrow> kfree p h = Some h1 \<Longrightarrow> heap_reach pages h1"

lemma sample_heap:
  \<comment> \<open>a heap with one registered size, for the witnesses: 24 bytes, as of \<^verbatim>\<open>list_entry_t\<close>\<close>
  obtains h where "alloc_register_object_size 24 (initial_heap [4096, 8192, 12288]) = Some h" "heap_ok h" "heap_live h = {}"
    "hp_count h = 1" "sc_size (hp_registered h ! 0) = 24" "length (hp_pages h) = 2" "live (chain h 0) = {}"
proof -
  let ?h = "initial_heap [4096, 8192, 12288]"
  have h: "heap_ok ?h" "heap_live ?h = {}" by (rule initial_heap_ok; simp)+
  let ?s = "\<lparr>sl_memory = 4096, sl_object_size = 24, sl_total_objects = 170, sl_free_objects = 170, sl_bitmap = [0, 0, 0]\<rparr>"
  let ?h1 = "?h\<lparr>hp_registered := (hp_registered ?h)[0 := \<lparr>sc_size = 24, sc_slabs = [?s]\<rparr>], hp_count := 1, hp_pages := [8192, 12288]\<rparr>"
  have n: "new_slab 4096 24 = Some ?s" by (simp add: new_slab_def numeral_3_eq_3)
  have l: "0 < MAX_SIZE_CLASSES" by (simp add: MAX_SIZE_CLASSES_def)
  then have u: "[0..<MAX_SIZE_CLASSES] = 0 # [1..<MAX_SIZE_CLASSES]" by (simp add: upt_conv_Cons)
  then have r: "alloc_register_object_size 24 ?h = Some ?h1"
    using l by (simp add: alloc_register_object_size_def initial_heap_def kmalloc_for_size_def n)
  have ok: "heap_ok ?h1" "heap_live ?h1 = {}" using register_ok [OF h(1) r] h(2) by auto
  have "chain ?h1 0 = [?s]" "sc_size (hp_registered ?h1 ! 0) = 24" using l by (simp_all add: initial_heap_def)
  moreover have "live (chain ?h1 0) = {}" using ok(2) l unfolding heap_live_def by blast
  ultimately show ?thesis using that [of ?h1] ok r by simp
qed

lemma sample_room: "objects_per_page 24 = 170"
  by (simp add: objects_per_page_def)

section \<open>Properties\<close>

text \<open>C28. Every heap that registration, \<^verbatim>\<open>kmalloc\<close> and \<^verbatim>\<open>kfree\<close> reach is well formed, for objects of every size: each slab's
  free count agrees with the bits set in its bitmap, only bits of objects and below 31 are set, the bitmap is empty exactly
  when a page holds fewer than 8 objects, every registered size has one class, and no page belongs to two slabs or to a slab and the supply. The
  pages that \<^verbatim>\<open>sbrk\<close> returns are a supply of distinct pages, and \<^verbatim>\<open>kfree\<close> is only called for \<^verbatim>\<open>NULL\<close> and objects in use.\<close>

theorem heap_reach_ok:
  assumes "heap_reach pages h" "distinct pages" "list_all (\<lambda>p. unat p mod 4096 = 0 \<and> p \<noteq> NULL \<and> unat p + 4096 < 2 ^ 64) pages"
  shows "heap_ok h"
  using assms
proof (induction rule: heap_reach.induct)
  case reach_initial
  then show ?case by (rule initial_heap_ok(1))
next
  case (reach_register h sz h1)
  then show ?case using register_ok [of h sz h1] by blast
next
  case (reach_kmalloc h sz p h1)
  then have ok: "heap_ok h" by blast
  show ?case
  proof (cases "\<exists>i < hp_count h. sc_size (hp_registered h ! i) = sz")
    case True
    then show ?thesis using kmalloc_ok [OF ok] reach_kmalloc.hyps(2) by blast
  next
    case False
    then have "kmalloc sz h = (if sz < 4096 then Some (NULL, h) else None)"
      using ok by (intro kmalloc_unregistered) (auto simp: heap_ok_def)
    then show ?thesis using ok reach_kmalloc.hyps(2) by (simp split: if_splits)
  qed
next
  case (reach_kfree h p h1)
  then have ok: "heap_ok h" by blast
  show ?case
  proof (cases "p = NULL")
    case True
    then show ?thesis using ok reach_kfree.hyps(3) by (simp add: kfree_def)
  next
    case False
    then show ?thesis using kfree_ok [OF ok, of p] reach_kfree.hyps(2,3) by auto
  qed
qed

theorem heap_reach_ok_witness:
  "\<exists>h p h1 h2. alloc_register_object_size 24 (initial_heap [4096, 8192, 12288]) = Some h \<and> kmalloc 24 h = Some (p, h1) \<and>
    kfree p h1 = Some h2 \<and> heap_ok h \<and> heap_ok h1 \<and> heap_ok h2"
proof -
  let ?ps = "[4096, 8192, 12288 :: ptr]"
  obtain h where h: "alloc_register_object_size 24 (initial_heap ?ps) = Some h" "heap_ok h" "hp_count h = 1"
    "sc_size (hp_registered h ! 0) = 24" "length (hp_pages h) = 2" "live (chain h 0) = {}" by (rule sample_heap)
  have i: "0 < hp_count h" "hp_pages h \<noteq> []" "can_serve (hp_registered h ! 0) 1" using h(3-6) sample_room by (auto simp: can_serve_def)
  obtain p h1 where k: "kmalloc 24 h = Some (p, h1)" using kmalloc_total [OF h(2) i(1) h(4) i(3,2)] by blast
  have p: "heap_ok h1" "p \<in> heap_live h1" using kmalloc_ok [OF h(2) i(1) h(4) k] by auto
  obtain h2 where f: "kfree p h1 = Some h2" using kfree_ok [OF p] by blast
  have r: "heap_reach ?ps h" by (rule reach_register [OF reach_initial h(1)])
  have r1: "heap_reach ?ps h1" by (rule reach_kmalloc [OF r k])
  have r2: "heap_reach ?ps h2" by (rule reach_kfree [OF r1 disjI2 [OF p(2)] f])
  have "distinct ?ps" "list_all page_ok ?ps" by simp_all
  then have "heap_ok h" "heap_ok h1" "heap_ok h2" using heap_reach_ok [OF r] heap_reach_ok [OF r1] heap_reach_ok [OF r2] by blast+
  then show ?thesis using h(1) k f by blast
qed

text \<open>C29. What a class can serve, for objects of every size: on a well-formed heap with enough pages left, \<open>n\<close> calls of \<^verbatim>\<open>kmalloc\<close> for a
  registered size all succeed, with distinct objects none of which was in use and exactly these added to the objects in use, when a page holds
  8 to 31 objects of that size, or when it holds more and at most 31 are in use afterwards; in every other case a call is a fault: with fewer than 8
  objects to a page the bitmap has no bytes, and from bit 31 on \<^verbatim>\<open>1 << bit\<close> is a shift of an \<^verbatim>\<open>int\<close>. The number of
  objects is the \<^verbatim>\<open>uint8_t\<close> \<^verbatim>\<open>perPage\<close>, so 16 bytes, of which 256 fit, count as none.\<close>

theorem kmalloc_many_distinct:
  assumes "heap_ok h" "i < hp_count h" "sc_size (hp_registered h ! i) = sz" "n \<le> length (hp_pages h)"
  shows "if n = 0 \<or> 8 \<le> objects_per_page sz \<and> (objects_per_page sz \<le> 31 \<or> card (live (sc_slabs (hp_registered h ! i))) + n \<le> 31)
    then \<exists>ps h1. kmalloc_many sz n h = Some (ps, h1) \<and> length ps = n \<and> distinct ps \<and> set ps \<inter> heap_live h = {} \<and>
      heap_live h1 = heap_live h \<union> set ps
    else kmalloc_many sz n h = None"
proof (cases "can_serve (hp_registered h ! i) n")
  case True
  then show ?thesis using kmalloc_many_eq [OF assms True] kheap.alloc_many_distinct assms(3) by (simp add: can_serve_def) blast
next
  case False
  then show ?thesis using kmalloc_many_none [OF assms(1-3) False] assms(3) by (simp add: can_serve_def)
qed

theorem kmalloc_many_distinct_witness:
  "\<exists>h ps h1. alloc_register_object_size 24 (initial_heap [4096, 8192, 12288]) = Some h \<and>
    kmalloc_many 24 2 h = Some (ps, h1) \<and> length ps = 2 \<and> distinct ps \<and> heap_live h1 = set ps"
proof -
  obtain h where h: "alloc_register_object_size 24 (initial_heap [4096, 8192, 12288]) = Some h" "heap_ok h" "heap_live h = {}"
    "hp_count h = 1" "sc_size (hp_registered h ! 0) = 24" "length (hp_pages h) = 2" "live (chain h 0) = {}" by (rule sample_heap)
  have "0 < hp_count h" using h(4) by simp
  from kmalloc_many_distinct [OF h(2) this h(5), of 2] h show ?thesis by (auto simp: sample_room)
qed

text \<open>C30. \<^verbatim>\<open>kfree\<close> undoes \<^verbatim>\<open>kmalloc\<close>: for a registered size of which a page holds 8 to 31 objects, or more with fewer than 31 in use
  (in the other cases \<^verbatim>\<open>kmalloc\<close> is a fault, see \<open>kmalloc_many_distinct\<close>), \<^verbatim>\<open>kmalloc\<close> returns a fresh object, \<^verbatim>\<open>kfree\<close> finds it by
  its address alone, in whichever size class it is, and afterwards exactly the objects that were in use before are in use again, in
  a well-formed heap.\<close>

theorem kmalloc_kfree_roundtrip:
  assumes "heap_ok h" "i < hp_count h" "sc_size (hp_registered h ! i) = sz" "hp_pages h \<noteq> []"
    "8 \<le> objects_per_page sz" "objects_per_page sz \<le> 31 \<or> card (live (sc_slabs (hp_registered h ! i))) < 31"
  shows "\<exists>p h1 h2. kmalloc sz h = Some (p, h1) \<and> p \<notin> heap_live h \<and> heap_live h1 = insert p (heap_live h) \<and>
    kfree p h1 = Some h2 \<and> heap_ok h2 \<and> heap_live h2 = heap_live h"
proof -
  have "can_serve (hp_registered h ! i) 1" using assms(3,5,6) by (auto simp: can_serve_def)
  from kmalloc_total [OF assms(1-3) this assms(4)] obtain p h1 where k: "kmalloc sz h = Some (p, h1)" by blast
  from kmalloc_ok [OF assms(1-3) k] have "heap_ok h1" "p \<notin> heap_live h" "heap_live h1 = insert p (heap_live h)" by auto
  with kfree_ok [of h1 p] k show ?thesis by auto
qed

theorem kmalloc_kfree_roundtrip_witness:
  "\<exists>h p h1 h2. alloc_register_object_size 24 (initial_heap [4096, 8192, 12288]) = Some h \<and>
    kmalloc 24 h = Some (p, h1) \<and> heap_live h1 = {p} \<and> kfree p h1 = Some h2 \<and> heap_live h2 = {}"
proof -
  obtain h where h: "alloc_register_object_size 24 (initial_heap [4096, 8192, 12288]) = Some h" "heap_ok h" "heap_live h = {}"
    "hp_count h = 1" "sc_size (hp_registered h ! 0) = 24" "length (hp_pages h) = 2" "live (chain h 0) = {}" by (rule sample_heap)
  have "0 < hp_count h" "hp_pages h \<noteq> []" using h(4,6) by auto
  from kmalloc_kfree_roundtrip [OF h(2) this(1) h(5) this(2)] h show ?thesis by (auto simp: sample_room)
qed

end
