(* ===== verification/Syscall.thy ===== *)
theory Syscall
  imports Signals Ramfs Format Hashtable
begin

text \<open>
  The system calls of \<^verbatim>\<open>kernel/sys/syscall.c\<close>, over the processes, the file system, the memory manager, the signals and the futex table. The
  memory of the calling process is a map of bytes; the structures of the C library (\<^verbatim>\<open>struct stat\<close>, \<^verbatim>\<open>struct iovec\<close> and so on) are read and
  written there by functions of the record \<open>sys_abi\<close>, which also has the library's constants.

  A call gives its return value, or \<open>Switched\<close> when it has called \<^verbatim>\<open>schedule\<close>: then another process runs, and the function with the suffix
  \<open>_resume\<close> is what is left of the call. An access outside the array of handles, which the code does not exclude, is a fault. Loops that call
  \<^verbatim>\<open>schedule\<close> are modelled round by round.
\<close>

section \<open>State\<close>

record stat_t =
  st_mode :: int
  st_blksize :: int
  st_size :: u64
  st_blocks :: u64

record sys_abi =
  sa_fs :: fs_abi
  sa_sig :: signal_abi
  EFAULT :: int
  ENOSYS :: int
  EAGAIN :: int
  ESPIPE :: int
  ERANGE :: int
  ENOTTY :: int
  ENOSPC :: int
  ERESTART :: int
  EINTR :: int
  SIGCONT :: int
  SA_RESTART :: u32
  S_IFDIR :: int
  S_IFREG :: int
  S_IFCHR :: int
  S_IFBLK :: int
  S_IFIFO :: int
  S_IFSOCK :: int
  S_IRWXU_IRWXG :: int
  F_OK :: int
  R_OK :: int
  W_OK :: int
  X_OK :: int
  S_USR :: "u64 \<times> u64 \<times> u64"     \<comment> \<open>\<^verbatim>\<open>S_IRUSR, S_IWUSR, S_IXUSR\<close>\<close>
  S_GRP :: "u64 \<times> u64 \<times> u64"
  S_OTH :: "u64 \<times> u64 \<times> u64"
  SEEK_SET :: int
  SEEK_CUR :: int
  SEEK_END :: int
  WNOHANG :: int
  POLLIN_POLLOUT :: int
  POLLNVAL :: int
  sizeof_pollfd :: u64
  stat_store :: "stat_t \<Rightarrow> ptr \<Rightarrow> mem \<Rightarrow> mem option"
  iovec_load :: "mem \<Rightarrow> ptr \<Rightarrow> nat \<Rightarrow> (ptr \<times> u64) option"
  timespec_load :: "mem \<Rightarrow> ptr \<Rightarrow> (int \<times> int) option"
  sigaction_load :: "mem \<Rightarrow> ptr \<Rightarrow> signal_handler_t option"
  sigaction_store :: "signal_handler_t \<Rightarrow> ptr \<Rightarrow> mem \<Rightarrow> mem option"
  sigset_load :: "mem \<Rightarrow> ptr \<Rightarrow> sigset_t option"
  sigset_store :: "sigset_t \<Rightarrow> ptr \<Rightarrow> mem \<Rightarrow> mem option"
  pollfd_load :: "mem \<Rightarrow> ptr \<Rightarrow> nat \<Rightarrow> (int \<times> int) option"     \<comment> \<open>\<^verbatim>\<open>fd\<close> and \<^verbatim>\<open>events\<close>\<close>
  pollfd_revents :: "mem \<Rightarrow> ptr \<Rightarrow> nat \<Rightarrow> int option"
  pollfd_store :: "int \<Rightarrow> ptr \<Rightarrow> nat \<Rightarrow> mem \<Rightarrow> mem option"    \<comment> \<open>\<^verbatim>\<open>revents\<close>\<close>

record 'd sysstate =
  sy_m :: machine
  sy_v :: "'d vfs"
  sy_mem :: mem
  sy_futex :: hashtable
  sy_futex_lock :: bool
  sy_syscall :: "ptr \<Rightarrow> u64"      \<comment> \<open>the field \<^verbatim>\<open>syscall\<close> of each process\<close>

datatype 'd outcome = Ret int "'d sysstate" | Switched "'d sysstate"

record fork_blocks =
  fb_process :: ptr
  fb_mm :: ptr
  fb_fdt :: ptr
  fb_node :: ptr
  fb_local :: ptr
  fb_kstack :: u64
  fb_fork_exit :: u64

record 'd sysenv =
  e_abi :: sys_abi
  e_dr :: "'d driver"
  e_ioctl :: "string \<Rightarrow> ptr \<Rightarrow> u64 \<Rightarrow> u64 \<Rightarrow> 'd sysstate \<Rightarrow> (int \<times> 'd sysstate) option"
  e_execve :: "bytes \<Rightarrow> u64 \<Rightarrow> u64 \<Rightarrow> 'd sysstate \<Rightarrow> 'd outcome option"
  e_local :: u64                \<comment> \<open>the address of the local signal set of \<^verbatim>\<open>sys_ppoll\<close>\<close>
  e_r9 :: int                   \<comment> \<open>what the register of the sixth argument holds\<close>
  e_regs :: regs_t              \<comment> \<open>the unassigned variable of \<^verbatim>\<open>process_signal_return\<close>\<close>
  e_link :: "string \<Rightarrow> ptr \<Rightarrow> bytes \<Rightarrow> 'd vfs \<Rightarrow> (int \<times> 'd vfs) option"
  e_k :: nat                    \<comment> \<open>fuel of the path functions\<close>
  e_n :: nat                    \<comment> \<open>bound of the depth of the trees\<close>
  e_junk :: u8                  \<comment> \<open>what a byte holds that was never written\<close>
  e_blocks :: fork_blocks       \<comment> \<open>the blocks that \<^verbatim>\<open>calloc\<close> returns for a new process\<close>

definition krn :: "'d sysstate \<Rightarrow> kstate" where
  "krn y = mk (sy_m y)"

definition set_krn :: "kstate \<Rightarrow> 'd sysstate \<Rightarrow> 'd sysstate" where
  "set_krn s y = y\<lparr>sy_m := (sy_m y)\<lparr>mk := s\<rparr>\<rparr>"

definition current :: "'d sysstate \<Rightarrow> process_t option" where
  "current y = at (procs (krn y)) (current_process (krn y))"

definition check_ptr :: "'d sysstate \<Rightarrow> u64 \<Rightarrow> bool" where
  "check_ptr y p = CHECK_PTR p (memory (sy_m y))"

definition ustring :: "mem \<Rightarrow> ptr \<Rightarrow> bytes option" where
  \<comment> \<open>the string at an address\<close>
  "ustring m p = do { len \<leftarrow> strlen m p; load m p (unat len) }"

fun store_bytes :: "mem \<Rightarrow> ptr \<Rightarrow> bytes \<Rightarrow> mem option" where
  "store_bytes m p [] = Some m"
| "store_bytes m p (b # bs) = do { m1 \<leftarrow> wrb m p b; store_bytes m1 (p + 1) bs }"

definition filled :: "u8 \<Rightarrow> u8 option list \<Rightarrow> bytes" where
  "filled junk bs = map (\<lambda>b. case b of None \<Rightarrow> junk | Some x \<Rightarrow> x) bs"

definition with_vfs :: "('d vfs \<Rightarrow> ('a \<times> 'd vfs) option) \<Rightarrow> 'd sysstate \<Rightarrow> ('a \<times> 'd sysstate) option" where
  \<comment> \<open>a call into the VFS, which reads and sets \<^verbatim>\<open>cwd\<close> and \<^verbatim>\<open>cwd_file\<close> of the current process\<close>
  "with_vfs f y = do {
     x \<leftarrow> current y;
     (r, v) \<leftarrow> f ((sy_v y)\<lparr>v_has_process := True, v_cwd := p_cwd x, v_cwd_file := p_cwd_file x\<rparr>);
     s \<leftarrow> upd_proc (current_process (krn y)) (\<lambda>x. x\<lparr>p_cwd := v_cwd v, p_cwd_file := v_cwd_file v\<rparr>) (krn y);
     Some (r, (set_krn s y)\<lparr>sy_v := v\<rparr>)
   }"

section \<open>Descriptors\<close>

datatype fd_result = Beyond | Closed | Opened file_handle_t

definition fd_table_now :: "'d sysstate \<Rightarrow> fd_table_t option" where
  "fd_table_now y = do { x \<leftarrow> current y; at (fd_tables (krn y)) (p_fd_table x) }"

definition handle_at :: "fd_table_t \<Rightarrow> int \<Rightarrow> file_handle_t option option" where
  \<comment> \<open>\<^verbatim>\<open>fd_table->handles[fd]\<close>\<close>
  "handle_at t fd = (if 0 \<le> fd \<and> fd < int (length (fd_handles t)) then Some (fd_handles t ! nat fd) else None)"

definition fd_lookup :: "int \<Rightarrow> 'd sysstate \<Rightarrow> fd_result option" where
  \<comment> \<open>\<^verbatim>\<open>if(fd > proc->fd_table->capacity) ...; handle = proc->fd_table->handles[fd]; if(handle == NULL) ...\<close>\<close>
  "fd_lookup fd y = do {
     t \<leftarrow> fd_table_now y;
     if fd > fd_capacity t then Some Beyond
     else do { h \<leftarrow> handle_at t fd; Some (case h of None \<Rightarrow> Closed | Some x \<Rightarrow> Opened x) }
   }"

definition set_handle :: "int \<Rightarrow> file_handle_t \<Rightarrow> 'd sysstate \<Rightarrow> 'd sysstate option" where
  "set_handle fd h y = do {
     x \<leftarrow> current y;
     t \<leftarrow> fd_table_now y;
     Some (set_krn ((krn y)\<lparr>fd_tables := (fd_tables (krn y))(p_fd_table x \<mapsto> t\<lparr>fd_handles := (fd_handles t)[nat fd := Some h]\<rparr>)\<rparr>) y)
   }"

definition do_read :: "'d sysenv \<Rightarrow> int \<Rightarrow> file_handle_t \<Rightarrow> u64 \<Rightarrow> u64 \<Rightarrow> 'd sysstate \<Rightarrow> (int \<times> 'd sysstate) option" where
  \<comment> \<open>\<^verbatim>\<open>readBytes = read(handle, buffer, size); handle->offset += readBytes\<close>\<close>
  "do_read e fd h buffer sz y = do {
     ((r, bs), y1) \<leftarrow> with_vfs (\<lambda>v. do { (r, bs, v1) \<leftarrow> read_handle (e_dr e) h sz v; Some ((r, bs), v1) }) y;
     m \<leftarrow> store_bytes (sy_mem y1) buffer (filled (e_junk e) bs);
     y2 \<leftarrow> set_handle fd (h\<lparr>fh_offset := fh_offset h + to_size r\<rparr>) (y1\<lparr>sy_mem := m\<rparr>);
     Some (r, y2)
   }"

definition do_write :: "'d sysenv \<Rightarrow> int \<Rightarrow> file_handle_t \<Rightarrow> u64 \<Rightarrow> u64 \<Rightarrow> 'd sysstate \<Rightarrow> (int \<times> 'd sysstate) option" where
  \<comment> \<open>\<^verbatim>\<open>written = write(handle, buffer, size); handle->offset += written\<close>\<close>
  "do_write e fd h buffer sz y = do {
     data \<leftarrow> load (sy_mem y) buffer (unat sz);
     ((r, h1), y1) \<leftarrow> with_vfs (\<lambda>v. do { (r, h1, v1) \<leftarrow> write_handle (e_dr e) h data v; Some ((r, h1), v1) }) y;
     y2 \<leftarrow> set_handle fd (h1\<lparr>fh_offset := fh_offset h1 + to_size r\<rparr>) y1;
     Some (r, y2)
   }"

definition sys_read :: "'d sysenv \<Rightarrow> int \<Rightarrow> u64 \<Rightarrow> u64 \<Rightarrow> 'd sysstate \<Rightarrow> 'd outcome option" where
  \<comment> \<open>the handle is read in front of the test of the descriptor\<close>
  "sys_read e fd buffer sz y = do {
     t \<leftarrow> fd_table_now y;
     h \<leftarrow> handle_at t fd;
     if fd > fd_capacity t then Some (Ret (-1) y)
     else case h of None \<Rightarrow> Some (Ret (-1) y)
     | Some handle \<Rightarrow>
         if \<not> check_ptr y buffer then Some (Ret (-1) y)
         else do { (r, y1) \<leftarrow> do_read e fd handle buffer sz y; Some (Ret r y1) }
   }"

definition sys_write :: "'d sysenv \<Rightarrow> int \<Rightarrow> u64 \<Rightarrow> u64 \<Rightarrow> 'd sysstate \<Rightarrow> 'd outcome option" where
  "sys_write e fd buffer sz y = do {
     r \<leftarrow> fd_lookup fd y;
     case r of
       Opened handle \<Rightarrow>
         (if \<not> check_ptr y buffer then Some (Ret (-1) y)
          else do { (k, y1) \<leftarrow> do_write e fd handle buffer sz y; Some (Ret k y1) })
     | _ \<Rightarrow> Some (Ret (-1) y)
   }"

definition open_at :: "'d sysenv \<Rightarrow> bytes \<Rightarrow> int \<Rightarrow> 'd sysstate \<Rightarrow> (ptr \<times> 'd sysstate) option" where
  "open_at e path mode y = with_vfs (open_path (e_k e) (e_dr e) (e_n e) path mode) y"

definition sys_open :: "'d sysenv \<Rightarrow> u64 \<Rightarrow> int \<Rightarrow> 'd sysstate \<Rightarrow> 'd outcome option" where
  "sys_open e p mode y = do {
     name \<leftarrow> ustring (sy_mem y) p;
     if wrap_int (int (length name)) > 4096 then Some (Ret (- EFAULT (e_abi e)) y)
     else do {
       (node, y1) \<leftarrow> open_at e name (wrap_int mode) y;
       if node = NULL then Some (Ret (- ENOENT (sa_fs (e_abi e))) y1)
       else do { (fd, s) \<leftarrow> process_open_fd node (wrap_int mode) (krn y1); Some (Ret fd (set_krn s y1)) }
     }
   }"

definition sys_close :: "int \<Rightarrow> 'd sysstate \<Rightarrow> 'd outcome option" where
  "sys_close fd y = do { m \<leftarrow> process_close_fd (wrap_int fd) (sy_m y); Some (Ret 0 (y\<lparr>sy_m := m\<rparr>)) }"

definition sys_create :: "'d sysenv \<Rightarrow> u64 \<Rightarrow> 'd sysstate \<Rightarrow> 'd outcome option" where
  "sys_create e p y = sys_open e p (O_CREAT OR O_WRONLY OR O_TRUNC) y"

section \<open>File status\<close>

definition node_stat :: "sys_abi \<Rightarrow> file_node_t \<Rightarrow> stat_t" where
  \<comment> \<open>the fields that the three calls fill in; the others are zero\<close>
  "node_stat a f =
     (let m = (if fn_type f = FILE_TYPE_MOUNT_POINT \<or> fn_type f = FILE_TYPE_DIR then S_IFDIR a
               else if fn_type f = FILE_TYPE_FILE then S_IFREG a
               else if fn_type f = FILE_TYPE_VIRTUAL_DEVICE then S_IFCHR a
               else if fn_type f = FILE_TYPE_BLOCK_DEVICE then S_IFBLK a
               else if fn_type f = FILE_TYPE_NAMED_PIPE then S_IFIFO a
               else if fn_type f = FILE_TYPE_SOCKET then S_IFSOCK a
               else S_IFREG a)
      in \<lparr>st_mode = m OR S_IRWXU_IRWXG a, st_blksize = 512, st_size = fn_size f, st_blocks = fn_size f div 512\<rparr>)"

definition put_stat :: "'d sysenv \<Rightarrow> ptr \<Rightarrow> u64 \<Rightarrow> 'd sysstate \<Rightarrow> 'd outcome option" where
  "put_stat e node statbuf y = do {
     f \<leftarrow> at (v_nodes (sy_v y)) node;
     m \<leftarrow> stat_store (e_abi e) (node_stat (e_abi e) f) statbuf (sy_mem y);
     Some (Ret 0 (y\<lparr>sy_mem := m\<rparr>))
   }"

definition sys_stat :: "'d sysenv \<Rightarrow> u64 \<Rightarrow> u64 \<Rightarrow> 'd sysstate \<Rightarrow> 'd outcome option" where
  "sys_stat e path statbuf y =
     (if \<not> check_ptr y path \<or> \<not> check_ptr y statbuf then Some (Ret (- EINVAL (sa_fs (e_abi e))) y)
      else do {
        name \<leftarrow> ustring (sy_mem y) path;
        (node, y1) \<leftarrow> open_at e name 0 y;
        if node = NULL then Some (Ret (- ENOENT (sa_fs (e_abi e))) y1) else put_stat e node statbuf y1
      })"

definition sys_lstat :: "'d sysenv \<Rightarrow> u64 \<Rightarrow> u64 \<Rightarrow> 'd sysstate \<Rightarrow> 'd outcome option" where
  \<comment> \<open>the same text as \<^verbatim>\<open>sys_stat\<close>\<close>
  "sys_lstat e path statbuf y = sys_stat e path statbuf y"

definition sys_fstat :: "'d sysenv \<Rightarrow> int \<Rightarrow> u64 \<Rightarrow> 'd sysstate \<Rightarrow> 'd outcome option" where
  "sys_fstat e fd statbuf y =
     (if \<not> check_ptr y statbuf then Some (Ret (- EINVAL (sa_fs (e_abi e))) y)
      else do {
        r \<leftarrow> fd_lookup fd y;
        case r of Beyond \<Rightarrow> Some (Ret (-1) y) | Closed \<Rightarrow> Some (Ret (- EINVAL (sa_fs (e_abi e))) y)
        | Opened h \<Rightarrow> put_stat e (fh_fileNode h) statbuf y
      })"

definition access_bits :: "sys_abi \<Rightarrow> int \<Rightarrow> u64 \<Rightarrow> u64 \<times> u64 \<times> u64 \<Rightarrow> int" where
  \<comment> \<open>the three tests for a class of users\<close>
  "access_bits a mode am rwx =
     (case rwx of (r, w, x) \<Rightarrow>
      if mode AND R_OK a \<noteq> 0 \<and> am AND r = 0 then - EACCES (sa_fs a)
      else if mode AND W_OK a \<noteq> 0 \<and> am AND w = 0 then - EACCES (sa_fs a)
      else if mode AND X_OK a \<noteq> 0 \<and> am AND x = 0 then - EACCES (sa_fs a)
      else 0)"

definition sys_access :: "'d sysenv \<Rightarrow> u64 \<Rightarrow> int \<Rightarrow> 'd sysstate \<Rightarrow> 'd outcome option" where
  \<comment> \<open>\<^verbatim>\<open>uid\<close> and \<^verbatim>\<open>gid\<close> are compared with the 64 bits of \<^verbatim>\<open>owner\<close> and \<^verbatim>\<open>owner_group\<close>\<close>
  "sys_access e path mode y =
     (if \<not> check_ptr y path then Some (Ret (- EFAULT (e_abi e)) y)
      else do {
        name \<leftarrow> ustring (sy_mem y) path;
        (node, y1) \<leftarrow> open_at e name 0 y;
        if node = NULL then Some (Ret (- ENOENT (sa_fs (e_abi e))) y1)
        else do {
          x \<leftarrow> current y1;
          f \<leftarrow> at (v_nodes (sy_v y1)) node;
          Some (Ret (if p_uid x = 0 \<or> p_gid x = 0 then 0
                     else if mode = F_OK (e_abi e) then 0
                     else if fn_owner f = to_size (p_uid x) then access_bits (e_abi e) mode (fn_access_mask f) (S_USR (e_abi e))
                     else if fn_owner_group f = to_size (p_gid x) then access_bits (e_abi e) mode (fn_access_mask f) (S_GRP (e_abi e))
                     else access_bits (e_abi e) mode (fn_access_mask f) (S_OTH (e_abi e))) y1)
        }
      })"

section \<open>Positions and vectors\<close>

definition sys_lseek :: "'d sysenv \<Rightarrow> int \<Rightarrow> u64 \<Rightarrow> int \<Rightarrow> 'd sysstate \<Rightarrow> 'd outcome option" where
  "sys_lseek e fd offset whence y = do {
     r \<leftarrow> fd_lookup fd y;
     case r of
       Opened h \<Rightarrow> do {
         f \<leftarrow> at (v_nodes (sy_v y)) (fh_fileNode h);
         if fn_type f = FILE_TYPE_VIRTUAL_DEVICE \<or> fn_type f = FILE_TYPE_NAMED_PIPE then Some (Ret (- ESPIPE (e_abi e)) y)
         else do {
           let off = (if whence = SEEK_SET (e_abi e) then offset
                      else if whence = SEEK_CUR (e_abi e) then fh_offset h + offset
                      else if whence = SEEK_END (e_abi e) then fn_size f + offset
                      else fh_offset h);
           y1 \<leftarrow> set_handle fd (h\<lparr>fh_offset := off\<rparr>) y;
           Some (Ret (to_int off) y1)
         }
       }
     | _ \<Rightarrow> Some (Ret (-1) y)
   }"

definition sys_pread64 :: "'d sysenv \<Rightarrow> int \<Rightarrow> u64 \<Rightarrow> u64 \<Rightarrow> u64 \<Rightarrow> 'd sysstate \<Rightarrow> 'd outcome option" where
  "sys_pread64 e fd buffer sz offset y = do {
     r \<leftarrow> fd_lookup fd y;
     case r of
       Opened h \<Rightarrow>
         (if \<not> check_ptr y buffer then Some (Ret (-1) y)
          else do {
            ((k, bs), y1) \<leftarrow> with_vfs (\<lambda>v. do { (k, bs, v1) \<leftarrow> read_handle (e_dr e) (h\<lparr>fh_offset := offset, fh_flags := 0\<rparr>) sz v; Some ((k, bs), v1) }) y;
            m \<leftarrow> store_bytes (sy_mem y1) buffer (filled (e_junk e) bs);
            Some (Ret k (y1\<lparr>sy_mem := m\<rparr>))
          })
     | _ \<Rightarrow> Some (Ret (-1) y)
   }"

definition sys_pwrite64 :: "'d sysenv \<Rightarrow> int \<Rightarrow> u64 \<Rightarrow> u64 \<Rightarrow> u64 \<Rightarrow> 'd sysstate \<Rightarrow> 'd outcome option" where
  "sys_pwrite64 e fd buffer sz offset y = do {
     r \<leftarrow> fd_lookup fd y;
     case r of
       Opened h \<Rightarrow>
         (if \<not> check_ptr y buffer then Some (Ret (-1) y)
          else do {
            data \<leftarrow> load (sy_mem y) buffer (unat sz);
            (k, y1) \<leftarrow> with_vfs (\<lambda>v. do { (k, _, v1) \<leftarrow> write_handle (e_dr e) (h\<lparr>fh_offset := offset, fh_flags := 0\<rparr>) data v; Some (k, v1) }) y;
            Some (Ret k y1)
          })
     | _ \<Rightarrow> Some (Ret (-1) y)
   }"

definition same_handle :: "int \<Rightarrow> 'd sysstate \<Rightarrow> file_handle_t option" where
  \<comment> \<open>the handle that the variable \<^verbatim>\<open>handle\<close> still points to\<close>
  "same_handle fd y = do { t \<leftarrow> fd_table_now y; h \<leftarrow> handle_at t fd; h }"

fun vector_loop :: "('d sysenv \<Rightarrow> int \<Rightarrow> file_handle_t \<Rightarrow> u64 \<Rightarrow> u64 \<Rightarrow> 'd sysstate \<Rightarrow> (int \<times> 'd sysstate) option) \<Rightarrow> 'd sysenv \<Rightarrow> int \<Rightarrow> u64 \<Rightarrow> nat list \<Rightarrow> int \<Rightarrow>
    'd sysstate \<Rightarrow> (int \<times> 'd sysstate) option" where
  \<comment> \<open>the loops of \<^verbatim>\<open>sys_readv\<close> and \<^verbatim>\<open>sys_writev\<close>; a negative result is added to the total like any other\<close>
  "vector_loop f e fd iov [] acc y = Some (acc, y)"
| "vector_loop f e fd iov (i # is) acc y = do {
     (base, len) \<leftarrow> iovec_load (e_abi e) (sy_mem y) iov i;
     h \<leftarrow> same_handle fd y;
     (k, y1) \<leftarrow> f e fd h base len y;
     vector_loop f e fd iov is (wrap_int (acc + k)) y1
   }"

definition vector_call :: "('d sysenv \<Rightarrow> int \<Rightarrow> file_handle_t \<Rightarrow> u64 \<Rightarrow> u64 \<Rightarrow> 'd sysstate \<Rightarrow> (int \<times> 'd sysstate) option) \<Rightarrow> 'd sysenv \<Rightarrow> int \<Rightarrow> u64 \<Rightarrow> int \<Rightarrow>
    'd sysstate \<Rightarrow> 'd outcome option" where
  "vector_call f e fd iov iovcnt y = do {
     r \<leftarrow> fd_lookup fd y;
     case r of
       Opened h \<Rightarrow>
         (if \<not> check_ptr y iov then Some (Ret (- EINVAL (sa_fs (e_abi e))) y)
          else do { (k, y1) \<leftarrow> vector_loop f e fd iov [0..<nat iovcnt] 0 y; Some (Ret k y1) })
     | _ \<Rightarrow> Some (Ret (-1) y)
   }"

definition sys_readv :: "'d sysenv \<Rightarrow> int \<Rightarrow> u64 \<Rightarrow> int \<Rightarrow> 'd sysstate \<Rightarrow> 'd outcome option" where
  "sys_readv e fd iov iovcnt y = vector_call do_read e fd iov iovcnt y"

definition sys_writev :: "'d sysenv \<Rightarrow> int \<Rightarrow> u64 \<Rightarrow> int \<Rightarrow> 'd sysstate \<Rightarrow> 'd outcome option" where
  "sys_writev e fd iov iovcnt y = vector_call do_write e fd iov iovcnt y"

definition sys_dup :: "int \<Rightarrow> 'd sysstate \<Rightarrow> 'd outcome option" where
  \<comment> \<open>the new handle has the field \<^verbatim>\<open>flags\<close> as its mode; without a free slot \<^verbatim>\<open>handles[-1]\<close> is read\<close>
  "sys_dup fd y = do {
     r \<leftarrow> fd_lookup fd y;
     case r of
       Opened h \<Rightarrow> do {
         (newfd, s) \<leftarrow> process_open_fd (fh_fileNode h) (fh_flags h) (krn y);
         new \<leftarrow> same_handle newfd (set_krn s y);
         y1 \<leftarrow> set_handle newfd (new\<lparr>fh_offset := fh_offset h, fh_flags := fh_flags h\<rparr>) (set_krn s y);
         Some (Ret newfd y1)
       }
     | _ \<Rightarrow> Some (Ret (-1) y)
   }"

definition sys_ioctl :: "'d sysenv \<Rightarrow> int \<Rightarrow> u64 \<Rightarrow> u64 \<Rightarrow> 'd sysstate \<Rightarrow> 'd outcome option" where
  "sys_ioctl e fd operation args y =
     (if \<not> check_ptr y args then Some (Ret (- EFAULT (e_abi e)) y)
      else do {
        r \<leftarrow> fd_lookup fd y;
        case r of
          Opened h \<Rightarrow> do {
            f \<leftarrow> at (v_nodes (sy_v y)) (fh_fileNode h);
            case op_ioctl (fn_file_ops f) of None \<Rightarrow> Some (Ret (- ENOTTY (e_abi e)) y)
            | Some g \<Rightarrow> do { (k, y1) \<leftarrow> e_ioctl e g (fh_fileNode h) operation args y; Some (Ret k y1) }
          }
        | _ \<Rightarrow> Some (Ret (-1) y)
      })"

section \<open>Paths\<close>

definition sys_getcwd :: "'d sysenv \<Rightarrow> u64 \<Rightarrow> u64 \<Rightarrow> 'd sysstate \<Rightarrow> 'd outcome option" where
  \<comment> \<open>a name that fills the buffer exactly passes the test, and its terminator is stored behind the buffer\<close>
  "sys_getcwd e buf sz y =
     (if \<not> check_ptr y buf then Some (Ret (- EFAULT (e_abi e)) y)
      else if sz = 0 \<or> buf = NULL then Some (Ret (- EINVAL (sa_fs (e_abi e))) y)
      else do {
        (cwd, y1) \<leftarrow> with_vfs (get_cwd_name (e_k e) (e_dr e) (e_n e)) y;
        if of_nat (length cwd) > sz then Some (Ret (- ERANGE (e_abi e)) y1)
        else do { m \<leftarrow> store_bytes (sy_mem y1) buf (cwd @ [0]); Some (Ret 0 (y1\<lparr>sy_mem := m\<rparr>)) }
      })"

definition sys_rename :: "'d sysenv \<Rightarrow> u64 \<Rightarrow> u64 \<Rightarrow> 'd sysstate \<Rightarrow> 'd outcome option" where
  "sys_rename e oldpath newpath y =
     (if \<not> check_ptr y oldpath \<or> \<not> check_ptr y newpath then Some (Ret (- EFAULT (e_abi e)) y)
      else do {
        old \<leftarrow> ustring (sy_mem y) oldpath;
        (node, y1) \<leftarrow> open_at e old 0 y;
        if node = NULL then Some (Ret (- ENOENT (sa_fs (e_abi e))) y1)
        else do {
          new \<leftarrow> ustring (sy_mem y1) newpath;
          (r, y2) \<leftarrow> with_vfs (move_file (e_k e) (e_dr e) (e_n e) (sa_fs (e_abi e)) node new) y1;
          Some (Ret r y2)
        }
      })"

definition sys_mkdir :: "'d sysenv \<Rightarrow> u64 \<Rightarrow> 'd sysstate \<Rightarrow> 'd outcome option" where
  "sys_mkdir e p y =
     (if \<not> check_ptr y p then Some (Ret (- EFAULT (e_abi e)) y)
      else do {
        path \<leftarrow> ustring (sy_mem y) p;
        (node, y1) \<leftarrow> open_at e path 0 y;
        if node \<noteq> NULL then Some (Ret (- EEXIST (sa_fs (e_abi e))) y1)
        else do {
          (new, y2) \<leftarrow> with_vfs (mkdir_path (e_k e) (e_dr e) (e_n e) path) y1;
          Some (Ret (if new = NULL then - ENOSPC (e_abi e) else 0) y2)
        }
      })"

definition delete_at :: "'d sysenv \<Rightarrow> bytes \<Rightarrow> 'd sysstate \<Rightarrow> 'd outcome option" where
  "delete_at e path y = do {
     (r, y1) \<leftarrow> with_vfs (delete_path (e_k e) (e_dr e) (e_n e) (sa_fs (e_abi e)) path) y;
     Some (Ret r y1)
   }"

definition sys_rmdir :: "'d sysenv \<Rightarrow> u64 \<Rightarrow> 'd sysstate \<Rightarrow> 'd outcome option" where
  "sys_rmdir e p y =
     (if \<not> check_ptr y p then Some (Ret (- EFAULT (e_abi e)) y)
      else do {
        path \<leftarrow> ustring (sy_mem y) p;
        (node, y1) \<leftarrow> open_at e path 0 y;
        if node = NULL then Some (Ret (- ENOENT (sa_fs (e_abi e))) y1)
        else do {
          f \<leftarrow> at (v_nodes (sy_v y1)) node;
          if fn_type f \<noteq> FILE_TYPE_DIR then Some (Ret (- ENOTDIR (sa_fs (e_abi e))) y1) else delete_at e path y1
        }
      })"

definition sys_unlink :: "'d sysenv \<Rightarrow> u64 \<Rightarrow> 'd sysstate \<Rightarrow> 'd outcome option" where
  "sys_unlink e p y =
     (if \<not> check_ptr y p then Some (Ret (- EFAULT (e_abi e)) y)
      else do {
        path \<leftarrow> ustring (sy_mem y) p;
        (node, y1) \<leftarrow> open_at e path 0 y;
        if node = NULL then Some (Ret (- ENOENT (sa_fs (e_abi e))) y1) else delete_at e path y1
      })"

definition link_target :: "'d sysenv \<Rightarrow> bytes \<Rightarrow> 'd vfs \<Rightarrow> ((int + ptr) \<times> 'd vfs) option" where
  \<comment> \<open>the first part of \<^verbatim>\<open>link\<close>: the node at the new path or its directory, or an error; \<^verbatim>\<open>parent\<close> is not initialised\<close>
  "link_target e path s = do {
     (new, s1) \<leftarrow> open_path (e_k e) (e_dr e) (e_n e) path 0 s;
     if new = NULL then do {
       (cwd, s2) \<leftarrow> get_cwd_name (e_k e) (e_dr e) (e_n e) s1;
       (_, out, s3) \<leftarrow> resolve_path (e_k e) (e_dr e) (e_n e) cwd path s2;
       (parent, _) \<leftarrow> out;
       Some (if parent = NULL then Inl (- ENOENT (sa_fs (e_abi e))) else Inr parent, s3)
     } else do {
       f \<leftarrow> at (v_nodes s1) new;
       sz \<leftarrow> (if fn_type f = FILE_TYPE_DIR then get_size (e_dr e) new s1 else Some 0);
       Some (if sz > 0 then Inl (- EEXIST (sa_fs (e_abi e))) else Inr new, s1)
     }
   }"

definition link_file :: "'d sysenv \<Rightarrow> file_handle_t \<Rightarrow> bytes \<Rightarrow> 'd sysstate \<Rightarrow> 'd outcome option" where
  \<comment> \<open>\<^verbatim>\<open>link\<close>; the descriptor is opened even when the new path does not resolve\<close>
  "link_file e h path y = do {
     f \<leftarrow> at (v_nodes (sy_v y)) (fh_fileNode h);
     case op_link (fn_file_ops f) of None \<Rightarrow> Some (Ret (- EINVAL (sa_fs (e_abi e))) y)
     | Some g \<Rightarrow> do {
         (t, y1) \<leftarrow> with_vfs (link_target e path) y;
         case t of Inl err \<Rightarrow> Some (Ret err y1)
         | Inr new \<Rightarrow> do {
             f1 \<leftarrow> at (v_nodes (sy_v y1)) (fh_fileNode h);
             w \<leftarrow> at (v_nodes (sy_v y1)) new;
             if fn_fs f1 = NULL \<or> fn_fs w = NULL then Some (Ret (- EXDEV (sa_fs (e_abi e))) y1)
             else do {
               o1 \<leftarrow> at (v_fs_owner (sy_v y1)) (fn_fs f1);
               o2 \<leftarrow> at (v_fs_owner (sy_v y1)) (fn_fs w);
               if o1 \<noteq> o2 then Some (Ret (- EXDEV (sa_fs (e_abi e))) y1)
               else do {
                 (r, y2) \<leftarrow> with_vfs (e_link e g (fh_fileNode h) path) y1;
                 if r \<noteq> 0 then Some (Ret r y2)
                 else do {
                   (node, y3) \<leftarrow> open_at e path 0 y2;
                   (fd, s) \<leftarrow> process_open_fd node 0 (krn y3);
                   Some (Ret fd (set_krn s y3))
                 }
               }
             }
           }
       }
   }"

definition sys_link :: "'d sysenv \<Rightarrow> int \<Rightarrow> u64 \<Rightarrow> 'd sysstate \<Rightarrow> 'd outcome option" where
  "sys_link e fd p y =
     (if \<not> check_ptr y p then Some (Ret (- EFAULT (e_abi e)) y)
      else do {
        path \<leftarrow> ustring (sy_mem y) p;
        (node, y1) \<leftarrow> open_at e path 0 y;
        if node \<noteq> NULL then Some (Ret (- EEXIST (sa_fs (e_abi e))) y1)
        else do {
          r \<leftarrow> fd_lookup fd y1;
          case r of Opened h \<Rightarrow> link_file e h path y1 | _ \<Rightarrow> Some (Ret (- EFAULT (e_abi e)) y1)
        }
      })"

section \<open>Memory\<close>

definition set_memory :: "vmm \<Rightarrow> 'd sysstate \<Rightarrow> 'd sysstate" where
  "set_memory v y = y\<lparr>sy_m := (sy_m y)\<lparr>mv := v\<rparr>\<rparr>"

definition sys_brk :: "int \<Rightarrow> u64 \<Rightarrow> 'd sysstate \<Rightarrow> 'd outcome option" where
  \<comment> \<open>the lock of the address space is not released on any path\<close>
  "sys_brk increment sz y = do {
     x \<leftarrow> current y;
     d \<leftarrow> at (mms (krn y)) (p_page_directory x);
     l \<leftarrow> spin_lock (mm_lock d);
     let y1 = set_krn ((krn y)\<lparr>mms := (mms (krn y))(p_page_directory x \<mapsto> d\<lparr>mm_lock := l\<rparr>)\<rparr>) y;
     if increment = 1 then do {
       (a, v) \<leftarrow> mmap (mm_heap d) sz False (memory (sy_m y1));
       Some (Ret (sint a) (set_memory v y1))
     } else if sz < mm_heap d then do {
       v \<leftarrow> munmap sz (mm_heap d - sz) (memory (sy_m y1));
       Some (Ret (sint sz) (set_memory v y1))
     } else do {
       (a, v) \<leftarrow> mmap (mm_heap d) (sz - mm_heap d) False (memory (sy_m y1));
       Some (Ret (if a = - 1 then 1 else 0) (set_memory v y1))
     }
   }"

definition sys_mmap :: "'d sysenv \<Rightarrow> u64 \<Rightarrow> u64 \<Rightarrow> int \<Rightarrow> int \<Rightarrow> 'd sysstate \<Rightarrow> 'd outcome option" where
  \<comment> \<open>the table of system calls passes five arguments, so \<^verbatim>\<open>offset\<close> is whatever the sixth argument register holds\<close>
  "sys_mmap e address len fd offset y =
     (if fd \<noteq> 0 \<or> offset \<noteq> 0 then Some (Ret (- ENOSYS (e_abi e)) y)
      else do { (a, v) \<leftarrow> mmap address len False (memory (sy_m y)); Some (Ret (sint a) (set_memory v y)) })"

definition sys_mprotect :: "'d sysenv \<Rightarrow> 'd sysstate \<Rightarrow> 'd outcome option" where
  "sys_mprotect e y = Some (Ret (- ENOSYS (e_abi e)) y)"

definition sys_munmap :: "u64 \<Rightarrow> u64 \<Rightarrow> 'd sysstate \<Rightarrow> 'd outcome option" where
  "sys_munmap address len y = do { v \<leftarrow> munmap address len (memory (sy_m y)); Some (Ret 0 (set_memory v y)) }"

definition sys_tcb_set :: "'d sysenv \<Rightarrow> u64 \<Rightarrow> 'd sysstate \<Rightarrow> 'd outcome option" where
  \<comment> \<open>the base register of the \<^verbatim>\<open>fs\<close> segment is written too\<close>
  "sys_tcb_set e tcb y =
     (if \<not> check_ptr y tcb then Some (Ret (- EFAULT (e_abi e)) y)
      else do {
        s \<leftarrow> upd_proc (current_process (krn y)) (\<lambda>x. x\<lparr>p_main_thread := (p_main_thread x)\<lparr>th_tls_base := tcb\<rparr>\<rparr>) (krn y);
        Some (Ret 0 (set_krn s y))
      })"

section \<open>Signals\<close>

definition sys_rt_sigaction :: "'d sysenv \<Rightarrow> int \<Rightarrow> u64 \<Rightarrow> u64 \<Rightarrow> 'd sysstate \<Rightarrow> 'd outcome option" where
  \<comment> \<open>\<^verbatim>\<open>sa_handler\<close> of the new action is read when the pointer is \<^verbatim>\<open>NULL\<close> too; signal 32 is accepted, but there are 32 handlers\<close>
  "sys_rt_sigaction e signum newact oldact y =
     (if \<not> check_ptr y newact \<or> \<not> check_ptr y oldact \<or> signum > 32 then Some (Ret (- EINVAL (sa_fs (e_abi e))) y)
      else do {
        y1 \<leftarrow> (if oldact \<noteq> NULL then do {
                 h \<leftarrow> process_get_signal_handler (wrap_int signum) (krn y);
                 m \<leftarrow> sigaction_store (e_abi e) h oldact (sy_mem y);
                 Some (y\<lparr>sy_mem := m\<rparr>)
               } else Some y);
        act \<leftarrow> sigaction_load (e_abi e) (sy_mem y1) newact;
        if sh_handler act \<noteq> 0 then do {
          s \<leftarrow> process_set_signal_handler (wrap_int signum) act (krn y1);
          Some (Ret 0 (set_krn s y1))
        } else Some (Ret 0 y1)
      })"

definition sys_rt_sigprocmask :: "'d sysenv \<Rightarrow> int \<Rightarrow> u64 \<Rightarrow> u64 \<Rightarrow> 'd sysstate \<Rightarrow> 'd outcome option" where
  \<comment> \<open>\<^verbatim>\<open>newsigset\<close> is tested twice and \<^verbatim>\<open>oldsigset\<close> not at all\<close>
  "sys_rt_sigprocmask e how newsigset oldsigset y = do {
     x \<leftarrow> current y;
     if \<not> check_ptr y newsigset then Some (Ret (- EINVAL (sa_fs (e_abi e))) y)
     else do {
       m \<leftarrow> (if oldsigset \<noteq> NULL then sigset_store (e_abi e) (take SIGSET_NWORDS (p_blocked x)) oldsigset (sy_mem y) else Some (sy_mem y));
       new \<leftarrow> sigset_load (e_abi e) m newsigset;
       s \<leftarrow> process_set_signal_mask (sa_sig (e_abi e)) (wrap_int how) new (krn y);
       Some (Ret 0 (set_krn s (y\<lparr>sy_mem := m\<rparr>)))
     }
   }"

definition sys_rt_sigreturn :: "regs_t \<Rightarrow> 'd sysstate \<Rightarrow> 'd outcome option" where
  \<comment> \<open>\<open>junk\<close> is the unassigned variable of \<^verbatim>\<open>process_signal_return\<close>\<close>
  "sys_rt_sigreturn junk y = do { (r, m) \<leftarrow> process_signal_return junk (sy_m y); Some (Ret r (y\<lparr>sy_m := m\<rparr>)) }"

section \<open>Processes\<close>

definition quot :: "int \<Rightarrow> int \<Rightarrow> int" where
  \<comment> \<open>division by a positive number, which truncates towards zero\<close>
  "quot a b = (if a < 0 then - ((- a) div b) else a div b)"

definition sys_exit :: "int \<Rightarrow> 'd sysstate \<Rightarrow> 'd outcome option" where
  "sys_exit exitCode y = do { m \<leftarrow> process_thread_exit (wrap_int exitCode) (sy_m y); Some (Switched (y\<lparr>sy_m := m\<rparr>)) }"

definition sys_exit_group :: "'d sysenv \<Rightarrow> int \<Rightarrow> 'd sysstate \<Rightarrow> 'd outcome option" where
  "sys_exit_group e exitCode y = do { s \<leftarrow> process_exit (e_n e) (wrap_int exitCode) (krn y); Some (Switched (set_krn s y)) }"

definition is_selected :: "int \<Rightarrow> process_t \<Rightarrow> process_t \<Rightarrow> bool" where
  "is_selected pid proc parent =
     (if pid < -1 then p_tgid proc = - pid
      else if pid = 0 then p_tgid proc = p_id parent
      else if pid > 0 then p_id proc = pid
      else True)"

fun wait_loop :: "'d sysenv \<Rightarrow> int \<Rightarrow> ptr list \<Rightarrow> 'd sysstate \<Rightarrow> (int option \<times> 'd sysstate) option" where
  \<comment> \<open>the loop over the children, with the tree locked; the value is what \<^verbatim>\<open>sys_wait4\<close> returns\<close>
  "wait_loop e pid [] y = Some (None, y)"
| "wait_loop e pid (p # ps) y = do {
     x \<leftarrow> at (procs (krn y)) p;
     if p_flags x AND PROC_FLAG_FINISHED \<noteq> 0 then do {
       m \<leftarrow> process_reap (e_n e) p (sy_m y);
       Some (Some (p_id x), y\<lparr>sy_m := m\<rparr>)
     } else do {
       me \<leftarrow> current y;
       if is_selected pid x me then Some (Some (p_id x), y) else wait_loop e pid ps y
     }
   }"

definition sys_wait4 :: "'d sysenv \<Rightarrow> int \<Rightarrow> int \<Rightarrow> 'd sysstate \<Rightarrow> 'd outcome option" where
  \<comment> \<open>one round; after \<open>Switched\<close> the loop starts again\<close>
  "sys_wait4 e pid flags y =
     (if flags AND WNOHANG (e_abi e) \<noteq> 0 then Some (Ret 0 y)
      else do {
        s1 \<leftarrow> acquire_process_tree_lock (krn y);
        my_node \<leftarrow> tree_find_child_root (e_n e) (tree_heap s1) (process_tree s1) (current_process s1);
        node \<leftarrow> nrd (tree_heap s1) my_node;
        if tn_children node = [] then Some (Ret (-1) (set_krn (release_process_tree_lock s1) y))
        else do {
          children \<leftarrow> process_get_all_children (e_n e) (current_process s1) s1;
          ps \<leftarrow> children;
          (r, y1) \<leftarrow> wait_loop e pid ps (set_krn s1 y);
          let s2 = release_process_tree_lock (krn y1);
          case r of Some k \<Rightarrow> Some (Ret k (set_krn s2 y1))
          | None \<Rightarrow> do { s3 \<leftarrow> schedule True s2; Some (Switched (set_krn s3 y1)) }
        }
      })"

definition sys_getpid :: "'d sysstate \<Rightarrow> 'd outcome option" where
  "sys_getpid y = do { x \<leftarrow> current y; Some (Ret (if p_tgid x \<noteq> 0 then p_tgid x else p_id x) y) }"

definition sys_getpgrp :: "'d sysstate \<Rightarrow> 'd outcome option" where
  "sys_getpgrp y = do { x \<leftarrow> current y; Some (Ret (if p_tgid x \<noteq> 0 then p_tgid x else p_id x) y) }"

definition sys_getppid :: "'d sysstate \<Rightarrow> 'd outcome option" where
  "sys_getppid y = do { x \<leftarrow> current y; Some (Ret (p_parent x) y) }"

definition sys_getuid :: "'d sysstate \<Rightarrow> 'd outcome option" where
  "sys_getuid y = do { x \<leftarrow> current y; Some (Ret (p_uid x) y) }"

definition sys_getgid :: "'d sysstate \<Rightarrow> 'd outcome option" where
  "sys_getgid y = do { x \<leftarrow> current y; Some (Ret (p_gid x) y) }"

definition sys_fork :: "'d sysenv \<Rightarrow> 'd sysstate \<Rightarrow> 'd outcome option" where
  "sys_fork e y = do {
     let b = e_blocks e;
     (pid, m) \<leftarrow> process_fork (e_n e) (fb_process b) (fb_mm b) (fb_fdt b) (fb_node b) (fb_local b) (fb_fork_exit b) (sy_m y);
     Some (Ret pid (y\<lparr>sy_m := m\<rparr>))
   }"

definition sys_clone :: "'d sysenv \<Rightarrow> u64 \<Rightarrow> u64 \<Rightarrow> u64 \<Rightarrow> u64 \<Rightarrow> u64 \<Rightarrow> 'd sysstate \<Rightarrow> 'd outcome option" where
  \<comment> \<open>the flags are tested as if they were a pointer\<close>
  "sys_clone e flags stack parent_tid child_tid tls y =
     (if \<not> (check_ptr y flags \<and> check_ptr y stack \<and> check_ptr y parent_tid \<and> check_ptr y child_tid \<and> check_ptr y tls)
      then Some (Ret (- EFAULT (e_abi e)) y)
      else do {
        let b = e_blocks e;
        (pid, m) \<leftarrow> process_clone (e_n e) flags tls parent_tid (fb_process b) (fb_mm b) (fb_fdt b) (fb_node b) (fb_kstack b) (fb_fork_exit b) (sy_m y);
        Some (Ret pid (y\<lparr>sy_m := m\<rparr>))
      })"

definition sys_yield :: "'d sysstate \<Rightarrow> 'd outcome option" where
  \<comment> \<open>returns 0 when the process runs again\<close>
  "sys_yield y = do { s \<leftarrow> schedule False (krn y); Some (Switched (set_krn s y)) }"

definition sys_nanosleep :: "'d sysenv \<Rightarrow> u64 \<Rightarrow> 'd sysstate \<Rightarrow> 'd outcome option" where
  \<comment> \<open>there is no \<^verbatim>\<open>return\<close> behind \<^verbatim>\<open>sleep\<close>\<close>
  "sys_nanosleep e timespec y =
     (if \<not> check_ptr y timespec then Some (Ret (- EFAULT (e_abi e)) y)
      else do {
        (sec, nsec) \<leftarrow> timespec_load (e_abi e) (sy_mem y) timespec;
        s \<leftarrow> sleep (sec * 1000 + quot nsec 1000000 + 1) (krn y);
        Some (Switched (set_krn s y))
      })"

section \<open>Polling\<close>

definition wrap_short :: "int \<Rightarrow> int" where
  "wrap_short i = sint (word_of_int i :: u16)"

fun poll_scan :: "'d sysenv \<Rightarrow> u64 \<Rightarrow> nat list \<Rightarrow> bool \<Rightarrow> 'd sysstate \<Rightarrow> (bool \<times> 'd sysstate) option" where
  \<comment> \<open>one pass over the descriptors\<close>
  "poll_scan e fdbuf [] ready y = Some (ready, y)"
| "poll_scan e fdbuf (i # is) ready y = do {
     (fd, events) \<leftarrow> pollfd_load (e_abi e) (sy_mem y) fdbuf i;
     h \<leftarrow> fd_lookup fd y;
     revents \<leftarrow> (case h of Opened handle \<Rightarrow> map_option wrap_short (fpoll (e_dr e) (sa_fs (e_abi e)) handle events (sy_v y))
                 | _ \<Rightarrow> Some (POLLNVAL (e_abi e)));
     m \<leftarrow> pollfd_store (e_abi e) revents fdbuf i (sy_mem y);
     poll_scan e fdbuf is (ready \<or> (case h of Opened _ \<Rightarrow> revents AND POLLIN_POLLOUT (e_abi e) \<noteq> 0 | _ \<Rightarrow> False)) (y\<lparr>sy_mem := m\<rparr>)
   }"

fun poll_count :: "sys_abi \<Rightarrow> mem \<Rightarrow> u64 \<Rightarrow> nat list \<Rightarrow> int \<Rightarrow> int option" where
  "poll_count a m fdbuf [] c = Some c"
| "poll_count a m fdbuf (i # is) c = do {
     revents \<leftarrow> pollfd_revents a m fdbuf i;
     poll_count a m fdbuf is (if revents AND POLLIN_POLLOUT a \<noteq> 0 then c + 1 else c)
   }"

definition poll_round :: "'d sysenv \<Rightarrow> u64 \<Rightarrow> int \<Rightarrow> int \<Rightarrow> u64 \<Rightarrow> 'd sysstate \<Rightarrow> 'd outcome option" where
  \<comment> \<open>the body of \<^verbatim>\<open>while(!one_ready)\<close> and what follows it; after \<open>Switched\<close> the next round runs\<close>
  "poll_round e fdbuf nfds timeout time_end y = do {
     x \<leftarrow> current y;
     if has_pending_signals x then Some (Ret (- ERESTART (e_abi e)) y)
     else do {
       (ready, y1) \<leftarrow> poll_scan e fdbuf [0..<nat nfds] False y;
       if ready then do { c \<leftarrow> poll_count (e_abi e) (sy_mem y1) fdbuf [0..<nat nfds] 0; Some (Ret c y1) }
       else if timeout = 0 then Some (Ret 0 y1)
       else if timeout \<ge> 0 \<and> time_end < counter (krn y1) then Some (Ret 0 y1)
       else do { s \<leftarrow> schedule False (krn y1); Some (Switched (set_krn s y1)) }
     }
   }"

definition poll_end :: "int \<Rightarrow> 'd sysstate \<Rightarrow> u64" where
  "poll_end timeout y = (if timeout > 0 then counter (krn y) + word_of_int (timeout div 10) + 1 else - 1)"

definition sys_poll :: "'d sysenv \<Rightarrow> u64 \<Rightarrow> int \<Rightarrow> int \<Rightarrow> 'd sysstate \<Rightarrow> 'd outcome option" where
  "sys_poll e fdbuf nfds timeout y =
     (if list_ex (\<lambda>i. \<not> check_ptr y (fdbuf + of_nat i * sizeof_pollfd (e_abi e))) [0..<nat nfds] then Some (Ret (- EFAULT (e_abi e)) y)
      else poll_round e fdbuf nfds timeout (poll_end timeout y) y)"

definition ppoll_leave :: "'d sysenv \<Rightarrow> u64 \<Rightarrow> 'd outcome \<Rightarrow> 'd outcome option" where
  \<comment> \<open>the last part of \<^verbatim>\<open>sys_ppoll\<close>; \<open>local\<close> is the address of \<^verbatim>\<open>old_sigset\<close>\<close>
  "ppoll_leave e local out =
     (case out of Switched y \<Rightarrow> Some (Switched y)
      | Ret r y \<Rightarrow> do {
          o1 \<leftarrow> sys_rt_sigprocmask e (SIG_SETMASK (sa_sig (e_abi e))) local 0 y;
          case o1 of Ret _ y1 \<Rightarrow> Some (Ret r y1) | Switched y1 \<Rightarrow> Some (Switched y1)
        })"

definition sys_ppoll :: "'d sysenv \<Rightarrow> u64 \<Rightarrow> u64 \<Rightarrow> int \<Rightarrow> u64 \<Rightarrow> u64 \<Rightarrow> 'd sysstate \<Rightarrow> 'd outcome option" where
  "sys_ppoll e local fdbuf nfds timespec sigmask y =
     (if \<not> check_ptr y sigmask \<or> timespec \<noteq> NULL \<and> \<not> check_ptr y timespec then Some (Ret (- EFAULT (e_abi e)) y)
      else do {
        timeout \<leftarrow> (if timespec \<noteq> NULL then do {
                      (sec, nsec) \<leftarrow> timespec_load (e_abi e) (sy_mem y) timespec;
                      Some (wrap_int (sec * 1000 + quot nsec 1000000))
                    } else Some (-1));
        o1 \<leftarrow> sys_rt_sigprocmask e (SIG_SETMASK (sa_sig (e_abi e))) sigmask local y;
        case o1 of Switched y1 \<Rightarrow> Some (Switched y1)
        | Ret _ y1 \<Rightarrow> do { out \<leftarrow> sys_poll e fdbuf nfds timeout y1; ppoll_leave e local out }
      })"

section \<open>Futexes\<close>

definition FUTEX_WAIT :: int where "FUTEX_WAIT = 0"
definition FUTEX_WAKE :: int where "FUTEX_WAKE = 1"

definition load_u32 :: "mem \<Rightarrow> ptr \<Rightarrow> int option" where
  "load_u32 m p = do { bs \<leftarrow> load m p 4; Some (int (foldr (\<lambda>b n. unat b + 256 * n) bs 0)) }"

fun wake_values :: "ptr list \<Rightarrow> kstate \<Rightarrow> kstate option" where
  "wake_values [] s = Some s"
| "wake_values (p # ps) s = do { (_, s1) \<leftarrow> wakeup_now p s; wake_values ps s1 }"

definition sys_futex :: "'d sysenv \<Rightarrow> u64 \<Rightarrow> int \<Rightarrow> int \<Rightarrow> u64 \<Rightarrow> 'd sysstate \<Rightarrow> 'd outcome option" where
  "sys_futex e pointer action val timeout y =
     (if \<not> check_ptr y pointer \<or> \<not> check_ptr y timeout then Some (Ret (- EINVAL (sa_fs (e_abi e))) y)
      else do {
        (page, v) \<leftarrow> memmgr_create_or_get_page pointer 0 False (memory (sy_m y));
        let y1 = set_memory v y;
        if page = 0 then Some (Ret (- EINVAL (sa_fs (e_abi e))) y1)
        else if action = FUTEX_WAIT then do {
          w \<leftarrow> load_u32 (sy_mem y1) pointer;
          if w = val then do {
            (sec, nsec) \<leftarrow> timespec_load (e_abi e) (sy_mem y1) timeout;
            ident \<leftarrow> long_to_string (sint pointer);
            l \<leftarrow> spin_lock (sy_futex_lock y1);
            t \<leftarrow> ht_insert (sy_futex y1) ident (current_process (krn y1));
            s \<leftarrow> sleep (sec * 1000 + quot nsec 1000000 + 1) (krn y1);
            Some (Switched (set_krn s (y1\<lparr>sy_futex := t, sy_futex_lock := spin_unlock l\<rparr>)))
          } else Some (Ret (- EAGAIN (e_abi e)) y1)
        } else if action = FUTEX_WAKE then do {
          ident \<leftarrow> long_to_string (sint pointer);
          vs \<leftarrow> ht_get_all_values (sy_futex y1) ident;
          s \<leftarrow> (case vs of None \<Rightarrow> Some (krn y1) | Some ps \<Rightarrow> wake_values ps (krn y1));
          Some (Ret (- EAGAIN (e_abi e)) (set_krn s y1))
        } else Some (Ret (- ENOSYS (e_abi e)) y1)
      })"

definition sys_futex_resume :: "'d sysenv \<Rightarrow> u64 \<Rightarrow> 'd sysstate \<Rightarrow> 'd outcome option" where
  \<comment> \<open>a waiting process that runs again leaves the table and reaches the last \<^verbatim>\<open>return\<close>\<close>
  "sys_futex_resume e pointer y = do {
     ident \<leftarrow> long_to_string (sint pointer);
     l \<leftarrow> spin_lock (sy_futex_lock y);
     (_, t) \<leftarrow> ht_remove_by_key_and_value (sy_futex y) ident (current_process (krn y));
     Some (Ret (- ENOSYS (e_abi e)) (y\<lparr>sy_futex := t, sy_futex_lock := spin_unlock l\<rparr>))
   }"

definition syscall_init :: "'d sysstate \<Rightarrow> 'd sysstate" where
  "syscall_init y = y\<lparr>sy_futex := ht_create 32, sy_futex_lock := spin_unlock True\<rparr>"

section \<open>Entry\<close>

fun count_args :: "nat \<Rightarrow> mem \<Rightarrow> u64 \<Rightarrow> nat \<Rightarrow> bool option" where
  \<comment> \<open>\<^verbatim>\<open>while(arg != NULL)\<close> over an array of pointers, from index \<open>i\<close> on; false when more than 65536 are passed\<close>
  "count_args 0 m p i = None"
| "count_args (Suc n) m p i = do {
     bs \<leftarrow> load m (p + 8 * of_nat i) 8;
     if list_all (\<lambda>b. b = 0) bs then Some True
     else if i > 65536 then Some False
     else count_args n m p (i + 1)
   }"

definition sys_execve :: "'d sysenv \<Rightarrow> u64 \<Rightarrow> u64 \<Rightarrow> u64 \<Rightarrow> 'd sysstate \<Rightarrow> 'd outcome option" where
  \<comment> \<open>one valid pointer of the three is enough to pass the first test\<close>
  "sys_execve e pathname argv envp y =
     (if \<not> (check_ptr y pathname \<or> check_ptr y argv \<or> check_ptr y envp) \<or> pathname = NULL then Some (Ret (- EINVAL (sa_fs (e_abi e))) y)
      else do {
        a \<leftarrow> (if argv \<noteq> NULL then count_args 65540 (sy_mem y) argv 0 else Some True);
        if \<not> a then Some (Ret (- EINVAL (sa_fs (e_abi e))) y)
        else do {
          b \<leftarrow> (if envp \<noteq> NULL then count_args 65540 (sy_mem y) envp 0 else Some True);
          if \<not> b then Some (Ret (- EINVAL (sa_fs (e_abi e))) y)
          else do { path \<leftarrow> ustring (sy_mem y) pathname; e_execve e path argv envp y }
        }
      })"

definition sys_stub :: "'d sysenv \<Rightarrow> 'd sysstate \<Rightarrow> 'd outcome option" where
  "sys_stub e y = Some (Ret (- ENOSYS (e_abi e)) y)"

definition syscall_table :: "'d sysenv \<Rightarrow> nat \<Rightarrow> u64 \<Rightarrow> u64 \<Rightarrow> u64 \<Rightarrow> u64 \<Rightarrow> u64 \<Rightarrow> 'd sysstate \<Rightarrow> 'd outcome option" where
  \<comment> \<open>the functions in the table, with their arguments converted to the types of their parameters\<close>
  "syscall_table e no a b c d f y =
     (if no = 0 then sys_read e (sint a) b c y
      else if no = 1 then sys_write e (sint a) b c y
      else if no = 2 then sys_open e a (sint b) y
      else if no = 3 then sys_close (sint a) y
      else if no = 4 then sys_stat e a b y
      else if no = 5 then sys_fstat e (sint a) b y
      else if no = 6 then sys_lstat e a b y
      else if no = 7 then sys_poll e a (sint b) (to_int c) y
      else if no = 8 then sys_lseek e (sint a) b (sint c) y
      else if no = 9 then sys_mmap e a b (sint f) (e_r9 e) y
      else if no = 10 then sys_mprotect e y
      else if no = 11 then sys_munmap a b y
      else if no = 12 then sys_brk (sint a) b y
      else if no = 13 then sys_rt_sigaction e (sint a) b c y
      else if no = 14 then sys_rt_sigprocmask e (sint a) b c y
      else if no = 15 then sys_rt_sigreturn (e_regs e) y
      else if no = 16 then sys_ioctl e (sint a) b c y
      else if no = 17 then sys_pread64 e (sint a) b c d y
      else if no = 18 then sys_pwrite64 e (sint a) b c d y
      else if no = 19 then sys_readv e (sint a) b (to_int c) y
      else if no = 20 then sys_writev e (sint a) b (to_int c) y
      else if no = 21 then sys_access e a (sint b) y
      else if no = 24 then sys_yield y
      else if no = 29 then sys_tcb_set e a y
      else if no = 32 then sys_dup (sint a) y
      else if no = 35 then sys_nanosleep e a y
      else if no = 39 then sys_getpid y
      else if no = 56 then sys_clone e a b c d f y
      else if no = 57 then sys_fork e y
      else if no = 59 then sys_execve e a b c y
      else if no = 60 then sys_exit (sint a) y
      else if no = 61 then sys_wait4 e (to_int a) (to_int c) y
      else if no = 79 then sys_getcwd e a b y
      else if no = 82 then sys_rename e a b y
      else if no = 83 then sys_mkdir e a y
      else if no = 84 then sys_rmdir e a y
      else if no = 85 then sys_create e a y
      else if no = 86 then sys_link e (sint a) b y
      else if no = 87 then sys_unlink e a y
      else if no = 102 then sys_getuid y
      else if no = 104 then sys_getgid y
      else if no = 109 then sys_getpgrp y
      else if no = 110 then sys_getppid y
      else if no = 111 then sys_getpgrp y
      else if no = 202 then sys_futex e a (sint b) (sint c) d y
      else if no = 231 then sys_exit_group e (sint a) y
      else if no = 271 then sys_ppoll e (e_local e) a (sint b) c d y
      else sys_stub e y)"

definition set_rax :: "ptr \<Rightarrow> u64 \<Rightarrow> 'd sysstate \<Rightarrow> 'd sysstate option" where
  "set_rax regs v y = do {
     r \<leftarrow> at (m_regs (sy_m y)) regs;
     Some (y\<lparr>sy_m := (sy_m y)\<lparr>m_regs := (m_regs (sy_m y))(regs \<mapsto> r\<lparr>g_rax := v\<rparr>)\<rparr>\<rparr>)
   }"

definition syscall_entry :: "'d sysenv \<Rightarrow> ptr \<Rightarrow> 'd sysstate \<Rightarrow> 'd outcome option" where
  \<comment> \<open>the number is not compared with the length of the table, and every result goes through an \<^verbatim>\<open>int\<close>\<close>
  "syscall_entry e regs y = do {
     r \<leftarrow> at (m_regs (sy_m y)) regs;
     if unat (g_rax r) \<ge> 272 then None
     else do {
       s \<leftarrow> upd_proc (current_process (krn y)) (\<lambda>x. x\<lparr>p_saved_registers := regs\<rparr>) (krn y);
       out \<leftarrow> syscall_table e (unat (g_rax r)) (g_rdi r) (g_rsi r) (g_rdx r) (g_r10 r) (g_r8 r) (set_krn s y);
       case out of Switched y1 \<Rightarrow> Some (Switched y1)
       | Ret k y1 \<Rightarrow>
           if g_rax r = 15 then Some (Ret (wrap_int k) y1)
           else do { y2 \<leftarrow> set_rax regs (to_size (wrap_int k)) y1; Some (Ret (wrap_int k) y2) }
     }
   }"

definition restart_syscall :: "'d sysenv \<Rightarrow> ptr \<Rightarrow> int \<Rightarrow> 'd sysstate \<Rightarrow> 'd outcome option" where
  \<comment> \<open>\<open>Ret 0\<close> where the function returns without a system call\<close>
  "restart_syscall e regs signum y = do {
     x \<leftarrow> current y;
     let p = current_process (krn y);
     r \<leftarrow> at (m_regs (sy_m y)) regs;
     if sy_syscall y p > 0 \<and> g_rax r = to_size (- ERESTART (e_abi e)) then do {
       h \<leftarrow> (if signum = SIGCONT (e_abi e) then Some True
             else if 0 \<le> signum \<and> nat signum < length (p_signalHandlers x)
                  then Some (sh_flags (p_signalHandlers x ! nat signum) AND SA_RESTART (e_abi e) \<noteq> 0) else None);
       if h then do {
         y1 \<leftarrow> set_rax regs (sy_syscall y p) y;
         syscall_entry e regs (y1\<lparr>sy_syscall := (sy_syscall y1)(p := 0)\<rparr>)
       } else do {
         y1 \<leftarrow> set_rax regs (to_size (- EINTR (e_abi e))) (y\<lparr>sy_syscall := (sy_syscall y)(p := 0)\<rparr>);
         Some (Ret 0 y1)
       }
     } else Some (Ret 0 y)
   }"

section \<open>Calls on descriptors\<close>

definition view :: "process_t \<Rightarrow> 'd vfs \<Rightarrow> 'd vfs" where
  "view x v = v\<lparr>v_has_process := True, v_cwd := p_cwd x, v_cwd_file := p_cwd_file x\<rparr>"

definition sys_at :: "'d sysstate \<Rightarrow> process_t \<Rightarrow> fd_table_t \<Rightarrow> 'd vfs \<Rightarrow> bool" where
  \<comment> \<open>the calling process, its descriptor table, and the file system as it sees it\<close>
  "sys_at y x t v \<longleftrightarrow> current y = Some x \<and> at (fd_tables (krn y)) (p_fd_table x) = Some t \<and> view x (sy_v y) = v"

definition same_user :: "'d sysstate \<Rightarrow> 'd sysstate \<Rightarrow> bool" where
  "same_user y y' \<longleftrightarrow> sy_mem y' = sy_mem y \<and> check_ptr y' = check_ptr y"

lemma same_user_refl [simp]: "same_user y y"
  by (simp add: same_user_def)

lemma same_user_trans: "same_user x y \<Longrightarrow> same_user y z \<Longrightarrow> same_user x z"
  by (simp add: same_user_def)

lemma set_krn_simps [simp]:
  "krn (set_krn s y) = s" "sy_mem (set_krn s y) = sy_mem y" "sy_v (set_krn s y) = sy_v y" "mv (sy_m (set_krn s y)) = mv (sy_m y)"
  by (simp_all add: set_krn_def krn_def)

lemma check_ptr_cong: "mv (sy_m y') = mv (sy_m y) \<Longrightarrow> current_page_map (krn y') = current_page_map (krn y) \<Longrightarrow> check_ptr y' = check_ptr y"
  by (rule ext) (simp add: check_ptr_def memory_def krn_def)

lemma with_vfs_at:
  assumes "sys_at y x t v" "f v = Some (r, v')" "v_has_process v'"
  shows "\<exists>y'. with_vfs f y = Some (r, y') \<and> sys_at y' (x\<lparr>p_cwd := v_cwd v', p_cwd_file := v_cwd_file v'\<rparr>) t v' \<and> same_user y y'"
proof -
  let ?p = "current_process (krn y)" and ?x = "x\<lparr>p_cwd := v_cwd v', p_cwd_file := v_cwd_file v'\<rparr>"
  let ?s = "(krn y)\<lparr>procs := (procs (krn y))(?p \<mapsto> ?x)\<rparr>"
  let ?y = "(set_krn ?s y)\<lparr>sy_v := v'\<rparr>"
  have c: "current y = Some x" "at (fd_tables (krn y)) (p_fd_table x) = Some t" "view x (sy_v y) = v" using assms(1) by (simp_all add: sys_at_def)
  then have p: "?p \<noteq> NULL" "procs (krn y) ?p = Some x" by (simp_all add: current_def at_Some_iff)
  have "upd_proc ?p (\<lambda>x. x\<lparr>p_cwd := v_cwd v', p_cwd_file := v_cwd_file v'\<rparr>) (krn y) = Some ?s" using p by (simp add: upd_proc_Some)
  then have w: "with_vfs f y = Some (r, ?y)" using c assms(2) by (simp add: with_vfs_def view_def)
  have k: "krn ?y = ?s" by (simp add: krn_def set_krn_def)
  have "sys_at ?y ?x t v'" using c p assms(3) k by (simp add: sys_at_def current_def at_def view_def)
  moreover have "same_user y ?y" using k by (auto simp: same_user_def set_krn_def intro!: check_ptr_cong)
  ultimately show ?thesis using w by blast
qed

lemma set_handle_at:
  assumes "sys_at y x t v"
  shows "\<exists>y'. set_handle fd h y = Some y' \<and> sys_at y' x (t\<lparr>fd_handles := (fd_handles t)[nat fd := Some h]\<rparr>) v \<and> same_user y y'"
proof -
  let ?t = "t\<lparr>fd_handles := (fd_handles t)[nat fd := Some h]\<rparr>"
  let ?y = "set_krn ((krn y)\<lparr>fd_tables := (fd_tables (krn y))(p_fd_table x \<mapsto> ?t)\<rparr>) y"
  have c: "current y = Some x" "at (fd_tables (krn y)) (p_fd_table x) = Some t" "view x (sy_v y) = v" using assms by (simp_all add: sys_at_def)
  then have "set_handle fd h y = Some ?y" by (simp add: set_handle_def fd_table_now_def)
  moreover have "sys_at ?y x ?t v" using c by (simp add: sys_at_def current_def at_def split: if_splits)
  moreover have "same_user y ?y" by (auto simp: same_user_def intro!: check_ptr_cong)
  ultimately show ?thesis by blast
qed

lemma sys_at_mem: "sys_at (y\<lparr>sy_mem := m\<rparr>) x t v = sys_at y x t v" "check_ptr (y\<lparr>sy_mem := m\<rparr>) = check_ptr y"
  by (auto simp: sys_at_def current_def krn_def intro!: check_ptr_cong)

lemma fd_lookup_open:
  assumes "sys_at y x t v" "i < length (fd_handles t)" "int i \<le> fd_capacity t" "fd_handles t ! i = Some h"
  shows "fd_lookup (int i) y = Some (Opened h)" "fd_table_now y = Some t" "handle_at t (int i) = Some (Some h)"
  using assms by (simp_all add: sys_at_def fd_lookup_def fd_table_now_def handle_at_def)

lemma sys_open_at:
  assumes "sys_at y x t v" "ustring (sy_mem y) p = Some name" "length name \<le> 4096"
    "open_path (e_k e) (e_dr e) (e_n e) name (wrap_int mode) v = Some (node, v')" "node \<noteq> NULL" "v_has_process v'"
    "fd_ok t" "None \<in> set (fd_handles t)"
  shows "\<exists>i y' x' t'. sys_open e p mode y = Some (Ret (int i) y') \<and> sys_at y' x' t' v' \<and> same_user y y' \<and> i < length (fd_handles t) \<and>
    fd_ok t' \<and> fd_handles t ! i = None \<and>
    fd_handles t' = (fd_handles t)[i := Some \<lparr>fh_fileNode = node, fh_mode = wrap_int mode, fh_offset = 0, fh_flags = 0\<rparr>]"
proof -
  let ?x = "x\<lparr>p_cwd := v_cwd v', p_cwd_file := v_cwd_file v'\<rparr>"
  let ?i = "free_slot (fd_handles t) (length (fd_handles t))"
  let ?t = "t\<lparr>fd_handles := (fd_handles t)[?i := Some \<lparr>fh_fileNode = node, fh_mode = wrap_int mode, fh_offset = 0, fh_flags = 0\<rparr>],
      fd_length := fd_length t + 1, fd_lock := False\<rparr>"
  obtain y1 where y1: "open_at e name (wrap_int mode) y = Some (node, y1)" "sys_at y1 ?x t v'" "same_user y y1"
    using with_vfs_at [where f = "open_path (e_k e) (e_dr e) (e_n e) name (wrap_int mode)" and v = v, OF assms(1,4,6)] by (auto simp: open_at_def)
  have c: "at (procs (krn y1)) (current_process (krn y1)) = Some ?x" "at (fd_tables (krn y1)) (p_fd_table ?x) = Some t"
    using y1(2) by (auto simp: sys_at_def current_def)
  let ?s = "(krn y1)\<lparr>fd_tables := (fd_tables (krn y1))(p_fd_table ?x \<mapsto> ?t)\<rparr>"
  note o = process_open_fd_ok [OF c assms(7,8), where node = node and mode = "wrap_int mode"]
  have "wrap_int (int (length name)) = int (length name)" using assms(3) by (intro wrap_int_small) auto
  then have op: "sys_open e p mode y = Some (Ret (int ?i) (set_krn ?s y1))"
    using assms(2,3,5) y1(1) o(1) by (simp add: sys_open_def)
  have at': "sys_at (set_krn ?s y1) ?x ?t v'" using y1(2) c by (simp add: sys_at_def current_def at_def split: if_splits)
  have "same_user y1 (set_krn ?s y1)" by (auto simp: same_user_def intro!: check_ptr_cong)
  then have su: "same_user y (set_krn ?s y1)" by (rule same_user_trans [OF y1(3)])
  show ?thesis
    by (rule exI [of _ ?i], rule exI [of _ "set_krn ?s y1"], rule exI [of _ ?x], rule exI [of _ ?t])
      (use op at' su o(2) free_slot_lowest [OF assms(8)] in simp)
qed

lemma sys_write_at:
  assumes "sys_at y x t v" "i < length (fd_handles t)" "int i \<le> fd_capacity t" "fd_handles t ! i = Some h" "check_ptr y buffer"
    "load (sy_mem y) buffer (unat sz) = Some data" "write_handle (e_dr e) h data v = Some (r, h1, v')" "v_has_process v'"
  shows "\<exists>y' x'. sys_write e (int i) buffer sz y = Some (Ret r y') \<and> same_user y y' \<and>
    sys_at y' x' (t\<lparr>fd_handles := (fd_handles t)[i := Some (h1\<lparr>fh_offset := fh_offset h1 + to_size r\<rparr>)]\<rparr>) v'"
proof -
  let ?f = "\<lambda>v. do { (r, h1, v1) \<leftarrow> write_handle (e_dr e) h data v; Some ((r, h1), v1) }"
  have "?f v = Some ((r, h1), v')" using assms(7) by simp
  from with_vfs_at [where f = ?f and v = v, OF assms(1) this assms(8)] obtain y1 x1 where y1: "with_vfs ?f y = Some ((r, h1), y1)"
    "sys_at y1 x1 t v'" "same_user y y1" by blast
  from set_handle_at [OF y1(2), of "int i" "h1\<lparr>fh_offset := fh_offset h1 + to_size r\<rparr>"] obtain y2 where
    y2: "set_handle (int i) (h1\<lparr>fh_offset := fh_offset h1 + to_size r\<rparr>) y1 = Some y2" "same_user y1 y2"
    "sys_at y2 x1 (t\<lparr>fd_handles := (fd_handles t)[i := Some (h1\<lparr>fh_offset := fh_offset h1 + to_size r\<rparr>)]\<rparr>) v'" by auto
  have "sys_write e (int i) buffer sz y = Some (Ret r y2)"
    using fd_lookup_open [OF assms(1-4)] assms(5,6) y1(1) y2(1) by (simp add: sys_write_def do_write_def)
  then show ?thesis using y2(3) same_user_trans [OF y1(3) y2(2)] by blast
qed

lemma sys_read_at:
  assumes "sys_at y x t v" "i < length (fd_handles t)" "int i \<le> fd_capacity t" "fd_handles t ! i = Some h" "check_ptr y buffer"
    "read_handle (e_dr e) h sz v = Some (r, bs, v')" "v_has_process v'" "store_bytes (sy_mem y) buffer (filled (e_junk e) bs) = Some m"
  shows "\<exists>y' x'. sys_read e (int i) buffer sz y = Some (Ret r y') \<and> sy_mem y' = m \<and> check_ptr y' = check_ptr y \<and>
    sys_at y' x' (t\<lparr>fd_handles := (fd_handles t)[i := Some (h\<lparr>fh_offset := fh_offset h + to_size r\<rparr>)]\<rparr>) v'"
proof -
  let ?f = "\<lambda>v. do { (r, bs, v1) \<leftarrow> read_handle (e_dr e) h sz v; Some ((r, bs), v1) }"
  have "?f v = Some ((r, bs), v')" using assms(6) by simp
  from with_vfs_at [where f = ?f and v = v, OF assms(1) this assms(7)] obtain y1 x1 where y1: "with_vfs ?f y = Some ((r, bs), y1)"
    "sys_at y1 x1 t v'" "same_user y y1" by blast
  have a: "sys_at (y1\<lparr>sy_mem := m\<rparr>) x1 t v'" using y1(2) by (simp add: sys_at_mem)
  from set_handle_at [OF a, of "int i" "h\<lparr>fh_offset := fh_offset h + to_size r\<rparr>"] obtain y2 where
    y2: "set_handle (int i) (h\<lparr>fh_offset := fh_offset h + to_size r\<rparr>) (y1\<lparr>sy_mem := m\<rparr>) = Some y2" "same_user (y1\<lparr>sy_mem := m\<rparr>) y2"
    "sys_at y2 x1 (t\<lparr>fd_handles := (fd_handles t)[i := Some (h\<lparr>fh_offset := fh_offset h + to_size r\<rparr>)]\<rparr>) v'" by auto
  have "sys_read e (int i) buffer sz y = Some (Ret r y2)"
    using fd_lookup_open [OF assms(1-4)] assms(3,5,8) y1(1,3) y2(1) by (simp add: sys_read_def do_read_def same_user_def)
  then show ?thesis using y2 y1(3) by (auto simp: same_user_def sys_at_mem)
qed


lemma sys_lseek_at:
  assumes "sys_at y x t v" "i < length (fd_handles t)" "int i \<le> fd_capacity t" "fd_handles t ! i = Some h"
    "at (v_nodes v) (fh_fileNode h) = Some f" "fn_type f = FILE_TYPE_FILE"
  shows "\<exists>y'. sys_lseek e (int i) off (SEEK_SET (e_abi e)) y = Some (Ret (to_int off) y') \<and> same_user y y' \<and>
    sys_at y' x (t\<lparr>fd_handles := (fd_handles t)[i := Some (h\<lparr>fh_offset := off\<rparr>)]\<rparr>) v"
proof -
  from set_handle_at [OF assms(1), of "int i" "h\<lparr>fh_offset := off\<rparr>"] obtain y2 where
    y2: "set_handle (int i) (h\<lparr>fh_offset := off\<rparr>) y = Some y2" "same_user y y2"
    "sys_at y2 x (t\<lparr>fd_handles := (fd_handles t)[i := Some (h\<lparr>fh_offset := off\<rparr>)]\<rparr>) v" by auto
  have "at (v_nodes (sy_v y)) (fh_fileNode h) = Some f" using assms(1,5) by (auto simp: sys_at_def view_def)
  then have "sys_lseek e (int i) off (SEEK_SET (e_abi e)) y = Some (Ret (to_int off) y2)"
    using fd_lookup_open [OF assms(1-4)] assms(6) y2(1)
    by (simp add: sys_lseek_def FILE_TYPE_FILE_def FILE_TYPE_VIRTUAL_DEVICE_def FILE_TYPE_NAMED_PIPE_def)
  then show ?thesis using y2 by blast
qed

lemma rdb_Some_iff: "rdb m p = Some b \<longleftrightarrow> p \<noteq> NULL \<and> m p = Some b"
  by (simp add: rdb_def)

lemma store_bytes_other:
  "store_bytes m p bs = Some m' \<Longrightarrow> \<forall>i < length bs. q \<noteq> p + of_nat i \<Longrightarrow> m' q = m q"
proof (induction bs arbitrary: m p)
  case (Cons b bs)
  from Cons.prems(1) obtain m1 where m1: "wrb m p b = Some m1" "store_bytes m1 (p + 1) bs = Some m'" by (auto split: bind_splits)
  have "q \<noteq> p" using Cons.prems(2) by (auto dest: spec [of _ 0])
  moreover have "\<forall>i < length bs. q \<noteq> p + 1 + of_nat i"
    using Cons.prems(2) by (auto dest: spec [of _ "Suc _"] simp: add.assoc)
  ultimately show ?case using Cons.IH [OF m1(2)] m1(1) by (auto simp: wrb_def split: if_splits)
qed simp

lemma store_bytes_load: "store_bytes m p bs = Some m' \<Longrightarrow> length bs < 2 ^ 64 \<Longrightarrow> load m' p (length bs) = Some bs"
proof (induction bs arbitrary: m p)
  case (Cons b bs)
  from Cons.prems(1) obtain m1 where m1: "wrb m p b = Some m1" "store_bytes m1 (p + 1) bs = Some m'" by (auto split: bind_splits)
  have "p \<noteq> p + 1 + of_nat i" if "i < length bs" for i
  proof -
    have "(1 :: u64) + of_nat i = of_nat (Suc i)" by simp
    moreover have "(of_nat (Suc i) :: u64) \<noteq> 0" using unat_of_nat_u64 [of "Suc i"] that Cons.prems(2) by (metis length_Cons less_trans nat.distinct(1) not_less_eq unat_0)
    ultimately show ?thesis by (metis add.assoc add_cancel_left_right)
  qed
  then have "m' p = m1 p" by (intro store_bytes_other [OF m1(2)]) simp
  then have "rdb m' p = Some b" using m1(1) by (auto simp: rdb_def wrb_def split: if_splits)
  then show ?case using Cons.IH [OF m1(2)] Cons.prems(2) by simp
qed simp

lemma load_dom: "load m p n \<noteq> None \<Longrightarrow> dom m \<subseteq> dom m' \<Longrightarrow> load m' p n \<noteq> None"
proof (induction n arbitrary: p)
  case (Suc n)
  then obtain b bs where "rdb m p = Some b" "load m (p + 1) n = Some bs" by (auto split: bind_splits)
  moreover from this have "rdb m' p \<noteq> None" using Suc.prems(2) by (auto simp: rdb_def split: if_splits)
  ultimately show ?case using Suc.IH [of "p + 1"] Suc.prems(2) by auto
qed simp

lemma store_bytes_ok: "load m p (length bs) \<noteq> None \<Longrightarrow> \<exists>m'. store_bytes m p bs = Some m'"
proof (induction bs arbitrary: m p)
  case (Cons b bs)
  then have l: "rdb m p \<noteq> None" "load m (p + 1) (length bs) \<noteq> None" by (auto split: bind_splits)
  then have "wrb m p b = Some (m(p \<mapsto> b))" by (auto simp: rdb_def wrb_def split: if_splits)
  moreover have "load (m(p \<mapsto> b)) (p + 1) (length bs) \<noteq> None" by (rule load_dom [OF l(2)]) auto
  ultimately show ?case using Cons.IH by auto
qed simp


lemma load_cstr: "cstr_at m p s \<Longrightarrow> load m p (length s) = Some s"
  by (induction s arbitrary: p) auto

lemma ustring_cstr: "cstr_at m p s \<Longrightarrow> length s < 2 ^ 64 \<Longrightarrow> ustring m p = Some s"
  using strlen_loop_cstr [of m p 0 s] load_cstr [of m p s] unat_of_nat_u64 [of "length s"] by (simp add: ustring_def strlen_def)

lemma ram_write_read:
  assumes "ram_open node blk v" "fh_fileNode h = node" "fh_mode h AND O_WRONLY = 0" "fh_mode h AND O_APPEND = 0"
    "unat (fh_offset h) + length bs \<le> 4096"
  shows "\<exists>v'. write_handle (ramfs_driver j n) h bs v = Some (int (length bs), h, v') \<and> same_cwd v v' \<and>
    (\<exists>f. at (v_nodes v') node = Some f \<and> fn_type f = FILE_TYPE_FILE) \<and>
    read_handle (ramfs_driver j n) h (of_nat (length bs)) v' = Some (int (length bs), map Some bs, v')"
proof -
  let ?blk = "take (unat (fh_offset h)) blk @ map Some bs @ drop (unat (fh_offset h) + length bs) blk"
  from ramfs_write_inside [OF assms(1,5)] obtain v' where
    w: "ramfs_write node bs (fh_offset h) v = Some (int (length bs), v')" "ram_open node ?blk v'" "same_cwd v v'" by blast
  have "length blk = 4096" using assms(1) by (simp add: ram_open_def)
  then have "take (length bs) (drop (unat (fh_offset h)) ?blk) = map Some bs" using assms(5) by simp
  then have r: "ramfs_read node (fh_offset h) (of_nat (length bs)) v' = Some (int (length bs), map Some bs, v')"
    using ramfs_read_inside [OF w(2) assms(5)] by simp
  obtain f1 f2 where f: "at (v_nodes v) node = Some f1" "op_write (fn_file_ops f1) = Some ''ramfs_write''"
    "at (v_nodes v') node = Some f2" "op_read (fn_file_ops f2) = Some ''ramfs_read''" "fn_type f2 = FILE_TYPE_FILE"
    using assms(1) w(2) by (auto simp: ram_open_def at_def)
  show ?thesis using f w(1,3) r assms(2-4) by (auto simp: write_handle_def read_handle_def ramfs_driver_calls)
qed

lemma set_krn_same: "set_krn (krn y) y = y" "process_lock s = b \<Longrightarrow> s\<lparr>process_lock := b\<rparr> = s" "set_krn s1 (set_krn s2 y) = set_krn s1 y"
  by (auto simp: set_krn_def krn_def)

section \<open>Properties\<close>

definition demo_user_vmm :: vmm where
  \<comment> \<open>\<open>demo_mapped\<close> with the page at \<^verbatim>\<open>0x400000\<close> open to the user\<close>
  "demo_user_vmm = demo_mapped\<lparr>vm_phys := (\<lambda>_. 0)(0x1000 := 0x2007, 0x2000 := 0x3007, 0x3010 := 0x4007, 0x4000 := 0x5007)\<rparr>"

definition demo_caller :: process_t where
  "demo_caller = (demo_proc 2)\<lparr>p_cwd := Some (cstr ''/''), p_cwd_file := 100\<rparr>"

definition demo_user_mem :: mem where
  \<comment> \<open>a path, two bytes of data and two bytes of space\<close>
  "demo_user_mem = [0x400000 \<mapsto> 47, 0x400001 \<mapsto> 116, 0x400002 \<mapsto> 109, 0x400003 \<mapsto> 112, 0x400004 \<mapsto> 47, 0x400005 \<mapsto> 120, 0x400006 \<mapsto> 0,
     0x400010 \<mapsto> 104, 0x400011 \<mapsto> 105, 0x400020 \<mapsto> 0, 0x400021 \<mapsto> 0]"

definition demo_sys :: "ramfs sysstate" where
  \<comment> \<open>process 2 of \<open>demo_life\<close> runs, on the file system \<open>demo_ramfs\<close>\<close>
  "demo_sys = \<lparr>sy_m = \<lparr>mk = demo_life\<lparr>procs := (procs demo_life)(2 \<mapsto> demo_caller), current_page_map := 0x1000\<rparr>, mv = demo_user_vmm,
       m_regs = [0x500 \<mapsto> demo_regs\<lparr>g_rax := 9, g_rdi := 0x7f0000001000, g_rsi := 0, g_r8 := 0\<rparr>], m_has_close = (\<lambda>_. False), m_closed = []\<rparr>,
     sy_v = demo_ramfs, sy_mem = demo_user_mem, sy_futex = ht_create 32, sy_futex_lock = False, sy_syscall = (\<lambda>_. 0)\<rparr>"

definition demo_env :: "sys_abi \<Rightarrow> ramfs sysenv" where
  "demo_env a = \<lparr>e_abi = a, e_dr = ramfs_driver 0 9, e_ioctl = (\<lambda>_ _ _ _ _. None), e_execve = (\<lambda>_ _ _ _. None), e_local = 0, e_r9 = 0,
     e_regs = demo_regs, e_link = (\<lambda>_ _ _ _. None), e_k = 4, e_n = 9, e_junk = 0,
     e_blocks = \<lparr>fb_process = 0, fb_mm = 0, fb_fdt = 0, fb_node = 0, fb_local = 0, fb_kstack = 0, fb_fork_exit = 0\<rparr>\<rparr>"

lemma demo_env_simps [simp]: "e_abi (demo_env a) = a" "e_dr (demo_env a) = ramfs_driver 0 9" "e_k (demo_env a) = 4" "e_n (demo_env a) = 9"
  "e_r9 (demo_env a) = 0"
  by (simp_all add: demo_env_def)

lemma demo_sys_simps:
  "krn demo_sys = demo_life\<lparr>procs := (procs demo_life)(2 \<mapsto> demo_caller), current_page_map := 0x1000\<rparr>" "sy_mem demo_sys = demo_user_mem"
  "current demo_sys = Some demo_caller" "p_fd_table demo_caller = 100"
  by (simp_all add: demo_sys_def krn_def current_def at_def demo_caller_def)

abbreviation "demo_seen \<equiv> view demo_caller demo_ramfs"

lemma demo_sys_at: "sys_at demo_sys demo_caller demo_fds demo_seen"
  by (simp add: sys_at_def demo_sys_simps at_def) (simp add: demo_sys_def)

lemma demo_check_ptr: "check_ptr demo_sys 0x400000" "check_ptr demo_sys 0x400010" "check_ptr demo_sys 0x400020"
  by (simp_all add: check_ptr_def CHECK_PTR_def memmgr_check_user_def memory_def demo_sys_def demo_user_vmm_def rdw_def LOW_MEMORY_def KERNEL_MEMORY_def
      PML4_INDEX_def PDP_INDEX_def PD_INDEX_def PT_INDEX_def memmgr_get_from_physical_def PAGE_USER_def PAGE_LARGE_def PAGE_MASK_def)

lemma demo_user_strings:
  "ustring demo_user_mem 0x400000 = Some (cstr ''/tmp/x'')" "load demo_user_mem 0x400010 (unat (2 :: u64)) = Some [104, 105]"
  "load demo_user_mem 0x400020 (unat (2 :: u64)) \<noteq> None"
proof -
  have "cstr_at demo_user_mem 0x400000 (cstr ''/tmp/x'')" by (simp add: cstr_def demo_user_mem_def rdb_def)
  then show "ustring demo_user_mem 0x400000 = Some (cstr ''/tmp/x'')" by (rule ustring_cstr) (simp add: cstr_def)
  have two: "load m q 2 = do { a \<leftarrow> rdb m q; b \<leftarrow> rdb m (q + 1); Some [a, b] }" for m q by (simp add: numeral_2_eq_2)
  show "load demo_user_mem 0x400010 (unat (2 :: u64)) = Some [104, 105]" "load demo_user_mem 0x400020 (unat (2 :: u64)) \<noteq> None"
    by (simp_all add: two) (simp_all add: demo_user_mem_def rdb_def)
qed

lemma demo_seen_facts: "cwd_known demo_seen" "vfs_ok demo_seen demo_root" "v_nodes demo_seen = v_nodes demo_ramfs" "v_supply demo_seen = v_supply demo_ramfs"
  using demo_ramfs_ok by (simp_all add: cwd_known_def vfs_ok_def view_def demo_caller_def)

lemma demo_seen_walk:
  "name_walk demo_seen demo_root [demo_root] (path_tokens (cstr ''/tmp/x'')) = Missing (Rose 32 101 []) (cstr ''x'') []"
proof -
  have "path_tokens (cstr ''/tmp/x'') = [cstr ''tmp'', cstr ''x'']" by (simp add: cstr_def path_tokens.simps)
  then show ?thesis
    by (simp only:) (simp add: cstr_def find_kid_def node_name_def view_def demo_ramfs_def demo_root_def empty_node_def)
qed

text \<open>C5. A file that a process creates through the system calls reads back: when the path is missing below a RAM directory, \<^verbatim>\<open>sys_open\<close> with
  \<^verbatim>\<open>O_CREAT\<close> returns a descriptor, \<^verbatim>\<open>sys_write\<close> through it reports the whole buffer of at most 4096 bytes as written, \<^verbatim>\<open>sys_lseek\<close> returns to the
  start, and \<^verbatim>\<open>sys_read\<close> into another buffer reports as many bytes and leaves exactly the written ones there.\<close>

theorem sys_open_write_read:
  assumes "sys_at y x t v" "cwd_known v" "vfs_ok v r" "depth r \<le> e_n e" "e_dr e = ramfs_driver j (e_n e)" "e_k e = Suc (Suc (Suc (Suc k)))"
    and path: "ustring (sy_mem y) path = Some file" "length file \<le> 4096" "take 1 file = cstr ''/''"
    "name_walk v r [r] (path_tokens file) = Missing d nm []" "d \<in> set (subtrees r)" "v_nodes v (r_val d) = Some p"
    "op_find_dir (fn_file_ops p) = None" "op_create (fn_file_ops p) = Some ''ramfs_create''" "length nm < 256"
    "v_supply v = a1 # a2 # a3 # a4 # as"
    and mode: "wrap_int mode AND O_DIRECTORY = 0" "wrap_int mode AND O_CREAT \<noteq> 0" "wrap_int mode AND O_WRONLY = 0" "wrap_int mode AND O_APPEND = 0"
    and fds: "fd_ok t" "None \<in> set (fd_handles t)"
    and bufs: "check_ptr y src" "load (sy_mem y) src (unat sz) = Some data" "unat sz \<le> 4096" "check_ptr y dst" "load (sy_mem y) dst (unat sz) \<noteq> None"
  shows "\<exists>fd y1 y2 y3 y4. sys_open e path mode y = Some (Ret fd y1) \<and> sys_write e fd src sz y1 = Some (Ret (int (unat sz)) y2) \<and>
    sys_lseek e fd 0 (SEEK_SET (e_abi e)) y2 = Some (Ret 0 y3) \<and> sys_read e fd dst sz y3 = Some (Ret (int (unat sz)) y4) \<and>
    load (sy_mem y4) dst (unat sz) = Some data"
proof -
  let ?h = "\<lparr>fh_fileNode = a1, fh_mode = wrap_int mode, fh_offset = 0, fh_flags = 0\<rparr>"
  have len: "length data = unat sz" using load_length [OF bufs(2)] .
  then have sz: "of_nat (length data) = sz" by simp
  have hp: "v_has_process v" using assms(1) by (auto simp: sys_at_def view_def)
  from ramfs_open_creates [OF assms(3,4) path(3-8) assms(2) path(9,10) mode(1,2), of k j] obtain v1 where
    v1: "open_path (e_k e) (e_dr e) (e_n e) file (wrap_int mode) v = Some (a1, v1)" "ram_open a1 (replicate 4096 None) v1" "same_cwd v v1"
    unfolding assms(5,6) by blast
  from ram_write_read [OF v1(2), of ?h data j "e_n e"] mode(3,4) bufs(3) len obtain v2 f where
    v2: "write_handle (e_dr e) ?h data v1 = Some (int (unat sz), ?h, v2)" "same_cwd v1 v2" "at (v_nodes v2) a1 = Some f" "fn_type f = FILE_TYPE_FILE"
    "read_handle (e_dr e) ?h sz v2 = Some (int (unat sz), map Some data, v2)" unfolding assms(5) len by auto
  have pr: "v_has_process v1" "v_has_process v2" "a1 \<noteq> NULL" using hp v1(2,3) v2(2) by (simp_all add: same_cwd_def ram_open_def)
  from sys_open_at [OF assms(1) path(1,2) v1(1) pr(3,1) fds] obtain i y1 x1 t1 where
    o: "sys_open e path mode y = Some (Ret (int i) y1)" "sys_at y1 x1 t1 v1" "same_user y y1" "i < length (fd_handles t)" "fd_ok t1"
    "fd_handles t1 = (fd_handles t)[i := Some ?h]" by blast
  then have i: "i < length (fd_handles t1)" "int i \<le> fd_capacity t1" "fd_handles t1 ! i = Some ?h" by (auto simp: fd_ok_def)
  have u: "check_ptr y1 src" "load (sy_mem y1) src (unat sz) = Some data" using o(3) bufs by (simp_all add: same_user_def)
  from sys_write_at [OF o(2) i u v2(1) pr(2)] obtain y2 x2 where
    w: "sys_write e (int i) src sz y1 = Some (Ret (int (unat sz)) y2)" "same_user y1 y2"
    "sys_at y2 x2 (t1\<lparr>fd_handles := (fd_handles t1)[i := Some (?h\<lparr>fh_offset := fh_offset ?h + to_size (int (unat sz))\<rparr>)]\<rparr>) v2" by blast
  from sys_lseek_at [OF w(3), of i _ f e 0] i v2(3,4) obtain y3 where
    s: "sys_lseek e (int i) 0 (SEEK_SET (e_abi e)) y2 = Some (Ret 0 y3)" "same_user y2 y3"
    "sys_at y3 x2 (t1\<lparr>fd_handles := (fd_handles t1)[i := Some ?h]\<rparr>) v2" by (auto simp: to_int_def)
  note su = same_user_trans [OF same_user_trans [OF o(3) w(2)] s(2)]
  have fl: "filled (e_junk e) (map Some data) = data" by (simp add: filled_def comp_def)
  have "load (sy_mem y3) dst (length data) \<noteq> None" "check_ptr y3 dst" using su bufs len by (simp_all add: same_user_def)
  then obtain m where m: "store_bytes (sy_mem y3) dst (filled (e_junk e) (map Some data)) = Some m"
    using store_bytes_ok fl by metis
  from sys_read_at [OF s(3) _ _ _ \<open>check_ptr y3 dst\<close> v2(5) pr(2) m, of i] i obtain y4 where
    rd: "sys_read e (int i) dst sz y3 = Some (Ret (int (unat sz)) y4)" "sy_mem y4 = m" by auto
  have "load m dst (unat sz) = Some data" using store_bytes_load [OF m] bufs(3) len by (simp add: fl)
  then show ?thesis using o(1) w(1) s(1) rd by blast
qed

theorem sys_open_write_read_witness:
  "\<forall>a. \<exists>fd y1 y2 y3 y4. sys_open (demo_env a) 0x400000 64 demo_sys = Some (Ret fd y1) \<and>
    sys_write (demo_env a) fd 0x400010 2 y1 = Some (Ret 2 y2) \<and> sys_lseek (demo_env a) fd 0 (SEEK_SET a) y2 = Some (Ret 0 y3) \<and>
    sys_read (demo_env a) fd 0x400020 2 y3 = Some (Ret 2 y4) \<and> load (sy_mem y4) 0x400020 2 = Some [104, 105]"
proof
  fix a
  let ?p = "empty_node\<lparr>fn_name := cstr ''tmp'', fn_type := FILE_TYPE_MOUNT_POINT, fn_file_ops := ramfs_ops\<lparr>op_mkdir := Some ''ramfs_mkdir''\<rparr>\<rparr>"
  have sub: "Rose 32 101 [] \<in> set (subtrees demo_root)" by (simp add: demo_root_def)
  have p: "v_nodes demo_seen (r_val (Rose 32 101 [])) = Some ?p" "op_find_dir (fn_file_ops ?p) = None" "op_create (fn_file_ops ?p) = Some ''ramfs_create''"
    using demo_ramfs_ok(3) by (simp_all add: demo_seen_facts ramfs_ops_def no_ops_def)
  have m: "wrap_int 64 AND O_DIRECTORY = 0" "wrap_int 64 AND O_CREAT \<noteq> 0" "wrap_int 64 AND O_WRONLY = 0" "wrap_int 64 AND O_APPEND = 0"
    by (simp_all add: wrap_int_def O_DIRECTORY_def O_CREAT_def O_WRONLY_def O_APPEND_def)
  have e: "depth demo_root \<le> e_n (demo_env a)" "e_dr (demo_env a) = ramfs_driver 0 (e_n (demo_env a))" "e_k (demo_env a) = Suc (Suc (Suc (Suc 0)))"
    "length (cstr ''/tmp/x'') \<le> 4096" "v_supply demo_seen = 200 # 300 # 400 # 48 # [201]" "None \<in> set (fd_handles demo_fds)" "unat (2 :: u64) \<le> 4096"
    using demo_vfs_ok(2) demo_ramfs_ok(4) by (simp_all add: cstr_def demo_seen_facts demo_fds_def)
  note str = demo_user_strings [folded demo_sys_simps(2)]
  from sys_open_write_read [OF demo_sys_at demo_seen_facts(1,2) e(1-3) str(1) e(4) demo_ramfs_walk(2) demo_seen_walk sub p demo_ramfs_walk(3) e(5) m
      demo_fds_ok e(6) demo_check_ptr(2) str(2) e(7) demo_check_ptr(3) str(3)]
  show "\<exists>fd y1 y2 y3 y4. sys_open (demo_env a) 0x400000 64 demo_sys = Some (Ret fd y1) \<and>
    sys_write (demo_env a) fd 0x400010 2 y1 = Some (Ret 2 y2) \<and> sys_lseek (demo_env a) fd 0 (SEEK_SET a) y2 = Some (Ret 0 y3) \<and>
    sys_read (demo_env a) fd 0x400020 2 y3 = Some (Ret 2 y4) \<and> load (sy_mem y4) 0x400020 2 = Some [104, 105]" by simp
qed

text \<open>C7. What \<^verbatim>\<open>sys_write\<close> does with every descriptor: one above the capacity of the table is refused, the one equal to the capacity, and a
  negative one, reach an access outside the array of handles, and below the capacity the call fails on a free slot or a pointer that is not the
  user's. \<^verbatim>\<open>sys_read\<close> makes the access outside the array for every descriptor from the capacity on.\<close>

theorem sys_descriptor_bounds:
  assumes "fd_table_now y = Some t" "fd_ok t"
  shows "sys_write e fd buf sz y = (if fd > fd_capacity t then Some (Ret (-1) y) else if 0 \<le> fd \<and> fd < fd_capacity t then
      (case fd_handles t ! nat fd of None \<Rightarrow> Some (Ret (-1) y)
       | Some h \<Rightarrow> if check_ptr y buf then map_option (\<lambda>(k, y1). Ret k y1) (do_write e fd h buf sz y) else Some (Ret (-1) y)) else None) \<and>
    (fd \<ge> fd_capacity t \<longrightarrow> sys_read e fd buf sz y = None)"
  using assms by (auto simp: sys_write_def sys_read_def fd_lookup_def handle_at_def fd_ok_def map_option_case split: option.splits bind_splits)

theorem sys_descriptor_bounds_witness:
  "\<forall>a. sys_write (demo_env a) 4 0x400010 2 demo_sys = Some (Ret (-1) demo_sys) \<and> sys_write (demo_env a) 3 0x400010 2 demo_sys = None \<and>
    sys_read (demo_env a) 4 0x400020 2 demo_sys = None"
proof
  fix a
  have t: "fd_table_now demo_sys = Some demo_fds" using demo_sys_at by (simp add: sys_at_def fd_table_now_def)
  show "sys_write (demo_env a) 4 0x400010 2 demo_sys = Some (Ret (-1) demo_sys) \<and> sys_write (demo_env a) 3 0x400010 2 demo_sys = None \<and>
    sys_read (demo_env a) 4 0x400020 2 demo_sys = None"
    using sys_descriptor_bounds [OF t demo_fds_ok, of "demo_env a" 4 "0x400010" 2] sys_descriptor_bounds [OF t demo_fds_ok, of "demo_env a" 3 "0x400010" 2]
      sys_descriptor_bounds [OF t demo_fds_ok, of "demo_env a" 4 "0x400020" 2] by (simp add: demo_fds_def)
qed

text \<open>C9. \<^verbatim>\<open>sys_wait4\<close> does not wait: when the first descendant in the process tree has not finished and is selected by the \<^verbatim>\<open>pid\<close>, the call
  returns its number at once, with the tree unlocked again and nothing reaped or changed.\<close>

theorem sys_wait4_returns_live_child:
  assumes "current y = Some me" "\<not> process_lock (krn y)" "tree_repr (tree_heap (krn y)) (process_tree (krn y)) r" "depth r \<le> e_n e"
    "first_subtree (current_process (krn y)) r = Some (Rose q v (Rose a c us # ts))"
    "at (procs (krn y)) c = Some x" "p_flags x AND PROC_FLAG_FINISHED = 0" "is_selected pid x me" "flags AND WNOHANG (e_abi e) = 0"
  shows "sys_wait4 e pid flags y = Some (Ret (p_id x) y)"
proof -
  let ?t = "Rose q v (Rose a c us # ts)" and ?s = "(krn y)\<lparr>process_lock := True\<rparr>"
  have t: "?t \<in> set (subtrees r)" using assms(5) by (auto simp: first_subtree_def find_Some_iff)
  have "rose_at (tree_heap (krn y)) NULL r" using assms(3) by (simp add: tree_repr_def)
  from subtrees_rose_at [OF this t] obtain q' where q: "rose_at (tree_heap (krn y)) q' ?t" by blast
  then have nd: "nrd (tree_heap (krn y)) q = Some \<lparr>tn_value = v, tn_children = a # map r_addr ts, tn_parent = q'\<rparr>" by (simp add: nrd_def)
  have f: "tree_find_child_root (e_n e) (tree_heap (krn y)) (process_tree (krn y)) (current_process (krn y)) = Some q"
    using find_in_tree [OF assms(3,4)] first_subtree_addr [of "current_process (krn y)" r] assms(5) by simp
  have rp: "tree_repr (tree_heap ?s) (process_tree ?s) r" using assms(3) by simp
  obtain cs where ch: "process_get_all_children (e_n e) (current_process ?s) ?s = Some (Some (c # cs))"
    using all_children_preorder [OF rp assms(4), of "current_process ?s"] assms(5) by simp
  have "wait_loop e pid (c # cs) (set_krn ?s y) = Some (Some (p_id x), set_krn ?s y)"
    using assms(1,6-8) by (simp add: current_def)
  moreover have "set_krn (release_process_tree_lock ?s) (set_krn ?s y) = y"
    using assms(2) by (simp add: release_process_tree_lock_def spin_unlock_def set_krn_same)
  ultimately show ?thesis using assms(2,9) f nd ch
    by (simp add: sys_wait4_def acquire_process_tree_lock_def spin_lock_def Let_def)
qed

definition demo_parent :: "ramfs sysstate" where
  \<comment> \<open>\<open>demo_sys\<close> with process 1, the parent of 2 and 3, on the processor\<close>
  "demo_parent = set_krn ((krn demo_sys)\<lparr>current_process := 1\<rparr>) demo_sys"

theorem sys_wait4_returns_live_child_witness:
  "\<forall>a. sys_wait4 (demo_env a) (-1) 0 demo_parent = Some (Ret 2 demo_parent)"
proof
  fix a
  have k: "krn demo_parent = demo_life\<lparr>procs := (procs demo_life)(2 \<mapsto> demo_caller), current_page_map := 0x1000, current_process := 1\<rparr>"
    by (simp add: demo_parent_def demo_sys_simps)
  have "\<not> process_lock (krn demo_parent)" by (simp add: k demo_life_def empty_kstate_def)
  moreover have "current demo_parent = Some (demo_proc 1)" "at (procs (krn demo_parent)) 2 = Some demo_caller" by (simp_all add: k current_def at_def)
  moreover have "p_flags demo_caller AND PROC_FLAG_FINISHED = 0" "p_id demo_caller = 2" by (simp_all add: demo_caller_def demo_proc_def empty_proc_def)
  moreover have "first_subtree (current_process (krn demo_parent)) demo_rose = Some (Rose 16 1 [Rose 32 2 [], Rose 48 3 []])"
    by (simp add: k first_subtree_def demo_rose_def)
  ultimately show "sys_wait4 (demo_env a) (-1) 0 demo_parent = Some (Ret 2 demo_parent)"
    using sys_wait4_returns_live_child [of demo_parent "demo_proc 1" demo_rose "demo_env a" 16 1 32 2 "[]" "[Rose 48 3 []]" demo_caller "-1" 0] demo_rose_facts
    by (simp add: k is_selected_def)
qed

text \<open>C6. The result of a system call reaches the caller through an \<^verbatim>\<open>int\<close>: \<^verbatim>\<open>syscall_entry\<close> stores a number of 32 bits in \<^verbatim>\<open>rax\<close>, which is the
  result of the call exactly when this fits; the address that \<^verbatim>\<open>sys_mmap\<close> returns above 2 GiB does not.\<close>

theorem syscall_entry_truncates:
  assumes "at (m_regs (sy_m y)) regs = Some r" "unat (g_rax r) < 272" "g_rax r \<noteq> 15"
    "upd_proc (current_process (krn y)) (\<lambda>x. x\<lparr>p_saved_registers := regs\<rparr>) (krn y) = Some s"
    "syscall_table e (unat (g_rax r)) (g_rdi r) (g_rsi r) (g_rdx r) (g_r10 r) (g_r8 r) (set_krn s y) = Some (Ret k y1)"
    "at (m_regs (sy_m y1)) regs = Some r1" "- (2 ^ 63) \<le> k" "k < 2 ^ 63"
  shows "\<exists>y' c. syscall_entry e regs y = Some (Ret c y') \<and> - (2 ^ 31) \<le> c \<and> c < 2 ^ 31 \<and>
    map_option g_rax (at (m_regs (sy_m y')) regs) = Some (to_size c) \<and> (to_size c = to_size k \<longleftrightarrow> - (2 ^ 31) \<le> k \<and> k < 2 ^ 31)"
proof -
  let ?c = "wrap_int k"
  have b: "- (2 ^ 31) \<le> ?c" "?c < 2 ^ 31" using sint_range_size [of "word_of_int k :: 32 word"] by (simp_all add: wrap_int_def word_size)
  have "to_size ?c = to_size k \<longleftrightarrow> ?c = k"
  proof
    assume "to_size ?c = to_size k"
    then have "sint (to_size ?c) = sint (to_size k)" by simp
    then show "?c = k" using b assms(7,8) by (simp add: to_size_def signed_of_int signed_take_bit_int_eq_self)
  qed simp
  moreover have "?c = k \<longleftrightarrow> - (2 ^ 31) \<le> k \<and> k < 2 ^ 31" using b wrap_int_small [of k] by auto
  ultimately show ?thesis using assms(1-6) b by (simp add: syscall_entry_def set_rax_def at_def split: if_splits)
qed

theorem syscall_entry_truncates_witness:
  "\<forall>a. \<exists>y' c. syscall_entry (demo_env a) 0x500 demo_sys = Some (Ret c y') \<and> - (2 ^ 31) \<le> c \<and> c < 2 ^ 31 \<and>
    map_option g_rax (at (m_regs (sy_m y')) 0x500) = Some (to_size c) \<and> to_size c \<noteq> to_size 0x7f0000001000"
proof
  fix a
  let ?r = "demo_regs\<lparr>g_rax := 9, g_rdi := 0x7f0000001000, g_rsi := 0, g_r8 := 0\<rparr>"
  let ?s = "(krn demo_sys)\<lparr>procs := (procs (krn demo_sys))(2 \<mapsto> demo_caller\<lparr>p_saved_registers := 0x500\<rparr>)\<rparr>"
  have r: "at (m_regs (sy_m demo_sys)) 0x500 = Some ?r" "unat (g_rax ?r) < 272" "g_rax ?r \<noteq> 15" by (simp_all add: demo_sys_def at_def)
  have s: "upd_proc (current_process (krn demo_sys)) (\<lambda>x. x\<lparr>p_saved_registers := 0x500\<rparr>) (krn demo_sys) = Some ?s"
    by (simp add: upd_proc_Some demo_sys_simps)
  let ?y = "set_memory (memory (sy_m (set_krn ?s demo_sys))) (set_krn ?s demo_sys)"
  have t: "syscall_table (demo_env a) (unat (g_rax ?r)) (g_rdi ?r) (g_rsi ?r) (g_rdx ?r) (g_r10 ?r) (g_r8 ?r) (set_krn ?s demo_sys) =
      Some (Ret 0x7f0000001000 ?y)"
    by (simp add: syscall_table_def sys_mmap_def mmap_def page_count_def Let_def)
  have "at (m_regs (sy_m ?y)) 0x500 = Some ?r" using r(1) by (simp add: set_memory_def set_krn_def)
  from syscall_entry_truncates [OF r s t this]
  show "\<exists>y' c. syscall_entry (demo_env a) 0x500 demo_sys = Some (Ret c y') \<and> - (2 ^ 31) \<le> c \<and> c < 2 ^ 31 \<and>
    map_option g_rax (at (m_regs (sy_m y')) 0x500) = Some (to_size c) \<and> to_size c \<noteq> to_size 0x7f0000001000" by auto
qed

text \<open>C8. \<^verbatim>\<open>sys_fstat\<close> on the descriptor that \<^verbatim>\<open>sys_open\<close> returned for a path writes the same status as \<^verbatim>\<open>sys_stat\<close> on the path, and both succeed.\<close>

theorem sys_fstat_agrees_with_stat:
  assumes "sys_at y x t v" "cwd_known v" "vfs_ok v r" "e_k e = Suc (Suc k)"
    and path: "ustring (sy_mem y) path = Some file" "length file \<le> 4096" "take 1 file = cstr ''/''" "path_tokens file \<noteq> []"
    "name_walk v r [r] (path_tokens file) = Found d" "d \<in> set (subtrees r)" "v_nodes v (r_val d) = Some f" "op_open (fn_file_ops f) = None"
    and fds: "fd_ok t" "None \<in> set (fd_handles t)"
    and bufs: "check_ptr y path" "check_ptr y statbuf" "stat_store (e_abi e) (node_stat (e_abi e) f) statbuf (sy_mem y) = Some m"
  shows "\<exists>fd y1 y2 y3. sys_open e path 0 y = Some (Ret fd y1) \<and> sys_fstat e fd statbuf y1 = Some (Ret 0 y2) \<and>
    sys_stat e path statbuf y = Some (Ret 0 y3) \<and> sy_mem y2 = m \<and> sy_mem y3 = m"
proof -
  have w0: "wrap_int 0 = 0" by (simp add: wrap_int_def)
  have n: "r_val d \<noteq> NULL" using subtree_facts(3) [OF assms(3) path(6)] .
  have o: "open_path (e_k e) (e_dr e) (e_n e) file (wrap_int 0) v = Some (r_val d, v)"
    unfolding assms(4) w0 by (rule open_found [OF assms(3) path(3-8) assms(2)]) simp
  have hp: "v_has_process v" using assms(1) by (auto simp: sys_at_def view_def)
  from sys_open_at [OF assms(1) path(1,2) o n hp fds] obtain i y1 x1 t1 where
    y1: "sys_open e path 0 y = Some (Ret (int i) y1)" "sys_at y1 x1 t1 v" "same_user y y1" "i < length (fd_handles t)" "fd_ok t1"
    "fd_handles t1 = (fd_handles t)[i := Some \<lparr>fh_fileNode = r_val d, fh_mode = wrap_int 0, fh_offset = 0, fh_flags = 0\<rparr>]" by blast
  then have i: "i < length (fd_handles t1)" "int i \<le> fd_capacity t1"
    "fd_handles t1 ! i = Some \<lparr>fh_fileNode = r_val d, fh_mode = wrap_int 0, fh_offset = 0, fh_flags = 0\<rparr>" by (auto simp: fd_ok_def)
  have nd: "at (v_nodes (sy_v y')) (r_val d) = Some f" if "sys_at y' x' t' v" for y' x' t'
    using that path(7) n by (auto simp: sys_at_def view_def at_def)
  have "sys_fstat e (int i) statbuf y1 = Some (Ret 0 (y1\<lparr>sy_mem := m\<rparr>))"
    using fd_lookup_open(1) [OF y1(2) i] nd [OF y1(2)] y1(3) bufs by (simp add: sys_fstat_def put_stat_def same_user_def)
  moreover from with_vfs_at [where f = "open_path (e_k e) (e_dr e) (e_n e) file (wrap_int 0)" and v = v, OF assms(1) o hp] obtain y2 x2 where
    y2: "open_at e file 0 y = Some (r_val d, y2)" "sys_at y2 x2 t v" "same_user y y2" by (auto simp: open_at_def w0)
  have "sys_stat e path statbuf y = Some (Ret 0 (y2\<lparr>sy_mem := m\<rparr>))"
    using y2(1,3) nd [OF y2(2)] bufs path(1) n by (simp add: sys_stat_def put_stat_def same_user_def)
  ultimately show ?thesis using y1(1) by fastforce
qed

theorem sys_fstat_agrees_with_stat_witness:
  "\<forall>a. \<exists>fd y1 y2 y3. let e = demo_env (a\<lparr>stat_store := (\<lambda>st p m. wrb m p (ucast (st_size st)))\<rparr>); y = demo_sys\<lparr>sy_mem := demo_user_mem(0x400004 \<mapsto> 0)\<rparr> in
    sys_open e 0x400000 0 y = Some (Ret fd y1) \<and> sys_fstat e fd 0x400020 y1 = Some (Ret 0 y2) \<and> sys_stat e 0x400000 0x400020 y = Some (Ret 0 y3) \<and>
    sy_mem y2 = sy_mem y3"
proof
  fix a
  let ?e = "demo_env (a\<lparr>stat_store := (\<lambda>st p m. wrb m p (ucast (st_size st)))\<rparr>)" and ?y = "demo_sys\<lparr>sy_mem := demo_user_mem(0x400004 \<mapsto> 0)\<rparr>"
  let ?f = "empty_node\<lparr>fn_name := cstr ''tmp'', fn_type := FILE_TYPE_MOUNT_POINT, fn_file_ops := ramfs_ops\<lparr>op_mkdir := Some ''ramfs_mkdir''\<rparr>\<rparr>"
  have toks: "path_tokens (cstr ''/tmp'') = [cstr ''tmp'']" by (simp add: cstr_def path_tokens.simps)
  have at: "sys_at ?y demo_caller demo_fds demo_seen" using demo_sys_at by (simp add: sys_at_mem)
  have "cstr_at (demo_user_mem(0x400004 \<mapsto> 0)) 0x400000 (cstr ''/tmp'')" by (simp add: cstr_def demo_user_mem_def rdb_def)
  then have str: "ustring (sy_mem ?y) 0x400000 = Some (cstr ''/tmp'')" using ustring_cstr [of _ _ "cstr ''/tmp''"] by (simp add: cstr_def)
  have w: "name_walk demo_seen demo_root [demo_root] (path_tokens (cstr ''/tmp'')) = Found (Rose 32 101 [])"
    unfolding toks by (simp add: cstr_def find_kid_def node_name_def view_def demo_ramfs_def demo_root_def empty_node_def)
  have f: "Rose 32 101 [] \<in> set (subtrees demo_root)" "v_nodes demo_seen (r_val (Rose 32 101 [])) = Some ?f" "op_open (fn_file_ops ?f) = None"
    using demo_ramfs_ok(3) by (simp_all add: demo_root_def demo_seen_facts ramfs_ops_def no_ops_def)
  have e: "e_k ?e = Suc (Suc 2)" "length (cstr ''/tmp'') \<le> 4096" "take 1 (cstr ''/tmp'') = cstr ''/''" "path_tokens (cstr ''/tmp'') \<noteq> []"
    "None \<in> set (fd_handles demo_fds)" unfolding toks by (simp_all add: cstr_def demo_fds_def)
  have c: "check_ptr ?y 0x400000" "check_ptr ?y 0x400020" using demo_check_ptr by (simp_all add: sys_at_mem)
  obtain m where m: "stat_store (e_abi ?e) (node_stat (e_abi ?e) ?f) 0x400020 (sy_mem ?y) = Some m" by (simp add: wrb_def demo_user_mem_def)
  from sys_fstat_agrees_with_stat [OF at demo_seen_facts(1,2) e(1) str e(2-4) w f demo_fds_ok e(5) c m]
  show "\<exists>fd y1 y2 y3. let e = ?e; y = ?y in
    sys_open e 0x400000 0 y = Some (Ret fd y1) \<and> sys_fstat e fd 0x400020 y1 = Some (Ret 0 y2) \<and> sys_stat e 0x400000 0x400020 y = Some (Ret 0 y3) \<and>
    sy_mem y2 = sy_mem y3" unfolding Let_def by metis
qed

text \<open>C10. \<^verbatim>\<open>sys_brk\<close> works once: after a call that returned, the lock of the address space is still taken, and every further call is stuck on it.\<close>

theorem sys_brk_never_unlocks:
  assumes "sys_brk inc sz y = Some (Ret k y1)"
  shows "sys_brk inc' sz' y1 = None"
proof -
  obtain x d l where x: "current y = Some x" "at (mms (krn y)) (p_page_directory x) = Some d" "spin_lock (mm_lock d) = Some l"
    using assms by (auto simp: sys_brk_def split: bind_splits)
  let ?s = "(krn y)\<lparr>mms := (mms (krn y))(p_page_directory x \<mapsto> d\<lparr>mm_lock := l\<rparr>)\<rparr>"
  have l: "l" using x(3) by (auto simp: spin_lock_def split: if_splits)
  have "krn y1 = ?s" using assms x by (auto simp: sys_brk_def Let_def set_memory_def krn_def set_krn_def split: bind_splits if_splits)
  then show ?thesis using x l by (auto simp: sys_brk_def current_def at_def spin_lock_def split: if_splits)
qed

theorem sys_brk_never_unlocks_witness:
  "\<exists>k y1. sys_brk 1 0 (set_krn ((krn demo_sys)\<lparr>mms := [200 \<mapsto> (new_mm 4096)\<lparr>mm_heap := 0x600000\<rparr>]\<rparr>) demo_sys) = Some (Ret k y1) \<and> sys_brk 1 0 y1 = None"
proof -
  let ?y = "set_krn ((krn demo_sys)\<lparr>mms := [200 \<mapsto> (new_mm 4096)\<lparr>mm_heap := 0x600000\<rparr>]\<rparr>) demo_sys"
  have "current ?y = Some demo_caller" "p_page_directory demo_caller = 200"
    by (simp_all add: current_def demo_sys_simps at_def) (simp add: demo_caller_def)
  then have "\<exists>k y1. sys_brk 1 0 ?y = Some (Ret k y1)"
    by (simp add: sys_brk_def at_def new_mm_def spin_lock_def mmap_def page_count_def Let_def)
  then show ?thesis using sys_brk_never_unlocks by blast
qed

text \<open>\<^verbatim>\<open>sys_dup\<close> installs a handle with the node, the offset and the flags of the given one in the lowest free slot, but its mode is the field
  \<^verbatim>\<open>flags\<close> and not the mode of the file.\<close>

theorem sys_dup_drops_mode:
  assumes "sys_at y x t v" "fd_ok t" "None \<in> set (fd_handles t)" "i < length (fd_handles t)" "fd_handles t ! i = Some h"
  shows "\<exists>j y' t'. sys_dup (int i) y = Some (Ret (int j) y') \<and> sys_at y' x t' v \<and> j < length (fd_handles t) \<and> fd_handles t ! j = None \<and>
    (\<forall>l < j. fd_handles t ! l \<noteq> None) \<and> fd_handles t' = (fd_handles t)[j := Some (h\<lparr>fh_mode := fh_flags h\<rparr>)]"
proof -
  let ?j = "free_slot (fd_handles t) (length (fd_handles t))" and ?h = "h\<lparr>fh_mode := fh_flags h, fh_offset := 0, fh_flags := 0\<rparr>"
  let ?t = "t\<lparr>fd_handles := (fd_handles t)[?j := Some ?h], fd_length := fd_length t + 1, fd_lock := False\<rparr>"
  let ?s = "(krn y)\<lparr>fd_tables := (fd_tables (krn y))(p_fd_table x \<mapsto> ?t)\<rparr>"
  have c: "at (procs (krn y)) (current_process (krn y)) = Some x" "at (fd_tables (krn y)) (p_fd_table x) = Some t"
    using assms(1) by (auto simp: sys_at_def current_def)
  have eq: "\<lparr>fh_fileNode = fh_fileNode h, fh_mode = fh_flags h, fh_offset = 0, fh_flags = 0\<rparr> = ?h" by (cases h) simp
  note o = process_open_fd_ok [OF c assms(2,3), where node = "fh_fileNode h" and mode = "fh_flags h", unfolded eq]
  note low = free_slot_lowest [OF assms(3)]
  have at1: "sys_at (set_krn ?s y) x ?t v" using assms(1) c by (simp add: sys_at_def current_def at_def split: if_splits)
  have sh: "same_handle (int ?j) (set_krn ?s y) = Some ?h"
    using at1 low by (simp add: same_handle_def sys_at_def fd_table_now_def handle_at_def)
  from set_handle_at [OF at1, of "int ?j" "?h\<lparr>fh_offset := fh_offset h, fh_flags := fh_flags h\<rparr>"] obtain y2 where
    y2: "set_handle (int ?j) (?h\<lparr>fh_offset := fh_offset h, fh_flags := fh_flags h\<rparr>) (set_krn ?s y) = Some y2"
    "sys_at y2 x (?t\<lparr>fd_handles := (fd_handles t)[?j := Some (h\<lparr>fh_mode := fh_flags h\<rparr>)]\<rparr>) v" by auto
  have "int i \<le> fd_capacity t" using assms(2,4) by (simp add: fd_ok_def)
  then have "sys_dup (int i) y = Some (Ret (int ?j) y2)"
    using fd_lookup_open(1) [OF assms(1,4) _ assms(5)] o(1) sh y2(1) by (simp add: sys_dup_def)
  then show ?thesis using y2(2) low by fastforce
qed

theorem sys_dup_drops_mode_witness:
  "\<exists>j y' t'. sys_dup 0 demo_sys = Some (Ret (int j) y') \<and> sys_at y' demo_caller t' demo_seen \<and>
    fd_handles t' = (fd_handles demo_fds)[j := Some (demo_handle\<lparr>fh_mode := fh_flags demo_handle\<rparr>)]"
  using sys_dup_drops_mode [OF demo_sys_at demo_fds_ok, of 0 demo_handle] by (auto simp: demo_fds_def)

text \<open>No path of \<^verbatim>\<open>sys_futex\<close> reports success: it returns one of three errors, also after it has woken processes or has been woken itself,
  and it leaves the processor only to wait.\<close>

theorem sys_futex_never_zero:
  assumes "sys_futex e p action val timeout y = Some out \<or> sys_futex_resume e p y = Some out"
  shows "case out of Ret k _ \<Rightarrow> k \<in> {- EINVAL (sa_fs (e_abi e)), - EAGAIN (e_abi e), - ENOSYS (e_abi e)} | Switched _ \<Rightarrow> action = FUTEX_WAIT"
  using assms by (auto simp: sys_futex_def sys_futex_resume_def Let_def split: if_splits bind_splits option.splits outcome.splits)

theorem sys_futex_never_zero_witness:
  "\<forall>a. sys_futex (demo_env a) 0xffffff0000000000 1 0 0 demo_sys = Some (Ret (- EINVAL (sa_fs a)) demo_sys) \<and>
    - EINVAL (sa_fs a) \<in> {- EINVAL (sa_fs a), - EAGAIN a, - ENOSYS a}"
proof
  fix a
  have "sys_futex (demo_env a) 0xffffff0000000000 1 0 0 demo_sys = Some (Ret (- EINVAL (sa_fs a)) demo_sys)"
    by (simp add: sys_futex_def check_ptr_def CHECK_PTR_def)
  then show "sys_futex (demo_env a) 0xffffff0000000000 1 0 0 demo_sys = Some (Ret (- EINVAL (sa_fs a)) demo_sys) \<and>
    - EINVAL (sa_fs a) \<in> {- EINVAL (sa_fs a), - EAGAIN a, - ENOSYS a}"
    using sys_futex_never_zero [of "demo_env a" "0xffffff0000000000" 1 0 0 demo_sys] by simp
qed

text \<open>\<^verbatim>\<open>sys_ppoll\<close> restores the signal mask with \<^verbatim>\<open>sys_rt_sigprocmask\<close> from a local variable of the kernel; where the pointer check refuses this
  address, the call ends with the temporary mask in force.\<close>

theorem sys_ppoll_keeps_mask:
  assumes "check_ptr y sigmask" "sys_rt_sigprocmask e (SIG_SETMASK (sa_sig (e_abi e))) sigmask local y = Some (Ret r1 y1)"
    "sys_poll e fdbuf nfds (-1) y1 = Some (Ret r y2)" "current y2 \<noteq> None" "\<not> check_ptr y2 local"
  shows "sys_ppoll e local fdbuf nfds NULL sigmask y = Some (Ret r y2)"
  using assms by (auto simp: sys_ppoll_def ppoll_leave_def sys_rt_sigprocmask_def)

end
