(* ===== verification/Elf.thy ===== *)
theory Elf
  imports Syscall
begin

text \<open>
  The ELF loader of \<^verbatim>\<open>kernel/program/elf.c\<close>. Headers are decoded from the bytes that the file system delivers; a structure that a short read does not
  fill keeps what it held. The memory is the map of bytes of the system calls, into which \<^verbatim>\<open>mmap\<close> enters new pages. \<^verbatim>\<open>module_elf\<close> works on a block of
  kernel memory, with the address arithmetic of the code: where it adds a byte offset to a pointer to section headers, the offset is scaled by
  their size. The blocks that \<^verbatim>\<open>malloc\<close> returns are arguments.
\<close>

unbundle bit_operations_syntax

section \<open>Structures\<close>

definition le_num :: "bytes \<Rightarrow> nat \<Rightarrow> nat \<Rightarrow> nat" where
  \<comment> \<open>the number in \<open>n\<close> bytes at an offset\<close>
  "le_num img off n = foldr (\<lambda>b k. unat b + 256 * k) (take n (drop off img)) 0"

record Elf64_Ehdr =
  e_ident :: bytes
  e_type :: u16
  e_machine :: u16
  e_version :: u32
  e_entry :: u64
  e_phoff :: u64
  e_shoff :: u64
  e_flags :: u32
  e_ehsize :: u16
  e_phentsize :: u16
  e_phnum :: u16
  e_shentsize :: u16
  e_shnum :: u16
  e_shstrndx :: u16

definition ehdr_of :: "bytes \<Rightarrow> Elf64_Ehdr" where
  "ehdr_of b = \<lparr>e_ident = take 16 b, e_type = of_nat (le_num b 16 2), e_machine = of_nat (le_num b 18 2), e_version = of_nat (le_num b 20 4),
     e_entry = of_nat (le_num b 24 8), e_phoff = of_nat (le_num b 32 8), e_shoff = of_nat (le_num b 40 8), e_flags = of_nat (le_num b 48 4),
     e_ehsize = of_nat (le_num b 52 2), e_phentsize = of_nat (le_num b 54 2), e_phnum = of_nat (le_num b 56 2), e_shentsize = of_nat (le_num b 58 2),
     e_shnum = of_nat (le_num b 60 2), e_shstrndx = of_nat (le_num b 62 2)\<rparr>"

record elf64_program_header =
  ph_type :: u32
  ph_flags :: u32
  ph_offset :: u64
  ph_virt_addr :: u64
  ph_phys_addr :: u64
  ph_file_size :: u64
  ph_mem_size :: u64
  ph_alignment :: u64

definition phdr_of :: "bytes \<Rightarrow> elf64_program_header" where
  "phdr_of b = \<lparr>ph_type = of_nat (le_num b 0 4), ph_flags = of_nat (le_num b 4 4), ph_offset = of_nat (le_num b 8 8), ph_virt_addr = of_nat (le_num b 16 8),
     ph_phys_addr = of_nat (le_num b 24 8), ph_file_size = of_nat (le_num b 32 8), ph_mem_size = of_nat (le_num b 40 8), ph_alignment = of_nat (le_num b 48 8)\<rparr>"

record elf_t =
  el_header :: Elf64_Ehdr
  el_handle :: file_handle_t
  el_entrypoint :: u64

definition overlay :: "u8 \<Rightarrow> bytes \<Rightarrow> u8 option list \<Rightarrow> bytes option" where
  \<comment> \<open>a read into a structure that holds \<open>base\<close>; a fault when more is copied than fits\<close>
  "overlay junk base bs = (if length bs \<le> length base then Some (filled junk bs @ drop (length bs) base) else None)"

section \<open>Programs\<close>

definition load_elf :: "'d driver \<Rightarrow> u8 \<Rightarrow> file_handle_t \<Rightarrow> 'd vfs \<Rightarrow> (elf_t option \<times> 'd vfs) option" where
  "load_elf dr junk handle v = do {
     (_, bs, v1) \<leftarrow> read_handle dr handle 64 v;
     img \<leftarrow> overlay junk (replicate 64 0) bs;
     let h = ehdr_of img;
     if \<not> (e_ident h ! 0 = 0x7F \<and> e_ident h ! 1 = 0x45 \<and> e_ident h ! 2 = 0x4C \<and> e_ident h ! 3 = 0x46) then Some (None, v1)
     else if e_ident h ! 4 \<noteq> 2 then Some (None, v1)
     else Some (Some \<lparr>el_header = h, el_handle = handle, el_entrypoint = 0\<rparr>, v1)
   }"

definition map_page :: "u8 \<Rightarrow> u64 \<Rightarrow> 'd sysstate \<Rightarrow> 'd sysstate option" where
  \<comment> \<open>\<^verbatim>\<open>mmap((void*)ptr, 0x1000, false)\<close>; the page is new unless the result is 0, and zeroed unless the address was 0\<close>
  "map_page junk p y = do {
     (a, v) \<leftarrow> mmap p 0x1000 False (memory (sy_m y));
     let b = (if p AND NOT 0xfff = 0 then junk else 0);
     Some ((set_memory v y)\<lparr>sy_mem := (\<lambda>q. if a \<noteq> 0 \<and> q AND NOT 0xfff = a then Some b else sy_mem y q)\<rparr>)
   }"

fun map_segment :: "nat \<Rightarrow> u8 \<Rightarrow> u64 \<Rightarrow> u64 \<Rightarrow> 'd sysstate \<Rightarrow> 'd sysstate option" where
  \<comment> \<open>the loop from \<open>p\<close> up to the limit\<close>
  "map_segment 0 junk p lim y = None"
| "map_segment (Suc k) junk p lim y =
     (if p < lim then do { y1 \<leftarrow> map_page junk p y; map_segment k junk (p + 0x1000) lim y1 } else Some y)"

definition load_segment :: "nat \<Rightarrow> 'd driver \<Rightarrow> u8 \<Rightarrow> file_handle_t \<Rightarrow> elf64_program_header \<Rightarrow> 'd sysstate \<Rightarrow> 'd sysstate option" where
  \<comment> \<open>the body of the loop of \<^verbatim>\<open>exec_elf\<close> for a segment to be loaded\<close>
  "load_segment k dr junk handle p y = do {
     y1 \<leftarrow> map_segment k junk (ph_virt_addr p) (ph_virt_addr p + ph_mem_size p) y;
     (_, bs, v) \<leftarrow> read_handle dr (handle\<lparr>fh_offset := ph_offset p\<rparr>) (ph_file_size p) (sy_v y1);
     m \<leftarrow> store_bytes (sy_mem y1) (ph_virt_addr p) (filled junk bs);
     m1 \<leftarrow> memset m (ph_virt_addr p + ph_file_size p) 0 (ph_mem_size p - ph_file_size p);
     Some (y1\<lparr>sy_v := v, sy_mem := m1\<rparr>)
   }"

fun exec_loop :: "nat \<Rightarrow> 'd driver \<Rightarrow> u8 \<Rightarrow> bytes \<Rightarrow> elf_t \<Rightarrow> nat list \<Rightarrow> 'd sysstate \<Rightarrow> (elf_t \<times> 'd sysstate) option" where
  \<comment> \<open>\<open>stack\<close> is what the local program header holds before the read; the handle keeps the last offset\<close>
  "exec_loop k dr junk stack elf [] y = Some (elf, y)"
| "exec_loop k dr junk stack elf (i # is) y = do {
     let off = e_phoff (el_header elf) + to_size (wrap_int (int i * uint (e_phentsize (el_header elf))));
     let h1 = (el_handle elf)\<lparr>fh_offset := off\<rparr>;
     (_, bs, v) \<leftarrow> read_handle dr h1 56 (sy_v y);
     img \<leftarrow> overlay junk stack bs;
     let p = phdr_of img;
     if ph_type p = 1 then do {
       y1 \<leftarrow> load_segment k dr junk h1 p (y\<lparr>sy_v := v\<rparr>);
       exec_loop k dr junk stack (elf\<lparr>el_handle := h1\<lparr>fh_offset := ph_offset p\<rparr>\<rparr>) is y1
     } else exec_loop k dr junk stack (elf\<lparr>el_handle := h1\<rparr>) is (y\<lparr>sy_v := v\<rparr>)
   }"

definition exec_elf :: "nat \<Rightarrow> 'd driver \<Rightarrow> u8 \<Rightarrow> bytes \<Rightarrow> elf_t \<Rightarrow> 'd sysstate \<Rightarrow> (int \<times> elf_t \<times> 'd sysstate) option" where
  "exec_elf k dr junk stack elf y = do {
     (elf1, y1) \<leftarrow> exec_loop k dr junk stack elf [0..<unat (e_phnum (el_header elf))] y;
     Some (0, elf1\<lparr>el_entrypoint := e_entry (el_header elf1)\<rparr>, y1)
   }"

section \<open>Modules\<close>

definition load_num :: "mem \<Rightarrow> ptr \<Rightarrow> nat \<Rightarrow> nat option" where
  "load_num m p n = do { bs \<leftarrow> load m p n; Some (le_num bs 0 n) }"

definition store_num :: "mem \<Rightarrow> ptr \<Rightarrow> nat \<Rightarrow> u64 \<Rightarrow> mem option" where
  "store_num m p n w = store_bytes m p (map (\<lambda>i. ucast (drop_bit (8 * i) w)) [0..<n])"

record module_env =
  mo_space :: ptr                \<comment> \<open>\<^verbatim>\<open>malloc(elf_file->handle->fileNode->size)\<close>\<close>
  mo_bss :: "nat \<Rightarrow> ptr"         \<comment> \<open>\<^verbatim>\<open>malloc(shdr->sh_size)\<close> for a section\<close>
  mo_module :: ptr               \<comment> \<open>\<^verbatim>\<open>calloc(1, sizeof(module_t))\<close>\<close>
  mo_symbols :: ksymtab
  mo_init :: "u64 \<Rightarrow> int"        \<comment> \<open>the function \<^verbatim>\<open>init\<close> at an address\<close>

definition shdr_at :: "ptr \<Rightarrow> Elf64_Ehdr \<Rightarrow> int \<Rightarrow> u64" where
  \<comment> \<open>\<^verbatim>\<open>module_space + (e_shoff + i * e_shentsize)\<close> on a pointer to \<^verbatim>\<open>void\<close>\<close>
  "shdr_at base h i = base + (e_shoff h + to_size (wrap_int (i * uint (e_shentsize h))))"

definition shdr_scaled :: "ptr \<Rightarrow> Elf64_Ehdr \<Rightarrow> int \<Rightarrow> u64" where
  \<comment> \<open>\<^verbatim>\<open>(Elf64_Shdr*)module_space + (e_shoff + i * e_shentsize)\<close>: 64 bytes for each unit\<close>
  "shdr_scaled base h i = base + 64 * (e_shoff h + to_size (wrap_int (i * uint (e_shentsize h))))"

definition shdr_linked :: "(ptr \<Rightarrow> Elf64_Ehdr \<Rightarrow> int \<Rightarrow> u64) \<Rightarrow> ptr \<Rightarrow> Elf64_Ehdr \<Rightarrow> nat \<Rightarrow> u64" where
  \<comment> \<open>with an index of 32 bits, the product is an unsigned number of 32 bits\<close>
  "shdr_linked f base h i = f base (h\<lparr>e_shentsize := 1, e_shoff := e_shoff h + ucast (of_nat i * ucast (e_shentsize h) :: u32)\<rparr>) 0"

fun place_sections :: "module_env \<Rightarrow> Elf64_Ehdr \<Rightarrow> nat list \<Rightarrow> u64 \<Rightarrow> mem \<Rightarrow> (u64 \<times> mem) option" where
  \<comment> \<open>the first loop: section addresses\<close>
  "place_sections w h [] sz m = Some (sz, m)"
| "place_sections w h (i # is) sz m = do {
     let s = shdr_at (mo_space w) h (int i);
     t \<leftarrow> load_num m (s + 4) 4;
     if t = 8 then do {
       len \<leftarrow> load_num m (s + 32) 8;
       m1 \<leftarrow> store_num m (s + 16) 8 (mo_bss w i);
       m2 \<leftarrow> memset m1 (mo_bss w i) 0 (of_nat len);
       place_sections w h is (sz + of_nat len) m2
     } else do {
       off \<leftarrow> load_num m (s + 24) 8;
       m1 \<leftarrow> store_num m (s + 16) 8 (mo_space w + of_nat off);
       place_sections w h is sz m1
     }
   }"

definition resolve_symbol :: "module_env \<Rightarrow> Elf64_Ehdr \<Rightarrow> u64 \<Rightarrow> u64 \<Rightarrow> mem \<Rightarrow> mem option" where
  \<comment> \<open>the value of the symbol at \<open>sy\<close>; the last branch of the code is not reached, for the index is not negative\<close>
  "resolve_symbol w h strings sy m = do {
     shndx \<leftarrow> load_num m (sy + 6) 2;
     if shndx > 0 then do {
       v \<leftarrow> load_num m (sy + 8) 8;
       a \<leftarrow> load_num m (shdr_scaled (mo_space w) h (int shndx) + 16) 8;
       store_num m (sy + 8) 8 (of_nat v + of_nat a)
     } else do {
       nm \<leftarrow> load_num m sy 4;
       name \<leftarrow> ustring m (strings + of_nat nm);
       v \<leftarrow> find_symbol (mo_symbols w) name;
       store_num m (sy + 8) 8 v
     }
   }"

fun symbol_loop :: "module_env \<Rightarrow> Elf64_Ehdr \<Rightarrow> u64 \<Rightarrow> u64 \<Rightarrow> nat list \<Rightarrow> u64 \<Rightarrow> mem \<Rightarrow> (u64 \<times> mem) option" where
  \<comment> \<open>the symbols of one table; the number is the address of the symbol \<^verbatim>\<open>module\<close>\<close>
  "symbol_loop w h strings table [] def m = Some (def, m)"
| "symbol_loop w h strings table (i # is) def m = do {
     let sy = table + 24 * of_nat i;
     m1 \<leftarrow> resolve_symbol w h strings sy m;
     nm \<leftarrow> load_num m1 sy 4;
     found \<leftarrow> (if nm \<noteq> 0 then do { name \<leftarrow> ustring m1 (strings + of_nat nm); Some (name = cstr ''module'') } else Some False);
     v \<leftarrow> load_num m1 (sy + 8) 8;
     symbol_loop w h strings table is (if found then of_nat v else def) m1
   }"

fun resolve_sections :: "module_env \<Rightarrow> Elf64_Ehdr \<Rightarrow> nat list \<Rightarrow> u64 \<Rightarrow> mem \<Rightarrow> (u64 \<times> mem) option" where
  \<comment> \<open>the second loop\<close>
  "resolve_sections w h [] def m = Some (def, m)"
| "resolve_sections w h (i # is) def m = do {
     let s = shdr_at (mo_space w) h (int i);
     t \<leftarrow> load_num m (s + 4) 4;
     if t \<noteq> 2 then resolve_sections w h is def m
     else do {
       lnk \<leftarrow> load_num m (s + 40) 4;
       strings \<leftarrow> load_num m (shdr_linked shdr_at (mo_space w) h lnk + 16) 8;
       table \<leftarrow> load_num m (s + 16) 8;
       len \<leftarrow> load_num m (s + 32) 8;
       (def1, m1) \<leftarrow> symbol_loop w h (of_nat strings) (of_nat table) [0..<(len div 24) mod 2 ^ 32] def m;
       resolve_sections w h is def1 m1
     }
   }"

definition relocate :: "u64 \<Rightarrow> u64 \<Rightarrow> u64 \<Rightarrow> mem \<Rightarrow> mem option" where
  \<comment> \<open>one relocation at \<open>r\<close> with the header of its section and the table of its symbols\<close>
  "relocate sec table r m = do {
     base \<leftarrow> load_num m (sec + 16) 8;
     off \<leftarrow> load_num m r 8;
     info \<leftarrow> load_num m (r + 8) 8;
     addend \<leftarrow> load_num m (r + 16) 8;
     let target = of_nat base + of_nat off;
     let kind = info mod 2 ^ 32;
     if kind \<notin> {10, 1, 2} then Some m
     else do {
       v \<leftarrow> load_num m (table + 24 * of_nat (info div 2 ^ 32) + 8) 8;
       let x = of_nat v + of_nat addend;
       if kind = 10 then store_num m target 4 x
       else if kind = 1 then store_num m target 8 x
       else store_num m target 4 (x - target)
     }
   }"

fun relocation_loop :: "u64 \<Rightarrow> u64 \<Rightarrow> u64 \<Rightarrow> nat list \<Rightarrow> mem \<Rightarrow> mem option" where
  "relocation_loop sec table rels [] m = Some m"
| "relocation_loop sec table rels (i # is) m = do {
     m1 \<leftarrow> relocate sec table (rels + 24 * of_nat i) m;
     relocation_loop sec table rels is m1
   }"

fun relocate_sections :: "module_env \<Rightarrow> Elf64_Ehdr \<Rightarrow> nat list \<Rightarrow> mem \<Rightarrow> mem option" where
  \<comment> \<open>the third loop; the headers of the section and of its symbols are looked up with the scaled pointer\<close>
  "relocate_sections w h [] m = Some m"
| "relocate_sections w h (i # is) m = do {
     let s = shdr_at (mo_space w) h (int i);
     t \<leftarrow> load_num m (s + 4) 4;
     if t \<noteq> 4 then relocate_sections w h is m
     else do {
       rels \<leftarrow> load_num m (s + 16) 8;
       info \<leftarrow> load_num m (s + 44) 4;
       lnk \<leftarrow> load_num m (s + 40) 4;
       table \<leftarrow> load_num m (shdr_linked shdr_scaled (mo_space w) h lnk + 16) 8;
       len \<leftarrow> load_num m (s + 32) 8;
       m1 \<leftarrow> relocation_loop (shdr_linked shdr_scaled (mo_space w) h info) (of_nat table) (of_nat rels) [0..<(len div 24) mod 2 ^ 32] m;
       relocate_sections w h is m1
     }
   }"

record module_t =
  md_definition :: u64
  md_base :: u64
  md_size :: u64

definition module_elf :: "'d driver \<Rightarrow> u8 \<Rightarrow> module_env \<Rightarrow> elf_t \<Rightarrow> 'd sysstate \<Rightarrow> hashtable \<Rightarrow>
    (int \<times> module_t option \<times> hashtable \<times> 'd sysstate) option" where
  "module_elf dr junk w elf y modules =
     (if e_type (el_header elf) \<noteq> 1 then Some (-1, None, modules, y)
      else do {
        f \<leftarrow> at (v_nodes (sy_v y)) (fh_fileNode (el_handle elf));
        (_, bs, v) \<leftarrow> read_handle dr (el_handle elf) (fn_size f) (sy_v y);
        m \<leftarrow> store_bytes (sy_mem y) (mo_space w) (filled junk bs);
        let sections = [0..<unat (e_shnum (el_header elf))];
        (sz, m1) \<leftarrow> place_sections w (el_header elf) sections (fn_size f) m;
        (def, m2) \<leftarrow> resolve_sections w (el_header elf) sections 0 m1;
        if def = 0 then Some (-1, None, modules, y\<lparr>sy_v := v, sy_mem := m2\<rparr>)
        else do {
          m3 \<leftarrow> relocate_sections w (el_header elf) sections m2;
          nm \<leftarrow> load_num m3 def 8;
          name \<leftarrow> ustring m3 (of_nat nm);
          t \<leftarrow> ht_insert modules name (mo_module w);
          init \<leftarrow> load_num m3 (def + 8) 8;
          Some (mo_init w (of_nat init), Some \<lparr>md_definition = def, md_base = mo_space w, md_size = sz\<rparr>, t, y\<lparr>sy_v := v, sy_mem := m3\<rparr>)
        }
      })"

section \<open>Segments\<close>

lemma store_bytes_append:
  "store_bytes m p (xs @ ys) = do { m1 \<leftarrow> store_bytes m p xs; store_bytes m1 (p + of_nat (length xs)) ys }"
  by (induction xs arbitrary: m p) (auto simp: add.assoc split: bind_splits)

lemma memset_loop_store: "memset_loop n m p v = store_bytes m p (replicate n v)"
  by (induction n arbitrary: m p) auto

definition demo_program :: rvfs where
  \<comment> \<open>\<open>demo_ram_file\<close> with the first bytes of an ELF file\<close>
  "demo_program = demo_ram_file\<lparr>v_priv := \<lparr>rf_files = [300 \<mapsto> \<lparr>rf_begin = 400, rf_size = 4096\<rparr>],
     rf_blocks = [400 \<mapsto> map Some ([0x7F, 0x45, 0x4C, 0x46, 2] @ replicate 4091 0)]\<rparr>\<rparr>"

lemma demo_program_read:
  assumes "n \<le> 4096"
  shows "read_handle (ramfs_driver 0 9) (create_handle 200) (of_nat n) demo_program =
    Some (int n, map Some (take n ([0x7F, 0x45, 0x4C, 0x46, 2] @ replicate 4091 0)), demo_program)"
proof -
  let ?blk = "map Some ([0x7F, 0x45, 0x4C, 0x46, 2] @ replicate 4091 0) :: u8 option list"
  have "ram_open 200 ?blk demo_program"
    by (simp add: ram_open_def demo_program_def demo_ram_file_def ram_node_def empty_node_def ramfs_ops_def)
  from ramfs_read_inside [OF this, of 0 n] assms
  have "ramfs_read 200 0 (of_nat n) demo_program = Some (int n, take n ?blk, demo_program)" by simp
  moreover have "at (v_nodes demo_program) 200 = Some (ram_node 3 (cstr ''x'') 300)" by (simp add: at_def demo_program_def demo_ram_file_def)
  ultimately show ?thesis
    by (simp add: read_handle_def create_handle_def O_WRONLY_def ramfs_driver_calls ram_node_def ramfs_ops_def take_map [symmetric] del: take_map)
qed

text \<open>C15. A loaded segment holds what the program header says: when its pages are accessible and the file delivers the bytes, the memory from the virtual
  address on holds the bytes of the file followed by zeros up to the size in memory, and no other byte changes.\<close>

theorem load_segment_contents:
  assumes "map_segment k junk (ph_virt_addr p) (ph_virt_addr p + ph_mem_size p) y = Some y1"
    "read_handle dr (h\<lparr>fh_offset := ph_offset p\<rparr>) (ph_file_size p) (sy_v y1) = Some (r, map Some data, v)"
    "length data = unat (ph_file_size p)" "ph_file_size p \<le> ph_mem_size p" "load (sy_mem y1) (ph_virt_addr p) (unat (ph_mem_size p)) \<noteq> None"
  shows "\<exists>y2. load_segment k dr junk h p y = Some y2 \<and>
    load (sy_mem y2) (ph_virt_addr p) (unat (ph_mem_size p)) = Some (data @ replicate (unat (ph_mem_size p) - unat (ph_file_size p)) 0) \<and>
    (\<forall>q. (\<forall>i < unat (ph_mem_size p). q \<noteq> ph_virt_addr p + of_nat i) \<longrightarrow> sy_mem y2 q = sy_mem y1 q)"
proof -
  let ?z = "replicate (unat (ph_mem_size p) - unat (ph_file_size p)) (0 :: u8)"
  have le: "unat (ph_file_size p) \<le> unat (ph_mem_size p)" using assms(4) by (simp add: word_le_nat_alt)
  have len: "length (data @ ?z) = unat (ph_mem_size p)" using assms(3) le by simp
  have d: "unat (ph_mem_size p - ph_file_size p) = unat (ph_mem_size p) - unat (ph_file_size p)" using unat_sub [OF assms(4)] .
  have fl: "filled junk (map Some data) = data" by (simp add: filled_def comp_def)
  obtain m where m: "store_bytes (sy_mem y1) (ph_virt_addr p) (data @ ?z) = Some m" using store_bytes_ok assms(5) len by metis
  then obtain m0 where m0: "store_bytes (sy_mem y1) (ph_virt_addr p) data = Some m0" "store_bytes m0 (ph_virt_addr p + ph_file_size p) ?z = Some m"
    using assms(3) by (auto simp: store_bytes_append split: bind_splits)
  have "load_segment k dr junk h p y = Some (y1\<lparr>sy_v := v, sy_mem := m\<rparr>)"
    using assms(1,2) m0 by (simp add: load_segment_def fl memset_def memset_loop_store d)
  moreover have "load m (ph_virt_addr p) (unat (ph_mem_size p)) = Some (data @ ?z)"
    using store_bytes_load [OF m] len unsigned_less [of "ph_mem_size p", where 'a = nat] by simp
  moreover have "m q = sy_mem y1 q" if "\<forall>i < unat (ph_mem_size p). q \<noteq> ph_virt_addr p + of_nat i" for q
    using store_bytes_other [OF m, of q] that len by simp
  ultimately show ?thesis by auto
qed

theorem load_segment_contents_witness:
  "\<exists>y2. load_segment 2 (ramfs_driver 0 9) 0 (create_handle 200) \<lparr>ph_type = 1, ph_flags = 0, ph_offset = 0, ph_virt_addr = 0x400020, ph_phys_addr = 0,
      ph_file_size = 1, ph_mem_size = 2, ph_alignment = 0\<rparr> (demo_sys\<lparr>sy_v := demo_program\<rparr>) = Some y2 \<and> load (sy_mem y2) 0x400020 2 = Some [0x7F, 0]"
proof -
  let ?y = "demo_sys\<lparr>sy_v := demo_program\<rparr>" and ?p = "\<lparr>ph_type = 1, ph_flags = 0, ph_offset = 0, ph_virt_addr = 0x400020, ph_phys_addr = 0,
      ph_file_size = 1, ph_mem_size = 2, ph_alignment = 0\<rparr>"
  have mm: "mmap 0x400020 0x1000 False (memory (sy_m demo_sys)) = Some (0, memory (sy_m demo_sys))"
    by (simp add: mmap_def page_count_def memmgr_create_or_get_page_def next_table_def Let_def memory_def demo_sys_def demo_user_vmm_def rdw_def
        LOW_MEMORY_def KERNEL_MEMORY_def PML4_INDEX_def PDP_INDEX_def PD_INDEX_def PT_INDEX_def memmgr_get_from_physical_def PAGE_LARGE_def PAGE_MASK_def)
  have two: "map_segment 2 j q lim z = map_segment (Suc (Suc 0)) j q lim z" for j q lim and z :: "ramfs sysstate" by (simp only: numeral_2_eq_2)
  let ?y1 = "set_memory (memory (sy_m demo_sys)) ?y"
  have "map_page 0 0x400020 ?y = Some ?y1" using mm by (simp add: map_page_def set_memory_def)
  then have m: "map_segment 2 0 (ph_virt_addr ?p) (ph_virt_addr ?p + ph_mem_size ?p) ?y = Some ?y1" by (simp add: two)
  have r: "read_handle (ramfs_driver 0 9) ((create_handle 200)\<lparr>fh_offset := ph_offset ?p\<rparr>) (ph_file_size ?p) (sy_v ?y1) = Some (1, map Some [0x7F], demo_program)"
    using demo_program_read [of 1] by (simp add: create_handle_def set_memory_def)
  have l: "load (sy_mem ?y1) (ph_virt_addr ?p) (unat (ph_mem_size ?p)) \<noteq> None"
    using demo_user_strings(3) by (simp add: set_memory_def demo_sys_simps)
  have "length [0x7F :: u8] = unat (ph_file_size ?p)" "ph_file_size ?p \<le> ph_mem_size ?p" by simp_all
  from load_segment_contents [OF m r this l] show ?thesis by (elim exE conjE) simp
qed

lemma map_segment_from:
  fixes y :: "'d sysstate"
  assumes "unat virt + unat len + 4096 \<le> 2 ^ 64" "i + d = (unat len + 4095) div 4096"
  shows "map_segment (Suc d) junk (virt + 0x1000 * of_nat i) (virt + len) y =
    foldM (\<lambda>i. map_page junk (virt + 0x1000 * of_nat i)) [i..<i + d] y"
  using assms(2)
proof (induction d arbitrary: i y)
  have ul: "unat (virt + len) = unat virt + unat len" using assms(1) by (simp add: unat_word_ariths)
  have ui: "unat (virt + 0x1000 * of_nat i) = unat virt + 4096 * i" if "4096 * i \<le> unat len + 4095" for i
  proof -
    have "unat (0x1000 * of_nat i :: u64) = 4096 * i" using that assms(1) unat_of_nat_u64 [of "4096 * i"] by simp
    then show ?thesis using that assms(1) by (simp add: unat_word_ariths)
  qed
  {
    case 0
    then have "4096 * i \<le> unat len + 4095" "unat len \<le> 4096 * i" by linarith+
    then show ?case using ui [of i] ul by (simp add: word_less_nat_alt)
  next
    case (Suc d)
    then have i: "4096 * i \<le> unat len + 4095" "4096 * i < unat len" by linarith+
    then have lt: "virt + 0x1000 * of_nat i < virt + len" using ui [of i] ul by (simp add: word_less_nat_alt)
    have nxt: "virt + 0x1000 * of_nat i + 0x1000 = virt + 0x1000 * of_nat (Suc i)" by (simp add: algebra_simps)
    have upt: "[i..<i + Suc d] = i # [Suc i..<Suc i + d]" by (simp add: upt_conv_Cons)
    have ih: "map_segment (Suc d) junk (virt + 0x1000 * of_nat (Suc i)) (virt + len) =
        foldM (\<lambda>i. map_page junk (virt + 0x1000 * of_nat i) :: 'd sysstate \<Rightarrow> _) [Suc i..<Suc i + d]"
      by (rule ext, rule Suc.IH) (use Suc.prems in simp)
    show ?case by (simp only: map_segment.simps(2) [of "Suc d"] lt if_True nxt ih upt foldM.simps)
  }
qed

text \<open>C16. The loop that maps a segment ends and maps one page for every 4096 bytes of the segment, from the page of its address on; so the page of its last
  byte is among them exactly when the offset of the address in its page leaves room for the rest of the segment. A segment that is not aligned can miss
  its last page.\<close>

theorem map_segment_pages:
  assumes "unat virt + unat len + 4096 \<le> 2 ^ 64" "0 < unat len"
  shows "map_segment (Suc ((unat len + 4095) div 4096)) junk virt (virt + len) y =
      foldM (\<lambda>i. map_page junk (virt + 0x1000 * of_nat i)) [0..<(unat len + 4095) div 4096] y \<and>
    ((\<exists>i < (unat len + 4095) div 4096. unat (virt + 0x1000 * of_nat i) div 4096 = unat (virt + len - 1) div 4096) \<longleftrightarrow>
     unat virt mod 4096 + (unat len - 1) mod 4096 < 4096)"
proof
  show "map_segment (Suc ((unat len + 4095) div 4096)) junk virt (virt + len) y =
      foldM (\<lambda>i. map_page junk (virt + 0x1000 * of_nat i)) [0..<(unat len + 4095) div 4096] y"
    using map_segment_from [OF assms(1), of 0 "(unat len + 4095) div 4096" junk y] by (simp del: map_segment.simps)
  have ul: "unat (virt + len) = unat virt + unat len" using assms(1) by (simp add: unat_word_ariths)
  then have "1 \<le> virt + len" using assms(2) by (simp add: word_le_nat_alt)
  then have last: "unat (virt + len - 1) = unat virt + (unat len - 1)" using unat_sub [of 1 "virt + len"] ul assms(2) by simp
  have page: "unat (virt + 0x1000 * of_nat i) div 4096 = unat virt div 4096 + i" if "i < (unat len + 4095) div 4096" for i
  proof -
    have i: "4096 * i < unat len + 4095" using that by linarith
    then have "unat (0x1000 * of_nat i :: u64) = 4096 * i" using assms(1) unat_of_nat_u64 [of "4096 * i"] by simp
    then show ?thesis using i assms(1) by (simp add: unat_word_ariths)
  qed
  have split: "(unat virt + (unat len - 1)) div 4096 =
      unat virt div 4096 + (unat len - 1) div 4096 + (if unat virt mod 4096 + (unat len - 1) mod 4096 < 4096 then 0 else 1)"
    by (simp add: div_add1_eq [of "unat virt"] div_eq_0_iff) (simp add: div_nat_eqI)
  have "(unat len + 4095) div 4096 = Suc ((unat len - 1) div 4096)" using assms(2) by linarith
  then show "(\<exists>i < (unat len + 4095) div 4096. unat (virt + 0x1000 * of_nat i) div 4096 = unat (virt + len - 1) div 4096) \<longleftrightarrow>
     unat virt mod 4096 + (unat len - 1) mod 4096 < 4096"
    using page unfolding last split by auto
qed

theorem map_segment_pages_witness:
  "\<forall>y :: ramfs sysstate. map_segment (Suc 1) 0 0x400ff0 0x401010 y = foldM (\<lambda>i. map_page 0 (0x400ff0 + 0x1000 * of_nat i)) [0..<1] y \<and>
    \<not> (\<exists>i < 1. unat (0x400ff0 + 0x1000 * of_nat i :: u64) div 4096 = unat (0x40100f :: u64) div 4096)"
proof
  fix y :: "ramfs sysstate"
  have a: "unat (0x400ff0 :: u64) + unat (0x20 :: u64) + 4096 \<le> 2 ^ 64" "0 < unat (0x20 :: u64)" by simp_all
  have n: "(unat (0x20 :: u64) + 4095) div 4096 = 1" "(0x401010 :: u64) - 1 = 0x40100f" "(0x400ff0 :: u64) + 0x20 = 0x401010" by simp_all
  have c: "\<not> unat (0x400ff0 :: u64) mod 4096 + (unat (0x20 :: u64) - 1) mod 4096 < 4096" by simp
  note t = map_segment_pages [OF a, of 0 y, unfolded n]
  show "map_segment (Suc 1) 0 0x400ff0 0x401010 y = foldM (\<lambda>i. map_page 0 (0x400ff0 + 0x1000 * of_nat i)) [0..<1] y \<and>
    \<not> (\<exists>i < 1. unat (0x400ff0 + 0x1000 * of_nat i :: u64) div 4096 = unat (0x40100f :: u64) div 4096)"
    unfolding conjunct2 [OF t] by (rule conjI [OF conjunct1 [OF t] c])
qed

text \<open>\<^verbatim>\<open>load_elf\<close> accepts exactly the files that start with the magic number of ELF and the class of 64-bit files, and decodes their header; it rejects every
  other file, and does not change the file system.\<close>

theorem load_elf_accepts:
  assumes "read_handle dr h 64 v = Some (r, map Some bs, v)" "length bs = 64"
  shows "load_elf dr junk h v = Some (if take 5 bs = [0x7F, 0x45, 0x4C, 0x46, 2]
    then Some \<lparr>el_header = ehdr_of bs, el_handle = h, el_entrypoint = 0\<rparr> else None, v)"
proof -
  have "Suc (Suc (Suc (Suc (Suc 0)))) \<le> length bs" using assms(2) by simp
  then obtain a b c d e xs where bs: "bs = a # b # c # d # e # xs" by (auto simp only: Suc_le_length_iff)
  have "overlay junk (replicate 64 0) (map Some bs) = Some bs" using assms(2) by (simp add: overlay_def filled_def comp_def)
  moreover have "e_ident (ehdr_of bs) ! k = bs ! k" if "k < 16" for k using that by (simp add: ehdr_of_def)
  moreover have "take 5 bs = [0x7F, 0x45, 0x4C, 0x46, 2] \<longleftrightarrow> bs ! 0 = 0x7F \<and> bs ! 1 = 0x45 \<and> bs ! 2 = 0x4C \<and> bs ! 3 = 0x46 \<and> bs ! 4 = 2"
    by (simp add: bs)
  ultimately show ?thesis using assms(1) by (simp add: load_elf_def Let_def)
qed

theorem load_elf_accepts_witness:
  "\<exists>elf. load_elf (ramfs_driver 0 9) 0 (create_handle 200) demo_program = Some (Some elf, demo_program) \<and> e_ident (el_header elf) ! 4 = 2"
proof -
  let ?bs = "take 64 ([0x7F, 0x45, 0x4C, 0x46, 2] @ replicate 4091 0) :: bytes"
  have r: "read_handle (ramfs_driver 0 9) (create_handle 200) 64 demo_program = Some (64, map Some ?bs, demo_program)"
    using demo_program_read [of 64] by simp
  have l: "length ?bs = 64" by simp
  have t: "take 5 ?bs = [0x7F, 0x45, 0x4C, 0x46, 2]" by simp
  have "e_ident (ehdr_of ?bs) ! 4 = 2" by (simp add: ehdr_of_def)
  then show ?thesis using load_elf_accepts [OF r l, of 0] t by (simp only: if_True) (simp del: take_append take_Cons_numeral)
qed

text \<open>\<^verbatim>\<open>module_elf\<close> looks up the section of a symbol at 64 times its offset in the file: when the section headers are not in the first part of the file and
  nothing behind the block of the module is accessible, resolving any defined symbol is an access outside the block.\<close>

theorem module_symbol_outside:
  assumes "\<And>q. m q \<noteq> None \<Longrightarrow> unat q < unat (mo_space w) + sz" "sz \<le> 64 * unat (e_shoff h)"
    "load_num m (sy + 6) 2 = Some shndx" "0 < shndx" "shndx * unat (e_shentsize h) < 2 ^ 31"
    "unat (mo_space w) + 64 * (unat (e_shoff h) + shndx * unat (e_shentsize h)) + 16 < 2 ^ 64"
  shows "resolve_symbol w h strings sy m = None"
proof -
  let ?n = "shndx * unat (e_shentsize h)"
  have "int shndx * uint (e_shentsize h) = int ?n" by simp
  moreover have "wrap_int (int ?n) = int ?n" using assms(5) by (intro wrap_int_small) (simp_all del: of_nat_mult)
  ultimately have off: "to_size (wrap_int (int shndx * uint (e_shentsize h))) = of_nat ?n" by (simp del: of_nat_mult)
  have "shdr_scaled (mo_space w) h (int shndx) + 16 = mo_space w + of_nat (64 * (unat (e_shoff h) + ?n) + 16)"
    by (simp add: shdr_scaled_def off)
  then have "unat (shdr_scaled (mo_space w) h (int shndx) + 16) = unat (mo_space w) + (64 * (unat (e_shoff h) + ?n) + 16)"
    using unat_off [of "mo_space w" "64 * (unat (e_shoff h) + ?n) + 16"] assms(6) by (simp only:)
  then have "m (shdr_scaled (mo_space w) h (int shndx) + 16) = None" using assms(1) [of "shdr_scaled (mo_space w) h (int shndx) + 16"] assms(2) by fastforce
  then have "load_num m (shdr_scaled (mo_space w) h (int shndx) + 16) 8 = None"
    by (simp add: load_num_def numeral_eq_Suc rdb_def)
  then show ?thesis using assms(3,4) by (cases "load_num m (sy + 8) 8") (simp_all add: resolve_symbol_def)
qed

end
