(* ===== verification/Spec2Isabelle.thy ===== *)
theory Spec2Isabelle
  imports Linked_List Tree Cstring Hashtable Ring_Buffer Signals Ramfs Tarfs Fat Console Format Slab Elf
begin

text \<open>
  NightOS64: a small x86-64 kernel and the part of its C library that the kernel shares. This
  development models the kernel's own logic, file by file, as executable HOL functions and proves what makes each
  part correct. It also records, as theorems, where the code does not do what it means to.

  \<^bold>\<open>The program.\<close> \<^verbatim>\<open>libc/kernel\<close> and \<^verbatim>\<open>libc/string\<close> hold the containers and string functions that everything else
  uses. \<^verbatim>\<open>kernel/arch/amd64\<close> manages physical frames and page tables and drives the timer. \<^verbatim>\<open>kernel/proc\<close> holds the
  processes, the scheduler and the signals, \<^verbatim>\<open>kernel/sys\<close> mutexes and system calls, and \<^verbatim>\<open>kernel/fs\<close> the file tree and its drivers. The
  scheduler's queues are lists; the process tree and the file tree are trees; a fork copies page tables, whose
  frames come from the frame allocator; a blocked process waits on a list of a mutex; a file
  operation walks the file tree and calls the driver of the node through its function pointers.

  \<^bold>\<open>Conventions.\<close> Machine integers are words of their width; conversions of the compiler are written
  out (\<open>Prelude\<close>). State is passed explicitly. The result \<open>None\<close> means that the code does not get past a point: it dereferences \<^verbatim>\<open>NULL\<close>
  or freed memory, leaves an array, reads an indeterminate variable, panics, or spins on a lock that nobody will release.
  Kernel code runs alone until it calls \<^verbatim>\<open>schedule\<close>: \<^verbatim>\<open>pit_interrupt\<close> returns at once when it interrupted the kernel. A function that blocks is
  cut there, and what it does when it runs again is a function of its own.
  Addresses that \<^verbatim>\<open>calloc\<close>, \<^verbatim>\<open>kcalloc\<close> and \<^verbatim>\<open>malloc\<close> return are arguments, or are taken from a supply in the state; the theorems ask
  that they are not in use. Constants of the C library's ABI headers, which are not part of the repository, are arguments
  (\<open>signal_abi\<close>, \<open>fs_abi\<close>).

  \<^bold>\<open>Theories.\<close>

  \<^item> \<open>Prelude\<close>: word and list lemmas, loops. \<open>Interfaces\<close>: the contracts of a first-in first-out queue, a byte
    channel, a keyed map and a frame allocator as locales; \<open>Linked_List\<close>, \<open>Ring_Buffer\<close>, \<open>Hashtable\<close> and \<open>Frame_Alloc\<close> interpret them on the
    code's operations. \<open>Vfs\<close> adds the contract of a file creator, which \<open>Vfs\<close> and \<open>Ramfs\<close> interpret.

  \<^item> \<open>Linked_List\<close> (\<^verbatim>\<open>libc/kernel/list.c\<close>) and \<open>Tree\<close> (\<^verbatim>\<open>libc/kernel/tree.c\<close>): cells on an explicit store; each operation refines one on sequences
    or on an abstract rose tree. \<open>Hashtable\<close> (\<^verbatim>\<open>hashtable.c\<close>, and the symbol table of \<^verbatim>\<open>kernel.c\<close>): look-up after insertion and
    deletion. \<open>Ring_Buffer\<close> (\<^verbatim>\<open>ring_buffer.c\<close>): a byte queue with wrap-around. \<open>Cstring\<close> (\<^verbatim>\<open>libc/string\<close>): memory and string functions on an
    address space that faults outside mapped bytes.

  \<^item> \<open>Kernel_State\<close>: the structures of \<^verbatim>\<open>process.h\<close>, \<^verbatim>\<open>mutex.h\<close> and \<^verbatim>\<open>lock.h\<close> and the globals of \<^verbatim>\<open>process.c\<close>. \<open>Scheduler\<close> (\<^verbatim>\<open>schedule\<close>,
    \<^verbatim>\<open>sleep\<close>, the wait queues, \<^verbatim>\<open>pit.c\<close>) and \<open>Mutex\<close> (\<^verbatim>\<open>sys/mutex.c\<close>): the operations keep every process in its place; the executions of
    processes that acquire, try, wait for, acquire with a timeout and release mutexes, sleep and are preempted lose no wake-up, get stuck nowhere, and have every process in
    one place except for the second entry that each timed wait leaves behind. \<^verbatim>\<open>mutex_release\<close> does not look at the owner: exclusion holds in the executions
    in which only holders release, and one in which it fails is given.

  \<^item> \<open>Frame_Alloc\<close> and \<open>Paging\<close> (\<^verbatim>\<open>memmgr.c\<close>): the bitmap allocator, with what it returns when no frame is left, the four-level tables on a store of physical words, and the
    processor's own walk, against which mapping, unmapping and translation are proved.

  \<^item> \<open>Process\<close> (\<^verbatim>\<open>process.c\<close>): creation, fork, clone, descriptors, exit and reaping, on top of \<open>Mutex\<close> and \<open>Paging\<close>. \<open>Signals\<close> (\<^verbatim>\<open>ipc.c\<close> and the signal
    frames of \<^verbatim>\<open>process.c\<close>): signal sets, masks and delivery.

  \<^item> \<open>Vfs\<close> (\<^verbatim>\<open>fs/vfs.c\<close>): the file tree, path resolution, mounting and the operations on paths and handles, with drivers as an
    argument; path resolution refines a walk over names. \<open>Ramfs\<close> (\<^verbatim>\<open>fs/ramfs.c\<close>): the RAM file system as such a driver, and the round trip of create, write and
    read through the VFS.

  \<^item> \<open>Tarfs\<close> (\<^verbatim>\<open>fs/tarfs.c\<close>): the archive loader and the driver on it; files are found under their paths and read back. \<open>Terminal\<close> (the text screen of \<^verbatim>\<open>kernel.c\<close>), \<open>Pty\<close>
    (\<^verbatim>\<open>fs/pty.c\<close>, over \<open>Ring_Buffer\<close>, \<open>Mutex\<close> and \<open>Terminal\<close>) and \<open>Console\<close> (\<^verbatim>\<open>fs/console.c\<close>): printing refines typing on a screen of rows, the
    line discipline refines line editing, and escape sequences are interpreted across writes.

  \<^item> \<open>Fat\<close> (\<^verbatim>\<open>fs/fat.c\<close>): the FAT32 driver on a disk of bytes, seen as a table of entries and an array of clusters; reading follows the chain of a file, a write of one
    cluster reads back, deleting frees exactly the chain, listings agree with the directory, and the places where the driver loses data or does not return.

  \<^item> \<open>Format\<close> (\<^verbatim>\<open>long_to_str\<close> and \<^verbatim>\<open>snprintf\<close> of \<^verbatim>\<open>string.c\<close>, \<^verbatim>\<open>itoa.c\<close>, \<^verbatim>\<open>printf\<close> of \<^verbatim>\<open>kernel.c\<close>): numbers as text, which read back as the number, and
    bounded output. \<open>Slab\<close> (\<^verbatim>\<open>arch/amd64/alloc.c\<close>): the slab allocator; the heaps that registration, \<^verbatim>\<open>kmalloc\<close> and \<^verbatim>\<open>kfree\<close> reach are well formed and satisfy the
    contract of an allocator, for objects of any size, with the pages that \<^verbatim>\<open>sbrk\<close> returns as a supply of distinct pages in the state. Which sizes can be served is part of the theorems: a page has
    to hold at least 8 objects, counted in a \<^verbatim>\<open>uint8_t\<close>, and of a size of which it holds more than 31 only 31 objects can be in use.

  \<^item> \<open>Syscall\<close> (\<^verbatim>\<open>sys/syscall.c\<close>): the system calls, their table and entry over all the components above, with the caller's memory as a map of bytes and the C library's
    structures and constants in the record \<open>sys_abi\<close>. A file created, written and read through the calls gives its bytes back, \<^verbatim>\<open>fstat\<close> agrees with \<^verbatim>\<open>stat\<close>; and what the
    calls do at the edges: descriptors at the capacity, results wider than 32 bits, waiting for a running child, the lock of \<^verbatim>\<open>sys_brk\<close>. Pages that a call maps or unmaps change the page tables; the map of bytes stands for the memory
    that the call itself accesses.

  \<^item> \<open>Elf\<close> (\<^verbatim>\<open>program/elf.c\<close>): programs and kernel modules, on decoded headers and the same memory. A loaded segment holds the bytes of the file and zeros; the loop that
    maps its pages ends, with the fuel of one round per page and one more, and can miss the last page; and the section of a module's symbol is looked up outside the module.

  \<^bold>\<open>Fuel and bounds.\<close> Recursive tree functions take the depth of the recursion as fuel; the theorems ask for at least the depth of the tree,
  or produce it. The calls between \<^verbatim>\<open>open\<close>, \<^verbatim>\<open>create\<close> and \<^verbatim>\<open>get_cwd_name\<close> take the depth of the calls; four
  levels suffice whenever the working directory is known, and no number suffices otherwise, which is a theorem. Loops over
  memory are partial functions whose termination is part of the theorems, or take the number of rounds that the theorem shows to be enough. Lengths and
  indices are bounded by \<open>2 ^ 64\<close> where the code computes them in 64 bits.

  \<^bold>\<open>Not modelled.\<close> Code that writes processor or device registers (descriptor tables, interrupt controllers, keyboard, PCI, AHCI, the boot
  sequence), console and serial output, inline assembly, third-party code (\<^verbatim>\<open>ssfn.h\<close>, \<^verbatim>\<open>liballoc.c\<close>), and
  \<^verbatim>\<open>memmgr_change_flags\<close>, which uses the value of a page table entry as a pointer.
  The functions \<^verbatim>\<open>process_create_task\<close> and \<^verbatim>\<open>execve\<close> switch the page map and enter user mode; \<^verbatim>\<open>execve\<close> is an argument of the system calls.
\<close>

end
